(* ===== verification/Prelude.thy ===== *)
theory Prelude
  imports Main "HOL-Library.Word"
begin

text \<open>
  Shared types, error values, byte memory and automation of the development.

  Machine integers are words of the width the C code declares (\<open>uint8_t\<close>, \<open>uint16_t\<close>,
  \<open>uint32_t\<close>, \<open>uint64_t\<close>); pointers and \<open>size_t\<close> are 32-bit words (the kernel is an i686
  kernel). A call of \<open>panic()\<close> never returns in the code, so it is the error value
  \<open>Panic\<close>; an access the C object does not have (an index past an array, a NULL or dangling
  pointer) is the error value \<open>Fault\<close>. A loop of the code that may not end is a
  \<open>partial_function\<close> whose value is then \<open>None\<close>; its callers read that as the error value
  \<open>Diverges\<close> (\<open>ret\<close>).
\<close>

unbundle bit_operations_syntax

section \<open>Machine types and error values\<close>

type_synonym u8 = "8 word"
type_synonym u16 = "16 word"
type_synonym u32 = "32 word"
type_synonym u64 = "64 word"

datatype kerr = Panic string | Fault string | Diverges

type_synonym 'a res = "kerr + 'a"

definition bind_res :: "'a res \<Rightarrow> ('a \<Rightarrow> 'b res) \<Rightarrow> 'b res" where
  "bind_res r f = (case r of Inl e \<Rightarrow> Inl e | Inr x \<Rightarrow> f x)"

named_theorems word_nat \<open>facts that move a word goal to natural numbers\<close>
named_theorems res_simps \<open>evaluation of the error monad\<close>

lemma bind_res_simps [simp, res_simps]:
  "bind_res (Inl e) f = Inl e"
  "bind_res (Inr x) f = f x"
  by (simp_all add: bind_res_def)

lemma bind_res_eq_Inr [simp]:
  "bind_res r f = Inr y \<longleftrightarrow> (\<exists>x. r = Inr x \<and> f x = Inr y)"
  by (cases r) auto

lemma bind_res_eq_Inl:
  "bind_res r f = Inl e \<longleftrightarrow> r = Inl e \<or> (\<exists>x. r = Inr x \<and> f x = Inl e)"
  by (cases r) auto

definition ret :: "'a res option \<Rightarrow> 'a res" where
  "ret r = (case r of None \<Rightarrow> Inl Diverges | Some x \<Rightarrow> x)"

lemma ret_simps [simp, res_simps]: "ret None = Inl Diverges" "ret (Some x) = x"
  by (simp_all add: ret_def)

section \<open>Words as natural numbers\<close>

lemma unat_u32_bound [simp]: "unat (x :: u32) < 4294967296"
  using unsigned_less [of x] by simp

lemma unat_u8_bound [simp]: "unat (x :: u8) < 256"
  using unsigned_less [of x] by simp

lemma unat_of_nat_u32 [simp, word_nat]: "n < 4294967296 \<Longrightarrow> unat (of_nat n :: u32) = n"
  by (simp add: unat_of_nat take_bit_nat_eq_self)

lemma unat_add_u32 [word_nat]:
  "unat (a :: u32) + unat b < 4294967296 \<Longrightarrow> unat (a + b) = unat a + unat b"
  by (simp add: unat_word_ariths)

lemma unat_mult_u32 [word_nat]:
  "unat (a :: u32) * unat b < 4294967296 \<Longrightarrow> unat (a * b) = unat a * unat b"
  by (simp add: unat_word_ariths)

lemma unat_sub_u32 [word_nat]:
  "unat (b :: u32) \<le> unat a \<Longrightarrow> unat (a - b) = unat a - unat b"
  by (simp add: unat_sub word_le_nat_alt)

lemma unat_ucast_u8:
  "unat (ucast (b :: u8) :: u16) = unat b" "unat (ucast (b :: u8) :: u32) = unat b"
  "unat (ucast (h :: u16) :: u32) = unat h"
proof -
  have "unat b < 2 ^ 16" "unat b < 2 ^ 32" "unat h < 2 ^ 32" by (rule less_le_trans [OF unsigned_less], simp)+
  then show "unat (ucast b :: u16) = unat b" "unat (ucast b :: u32) = unat b" "unat (ucast h :: u32) = unat h"
    by (simp_all add: unsigned_ucast_eq unsigned_take_bit_eq take_bit_nat_eq_self)
qed

lemma ucast_back:
  "ucast (ucast (b :: u8) :: u16) = b" "ucast (ucast (b :: u8) :: u32) = b" "ucast (ucast (h :: u16) :: u32) = h"
  by (auto intro!: bit_eqI simp: bit_ucast_iff)

lemma unat_inj_u32: "unat (a :: u32) = unat b \<Longrightarrow> a = b"
  by (rule unsigned_word_eqI)

lemma uint_eq_u8_iff [simp]: "uint (x :: u8) = uint y \<longleftrightarrow> x = y"
  by (simp add: word_uint_eq_iff)

lemma of_nat_eq_u32_iff:
  "m < 4294967296 \<Longrightarrow> n < 4294967296 \<Longrightarrow> (of_nat m :: u32) = of_nat n \<longleftrightarrow> m = n"
  by (metis unat_of_nat_u32)

lemma add_of_nat_inj_u32 [simp]:
  "m < 4294967296 \<Longrightarrow> n < 4294967296 \<Longrightarrow> (a :: u32) + of_nat m = a + of_nat n \<longleftrightarrow> m = n"
  by (simp add: of_nat_eq_u32_iff)

lemma unat_inc_u32 [word_nat]: "(a :: u32) < b \<Longrightarrow> unat (a + 1) = Suc (unat a)"
proof -
  assume "a < b"
  then have "unat a < unat b" by (simp add: word_less_nat_alt)
  then have "unat a + unat (1 :: u32) < 4294967296"
    using unat_u32_bound [of b] unfolding unsigned_1 by linarith
  from unat_add_u32 [OF this] show ?thesis by simp
qed

lemma unat_minus_one_u32 [simp]: "unat (- 1 :: u32) = 4294967295"
  by (simp add: unsigned_minus_1_eq_mask mask_eq_exp_minus_1)

lemma unat_dec_u32 [word_nat]: "(a :: u32) \<noteq> 0 \<Longrightarrow> unat (a - 1) = unat a - 1"
  by (simp add: unat_minus_one)

text \<open>Offsets from a base: \<open>a\<close> lies in the \<open>n\<close> bytes from \<open>p\<close> iff \<open>unat (a - p) < n\<close>.\<close>

lemma unat_sub_wrap_u32:
  assumes "(x :: u32) < y"
  shows "unat (x - y) = 4294967296 - (unat y - unat x)"
proof -
  have "unat (x - y) = unat x + 4294967296 - unat y"
    using assms by (simp add: unat_sub_if' word_less_nat_alt)
  then show ?thesis
    using assms unat_u32_bound [of y] unfolding word_less_nat_alt by linarith
qed

lemma offset_step_u32:
  assumes "(a :: u32) \<noteq> p"
  shows "unat (a - p) = Suc (unat (a - (p + 1)))"
proof -
  have "a - p \<noteq> 0" using assms by simp
  from unat_dec_u32 [OF this] have "unat (a - p - 1) = unat (a - p) - 1" .
  moreover have "unat (a - p) \<noteq> 0" using assms by (simp add: unat_eq_0)
  ultimately show ?thesis by (simp add: algebra_simps)
qed

text \<open>Signed readings of small words.\<close>

lemma sint_small:
  assumes "unat (x :: u32) < 2147483648"
  shows "sint x = int (unat x)"
proof -
  have "int (unat x) < int 2147483648" using assms by (simp only: of_nat_less_iff)
  then have "uint x < 2147483648" by simp
  moreover have "- 2147483648 \<le> uint x" by (rule order_trans [of _ 0]) simp_all
  ultimately have "signed_take_bit 31 (uint x) = uint x" by (intro signed_take_bit_int_eq_self) simp_all
  then show ?thesis using sint_uint [of x] by simp
qed

lemma sint_pos: "unat (x :: u32) < 2147483648 \<Longrightarrow> 0 < sint x \<longleftrightarrow> x \<noteq> 0"
  by (simp only: sint_small of_nat_0_less_iff unat_gt_0)

text \<open>A counter on its way to an index.\<close>

lemma index_step_u32:
  assumes "(found :: u32) \<noteq> index" "unat found < 4294967295"
  shows "unat (found + 1) = Suc (unat found)" "found + 1 \<le> index \<longleftrightarrow> found \<le> index"
    and "found \<le> index \<Longrightarrow> unat (index - found) = Suc (unat (index - (found + 1)))"
proof -
  show f: "unat (found + 1) = Suc (unat found)" using unat_add_u32 [of found 1] assms(2) by simp
  have "unat found \<noteq> unat index" using assms(1) unat_inj_u32 by blast
  then show l: "found + 1 \<le> index \<longleftrightarrow> found \<le> index" using f by (auto simp: word_le_nat_alt)
  show "unat (index - found) = Suc (unat (index - (found + 1)))" if "found \<le> index"
    using that l f by (simp add: unat_sub word_le_nat_alt)
qed

section \<open>Byte memory\<close>

text \<open>
  A memory is a total map from 32-bit addresses to bytes; address arithmetic wraps, as it
  does on the machine. Words are stored little-endian.
\<close>

type_synonym mem = "u32 \<Rightarrow> u8"

definition load32 :: "mem \<Rightarrow> u32 \<Rightarrow> u32" where
  "load32 m a = ucast (m a) OR push_bit 8 (ucast (m (a + 1)))
     OR push_bit 16 (ucast (m (a + 2))) OR push_bit 24 (ucast (m (a + 3)))"

definition load16 :: "mem \<Rightarrow> u32 \<Rightarrow> u16" where
  "load16 m a = ucast (m a) OR push_bit 8 (ucast (m (a + 1)))"

definition load64 :: "mem \<Rightarrow> u32 \<Rightarrow> u64" where
  "load64 m a = ucast (load32 m a) OR push_bit 32 (ucast (load32 m (a + 4)))"

definition store32 :: "mem \<Rightarrow> u32 \<Rightarrow> u32 \<Rightarrow> mem" where
  "store32 m a v = m(a := ucast v, a + 1 := ucast (drop_bit 8 v),
     a + 2 := ucast (drop_bit 16 v), a + 3 := ucast (drop_bit 24 v))"

definition aligned4 :: "u32 \<Rightarrow> bool" where
  "aligned4 a \<longleftrightarrow> unat a mod 4 = 0"

lemma load32_store32_same [simp]: "load32 (store32 m a v) a = v"
proof (rule bit_word_eqI)
  fix n assume n: "n < LENGTH(32)"
  consider "n < 8" | "8 \<le> n" "n < 16" | "16 \<le> n" "n < 24" | "24 \<le> n" "n < 32"
    using n by fastforce
  then show "bit (load32 (store32 m a v) a) n \<longleftrightarrow> bit v n"
    by cases (auto simp: load32_def store32_def bit_simps)
qed

lemma aligned4_add_ne:
  assumes "aligned4 a" "aligned4 b" "a \<noteq> b" "i < 4" "j < 4"
  shows "a + of_nat i \<noteq> b + of_nat j"
proof
  assume eq: "a + of_nat i = b + of_nat j"
  obtain p q where p: "unat a = 4 * p" and q: "unat b = 4 * q"
    using assms(1,2) unfolding aligned4_def mod_eq_0_iff_dvd by (elim dvdE)
  have na: "unat a + i < 4294967296" "unat b + j < 4294967296"
    using p q assms(4,5) unat_u32_bound [of a] unat_u32_bound [of b] by presburger+
  have ij: "unat (of_nat i :: u32) = i" "unat (of_nat j :: u32) = j"
    using assms(4,5) by simp_all
  have "unat a + i = unat b + j"
    using arg_cong [OF eq, of unat] na by (simp add: unat_add_u32 ij)
  then have "p = q" using p q assms(4,5) by presburger
  then have "unat a = unat b" using p q by simp
  then have "a = b" by (rule unat_inj_u32)
  with assms(3) show False ..
qed

lemma store32_other:
  assumes "aligned4 a" "aligned4 b" "a \<noteq> b" "i < 4"
  shows "store32 m a v (b + of_nat i) = m (b + of_nat i)"
proof -
  have "b + of_nat i \<noteq> a + of_nat j" if "j < 4" for j
    using aligned4_add_ne [of b a i j] assms that by auto
  from this [of 0] this [of 1] this [of 2] this [of 3] show ?thesis
    by (simp add: store32_def)
qed

lemma load32_store32_other [simp]:
  assumes "aligned4 a" "aligned4 b" "a \<noteq> b"
  shows "load32 (store32 m a v) b = load32 m b"
  using store32_other [OF assms, of 0] store32_other [OF assms, of 1]
    store32_other [OF assms, of 2] store32_other [OF assms, of 3]
  by (simp add: load32_def)

text \<open>A C string: the bytes \<open>s\<close>, none of them NUL, at \<open>p\<close>, and a NUL after them.\<close>

fun cstr :: "mem \<Rightarrow> u32 \<Rightarrow> u8 list \<Rightarrow> bool" where
  "cstr m p [] \<longleftrightarrow> m p = 0"
| "cstr m p (c # s) \<longleftrightarrow> m p = c \<and> c \<noteq> 0 \<and> cstr m (p + 1) s"

text \<open>The bytes of a region.\<close>

definition bytes_at :: "mem \<Rightarrow> u32 \<Rightarrow> nat \<Rightarrow> u8 list" where
  "bytes_at m p n = map (\<lambda>i. m (p + of_nat i)) [0..<n]"

lemma length_bytes_at [simp]: "length (bytes_at m p n) = n"
  by (simp add: bytes_at_def)

lemma nth_bytes_at [simp]: "i < n \<Longrightarrow> bytes_at m p n ! i = m (p + of_nat i)"
  by (simp add: bytes_at_def)

end
