(* ===== verification/CString.thy ===== *)
theory CString
  imports Prelude
begin

text \<open>
  The byte and string routines of \<open>src/misc/mem.c\<close> and \<open>src/misc/util.c\<close> on byte memory.
  Every routine that returns its first argument returns the memory here (the pointer is the
  argument). A loop that reads until it finds a NUL may never end on a memory without one:
  such a loop is a \<open>partial_function\<close>, and not returning is \<open>None\<close>.

  Lemmas: each memory routine as a point-wise equation on addresses; each string routine
  against its counterpart on byte lists (\<open>strcmp_l\<close>, \<open>strncmp_l\<close>, \<open>strncpy_l\<close>), which the
  file-system theories use.
\<close>

section \<open>mem.c\<close>

primrec memset_loop :: "nat \<Rightarrow> u32 \<Rightarrow> u8 \<Rightarrow> mem \<Rightarrow> mem" where
  "memset_loop 0 p c m = m"
| "memset_loop (Suc n) p c m = memset_loop n (p + 1) c (m(p := c))"

definition memset :: "mem \<Rightarrow> u32 \<Rightarrow> u32 \<Rightarrow> u32 \<Rightarrow> mem" where
  "memset m dst c n = memset_loop (unat n) dst (ucast c) m"

primrec copy_up :: "nat \<Rightarrow> u32 \<Rightarrow> u32 \<Rightarrow> mem \<Rightarrow> mem" where
  "copy_up 0 d s m = m"
| "copy_up (Suc n) d s m = copy_up n (d + 1) (s + 1) (m(d := m s))"

definition memcpy :: "mem \<Rightarrow> u32 \<Rightarrow> u32 \<Rightarrow> u32 \<Rightarrow> mem" where
  "memcpy m dst src n = copy_up (unat n) dst src m"

primrec copy_down :: "nat \<Rightarrow> u32 \<Rightarrow> u32 \<Rightarrow> mem \<Rightarrow> mem" where
  "copy_down 0 d s m = m"
| "copy_down (Suc n) d s m = copy_down n (d - 1) (s - 1) (m(d - 1 := m (s - 1)))"

definition memmove :: "mem \<Rightarrow> u32 \<Rightarrow> u32 \<Rightarrow> u32 \<Rightarrow> mem" where
  "memmove m dst src n =
     (if dst < src then copy_up (unat n) dst src m
      else copy_down (unat n) (dst + n) (src + n) m)"

primrec memcmp_loop :: "nat \<Rightarrow> mem \<Rightarrow> u32 \<Rightarrow> u32 \<Rightarrow> int" where
  "memcmp_loop 0 m p q = 0"
| "memcmp_loop (Suc n) m p q =
     (if m p \<noteq> m q then uint (m p) - uint (m q) else memcmp_loop n m (p + 1) (q + 1))"

definition memcmp :: "mem \<Rightarrow> u32 \<Rightarrow> u32 \<Rightarrow> u32 \<Rightarrow> int" where
  "memcmp m a b n = memcmp_loop (unat n) m a b"

section \<open>util.c: strings\<close>

partial_function (option) strlen_loop :: "mem \<Rightarrow> u32 \<Rightarrow> u32 \<Rightarrow> u32 option" where
  "strlen_loop m str len =
     (if m (str + len) \<noteq> 0 then strlen_loop m str (len + 1) else Some len)"

definition strlen :: "mem \<Rightarrow> u32 \<Rightarrow> u32 option" where
  "strlen m str = strlen_loop m str 0"

function strnlen_loop :: "mem \<Rightarrow> u32 \<Rightarrow> u32 \<Rightarrow> u32 \<Rightarrow> u32" where
  "strnlen_loop m str maxlen len =
     (if len < maxlen \<and> m (str + len) \<noteq> 0 then strnlen_loop m str maxlen (len + 1) else len)"
  by pat_completeness auto
termination
  by (relation "measure (\<lambda>(m, str, maxlen, len). unat maxlen - unat len)")
    (auto simp: unat_inc_u32 word_less_nat_alt)

declare strnlen_loop.simps [simp del]

definition strnlen :: "mem \<Rightarrow> u32 \<Rightarrow> u32 \<Rightarrow> u32" where
  "strnlen m str maxlen = strnlen_loop m str maxlen 0"

partial_function (option) strcpy :: "mem \<Rightarrow> u32 \<Rightarrow> u32 \<Rightarrow> mem option" where
  "strcpy m p src =
     (let m' = m(p := m src) in if m src \<noteq> 0 then strcpy m' (p + 1) (src + 1) else Some m')"

primrec strncpy_copy :: "nat \<Rightarrow> u32 \<Rightarrow> u32 \<Rightarrow> mem \<Rightarrow> nat \<times> u32 \<times> mem" where
  "strncpy_copy 0 p src m = (0, p, m)"
| "strncpy_copy (Suc n) p src m =
     (if m src \<noteq> 0 then strncpy_copy n (p + 1) (src + 1) (m(p := m src)) else (Suc n, p, m))"

definition strncpy :: "mem \<Rightarrow> u32 \<Rightarrow> u32 \<Rightarrow> u32 \<Rightarrow> mem" where
  "strncpy m dst src n =
     (case strncpy_copy (unat n) dst src m of (n', p, m') \<Rightarrow> memset_loop n' p 0 m')"

partial_function (option) strcmp :: "mem \<Rightarrow> u32 \<Rightarrow> u32 \<Rightarrow> int option" where
  "strcmp m s1 s2 =
     (if m s1 \<noteq> 0 \<and> m s1 = m s2 then strcmp m (s1 + 1) (s2 + 1)
      else Some (uint (m s1) - uint (m s2)))"

fun strncmp_loop :: "nat \<Rightarrow> mem \<Rightarrow> u32 \<Rightarrow> u32 \<Rightarrow> int" where
  "strncmp_loop (Suc (Suc n)) m s1 s2 =
     (if m s1 \<noteq> 0 \<and> m s1 = m s2 then strncmp_loop (Suc n) m (s1 + 1) (s2 + 1)
      else uint (m s1) - uint (m s2))"
| "strncmp_loop n m s1 s2 = uint (m s1) - uint (m s2)"

definition strncmp :: "mem \<Rightarrow> u32 \<Rightarrow> u32 \<Rightarrow> u32 \<Rightarrow> int" where
  "strncmp m s1 s2 n = (if n = 0 then 0 else strncmp_loop (unat n) m s1 s2)"

partial_function (option) strchr_loop :: "mem \<Rightarrow> u32 \<Rightarrow> u8 \<Rightarrow> u32 option" where
  "strchr_loop m s ch =
     (if m s = ch then Some s else if m s = 0 then Some 0 else strchr_loop m (s + 1) ch)"

definition strchr :: "mem \<Rightarrow> u32 \<Rightarrow> u32 \<Rightarrow> u32 option" where
  "strchr m s c = strchr_loop m s (ucast c)"

partial_function (option) strrchr_loop :: "mem \<Rightarrow> u32 \<Rightarrow> u8 \<Rightarrow> u32 \<Rightarrow> u32 option" where
  "strrchr_loop m s ch lst =
     (let lst' = (if m s = ch then s else lst)
      in if m s = 0 then Some lst' else strrchr_loop m (s + 1) ch lst')"

definition strrchr :: "mem \<Rightarrow> u32 \<Rightarrow> u32 \<Rightarrow> u32 option" where
  "strrchr m s c = strrchr_loop m s (ucast c) 0"

section \<open>Memory routines, point by point\<close>

lemma memset_loop_at:
  "n < 4294967296 \<Longrightarrow>
     memset_loop n p c m a = (if unat (a - p) < n then c else m a)"
proof (induction n arbitrary: p m)
  case 0
  then show ?case by simp
next
  case (Suc n)
  show ?case
  proof (cases "a = p")
    case True
    with Suc show ?thesis by simp
  next
    case False
    with Suc offset_step_u32 [OF False] show ?thesis by simp
  qed
qed

lemma memset_at:
  "memset m dst c n a = (if unat (a - dst) < unat n then ucast c else m a)"
  by (simp add: memset_def memset_loop_at)

lemma copy_up_at:
  assumes "n < 4294967296" "d = s \<or> n \<le> unat (d - s)"
  shows "copy_up n d s m a = (if unat (a - d) < n then m (s + (a - d)) else m a)"
  using assms
proof (induction n arbitrary: d s m)
  case 0
  then show ?case by simp
next
  case (Suc n)
  have *: "copy_up n (d + 1) (s + 1) m' a =
      (if unat (a - (d + 1)) < n then m' (s + 1 + (a - (d + 1))) else m' a)" for m'
    using Suc.prems by (intro Suc.IH) auto
  show ?case
  proof (cases "a = d")
    case True
    with Suc.prems * [of "m(d := m s)"] show ?thesis by simp
  next
    case False
    have "s + (a - d) = d \<Longrightarrow> \<not> unat (a - d) < Suc n"
    proof
      assume "s + (a - d) = d" and lt: "unat (a - d) < Suc n"
      then have "a - d = d - s" by (simp add: algebra_simps)
      then have "unat (d - s) < Suc n" using lt by simp
      with Suc.prems(2) have "d = s" by auto
      with \<open>a - d = d - s\<close> False show False by simp
    qed
    moreover have "s + 1 + (a - (d + 1)) = s + (a - d)" by simp
    ultimately show ?thesis
      using False offset_step_u32 [OF False] * [of "m(d := m s)"] by (auto split: if_splits)
  qed
qed

lemma copy_down_at:
  assumes "n < 4294967296" "d = s \<or> n \<le> unat (s - d)"
  shows "copy_down n (d + of_nat n) (s + of_nat n) m a =
           (if unat (a - d) < n then m (s + (a - d)) else m a)"
  using assms
proof (induction n arbitrary: m)
  case 0
  then show ?case by simp
next
  case (Suc n)
  let ?m = "m(d + of_nat n := m (s + of_nat n))"
  have *: "copy_down n (d + of_nat n) (s + of_nat n) m' a =
      (if unat (a - d) < n then m' (s + (a - d)) else m' a)" for m'
    using Suc.prems by (intro Suc.IH) auto
  have step: "copy_down (Suc n) (d + of_nat (Suc n)) (s + of_nat (Suc n)) m a =
      copy_down n (d + of_nat n) (s + of_nat n) ?m a"
    by (simp add: algebra_simps)
  have last: "unat (a - d) = n \<longleftrightarrow> a = d + of_nat n"
    using Suc.prems(1) by (metis Suc_lessD add.commute add_diff_cancel_right' diff_add_cancel
        unat_inj_u32 unat_of_nat_u32)
  show ?case
  proof (cases "unat (a - d) < n")
    case True
    have "s + (a - d) \<noteq> d + of_nat n"
    proof
      assume "s + (a - d) = d + of_nat n"
      then have e: "s - d = of_nat n - (a - d)" by (simp add: algebra_simps)
      have "unat (of_nat n - (a - d)) = n - unat (a - d)"
        using True Suc.prems(1) by (subst unat_sub_u32) auto
      then have "unat (s - d) = n - unat (a - d)" by (simp only: e)
      with Suc.prems(2) True show False by auto
    qed
    with True show ?thesis by (simp only: step *) simp
  next
    case False
    with last show ?thesis by (simp only: step *) (auto simp: less_Suc_eq)
  qed
qed

lemma memcpy_at:
  "dst = src \<or> unat n \<le> unat (dst - src) \<Longrightarrow>
     memcpy m dst src n a = (if unat (a - dst) < unat n then m (src + (a - dst)) else m a)"
  by (simp add: memcpy_def copy_up_at)

lemma memmove_at:
  assumes "unat dst + unat n \<le> 4294967296" "unat src + unat n \<le> 4294967296"
  shows "memmove m dst src n a = (if unat (a - dst) < unat n then m (src + (a - dst)) else m a)"
proof (cases "dst < src")
  case True
  have "unat n \<le> unat (dst - src)"
    unfolding unat_sub_wrap_u32 [OF True] using assms True unfolding word_less_nat_alt by linarith
  with True show ?thesis by (simp add: memmove_def copy_up_at)
next
  case False
  have "dst = src \<or> unat n \<le> unat (src - dst)"
  proof (cases "dst = src")
    case ne: False
    with False have lt: "src < dst" by simp
    show ?thesis
      unfolding unat_sub_wrap_u32 [OF lt] using assms lt unfolding word_less_nat_alt by linarith
  qed simp
  from copy_down_at [OF unat_u32_bound this, of m a] False show ?thesis
    by (simp add: memmove_def)
qed

text \<open>\<open>memcmp\<close> against the bytes of the two regions.\<close>

lemma memcmp_loop_0: "memcmp_loop n m p q = 0 \<longleftrightarrow> (\<forall>i < n. m (p + of_nat i) = m (q + of_nat i))"
proof (induction n arbitrary: p q)
  case 0
  then show ?case by simp
next
  case (Suc n)
  have "(\<forall>i < Suc n. m (p + of_nat i) = m (q + of_nat i)) \<longleftrightarrow>
      m p = m q \<and> (\<forall>i < n. m (p + 1 + of_nat i) = m (q + 1 + of_nat i))"
    by (simp add: All_less_Suc2 add.assoc)
  then show ?case by (simp add: Suc.IH)
qed

section \<open>Strings as byte lists\<close>

fun strcmp_l :: "u8 list \<Rightarrow> u8 list \<Rightarrow> int" where
  "strcmp_l [] [] = 0"
| "strcmp_l [] (d # t) = - uint d"
| "strcmp_l (c # s) [] = uint c"
| "strcmp_l (c # s) (d # t) = (if c = d then strcmp_l s t else uint c - uint d)"

fun strncmp_l :: "nat \<Rightarrow> u8 list \<Rightarrow> u8 list \<Rightarrow> int" where
  "strncmp_l 0 s t = 0"
| "strncmp_l (Suc n) [] [] = 0"
| "strncmp_l (Suc n) [] (d # t) = - uint d"
| "strncmp_l (Suc n) (c # s) [] = uint c"
| "strncmp_l (Suc n) (c # s) (d # t) = (if c = d then strncmp_l n s t else uint c - uint d)"

text \<open>The \<open>n\<close> bytes \<open>strncpy\<close> writes: the string cut at \<open>n\<close>, padded with NULs.\<close>

definition strncpy_l :: "nat \<Rightarrow> u8 list \<Rightarrow> u8 list" where
  "strncpy_l n s = take n s @ replicate (n - length s) 0"

text \<open>The string in a char array: the bytes before its first NUL.\<close>

definition cstr_of :: "u8 list \<Rightarrow> u8 list" where
  "cstr_of xs = takeWhile (\<lambda>c. c \<noteq> 0) xs"

lemma strcmp_l_0: "0 \<notin> set s \<Longrightarrow> 0 \<notin> set t \<Longrightarrow> strcmp_l s t = 0 \<longleftrightarrow> s = t"
  by (induction s t rule: strcmp_l.induct) (auto simp: uint_0_iff)

lemma strncmp_l_0:
  "0 \<notin> set s \<Longrightarrow> 0 \<notin> set t \<Longrightarrow> strncmp_l n s t = 0 \<longleftrightarrow> take n s = take n t"
  by (induction n s t rule: strncmp_l.induct) (auto simp: uint_0_iff)

lemma strcmp_l_antisym: "strcmp_l t s = - strcmp_l s t"
  by (induction s t rule: strcmp_l.induct) auto

lemma cstr_nonzero: "cstr m p s \<Longrightarrow> 0 \<notin> set s"
  by (induction s arbitrary: p) auto

lemma cstr_nth: "cstr m p s \<Longrightarrow> i < length s \<Longrightarrow> m (p + of_nat i) = s ! i"
proof (induction s arbitrary: p i)
  case (Cons c s)
  then show ?case by (cases i) (auto simp: add.assoc [symmetric])
qed simp

lemma cstr_end: "cstr m p s \<Longrightarrow> m (p + of_nat (length s)) = 0"
  by (induction s arbitrary: p) (auto simp: add.assoc [symmetric])

lemma cstr_append: "cstr m p (s @ t) \<Longrightarrow> cstr m (p + of_nat (length s)) t"
  by (induction s arbitrary: p) (auto simp: add.assoc [symmetric])

section \<open>The routines on memory refine the routines on lists\<close>

lemma strlen_loop_cstr:
  "cstr m (p + len) s \<Longrightarrow> strlen_loop m p len = Some (len + of_nat (length s))"
proof (induction s arbitrary: len)
  case Nil
  then show ?case by (simp add: strlen_loop.simps)
next
  case (Cons c s)
  then have "cstr m (p + (len + 1)) s" by (simp add: add.assoc)
  from Cons.IH [OF this] Cons.prems show ?case
    by (subst strlen_loop.simps) (simp add: add.assoc)
qed

lemma strlen_cstr: "cstr m p s \<Longrightarrow> strlen m p = Some (of_nat (length s))"
  using strlen_loop_cstr [of m p 0 s] by (simp add: strlen_def)

lemma strcmp_cstr: "cstr m p s \<Longrightarrow> cstr m q t \<Longrightarrow> strcmp m p q = Some (strcmp_l s t)"
proof (induction s t arbitrary: p q rule: strcmp_l.induct)
  case (4 c s d t)
  then show ?case by (subst strcmp.simps) auto
qed (subst strcmp.simps; simp)+

lemma strncmp_loop_cstr:
  "cstr m p s \<Longrightarrow> cstr m q t \<Longrightarrow> strncmp_loop (Suc n) m p q = strncmp_l (Suc n) s t"
proof (induction n arbitrary: p q s t)
  case 0
  then show ?case by (cases s; cases t) auto
next
  case (Suc n)
  then show ?case by (cases s; cases t) auto
qed

lemma strncmp_cstr:
  assumes "cstr m p s" "cstr m q t"
  shows "strncmp m p q n = strncmp_l (unat n) s t"
proof (cases "unat n")
  case 0
  then show ?thesis by (simp add: strncmp_def unat_eq_0)
next
  case (Suc k)
  then have "n \<noteq> 0" by auto
  with Suc assms strncmp_loop_cstr [OF assms, of k] show ?thesis by (simp add: strncmp_def)
qed

lemma strnlen_loop_bytes:
  assumes "len \<le> maxlen"
  shows "unat (strnlen_loop m p maxlen len) =
      unat len + length (cstr_of (bytes_at m (p + len) (unat maxlen - unat len)))"
  using assms
proof (induction m p maxlen len rule: strnlen_loop.induct)
  case (1 m p maxlen len)
  show ?case
  proof (cases "len < maxlen")
    case True
    have step: "unat (len + 1) = Suc (unat len)" using True by (rule unat_inc_u32)
    have lt: "unat len < unat maxlen" using True by (simp add: word_less_nat_alt)
    then obtain k where k: "unat maxlen - unat len = Suc k" "unat maxlen - unat (len + 1) = k"
      unfolding step by (metis Suc_diff_Suc)
    have cons: "bytes_at m (p + len) (Suc k) = m (p + len) # bytes_at m (p + (len + 1)) k"
      unfolding bytes_at_def upt_conv_Cons [OF zero_less_Suc] map_Suc_upt [symmetric]
      by (simp add: add.assoc)
    have le: "len + 1 \<le> maxlen" using lt by (simp add: word_le_nat_alt step)
    show ?thesis
    proof (cases "m (p + len) = 0")
      case False
      with "1.IH" [of] True le k cons step show ?thesis
        by (subst strnlen_loop.simps) (simp add: cstr_of_def)
    next
      case z: True
      then show ?thesis unfolding k(1) cons
        by (subst strnlen_loop.simps) (simp add: cstr_of_def)
    qed
  next
    case False
    with "1.prems" have "len = maxlen" by simp
    then show ?thesis by (subst strnlen_loop.simps) (simp add: cstr_of_def bytes_at_def)
  qed
qed

lemma strnlen_bytes: "unat (strnlen m p n) = length (cstr_of (bytes_at m p (unat n)))"
  using strnlen_loop_bytes [of 0 n m p] by (simp add: strnlen_def)

lemma cstr_update:
  "\<forall>i \<le> length s. p + of_nat i \<noteq> a \<Longrightarrow> cstr (m(a := v)) p s = cstr m p s"
proof (induction s arbitrary: p)
  case Nil
  then show ?case by auto
next
  case (Cons c s)
  have "\<forall>i \<le> length s. p + 1 + of_nat i \<noteq> a"
  proof (intro allI impI)
    fix i assume "i \<le> length s"
    then have "p + of_nat (Suc i) \<noteq> a" using Cons.prems by auto
    then show "p + 1 + of_nat i \<noteq> a" by (simp add: add.assoc)
  qed
  moreover have "p \<noteq> a" using Cons.prems by auto
  ultimately show ?case using Cons.IH by simp
qed

text \<open>The copied string, NUL included, lies outside the \<open>n\<close> bytes from \<open>dst\<close>.\<close>

definition src_outside :: "u32 \<Rightarrow> u32 \<Rightarrow> nat \<Rightarrow> u8 list \<Rightarrow> bool" where
  "src_outside dst src n s \<longleftrightarrow> (\<forall>i \<le> length s. n \<le> unat (src + of_nat i - dst))"

lemma src_outside_step:
  assumes "src_outside dst src (Suc n) (c # s)"
  shows "src_outside (dst + 1) (src + 1) n s"
    and "\<forall>i \<le> length s. src + 1 + of_nat i \<noteq> dst" and "src \<noteq> dst"
proof -
  have far: "Suc n \<le> unat (src + of_nat i - dst)" if "i \<le> Suc (length s)" for i
    using assms that by (simp add: src_outside_def)
  show "src_outside (dst + 1) (src + 1) n s"
    unfolding src_outside_def
  proof (intro allI impI)
    fix i assume "i \<le> length s"
    with far [of i] show "n \<le> unat (src + 1 + of_nat i - (dst + 1))"
      by (simp add: algebra_simps)
  qed
  show "\<forall>i \<le> length s. src + 1 + of_nat i \<noteq> dst"
  proof (intro allI impI)
    fix i assume "i \<le> length s"
    with far [of "Suc i"] show "src + 1 + of_nat i \<noteq> dst" by (auto simp: add.assoc)
  qed
  show "src \<noteq> dst" using far [of 0] by auto
qed

lemma strncpy_copy_at:
  assumes "n < 4294967296" "cstr m src s" "src_outside dst src n s"
  shows "(case strncpy_copy n dst src m of (n', p, m') \<Rightarrow> memset_loop n' p 0 m') a =
    (if unat (a - dst) < n then strncpy_l n s ! unat (a - dst) else m a)"
  using assms
proof (induction n arbitrary: dst src m s)
  case 0
  then show ?case by simp
next
  case (Suc n)
  show ?case
  proof (cases s)
    case Nil
    with Suc.prems show ?thesis
      by (simp add: memset_loop_at strncpy_l_def del: memset_loop.simps replicate_Suc)
  next
    case (Cons c s')
    let ?m = "m(dst := c)"
    note far = src_outside_step [OF Suc.prems(3) [unfolded Cons]]
    have "cstr ?m (src + 1) s'"
      using Suc.prems(2) far(2) by (simp add: Cons cstr_update)
    moreover have "n < 4294967296" using Suc.prems(1) by simp
    ultimately have IH: "(case strncpy_copy n (dst + 1) (src + 1) ?m of
        (n', p, m') \<Rightarrow> memset_loop n' p 0 m') a =
        (if unat (a - (dst + 1)) < n then strncpy_l n s' ! unat (a - (dst + 1)) else ?m a)"
      using far(1) by (intro Suc.IH)
    have l: "strncpy_l (Suc n) s = c # strncpy_l n s'" by (simp add: strncpy_l_def Cons)
    have c: "m src = c" "c \<noteq> 0" using Suc.prems(2) by (simp_all add: Cons)
    have step: "strncpy_copy (Suc n) dst src m = strncpy_copy n (dst + 1) (src + 1) ?m"
      by (simp add: c)
    have "(if unat (a - (dst + 1)) < n then strncpy_l n s' ! unat (a - (dst + 1)) else ?m a) =
        (if unat (a - dst) < Suc n then (c # strncpy_l n s') ! unat (a - dst) else m a)"
      using Suc.prems(1) offset_step_u32 [of a dst] by (cases "a = dst") auto
    then show ?thesis unfolding step IH l .
  qed
qed

lemma strncpy_at:
  assumes "cstr m src s" "src_outside dst src (unat n) s"
  shows "strncpy m dst src n a =
    (if unat (a - dst) < unat n then strncpy_l (unat n) s ! unat (a - dst) else m a)"
  unfolding strncpy_def by (rule strncpy_copy_at [OF unat_u32_bound assms])

lemma strcpy_at:
  assumes "length s < 4294967295" "cstr m src s" "src_outside dst src (Suc (length s)) s"
  shows "\<exists>m'. strcpy m dst src = Some m' \<and>
    (\<forall>a. m' a = (if unat (a - dst) \<le> length s then (s @ [0]) ! unat (a - dst) else m a))"
  using assms
proof (induction s arbitrary: dst src m)
  case Nil
  have "unat (a - dst) = 0 \<longleftrightarrow> a = dst" for a by (simp add: unat_eq_0)
  with Nil show ?case by (subst strcpy.simps) simp
next
  case (Cons c s)
  let ?m = "m(dst := c)"
  note far = src_outside_step [OF Cons.prems(3)]
  have "cstr ?m (src + 1) s" using Cons.prems(2) far(2) by (simp add: cstr_update)
  moreover have "length s < 4294967295" using Cons.prems(1) by simp
  moreover have "src_outside (dst + 1) (src + 1) (Suc (length s)) s" using far(1) by simp
  ultimately obtain m' where m': "strcpy ?m (dst + 1) (src + 1) = Some m'"
    "\<And>a. m' a = (if unat (a - (dst + 1)) \<le> length s then (s @ [0]) ! unat (a - (dst + 1)) else ?m a)"
    using Cons.IH [of ?m "src + 1" "dst + 1"] by blast
  have "strcpy m dst src = Some m'"
    using m'(1) Cons.prems(2) by (subst strcpy.simps) simp
  moreover have "m' a = (if unat (a - dst) \<le> length (c # s)
      then ((c # s) @ [0]) ! unat (a - dst) else m a)" for a
  proof (cases "a = dst")
    case True
    have "unat (a - (dst + 1)) = 4294967295" by (simp add: True)
    with True m'(2) [of a] Cons.prems(1) show ?thesis by simp
  next
    case False
    with m'(2) [of a] offset_step_u32 [OF False] show ?thesis by simp
  qed
  ultimately show ?case by blast
qed

lemma strchr_cstr_found:
  "cstr m p (s @ c # t) \<Longrightarrow> c \<notin> set s \<Longrightarrow> strchr_loop m p c = Some (p + of_nat (length s))"
proof (induction s arbitrary: p)
  case Nil
  then show ?case by (subst strchr_loop.simps) simp
next
  case (Cons d s)
  then show ?case by (subst strchr_loop.simps) (auto simp: add.assoc [symmetric])
qed

lemma strchr_cstr_missing: "cstr m p s \<Longrightarrow> c \<notin> set s \<Longrightarrow> c \<noteq> 0 \<Longrightarrow> strchr_loop m p c = Some 0"
proof (induction s arbitrary: p)
  case Nil
  then show ?case by (subst strchr_loop.simps) simp
next
  case (Cons d s)
  then show ?case by (subst strchr_loop.simps) auto
qed

lemma strrchr_cstr_missing:
  "cstr m p s \<Longrightarrow> c \<notin> set s \<Longrightarrow> c \<noteq> 0 \<Longrightarrow> strrchr_loop m p c l = Some l"
proof (induction s arbitrary: p)
  case Nil
  then show ?case by (subst strrchr_loop.simps) simp
next
  case (Cons d s)
  then show ?case by (subst strrchr_loop.simps) auto
qed

lemma strrchr_cstr_found:
  "cstr m p (s @ c # t) \<Longrightarrow> c \<notin> set t \<Longrightarrow> strrchr_loop m p c l = Some (p + of_nat (length s))"
proof (induction s arbitrary: p l)
  case Nil
  then show ?case by (subst strrchr_loop.simps) (auto intro: strrchr_cstr_missing)
next
  case (Cons d s)
  then show ?case by (subst strrchr_loop.simps) (auto simp: add.assoc [symmetric] Let_def)
qed

end
