(* ===== verification/Gdt.thy ===== *)
theory Gdt
  imports Prelude
begin

text \<open>
  Segmentation and the task state segment, \<open>src/gdt/gdt.c\<close>: the six descriptors, their packed
  encoding, and the \<open>esp0\<close> field the scheduler sets. \<open>lgdt\<close> and \<open>ltr\<close> are the fields
  \<open>gdtr\<close> and \<open>tr\<close>; the addresses of \<open>gdt\<close> and \<open>kernel_tss\<close> are parameters, since the
  linker chooses them. The decoder \<open>entry_base\<close>, \<open>entry_limit\<close> is the processor's reading of a
  descriptor.
\<close>

section \<open>Descriptors\<close>

definition GDT_SIZE :: nat where "GDT_SIZE = 6"
definition SEG_KCODE :: u32 where "SEG_KCODE = 0x08"
definition SEG_KDATA :: u32 where "SEG_KDATA = 0x10"
definition SEG_UCODE :: u32 where "SEG_UCODE = 0x1b"
definition SEG_UDATA :: u32 where "SEG_UDATA = 0x23"
definition SEG_TSS :: u32 where "SEG_TSS = 0x28"

record gdt_entry =
  limit_low :: u16
  base_low :: u16
  base_mid :: u8
  access :: u8
  granularity :: u8
  base_high :: u8

record gdt_ptr =
  gp_limit :: u16
  gp_base :: u32

text \<open>The fields of \<open>tss_t\<close> the kernel writes; \<open>tss_init\<close> zeroes the others.\<close>

record tss =
  esp0 :: u32
  ss0 :: u32
  iomap_base :: u16

record gdt_state =
  gdt :: "gdt_entry list"
  gdtr :: gdt_ptr
  kernel_tss :: tss
  tr :: u16

definition sizeof_tss :: nat where
  "sizeof_tss = 104"

definition gdt_set_tss :: "nat \<Rightarrow> u32 \<Rightarrow> u32 \<Rightarrow> gdt_state \<Rightarrow> gdt_state" where
  "gdt_set_tss i base limit g = g\<lparr>gdt := (gdt g)[i :=
     \<lparr>limit_low = ucast (limit AND 0xffff), base_low = ucast (base AND 0xffff),
      base_mid = ucast (drop_bit 16 base AND 0xff), access = 0x89, granularity = 0x00,
      base_high = ucast (drop_bit 24 base AND 0xff)\<rparr>]\<rparr>"

definition gdt_set_entry :: "nat \<Rightarrow> u32 \<Rightarrow> u32 \<Rightarrow> u8 \<Rightarrow> u8 \<Rightarrow> gdt_state \<Rightarrow> gdt_state" where
  "gdt_set_entry i base limit acc gran g = g\<lparr>gdt := (gdt g)[i :=
     \<lparr>limit_low = ucast (limit AND 0xffff), base_low = ucast (base AND 0xffff),
      base_mid = ucast (drop_bit 16 base AND 0xff), access = acc,
      granularity = ucast (drop_bit 16 limit AND 0x0f) OR (gran AND 0xf0),
      base_high = ucast (drop_bit 24 base AND 0xff)\<rparr>]\<rparr>"

definition tss_set_kernel_stack :: "u32 \<Rightarrow> gdt_state \<Rightarrow> gdt_state" where
  "tss_set_kernel_stack sp g = g\<lparr>kernel_tss := (kernel_tss g)\<lparr>esp0 := sp\<rparr>\<rparr>"

definition tss_init :: "u32 \<Rightarrow> gdt_state \<Rightarrow> gdt_state" where
  "tss_init tss_addr g =
     (let g = g\<lparr>kernel_tss := \<lparr>esp0 = 0, ss0 = SEG_KDATA, iomap_base = of_nat sizeof_tss\<rparr>\<rparr>;
          g = gdt_set_tss 5 tss_addr (of_nat sizeof_tss - 1) g
      in g\<lparr>tr := ucast SEG_TSS\<rparr>)"

definition gdt_init :: "u32 \<Rightarrow> u32 \<Rightarrow> gdt_state \<Rightarrow> gdt_state" where
  "gdt_init gdt_addr tss_addr g =
     (let g = gdt_set_entry 0 0 0x00000000 0x00 0x00 g;
          g = gdt_set_entry 1 0 0xffffffff 0x9a 0xcf g;
          g = gdt_set_entry 2 0 0xffffffff 0x92 0xcf g;
          g = gdt_set_entry 3 0 0xffffffff 0xfa 0xcf g;
          g = gdt_set_entry 4 0 0xffffffff 0xf2 0xcf g;
          g = g\<lparr>gdtr := \<lparr>gp_limit = of_nat (8 * GDT_SIZE) - 1, gp_base = gdt_addr\<rparr>\<rparr>
      in tss_init tss_addr g)"

section \<open>What the processor reads\<close>

definition entry_base :: "gdt_entry \<Rightarrow> u32" where
  "entry_base e = ucast (base_low e) OR push_bit 16 (ucast (base_mid e)) OR push_bit 24 (ucast (base_high e))"

definition entry_limit :: "gdt_entry \<Rightarrow> u32" where
  "entry_limit e = ucast (limit_low e) OR push_bit 16 (ucast (granularity e AND 0x0f))"

definition entry_dpl :: "gdt_entry \<Rightarrow> u8" where
  "entry_dpl e = drop_bit 5 (access e) AND 3"

definition entry_present :: "gdt_entry \<Rightarrow> bool" where
  "entry_present e \<longleftrightarrow> bit (access e) 7"

lemma mask_and: "(b::u32) AND 0xffff = take_bit 16 b" "(b::u32) AND 0xff = take_bit 8 b" "(b::u32) AND 0xf = take_bit 4 b"
   "(b::u32) AND 0xfffff = take_bit 20 b" "(c::u8) AND 0xf = take_bit 4 c"
  by (simp_all add: take_bit_eq_mask mask_eq_exp_minus_1)
lemma split_base:
  "(ucast (ucast (b AND 0xffff) :: u16) :: u32) OR push_bit 16 (ucast (ucast (drop_bit 16 b AND 0xff) :: u8))
     OR push_bit 24 (ucast (ucast (drop_bit 24 b AND 0xff) :: u8)) = (b :: u32)"
proof (rule bit_word_eqI)
  fix n assume "n < LENGTH(32)"
  then consider "n < 16" | "16 \<le> n" "n < 24" | "24 \<le> n" "n < 32" by fastforce
  then show "bit ((ucast (ucast (b AND 0xffff) :: u16) :: u32) OR push_bit 16 (ucast (ucast (drop_bit 16 b AND 0xff) :: u8))
     OR push_bit 24 (ucast (ucast (drop_bit 24 b AND 0xff) :: u8))) n = bit b n"
    by cases (auto simp: bit_simps mask_and)
qed
lemma gran_low: "(x OR (g AND 0xf0)) AND 0xf = x AND (0xf :: u8)"
  by (simp add: bit.conj_disj_distrib2 and.assoc)
lemma split_limit:
  "(ucast (ucast (l AND 0xffff) :: u16) :: u32) OR push_bit 16 (ucast ((ucast (drop_bit 16 l AND 0x0f) OR (gr AND 0xf0 :: u8)) AND 0xf)) = (l AND 0xfffff :: u32)"
  unfolding gran_low
proof (rule bit_word_eqI)
  fix n assume "n < LENGTH(32)"
  then consider "n < 16" | "16 \<le> n" "n < 20" | "20 \<le> n" "n < 32" by fastforce
  then show "bit ((ucast (ucast (l AND 0xffff) :: u16) :: u32) OR push_bit 16 (ucast (ucast (drop_bit 16 l AND 0x0f) AND (0xf :: u8)))) n = bit (l AND 0xfffff :: u32) n"
    by cases (auto simp: bit_simps mask_and)
qed

lemma encoded_base [simp]:
  "entry_base \<lparr>limit_low = ll, base_low = ucast (b AND 0xffff), base_mid = ucast (drop_bit 16 b AND 0xff),
     access = ac, granularity = gr, base_high = ucast (drop_bit 24 b AND 0xff)\<rparr> = b"
  by (simp add: entry_base_def split_base)

lemma encoded_limit [simp]:
  "entry_limit \<lparr>limit_low = ucast (l AND 0xffff), base_low = bl, base_mid = bm, access = ac,
     granularity = ucast (drop_bit 16 l AND 0x0f) OR (gr AND 0xf0), base_high = bh\<rparr> = l AND 0xfffff"
  by (simp add: entry_limit_def split_limit)

section \<open>Properties\<close>

text \<open>C10: the processor reads back from a descriptor what \<open>gdt_set_entry\<close> was given: the base, the
  low 20 bits of the limit, the access byte and the upper half of the granularity byte; the other
  descriptors are untouched.\<close>

theorem gdt_set_entry_roundtrip:
  assumes "i < length (gdt g)"
  shows "let e = gdt (gdt_set_entry i base limit acc gran g) ! i in
      entry_base e = base \<and> entry_limit e = limit AND 0xfffff \<and> access e = acc
      \<and> granularity e AND 0xf0 = gran AND 0xf0
      \<and> (j \<noteq> i \<longrightarrow> gdt (gdt_set_entry i base limit acc gran g) ! j = gdt g ! j)"
proof -
  have "(ucast (drop_bit 16 limit AND 0x0f) OR (gran AND 0xf0)) AND 0xf0 = gran AND (0xf0 :: u8)"
  proof -
    have "(ucast (drop_bit 16 limit AND 0x0f) :: u8) AND 0xf0 = 0"
      by (simp add: unsigned_and_eq and.assoc)
    then show ?thesis by (simp add: bit.conj_disj_distrib2)
  qed
  then show ?thesis using assms by (simp add: gdt_set_entry_def)
qed

definition empty_gdt :: gdt_state where
  "empty_gdt = \<lparr>gdt = replicate GDT_SIZE \<lparr>limit_low = 0, base_low = 0, base_mid = 0, access = 0,
       granularity = 0, base_high = 0\<rparr>, gdtr = \<lparr>gp_limit = 0, gp_base = 0\<rparr>,
     kernel_tss = \<lparr>esp0 = 0, ss0 = 0, iomap_base = 0\<rparr>, tr = 0\<rparr>"

lemma gdt_set_entry_roundtrip_witness:
  "entry_base (gdt (gdt_set_entry 2 0x12345678 0x67 0x89 0 empty_gdt) ! 2) = 0x12345678"
  using gdt_set_entry_roundtrip [of 2 empty_gdt "0x12345678" "0x67" "0x89" 0]
  by (simp add: empty_gdt_def GDT_SIZE_def Let_def)

text \<open>\<open>gdt_init\<close> builds the flat model: a null descriptor, kernel and user code and data
  segments over the whole address space with privilege 0 and 3, and a present TSS descriptor with
  the address and the limit of \<open>kernel_tss\<close>; the selectors the kernel uses name these entries
  with the privilege level of the segment, and the TSS has the kernel data segment as \<open>ss0\<close>.\<close>

theorem gdt_init_flat:
  assumes "length (gdt g) = GDT_SIZE"
  shows "let g' = gdt_init gdt_addr tss_addr g in
      map (\<lambda>e. (entry_base e, entry_limit e, entry_dpl e, entry_present e)) (gdt g') =
        [(0, 0, 0, False), (0, 0xfffff, 0, True), (0, 0xfffff, 0, True),
         (0, 0xfffff, 3, True), (0, 0xfffff, 3, True), (tss_addr, 103, 0, True)]
      \<and> map (\<lambda>sel. (unat (drop_bit 3 sel), ucast (sel AND 3))) [SEG_KCODE, SEG_KDATA, SEG_UCODE, SEG_UDATA, SEG_TSS]
        = [(1, entry_dpl (gdt g' ! 1)), (2, entry_dpl (gdt g' ! 2)), (3, entry_dpl (gdt g' ! 3)),
           (4, entry_dpl (gdt g' ! 4)), (5, entry_dpl (gdt g' ! 5))]
      \<and> unat (gp_limit (gdtr g')) + 1 = 8 * length (gdt g') \<and> ss0 (kernel_tss g') = SEG_KDATA"
proof -
  obtain a b c d e f where "gdt g = [a, b, c, d, e, f]"
    using assms by (auto simp: GDT_SIZE_def length_Suc_conv eval_nat_numeral)
  then show ?thesis
    by (simp add: gdt_init_def tss_init_def gdt_set_entry_def gdt_set_tss_def Let_def entry_dpl_def
        entry_present_def entry_base_def entry_limit_def split_base sizeof_tss_def GDT_SIZE_def
        SEG_KCODE_def SEG_KDATA_def SEG_UCODE_def SEG_UDATA_def SEG_TSS_def)
qed

lemma gdt_init_flat_witness:
  "map (\<lambda>e. (entry_base e, entry_limit e)) (gdt (gdt_init 0xc0108000 0xc0109000 empty_gdt)) ! 5
     = (0xc0109000, 103)"
  using gdt_init_flat [of empty_gdt "0xc0108000" "0xc0109000"]
  by (auto simp: empty_gdt_def Let_def GDT_SIZE_def map_eq_Cons_conv eval_nat_numeral)

end
