(* ===== verification/Pmm.thy ===== *)
theory Pmm
  imports Prelude CString
begin

text \<open>
  The physical memory manager: \<open>src/memory/mmap.c\<close> (the multiboot2 memory map),
  \<open>src/memory/pmm.c\<close> (the frame bitmap) and \<open>pmm.h\<close> (the bit macros).

  The bitmap is bytes of kernel memory from \<open>bitmap_addr\<close>, read and written through the
  same index arithmetic as the C macros, so a bit index past the bitmap lands in the bytes
  behind it, as it does in the code. The addresses the linker fixes (\<open>linker.ld\<close>) are the
  record \<open>link_syms\<close>. The abstraction of the bitmap is the set \<open>free_frames\<close>; the locale
  \<open>frame_allocator\<close> is the contract the paging, heap and process code relies on, and
  \<open>pmm_alloc_frame\<close> and \<open>pmm_free_frame\<close> are interpreted as an instance of it.
\<close>

section \<open>The multiboot2 memory map\<close>

record mem_region =
  rbase :: u32
  rlength :: u32

record link_syms =
  kernel_virt_start :: u32
  kernel_virt_end :: u32
  kernel_phys_start :: u32
  kernel_phys_end :: u32

record mmap_state =
  kstart :: u32
  kend :: u32
  ksize :: u32
  kpstart :: u32
  kpend :: u32
  usable_regions :: "mem_region list"
  total_memory :: u32

definition MAX_MEM_REGIONS :: nat where
  "MAX_MEM_REGIONS = 32"

text \<open>
  The tag walk of \<open>mmap_init\<close>, \<open>initrd_init\<close> and \<open>fb_parse_tag\<close>: the address of the first
  tag of the wanted type, or 0 at the end tag. A tag of size 0 makes the walk endless.
\<close>

partial_function (option) find_tag :: "mem \<Rightarrow> u32 \<Rightarrow> u32 \<Rightarrow> u32 option" where
  "find_tag m wanted tag =
     (if load32 m tag = 0 then Some 0
      else if load32 m tag = wanted then Some tag
      else find_tag m wanted ((tag + load32 m (tag + 4) + 7) AND NOT 7))"

definition mmap_entry :: "mem \<Rightarrow> u32 \<Rightarrow> mmap_state \<Rightarrow> mmap_state" where
  "mmap_entry m entry s =
     (let base_addr = load64 m entry; len = load64 m (entry + 8); type = load32 m (entry + 16)
      in if base_addr < 0x100000000
         then let base = ucast base_addr;
                top = base_addr + len;
                length = (if top > 0x100000000 then ucast (0x100000000 - base_addr) else ucast len);
                s = (if type = 1 \<and> List.length (usable_regions s) < MAX_MEM_REGIONS
                     then s\<lparr>usable_regions := usable_regions s @ [\<lparr>rbase = base, rlength = length\<rparr>]\<rparr>
                     else s)
              in s\<lparr>total_memory := total_memory s + length\<rparr>
         else s)"

partial_function (option) mmap_entries ::
    "mem \<Rightarrow> u32 \<Rightarrow> u32 \<Rightarrow> u32 \<Rightarrow> mmap_state \<Rightarrow> mmap_state option" where
  "mmap_entries m entry_size mmap_end entry_ptr s =
     (if entry_ptr < mmap_end
      then mmap_entries m entry_size mmap_end (entry_ptr + entry_size) (mmap_entry m entry_ptr s)
      else Some s)"

definition mmap_init :: "link_syms \<Rightarrow> mem \<Rightarrow> u32 \<Rightarrow> mmap_state \<Rightarrow> mmap_state res option" where
  "mmap_init l m mb2_info s =
     (let s = s\<lparr>kstart := kernel_virt_start l, kend := kernel_virt_end l,
                ksize := kernel_virt_end l - kernel_virt_start l,
                kpstart := kernel_phys_start l, kpend := kernel_phys_end l\<rparr>
      in Option.bind (find_tag m 6 (mb2_info + 8)) (\<lambda>mmap_tag.
           if mmap_tag = 0
           then Some (Inl (Panic ''mmap_init() -> no memory map tag found in multiboot2 info''))
           else map_option Inr
             (mmap_entries m (load32 m (mmap_tag + 8)) (mmap_tag + load32 m (mmap_tag + 4))
                (mmap_tag + 16) s)))"

section \<open>The frame bitmap\<close>

definition PAGE_SIZE :: u32 where
  "PAGE_SIZE = 0x1000"

definition KERNEL_OFFSET :: u32 where
  "KERNEL_OFFSET = 0xc0000000"

definition BIT_SET :: "mem \<Rightarrow> u32 \<Rightarrow> u32 \<Rightarrow> mem" where
  "BIT_SET m bmap b =
     m(bmap + b div 8 := m (bmap + b div 8) OR push_bit (unat (b mod 8)) 1)"

definition BIT_CLEAR :: "mem \<Rightarrow> u32 \<Rightarrow> u32 \<Rightarrow> mem" where
  "BIT_CLEAR m bmap b =
     m(bmap + b div 8 := m (bmap + b div 8) AND NOT (push_bit (unat (b mod 8)) 1))"

definition BIT_TEST :: "mem \<Rightarrow> u32 \<Rightarrow> u32 \<Rightarrow> bool" where
  "BIT_TEST m bmap b \<longleftrightarrow> m (bmap + b div 8) AND push_bit (unat (b mod 8)) 1 \<noteq> 0"

record pmm =
  total_pages :: u32
  bitmap_addr :: u32
  bitmap_size :: u32
  pmm_mem :: mem

definition addr_to_page :: "u32 \<Rightarrow> u32" where
  "addr_to_page addr = addr div PAGE_SIZE"

primrec set_bits :: "nat \<Rightarrow> u32 \<Rightarrow> u32 \<Rightarrow> mem \<Rightarrow> mem" where
  "set_bits 0 bmap b m = m"
| "set_bits (Suc n) bmap b m = set_bits n bmap (b + 1) (BIT_SET m bmap b)"

primrec clear_bits :: "nat \<Rightarrow> u32 \<Rightarrow> u32 \<Rightarrow> mem \<Rightarrow> mem" where
  "clear_bits 0 bmap b m = m"
| "clear_bits (Suc n) bmap b m = clear_bits n bmap (b + 1) (BIT_CLEAR m bmap b)"

definition pmm_mark_used :: "u32 \<Rightarrow> u32 \<Rightarrow> pmm \<Rightarrow> pmm" where
  "pmm_mark_used addr len p =
     (let page = addr_to_page addr; count = (len + PAGE_SIZE - 1) div PAGE_SIZE
      in p\<lparr>pmm_mem := set_bits (unat count) (bitmap_addr p) page (pmm_mem p)\<rparr>)"

definition pmm_mark_free :: "u32 \<Rightarrow> u32 \<Rightarrow> pmm \<Rightarrow> pmm" where
  "pmm_mark_free addr len p =
     (let page = addr_to_page addr; count = (len + PAGE_SIZE - 1) div PAGE_SIZE
      in p\<lparr>pmm_mem := clear_bits (unat count) (bitmap_addr p) page (pmm_mem p)\<rparr>)"

definition pmm_is_free :: "u32 \<Rightarrow> pmm \<Rightarrow> bool" where
  "pmm_is_free addr p \<longleftrightarrow> \<not> BIT_TEST (pmm_mem p) (bitmap_addr p) (addr_to_page addr)"

function pmm_alloc_scan :: "pmm \<Rightarrow> u32 \<Rightarrow> (u32 \<times> pmm) res" where
  "pmm_alloc_scan p i =
     (if i < total_pages p
      then if \<not> BIT_TEST (pmm_mem p) (bitmap_addr p) i
           then Inr (i * PAGE_SIZE, p\<lparr>pmm_mem := BIT_SET (pmm_mem p) (bitmap_addr p) i\<rparr>)
           else pmm_alloc_scan p (i + 1)
      else Inl (Panic ''pmm_alloc_frame() -> out of physical memory''))"
  by pat_completeness auto
termination
  by (relation "measure (\<lambda>(p, i). unat (total_pages p) - unat i)")
    (auto simp: unat_inc_u32 word_less_nat_alt)

declare pmm_alloc_scan.simps [simp del]

definition pmm_alloc_frame :: "pmm \<Rightarrow> (u32 \<times> pmm) res" where
  "pmm_alloc_frame p = pmm_alloc_scan p 1"

definition pmm_free_frame :: "u32 \<Rightarrow> pmm \<Rightarrow> pmm res" where
  "pmm_free_frame addr p =
     (if addr = 0 then Inl (Panic ''pmm_free_frame() -> attempt to free NULL page'')
      else if addr AND 0xfff \<noteq> 0 then Inl (Panic ''pmm_free_frame() -> address is not page-aligned'')
      else let page = addr_to_page addr in
        if page \<ge> total_pages p then Inl (Panic ''pmm_free_frame() -> address is out of range'')
        else if BIT_TEST (pmm_mem p) (bitmap_addr p) page
             then Inl (Panic ''pmm_free_frame() -> double free'')
             else Inr (p\<lparr>pmm_mem := BIT_CLEAR (pmm_mem p) (bitmap_addr p) page\<rparr>))"

text \<open>
  \<open>pmm_init\<close>: the framebuffer tag contributes its physical address (64 bits, cut to 32 by the
  call), pitch and height; \<open>fb_sym\<close> is the address of the kernel's own \<open>fb\<close> variable, an
  object of \<open>sizeof_fb\<close> = 7 words.
\<close>

definition sizeof_fb :: u32 where
  "sizeof_fb = 28"

definition pmm_init :: "mmap_state \<Rightarrow> u64 \<Rightarrow> u32 \<Rightarrow> u32 \<Rightarrow> u32 \<Rightarrow> mem \<Rightarrow> pmm" where
  "pmm_init mm fb_address fb_pitch fb_height fb_sym m =
     (let total = total_memory mm div PAGE_SIZE;
          bm = (kend mm + 0xfff) AND NOT 0xfff;
          bsize = (total + 7) div 8;
          p = \<lparr>total_pages = total, bitmap_addr = bm, bitmap_size = bsize,
               pmm_mem = memset m bm 0xff bsize\<rparr>;
          p = fold (\<lambda>r. pmm_mark_free (rbase r) (rlength r)) (usable_regions mm) p;
          start_page = kpstart mm AND NOT 0xfff;
          end_page = (kpend mm + 0xfff) AND NOT 0xfff;
          p = pmm_mark_used 0 0x100000 p;
          p = pmm_mark_used start_page (end_page - start_page) p;
          bitmap_phys = bm - KERNEL_OFFSET;
          bitmap_start_page = bitmap_phys AND NOT 0xfff;
          bitmap_end_page = (bitmap_phys + bsize + 0xfff) AND NOT 0xfff;
          fb_phys = fb_sym - KERNEL_OFFSET;
          p = pmm_mark_used bitmap_start_page (bitmap_end_page - bitmap_start_page) p;
          p = pmm_mark_used (ucast fb_address) (fb_pitch * fb_height) p
      in pmm_mark_used fb_phys sizeof_fb p)"

section \<open>The bit macros\<close>

lemma word_div_mod_8_eq: "i div 8 = j div 8 \<Longrightarrow> i mod 8 = j mod 8 \<Longrightarrow> i = (j :: u32)"
  by (metis div_mult_mod_eq)

lemma unat_mod_8 [simp]: "unat ((i :: u32) mod 8) < 8"
  by (simp add: unat_mod)

lemma BIT_TEST_bit: "BIT_TEST m bm b \<longleftrightarrow> bit (m (bm + b div 8)) (unat (b mod 8))"
  unfolding BIT_TEST_def by (simp add: bit_iff_and_push_bit_not_eq_0)

lemma bit_u8_one: "k < 8 \<Longrightarrow> bit (2 ^ k :: u8) n \<longleftrightarrow> n = k"
  by (auto simp: bit_simps)

lemma BIT_TEST_SET [simp]: "BIT_TEST (BIT_SET m bm i) bm j \<longleftrightarrow> j = i \<or> BIT_TEST m bm j"
proof (cases "j div 8 = i div 8")
  case True
  then show ?thesis
    by (auto simp: BIT_TEST_bit BIT_SET_def bit_or_iff bit_u8_one word_div_mod_8_eq unat_inj_u32)
next
  case False
  then show ?thesis by (auto simp: BIT_TEST_bit BIT_SET_def)
qed

lemma BIT_TEST_CLEAR [simp]: "BIT_TEST (BIT_CLEAR m bm i) bm j \<longleftrightarrow> j \<noteq> i \<and> BIT_TEST m bm j"
proof (cases "j div 8 = i div 8")
  case True
  have "bit (NOT (push_bit (unat (i mod 8)) 1) :: u8) n \<longleftrightarrow> n \<noteq> unat (i mod 8)" if "n < 8" for n
    using that by (simp add: bit_not_iff bit_u8_one)
  with True show ?thesis
    by (auto simp: BIT_TEST_bit BIT_CLEAR_def bit_and_iff word_div_mod_8_eq unat_inj_u32)
next
  case False
  then show ?thesis by (auto simp: BIT_TEST_bit BIT_CLEAR_def)
qed

lemma BIT_SET_other: "a \<noteq> bm + b div 8 \<Longrightarrow> BIT_SET m bm b a = m a"
  by (simp add: BIT_SET_def)

lemma BIT_CLEAR_other: "a \<noteq> bm + b div 8 \<Longrightarrow> BIT_CLEAR m bm b a = m a"
  by (simp add: BIT_CLEAR_def)

lemma set_bits_test:
  "n < 4294967296 \<Longrightarrow> BIT_TEST (set_bits n bm b m) bm j \<longleftrightarrow> unat (j - b) < n \<or> BIT_TEST m bm j"
proof (induction n arbitrary: b m)
  case (Suc n)
  then show ?case using offset_step_u32 [of j b] by (cases "j = b") auto
qed simp

lemma clear_bits_test:
  "n < 4294967296 \<Longrightarrow>
     BIT_TEST (clear_bits n bm b m) bm j \<longleftrightarrow> \<not> unat (j - b) < n \<and> BIT_TEST m bm j"
proof (induction n arbitrary: b m)
  case (Suc n)
  then show ?case using offset_step_u32 [of j b] by (cases "j = b") auto
qed simp

text \<open>The page range \<open>pmm_mark_used\<close> and \<open>pmm_mark_free\<close> work on.\<close>

definition page_in :: "u32 \<Rightarrow> u32 \<Rightarrow> u32 \<Rightarrow> bool" where
  "page_in addr len i \<longleftrightarrow> unat (i - addr_to_page addr) < unat ((len + PAGE_SIZE - 1) div PAGE_SIZE)"

definition used :: "pmm \<Rightarrow> u32 \<Rightarrow> bool" where
  "used p i \<longleftrightarrow> BIT_TEST (pmm_mem p) (bitmap_addr p) i"

named_theorems pmm_simps \<open>fields and bits after the bitmap operations\<close>

lemma pmm_mark_used_fields [simp, pmm_simps]:
  "total_pages (pmm_mark_used a l p) = total_pages p"
  "bitmap_addr (pmm_mark_used a l p) = bitmap_addr p"
  "bitmap_size (pmm_mark_used a l p) = bitmap_size p"
  by (simp_all add: pmm_mark_used_def Let_def)

lemma pmm_mark_free_fields [simp, pmm_simps]:
  "total_pages (pmm_mark_free a l p) = total_pages p"
  "bitmap_addr (pmm_mark_free a l p) = bitmap_addr p"
  "bitmap_size (pmm_mark_free a l p) = bitmap_size p"
  by (simp_all add: pmm_mark_free_def Let_def)

lemma used_mark_used [simp, pmm_simps]: "used (pmm_mark_used a l p) i \<longleftrightarrow> page_in a l i \<or> used p i"
  by (simp add: used_def page_in_def pmm_mark_used_def Let_def set_bits_test)

lemma used_mark_free [simp, pmm_simps]: "used (pmm_mark_free a l p) i \<longleftrightarrow> \<not> page_in a l i \<and> used p i"
  by (simp add: used_def page_in_def pmm_mark_free_def Let_def clear_bits_test)

lemma fold_mark_free:
  "used (fold (\<lambda>r. pmm_mark_free (rbase r) (rlength r)) rs p) i \<longleftrightarrow>
     (\<forall>r \<in> set rs. \<not> page_in (rbase r) (rlength r) i) \<and> used p i"
  "total_pages (fold (\<lambda>r. pmm_mark_free (rbase r) (rlength r)) rs p) = total_pages p"
  "bitmap_addr (fold (\<lambda>r. pmm_mark_free (rbase r) (rlength r)) rs p) = bitmap_addr p"
  "bitmap_size (fold (\<lambda>r. pmm_mark_free (rbase r) (rlength r)) rs p) = bitmap_size p"
  by (induction rs arbitrary: p) auto

section \<open>The allocator as a set of free frames\<close>

definition pmm_inv :: "pmm \<Rightarrow> bool" where
  "pmm_inv p \<longleftrightarrow> unat (total_pages p) \<le> 1048576"

definition free_frames :: "pmm \<Rightarrow> u32 set" where
  "free_frames p = {i * PAGE_SIZE | i. 1 \<le> i \<and> i < total_pages p \<and> \<not> used p i}"

lemma page_frame_unat:
  assumes "pmm_inv p" "i < total_pages p"
  shows "unat (i * PAGE_SIZE) = unat i * 4096"
proof -
  have "unat i < 1048576" using assms by (simp add: pmm_inv_def word_less_nat_alt)
  then show ?thesis by (simp add: PAGE_SIZE_def unat_word_ariths)
qed

lemma page_frame_inj:
  assumes "pmm_inv p" "i < total_pages p" "j < total_pages p" "i * PAGE_SIZE = j * PAGE_SIZE"
  shows "i = j"
  using page_frame_unat [OF assms(1,2)] page_frame_unat [OF assms(1,3)] assms(4)
  by (simp add: unat_inj_u32)

lemma addr_to_page_frame:
  assumes "pmm_inv p" "i < total_pages p"
  shows "addr_to_page (i * PAGE_SIZE) = i"
  using page_frame_unat [OF assms]
  by (intro unat_inj_u32) (simp add: addr_to_page_def unat_div PAGE_SIZE_def)

lemma pmm_alloc_scan_Inr:
  "pmm_alloc_scan p i = Inr (f, p') \<Longrightarrow>
     \<exists>k. i \<le> k \<and> k < total_pages p \<and> f = k * PAGE_SIZE \<and> \<not> used p k \<and>
       (\<forall>j. i \<le> j \<and> j < k \<longrightarrow> used p j) \<and>
       p' = p\<lparr>pmm_mem := BIT_SET (pmm_mem p) (bitmap_addr p) k\<rparr>"
proof (induction p i rule: pmm_alloc_scan.induct)
  case (1 p i)
  show ?case
  proof (cases "i < total_pages p \<and> used p i")
    case True
    with "1.prems" have "pmm_alloc_scan p (i + 1) = Inr (f, p')"
      by (subst (asm) pmm_alloc_scan.simps) (simp add: used_def)
    with "1.IH" True obtain k where k: "i + 1 \<le> k" "k < total_pages p" "f = k * PAGE_SIZE"
      "\<not> used p k" "\<forall>j. i + 1 \<le> j \<and> j < k \<longrightarrow> used p j"
      "p' = p\<lparr>pmm_mem := BIT_SET (pmm_mem p) (bitmap_addr p) k\<rparr>"
      by (auto simp: used_def)
    have step: "unat (i + 1) = Suc (unat i)" using True by (intro unat_inc_u32) auto
    have "\<forall>j. i \<le> j \<and> j < k \<longrightarrow> used p j"
    proof (intro allI impI)
      fix j assume j: "i \<le> j \<and> j < k"
      show "used p j"
      proof (cases "j = i")
        case False
        with j have "unat i < unat j" by (metis le_neq_implies_less unat_inj_u32 word_le_nat_alt)
        then have "i + 1 \<le> j" by (simp add: word_le_nat_alt step)
        with j k(5) show ?thesis by blast
      qed (use True in simp)
    qed
    moreover have "i \<le> k" using k(1) step by (simp add: word_le_nat_alt)
    ultimately show ?thesis using k by blast
  next
    case False
    with "1.prems" show ?thesis
      by (subst (asm) pmm_alloc_scan.simps) (auto simp: used_def split: if_splits)
  qed
qed

lemma pmm_alloc_scan_Inl:
  "pmm_alloc_scan p i = Inl e \<Longrightarrow>
     e = Panic ''pmm_alloc_frame() -> out of physical memory'' \<and>
     (\<forall>j. i \<le> j \<and> j < total_pages p \<longrightarrow> used p j)"
proof (induction p i rule: pmm_alloc_scan.induct)
  case (1 p i)
  show ?case
  proof (cases "i < total_pages p")
    case True
    with "1.prems" have u: "used p i" and "pmm_alloc_scan p (i + 1) = Inl e"
      by (subst (asm) (1) pmm_alloc_scan.simps, simp add: used_def split: if_splits)+
    with "1.IH" True have IH: "e = Panic ''pmm_alloc_frame() -> out of physical memory''"
      "\<forall>j. i + 1 \<le> j \<and> j < total_pages p \<longrightarrow> used p j"
      by (auto simp: used_def)
    have step: "unat (i + 1) = Suc (unat i)" using True by (rule unat_inc_u32)
    have "i + 1 \<le> j" if "i \<le> j" "j \<noteq> i" for j
      using that by (metis Suc_leI le_neq_implies_less step unat_inj_u32 word_le_nat_alt)
    with IH u show ?thesis by blast
  next
    case False
    with "1.prems" show ?thesis by (subst (asm) pmm_alloc_scan.simps) auto
  qed
qed

lemma used_set:
  "used (p\<lparr>pmm_mem := BIT_SET (pmm_mem p) (bitmap_addr p) k\<rparr>) i \<longleftrightarrow> i = k \<or> used p i"
  by (simp add: used_def)

lemma used_clear:
  "used (p\<lparr>pmm_mem := BIT_CLEAR (pmm_mem p) (bitmap_addr p) k\<rparr>) i \<longleftrightarrow> i \<noteq> k \<and> used p i"
  by (simp add: used_def)

lemma frame_mem_iff:
  assumes "pmm_inv p" "k < total_pages p"
  shows "k * PAGE_SIZE \<in> free_frames p \<longleftrightarrow> 1 \<le> k \<and> \<not> used p k"
proof
  assume "k * PAGE_SIZE \<in> free_frames p"
  then obtain i where i: "k * PAGE_SIZE = i * PAGE_SIZE" "1 \<le> i" "i < total_pages p" "\<not> used p i"
    unfolding free_frames_def by blast
  with page_frame_inj [OF assms(1,2) i(3)] show "1 \<le> k \<and> \<not> used p k" by simp
qed (use assms in \<open>auto simp: free_frames_def\<close>)

lemma free_frames_set:
  assumes "pmm_inv p" "k < total_pages p"
  shows "free_frames (p\<lparr>pmm_mem := BIT_SET (pmm_mem p) (bitmap_addr p) k\<rparr>) =
           free_frames p - {k * PAGE_SIZE}"
  using page_frame_inj [OF assms(1) _ assms(2)]
  unfolding free_frames_def used_set by auto

lemma free_frames_clear:
  assumes "pmm_inv p" "1 \<le> k" "k < total_pages p"
  shows "free_frames (p\<lparr>pmm_mem := BIT_CLEAR (pmm_mem p) (bitmap_addr p) k\<rparr>) =
           insert (k * PAGE_SIZE) (free_frames p)"
  using assms unfolding free_frames_def used_clear by auto

lemma pmm_alloc_Inr:
  assumes "pmm_inv p" "pmm_alloc_frame p = Inr (f, p')"
  shows "pmm_inv p' \<and> f \<in> free_frames p \<and> free_frames p' = free_frames p - {f}
    \<and> (\<forall>g \<in> free_frames p. f \<le> g)"
proof -
  obtain k where k: "1 \<le> k" "k < total_pages p" "f = k * PAGE_SIZE" "\<not> used p k"
      "\<forall>j. 1 \<le> j \<and> j < k \<longrightarrow> used p j"
      "p' = p\<lparr>pmm_mem := BIT_SET (pmm_mem p) (bitmap_addr p) k\<rparr>"
    using pmm_alloc_scan_Inr assms(2) unfolding pmm_alloc_frame_def by blast
  have "f \<le> g" if "g \<in> free_frames p" for g
  proof -
    from that obtain i where i: "g = i * PAGE_SIZE" "1 \<le> i" "i < total_pages p" "\<not> used p i"
      unfolding free_frames_def by blast
    with k(5) have "k \<le> i" using not_le by blast
    then show ?thesis
      unfolding k(3) i(1) word_le_nat_alt
      by (simp add: page_frame_unat [OF assms(1) k(2)] page_frame_unat [OF assms(1) i(3)]
          word_le_nat_alt)
  qed
  moreover have "f \<in> free_frames p" using k by (auto simp: free_frames_def)
  moreover have "pmm_inv p'" using assms(1) by (simp add: k(6) pmm_inv_def)
  ultimately show ?thesis using free_frames_set [OF assms(1) k(2)] k(3,6) by simp
qed

lemma pmm_alloc_Inl:
  "pmm_alloc_frame p = Inl e \<Longrightarrow>
     free_frames p = {} \<and> e = Panic ''pmm_alloc_frame() -> out of physical memory''"
  unfolding pmm_alloc_frame_def free_frames_def by (auto dest: pmm_alloc_scan_Inl)

lemma and_fff_page: "(x :: u32) AND 0xfff = 0 \<Longrightarrow> addr_to_page x * PAGE_SIZE = x"
proof -
  assume "x AND 0xfff = 0"
  moreover have "x mod 2 ^ 12 = take_bit 12 x" by (simp only: take_bit_eq_mod)
  moreover have "take_bit 12 x = x AND 0xfff"
    by (simp add: take_bit_eq_mask mask_eq_exp_minus_1)
  ultimately show ?thesis
    using div_mult_mod_eq [of x "2 ^ 12"] by (simp add: addr_to_page_def PAGE_SIZE_def)
qed

lemma page_and_fff: "(k * PAGE_SIZE :: u32) AND 0xfff = 0"
proof -
  have "take_bit 12 (push_bit 12 k :: u32) = 0"
    by (rule bit_word_eqI) (auto simp: bit_simps)
  then show ?thesis
    by (simp add: push_bit_eq_mult PAGE_SIZE_def take_bit_eq_mask mask_eq_exp_minus_1)
qed

text \<open>
  \<open>pmm_free_frame\<close> tests the bit the wrong way round: a set bit is a frame in use, and the
  function panics on it. So it accepts exactly the frames that are already free.
\<close>

lemma pmm_free_Inr:
  assumes "pmm_inv p" "pmm_free_frame f p = Inr p'"
  shows "f \<in> free_frames p \<and> pmm_inv p' \<and> free_frames p' = free_frames p"
proof -
  let ?k = "addr_to_page f"
  have k: "f \<noteq> 0" "f AND 0xfff = 0" "?k < total_pages p" "\<not> used p ?k"
    and p': "p' = p\<lparr>pmm_mem := BIT_CLEAR (pmm_mem p) (bitmap_addr p) ?k\<rparr>"
    using assms(2) by (auto simp: pmm_free_frame_def Let_def used_def split: if_splits)
  have f: "?k * PAGE_SIZE = f" by (rule and_fff_page [OF k(2)])
  have "?k \<noteq> 0" using f k(1) by auto
  then have k1: "1 \<le> ?k" by (simp add: word_le_nat_alt Suc_leI unat_gt_0)
  have "f \<in> free_frames p" using frame_mem_iff [OF assms(1) k(3)] k1 k(4) f by simp
  with free_frames_clear [OF assms(1) k1 k(3)] f show ?thesis
    using assms(1) unfolding p' by (auto simp: pmm_inv_def)
qed

section \<open>The contract of a frame allocator\<close>

locale frame_allocator =
  fixes alloc :: "'s \<Rightarrow> (u32 \<times> 's) res"
    and frames :: "'s \<Rightarrow> u32 set"
    and inv :: "'s \<Rightarrow> bool"
  assumes alloc_Inr: "inv s \<Longrightarrow> alloc s = Inr (f, s') \<Longrightarrow>
      inv s' \<and> f \<in> frames s \<and> frames s' = frames s - {f}"
    and alloc_Inl: "inv s \<Longrightarrow> alloc s = Inl e \<Longrightarrow> frames s = {}"
    and frames_page: "inv s \<Longrightarrow> f \<in> frames s \<Longrightarrow> f \<noteq> 0 \<and> f AND 0xfff = 0"
    and frames_finite: "finite (frames s)"
begin

text \<open>What the clients use: a run of allocations, as \<open>uprocess_load\<close> and \<open>kalloc_pages\<close> make.\<close>

primrec alloc_many :: "nat \<Rightarrow> 's \<Rightarrow> (u32 list \<times> 's) res" where
  "alloc_many 0 s = Inr ([], s)"
| "alloc_many (Suc n) s =
     bind_res (alloc s) (\<lambda>(f, s1). bind_res (alloc_many n s1) (\<lambda>(fs, s2). Inr (f # fs, s2)))"

lemma alloc_many_Inr:
  "inv s \<Longrightarrow> alloc_many n s = Inr (fs, s') \<Longrightarrow>
     inv s' \<and> length fs = n \<and> distinct fs \<and> set fs \<subseteq> frames s \<and> frames s' = frames s - set fs"
proof (induction n arbitrary: s fs)
  case (Suc n)
  then obtain f s1 gs where f: "alloc s = Inr (f, s1)" "alloc_many n s1 = Inr (gs, s')" "fs = f # gs"
    by auto
  from alloc_Inr [OF Suc.prems(1) f(1)] Suc.IH [OF _ f(2)] f(3) show ?case by auto
qed simp

lemma alloc_many_total:
  "inv s \<Longrightarrow> (\<exists>fs s'. alloc_many n s = Inr (fs, s')) \<longleftrightarrow> n \<le> card (frames s)"
proof (induction n arbitrary: s)
  case (Suc n)
  show ?case
  proof (cases "alloc s")
    case (Inl e)
    with alloc_Inl [OF Suc.prems Inl] show ?thesis by simp
  next
    case (Inr r)
    then obtain f s1 where f: "alloc s = Inr (f, s1)" by (cases r) auto
    note spec = alloc_Inr [OF Suc.prems f]
    have "card (frames s) = Suc (card (frames s1))"
      using spec frames_finite [of s] by (metis card_Suc_Diff1)
    moreover have "(\<exists>fs s'. alloc_many n s1 = Inr (fs, s')) \<longleftrightarrow> n \<le> card (frames s1)"
      using Suc.IH spec by blast
    ultimately show ?thesis using f by auto
  qed
qed simp

end

lemma free_frames_finite: "finite (free_frames p)"
  by simp

lemma free_frames_page: "pmm_inv p \<Longrightarrow> f \<in> free_frames p \<Longrightarrow> f \<noteq> 0 \<and> f AND 0xfff = 0"
proof -
  assume inv: "pmm_inv p" and "f \<in> free_frames p"
  then obtain i where i: "f = i * PAGE_SIZE" "1 \<le> i" "i < total_pages p"
    unfolding free_frames_def by blast
  have "unat f = unat i * 4096" unfolding i(1) by (rule page_frame_unat [OF inv i(3)])
  moreover have "unat i \<noteq> 0" using i(2) by (simp add: word_le_nat_alt)
  ultimately show ?thesis unfolding i(1) by (auto simp: page_and_fff)
qed

interpretation frame: frame_allocator pmm_alloc_frame free_frames pmm_inv
  by unfold_locales
    (auto dest: pmm_alloc_Inr pmm_alloc_Inl free_frames_page intro: free_frames_finite)

section \<open>pmm_init\<close>

lemma memset_used:
  assumes "i < t" "unat t \<le> 1048576"
  shows "BIT_TEST (memset m bm 0xff ((t + 7) div 8)) bm i"
proof -
  have i: "unat i < unat t" using assms(1) by (simp add: word_less_nat_alt)
  have t7: "unat (t + 7) = unat t + 7" using assms(2) by (subst unat_add_u32) auto
  have "unat (i div 8) < unat ((t + 7) div 8)"
    using i by (simp add: unat_div t7)
  moreover have "bit (255 :: u8) (unat (i mod 8))"
  proof -
    have "(255 :: u8) = mask 8" by (simp add: mask_eq_exp_minus_1)
    then show ?thesis by (simp only: bit_mask_iff) simp
  qed
  ultimately show ?thesis by (simp add: BIT_TEST_bit memset_at)
qed

lemma pmm_init_fields:
  "total_pages (pmm_init mm fa fp fh fs m) = total_memory mm div PAGE_SIZE"
  "bitmap_addr (pmm_init mm fa fp fh fs m) = (kend mm + 0xfff) AND NOT 0xfff"
  "bitmap_size (pmm_init mm fa fp fh fs m) = (total_memory mm div PAGE_SIZE + 7) div 8"
  by (simp_all add: pmm_init_def Let_def fold_mark_free)

lemma pmm_init_inv: "pmm_inv (pmm_init mm fa fp fh fs m)"
proof -
  have "unat (total_memory mm) div 4096 \<le> 1048576"
    using unat_u32_bound [of "total_memory mm"] by linarith
  then show ?thesis
    unfolding pmm_inv_def pmm_init_fields by (simp add: unat_div PAGE_SIZE_def)
qed

definition reserved_page :: "mmap_state \<Rightarrow> u64 \<Rightarrow> u32 \<Rightarrow> u32 \<Rightarrow> u32 \<Rightarrow> u32 \<Rightarrow> bool" where
  "reserved_page mm fa fp fh fs i \<longleftrightarrow>
     (let bm = (kend mm + 0xfff) AND NOT 0xfff; phys = bm - KERNEL_OFFSET;
          bsize = (total_memory mm div PAGE_SIZE + 7) div 8
      in page_in 0 0x100000 i
       \<or> page_in (kpstart mm AND NOT 0xfff)
           (((kpend mm + 0xfff) AND NOT 0xfff) - (kpstart mm AND NOT 0xfff)) i
       \<or> page_in (phys AND NOT 0xfff)
           (((phys + bsize + 0xfff) AND NOT 0xfff) - (phys AND NOT 0xfff)) i
       \<or> page_in (ucast fa) (fp * fh) i
       \<or> page_in (fs - KERNEL_OFFSET) sizeof_fb i)"

lemma pmm_init_used:
  assumes "i < total_memory mm div PAGE_SIZE"
  shows "used (pmm_init mm fa fp fh fs m) i \<longleftrightarrow>
    reserved_page mm fa fp fh fs i
    \<or> (\<forall>r \<in> set (usable_regions mm). \<not> page_in (rbase r) (rlength r) i)"
proof -
  have t: "unat (total_memory mm div PAGE_SIZE) \<le> 1048576"
    using pmm_init_inv [of mm] unfolding pmm_inv_def pmm_init_fields .
  show ?thesis
    using memset_used [OF assms t]
    by (auto simp: pmm_init_def Let_def fold_mark_free reserved_page_def used_def [of "\<lparr>total_pages = _,
        bitmap_addr = _, bitmap_size = _, pmm_mem = _\<rparr>"])
qed

section \<open>The usable regions\<close>

text \<open>
  The region table never overflows and every region ends at or below 4 GiB, provided no
  entry of the memory map wraps around 64 bits.
\<close>

definition regions_ok :: "mmap_state \<Rightarrow> bool" where
  "regions_ok s \<longleftrightarrow> length (usable_regions s) \<le> MAX_MEM_REGIONS
     \<and> (\<forall>r \<in> set (usable_regions s). unat (rbase r) + unat (rlength r) \<le> 4294967296)"

definition entry_no_wrap :: "mem \<Rightarrow> u32 \<Rightarrow> bool" where
  "entry_no_wrap m e \<longleftrightarrow> unat (load64 m e) + unat (load64 m (e + 8)) < 18446744073709551616"

lemma region_end:
  fixes base len :: u64
  assumes "unat base + unat len < 18446744073709551616" "base < 0x100000000"
  shows "unat (ucast base :: u32) +
    unat ((if base + len > 0x100000000 then ucast (0x100000000 - base) else ucast len) :: u32)
      \<le> 4294967296"
proof -
  have b: "unat base < 4294967296" using assms(2) by (simp add: word_less_nat_alt)
  have ub: "unat (ucast base :: u32) = unat base"
    using b by (simp add: unsigned_ucast_eq take_bit_nat_eq_self)
  have top: "unat (base + len) = unat base + unat len"
    using assms(1) by (simp add: unat_word_ariths)
  show ?thesis
  proof (cases "base + len > 0x100000000")
    case True
    have "unat (0x100000000 - base) = 4294967296 - unat base"
      using b by (subst unat_sub) (simp_all add: word_le_nat_alt)
    then have "unat (ucast (0x100000000 - base) :: u32) \<le> 4294967296 - unat base"
      by (simp add: unsigned_ucast_eq take_bit_eq_mod)
    with True ub b show ?thesis by simp
  next
    case False
    then have "unat base + unat len \<le> 4294967296"
      using top by (simp add: word_less_nat_alt not_less)
    moreover have "unat (ucast len :: u32) \<le> unat len"
      by (simp add: unsigned_ucast_eq take_bit_eq_mod)
    ultimately show ?thesis using False ub by simp
  qed
qed

lemma mmap_entry_regions_ok:
  assumes "entry_no_wrap m e" "regions_ok s"
  shows "regions_ok (mmap_entry m e s)"
proof -
  have "load64 m e < 0x100000000 \<Longrightarrow> unat (ucast (load64 m e) :: u32) +
    unat ((if load64 m e + load64 m (e + 8) > 0x100000000
      then ucast (0x100000000 - load64 m e) else ucast (load64 m (e + 8))) :: u32) \<le> 4294967296"
    by (rule region_end [OF assms(1) [unfolded entry_no_wrap_def]])
  then show ?thesis
    using assms(2) unfolding mmap_entry_def Let_def regions_ok_def
    by (simp add: Suc_leI del: if_split)
qed

lemma mmap_entries_regions_ok:
  assumes "mmap_entries m es me e s = Some s'" "\<forall>a. entry_no_wrap m a" "regions_ok s"
  shows "regions_ok s'"
proof -
  have "(\<forall>a. entry_no_wrap m a) \<longrightarrow> regions_ok s \<longrightarrow> regions_ok s'"
  proof (rule mmap_entries.raw_induct [where P = "\<lambda>m es me e s r.
      (\<forall>a. entry_no_wrap m a) \<longrightarrow> regions_ok s \<longrightarrow> regions_ok r", OF _ assms(1)])
    fix f :: "mem \<Rightarrow> u32 \<Rightarrow> u32 \<Rightarrow> u32 \<Rightarrow> mmap_state \<Rightarrow> mmap_state option"
      and m es me e s y
    assume IH: "\<And>m es me e s r. f m es me e s = Some r \<Longrightarrow>
        (\<forall>a. entry_no_wrap m a) \<longrightarrow> regions_ok s \<longrightarrow> regions_ok r"
      and eq: "(if e < me then f m es me (e + es) (mmap_entry m e s) else Some s) = Some y"
    show "(\<forall>a. entry_no_wrap m a) \<longrightarrow> regions_ok s \<longrightarrow> regions_ok y"
      using IH [of m es me "e + es" "mmap_entry m e s" y] eq mmap_entry_regions_ok
      by (auto split: if_splits)
  qed
  with assms(2,3) show ?thesis by blast
qed

section \<open>Bytes written\<close>

definition bitmap_fits :: "pmm \<Rightarrow> bool" where
  "bitmap_fits p \<longleftrightarrow> bitmap_size p = (total_pages p + 7) div 8"

lemma bitmap_byte_inside:
  assumes "pmm_inv p" "bitmap_fits p" "i < total_pages p"
  shows "unat (bitmap_addr p + i div 8 - bitmap_addr p) < unat (bitmap_size p)"
proof -
  have "unat (total_pages p + 7) = unat (total_pages p) + 7"
    using assms(1) unfolding pmm_inv_def by (subst unat_add_u32) auto
  moreover have "unat i < unat (total_pages p)" using assms(3) by (simp add: word_less_nat_alt)
  ultimately show ?thesis using assms(2) by (simp add: bitmap_fits_def unat_div)
qed

lemma pmm_alloc_bytes:
  assumes "pmm_inv p" "bitmap_fits p" "pmm_alloc_frame p = Inr (f, p')"
    and "\<not> unat (a - bitmap_addr p) < unat (bitmap_size p)"
  shows "pmm_mem p' a = pmm_mem p a"
proof -
  obtain k where k: "k < total_pages p"
      "p' = p\<lparr>pmm_mem := BIT_SET (pmm_mem p) (bitmap_addr p) k\<rparr>"
    using pmm_alloc_scan_Inr assms(3) unfolding pmm_alloc_frame_def by blast
  have "a \<noteq> bitmap_addr p + k div 8"
    using bitmap_byte_inside [OF assms(1,2) k(1)] assms(4) by auto
  then show ?thesis by (simp add: k(2) BIT_SET_other)
qed

text \<open>
  The first bit \<open>pmm_mark_used\<close> sets is in the byte \<open>page div 8\<close> of the bitmap, whether or
  not the bitmap has that byte.
\<close>

lemma pmm_mark_used_past_bitmap:
  assumes "bitmap_size p \<le> addr_to_page addr div 8" "page_in addr len (addr_to_page addr)"
  shows "\<exists>a. \<not> unat (a - bitmap_addr p) < unat (bitmap_size p) \<and>
    bit (pmm_mem (pmm_mark_used addr len p) a) (unat (addr_to_page addr mod 8))"
proof -
  have "used (pmm_mark_used addr len p) (addr_to_page addr)" using assms(2) by simp
  then have "bit (pmm_mem (pmm_mark_used addr len p) (bitmap_addr p + addr_to_page addr div 8))
      (unat (addr_to_page addr mod 8))"
    by (simp add: used_def BIT_TEST_bit)
  moreover have "\<not> unat (bitmap_addr p + addr_to_page addr div 8 - bitmap_addr p) < unat (bitmap_size p)"
    using assms(1) by (simp add: word_le_nat_alt)
  ultimately show ?thesis by blast
qed

section \<open>Properties\<close>

text \<open>A machine of eight pages for the witnesses: pages 0 and 1 are in use.\<close>

definition small_pmm :: pmm where
  "small_pmm = \<lparr>total_pages = 8, bitmap_addr = 0xc0400000, bitmap_size = 1,
     pmm_mem = (\<lambda>_. 0)(0xc0400000 := 3)\<rparr>"

lemma small_pmm_ok: "pmm_inv small_pmm" "bitmap_fits small_pmm"
  by (simp_all add: small_pmm_def pmm_inv_def bitmap_fits_def)

lemma small_pmm_alloc:
  "pmm_alloc_frame small_pmm =
     Inr (0x2000, small_pmm\<lparr>pmm_mem := (pmm_mem small_pmm)(0xc0400000 := 7)\<rparr>)"
  by (simp add: pmm_alloc_frame_def pmm_alloc_scan.simps [of _ 1] pmm_alloc_scan.simps [of _ 2]
      BIT_TEST_def BIT_SET_def PAGE_SIZE_def small_pmm_def)

text \<open>C1: \<open>pmm_alloc_frame\<close> implements "take the lowest free frame": with a free frame it
  returns the least one, removes exactly it from the free set and writes no byte outside the
  bitmap; it panics only when no frame is free.\<close>

theorem pmm_alloc_frame_refines:
  assumes "pmm_inv p" "bitmap_fits p"
  shows "case pmm_alloc_frame p of
      Inr (f, p') \<Rightarrow> f \<in> free_frames p \<and> (\<forall>g \<in> free_frames p. f \<le> g)
        \<and> free_frames p' = free_frames p - {f} \<and> pmm_inv p'
        \<and> (\<forall>a. \<not> unat (a - bitmap_addr p) < unat (bitmap_size p) \<longrightarrow> pmm_mem p' a = pmm_mem p a)
    | Inl e \<Rightarrow> free_frames p = {} \<and> e = Panic ''pmm_alloc_frame() -> out of physical memory''"
  using pmm_alloc_Inr [OF assms(1)] pmm_alloc_Inl pmm_alloc_bytes [OF assms]
  by (auto split: sum.splits)

lemma pmm_alloc_frame_refines_witness:
  "(0x2000 :: u32) \<in> free_frames small_pmm \<and> pmm_inv (small_pmm\<lparr>pmm_mem := (pmm_mem small_pmm)(0xc0400000 := 7)\<rparr>)"
  using pmm_alloc_frame_refines [OF small_pmm_ok] by (simp add: small_pmm_alloc)

text \<open>A run of \<open>n\<close> frame allocations succeeds exactly when \<open>n\<close> frames are free, and the
  frames it returns are pairwise distinct, non-null and page aligned.\<close>

theorem pmm_alloc_many_distinct:
  assumes "pmm_inv p"
  shows "((\<exists>fs p'. frame.alloc_many n p = Inr (fs, p')) \<longleftrightarrow> n \<le> card (free_frames p))
    \<and> (\<forall>fs p'. frame.alloc_many n p = Inr (fs, p') \<longrightarrow>
      distinct fs \<and> length fs = n \<and> free_frames p' = free_frames p - set fs
      \<and> (\<forall>f \<in> set fs. f \<noteq> 0 \<and> f AND 0xfff = 0))"
  using frame.alloc_many_total [OF assms] frame.alloc_many_Inr [OF assms] free_frames_page [OF assms]
  by blast

lemma pmm_alloc_many_distinct_witness:
  "(\<exists>fs p'. frame.alloc_many 1 small_pmm = Inr (fs, p')) \<longleftrightarrow> 1 \<le> card (free_frames small_pmm)"
  using pmm_alloc_many_distinct [OF small_pmm_ok(1), of 1] by blast

text \<open>C6: \<open>pmm_free_frame\<close> cannot give back a frame: right after an allocation it panics with
  "double free", and whenever it does return, the frame was free already and the free set is
  unchanged.\<close>

theorem pmm_free_frame_never_frees:
  assumes "pmm_inv p"
  shows "(pmm_alloc_frame p = Inr (f, p') \<longrightarrow>
        pmm_free_frame f p' = Inl (Panic ''pmm_free_frame() -> double free''))
    \<and> (pmm_free_frame g p = Inr q \<longrightarrow> g \<in> free_frames p \<and> free_frames q = free_frames p)"
proof (intro conjI impI)
  assume "pmm_alloc_frame p = Inr (f, p')"
  then obtain k where k: "1 \<le> k" "k < total_pages p" "f = k * PAGE_SIZE"
      "p' = p\<lparr>pmm_mem := BIT_SET (pmm_mem p) (bitmap_addr p) k\<rparr>"
    using pmm_alloc_scan_Inr unfolding pmm_alloc_frame_def by blast
  have "f \<noteq> 0"
    using page_frame_unat [OF assms k(2)] k(1) by (auto simp: k(3) word_le_nat_alt)
  then show "pmm_free_frame f p' = Inl (Panic ''pmm_free_frame() -> double free'')"
    using k by (simp add: pmm_free_frame_def addr_to_page_frame [OF assms k(2)] page_and_fff
        linorder_not_le [symmetric])
qed (use pmm_free_Inr [OF assms] in blast)+

lemma pmm_free_frame_never_frees_witness:
  "pmm_free_frame 0x2000 (small_pmm\<lparr>pmm_mem := (pmm_mem small_pmm)(0xc0400000 := 7)\<rparr>) =
     Inl (Panic ''pmm_free_frame() -> double free'')"
  using pmm_free_frame_never_frees [OF small_pmm_ok(1)] small_pmm_alloc by blast

text \<open>C9: after \<open>pmm_init\<close> the free frames are exactly the pages from 1 below \<open>total_pages\<close>
  that some usable region covers and that are not reserved: not in the first megabyte, the
  kernel image, the bitmap, the framebuffer or the kernel's framebuffer record.\<close>

theorem pmm_init_free_frames:
  "free_frames (pmm_init mm fa fp fh fs m) =
     {i * PAGE_SIZE | i. 1 \<le> i \<and> i < total_memory mm div PAGE_SIZE
        \<and> \<not> reserved_page mm fa fp fh fs i
        \<and> (\<exists>r \<in> set (usable_regions mm). page_in (rbase r) (rlength r) i)}"
  unfolding free_frames_def pmm_init_fields using pmm_init_used by blast

end
