(* ===== verification/Paging.thy ===== *)
theory Paging
  imports Pmm
begin

text \<open>
  Two-level paging: \<open>src/memory/paging.c\<close>, and \<open>remove_identity_map\<close> of \<open>src/kernel.c\<close>.

  The state holds physical memory as bytes, the page directory's physical address (\<open>cr3\<close>) and
  the frame allocator. \<open>translate\<close> is the walk of the i686 MMU without PSE (supervisor access,
  CR0.WP clear, as \<open>boot.s\<close> sets it: the present bits decide). The C code reaches the
  directory and the tables through the recursive slot 1023, that is through virtual addresses;
  the model does the same with \<open>vload32\<close> and \<open>vstore32\<close>, and a failed walk is a \<open>Fault\<close>.
  The TLB is not modelled: every walk sees the current tables, as after the \<open>invlpg\<close> the code
  issues. The bytes of the frame bitmap are the allocator's own (\<open>pmm_mem\<close>).
\<close>

section \<open>The machine's view\<close>

record vm =
  cr3 :: u32
  pmem :: mem
  frames :: pmm

definition PAGE_PRESENT :: u32 where "PAGE_PRESENT = 1"
definition PAGE_RW :: u32 where "PAGE_RW = 2"
definition PAGE_USER :: u32 where "PAGE_USER = 4"

definition RECURSIVE_BASE :: u32 where "RECURSIVE_BASE = 0xffc00000"
definition PAGE_DIR_VIRT :: u32 where "PAGE_DIR_VIRT = 0xfffff000"
definition RECURSIVE_SLOT :: u32 where "RECURSIVE_SLOT = 1023"

definition pd_index :: "u32 \<Rightarrow> u32" where
  "pd_index virt = drop_bit 22 virt"

definition pt_index :: "u32 \<Rightarrow> u32" where
  "pt_index virt = drop_bit 12 virt AND 0x3ff"

definition page_base :: "u32 \<Rightarrow> u32" where
  "page_base e = e AND NOT 0xfff"

definition pde :: "vm \<Rightarrow> u32 \<Rightarrow> u32" where
  "pde s i = load32 (pmem s) (cr3 s + 4 * i)"

definition pte :: "vm \<Rightarrow> u32 \<Rightarrow> u32 \<Rightarrow> u32" where
  "pte s t i = load32 (pmem s) (t + 4 * i)"

definition translate :: "vm \<Rightarrow> u32 \<Rightarrow> u32 option" where
  "translate s v =
     (let d = pde s (pd_index v)
      in if d AND PAGE_PRESENT = 0 then None
         else let e = pte s (page_base d) (pt_index v)
              in if e AND PAGE_PRESENT = 0 then None
                 else Some (page_base e + (v AND 0xfff)))"

definition vload32 :: "u32 \<Rightarrow> vm \<Rightarrow> u32 res" where
  "vload32 v s = (case translate s v of None \<Rightarrow> Inl (Fault ''page fault'')
     | Some p \<Rightarrow> Inr (load32 (pmem s) p))"

definition vstore32 :: "u32 \<Rightarrow> u32 \<Rightarrow> vm \<Rightarrow> vm res" where
  "vstore32 v x s = (case translate s v of None \<Rightarrow> Inl (Fault ''page fault'')
     | Some p \<Rightarrow> Inr (s\<lparr>pmem := store32 (pmem s) p x\<rparr>))"

text \<open>\<open>memset\<close> of one whole page through its virtual address.\<close>

definition vmemset_page :: "u32 \<Rightarrow> u32 \<Rightarrow> vm \<Rightarrow> vm res" where
  "vmemset_page v c s = (case translate s v of None \<Rightarrow> Inl (Fault ''page fault'')
     | Some p \<Rightarrow> Inr (s\<lparr>pmem := memset (pmem s) p c PAGE_SIZE\<rparr>))"

section \<open>paging.c\<close>

definition alloc_frame :: "vm \<Rightarrow> (u32 \<times> vm) res" where
  "alloc_frame s = bind_res (pmm_alloc_frame (frames s)) (\<lambda>(f, p). Inr (f, s\<lparr>frames := p\<rparr>))"

definition free_frame :: "u32 \<Rightarrow> vm \<Rightarrow> vm res" where
  "free_frame f s = bind_res (pmm_free_frame f (frames s)) (\<lambda>p. Inr (s\<lparr>frames := p\<rparr>))"

text \<open>\<open>pd_sym\<close> is the address of the boot page directory, which \<open>boot.s\<close> defines.\<close>

definition paging_init :: "u32 \<Rightarrow> vm \<Rightarrow> (u32 \<times> vm) res" where
  "paging_init pd_sym s =
     (let kernel_pd_phys = pd_sym - KERNEL_OFFSET
      in bind_res (vstore32 (pd_sym + 4 * RECURSIVE_SLOT) (kernel_pd_phys OR PAGE_PRESENT OR PAGE_RW) s)
           (\<lambda>s. Inr (kernel_pd_phys, s)))"

definition map_page :: "u32 \<Rightarrow> u32 \<Rightarrow> u32 \<Rightarrow> vm \<Rightarrow> vm res" where
  "map_page phys virt flags s =
     (let pdi = pd_index virt; pti = pt_index virt; pt_virt = RECURSIVE_BASE + pdi * 0x1000
      in bind_res (vload32 (PAGE_DIR_VIRT + 4 * pdi) s) (\<lambda>d.
         bind_res
           (if d AND PAGE_PRESENT = 0
            then bind_res (alloc_frame s) (\<lambda>(pt_phys, s).
                 if pt_phys = 0 then Inl (Panic ''map_page() -> failed to allocate page table'')
                 else let pd_flags = PAGE_PRESENT OR PAGE_RW;
                          pd_flags = (if flags AND PAGE_USER \<noteq> 0 then pd_flags OR PAGE_USER else pd_flags)
                      in bind_res (vstore32 (PAGE_DIR_VIRT + 4 * pdi) (pt_phys OR pd_flags) s)
                           (vmemset_page pt_virt 0))
            else Inr s)
           (vstore32 (pt_virt + 4 * pti)
              ((phys AND NOT 0xfff) OR (flags AND 0xfff) OR PAGE_PRESENT))))"

primrec table_empty :: "nat \<Rightarrow> u32 \<Rightarrow> u32 \<Rightarrow> vm \<Rightarrow> bool res" where
  "table_empty 0 pt_virt i s = Inr True"
| "table_empty (Suc n) pt_virt i s =
     bind_res (vload32 (pt_virt + 4 * i) s) (\<lambda>e.
       if e AND PAGE_PRESENT \<noteq> 0 then Inr False else table_empty n pt_virt (i + 1) s)"

definition unmap_page :: "u32 \<Rightarrow> vm \<Rightarrow> vm res" where
  "unmap_page virt s =
     (let pdi = pd_index virt; pti = pt_index virt; pt_virt = RECURSIVE_BASE + pdi * 0x1000
      in bind_res (vload32 (PAGE_DIR_VIRT + 4 * pdi) s) (\<lambda>d.
         if d AND PAGE_PRESENT = 0 then Inr s
         else bind_res (vload32 (pt_virt + 4 * pti) s) (\<lambda>e.
         if e AND PAGE_PRESENT = 0 then Inr s
         else bind_res (vstore32 (pt_virt + 4 * pti) 0 s) (\<lambda>s.
              bind_res (table_empty 1024 pt_virt 0 s) (\<lambda>empty.
              if empty
              then bind_res (vload32 (PAGE_DIR_VIRT + 4 * pdi) s) (\<lambda>d.
                   bind_res (vstore32 (PAGE_DIR_VIRT + 4 * pdi) 0 s)
                     (free_frame (d AND NOT 0xfff)))
              else Inr s)))))"

definition remove_identity_map :: "vm \<Rightarrow> vm res" where
  "remove_identity_map s = vstore32 PAGE_DIR_VIRT 0 s"

section \<open>Page arithmetic\<close>

definition page_aligned :: "u32 \<Rightarrow> bool" where
  "page_aligned a \<longleftrightarrow> unat a mod 4096 = 0"

lemma page_base_unat: "unat (page_base a) = unat a div 4096 * 4096"
proof -
  have "page_base a = push_bit 12 (drop_bit 12 a)"
  proof (rule bit_word_eqI)
    fix n
    have "(0xfff :: u32) = mask 12" by (simp add: mask_eq_exp_minus_1)
    then have "page_base a = a AND NOT (mask 12)" by (simp add: page_base_def)
    then show "n < LENGTH(32) \<Longrightarrow> bit (page_base a) n = bit (push_bit 12 (drop_bit 12 a)) n"
      by (auto simp: bit_simps)
  qed
  then have "unat (page_base a) = unat (a div 4096 * 4096)"
    by (simp add: push_bit_eq_mult drop_bit_eq_div)
  also have "\<dots> = (unat a div 4096 * 4096) mod 4294967296"
    by (simp add: unat_word_ariths unat_div mod_mult_left_eq)
  also have "\<dots> = unat a div 4096 * 4096"
  proof -
    have "unat a div 4096 * 4096 \<le> unat a" by simp
    then show ?thesis using unat_u32_bound [of a] by (intro mod_less) linarith
  qed
  finally show ?thesis .
qed

lemma page_off_unat: "unat (v AND 0xfff :: u32) = unat v mod 4096"
proof -
  have "(0xfff :: u32) = mask 12" by (simp add: mask_eq_exp_minus_1)
  then have "v AND 0xfff = take_bit 12 v" by (simp only: take_bit_eq_mask)
  then show ?thesis by (simp add: take_bit_eq_mod unat_mod)
qed

lemma pd_index_unat: "unat (pd_index v) = unat v div 4194304"
  by (simp add: pd_index_def drop_bit_eq_div unat_div)

lemma pt_index_unat: "unat (pt_index v) = unat v div 4096 mod 1024"
proof -
  have "(0x3ff :: u32) = mask 10" by (simp add: mask_eq_exp_minus_1)
  then have "pt_index v = take_bit 10 (drop_bit 12 v)" by (simp only: take_bit_eq_mask pt_index_def)
  then show ?thesis
    by (simp add: take_bit_eq_mod drop_bit_eq_div unat_div unat_mod)
qed

lemma pd_index_bound [simp]: "unat (pd_index v) < 1024"
  using unat_u32_bound [of v] unfolding pd_index_unat by linarith

lemma pt_index_bound [simp]: "unat (pt_index v) < 1024"
  by (simp add: pt_index_unat)

lemma page_base_aligned [simp]: "page_aligned (page_base a)"
  by (simp add: page_aligned_def page_base_unat)

lemma page_aligned_iff: "page_aligned a \<longleftrightarrow> a AND 0xfff = 0"
  unfolding page_aligned_def page_off_unat [symmetric] by (simp add: unat_eq_0)

lemma page_aligned_div: "page_aligned b \<Longrightarrow> unat b = 4096 * (unat b div 4096)"
  unfolding page_aligned_def by (metis mult_div_mod_eq add_0_right)

lemma page_add_unat:
  assumes "page_aligned b" "unat x < 4096"
  shows "unat (b + x) = unat b + unat x"
proof (rule unat_add_u32)
  have "unat b div 4096 < 1048576" using unat_u32_bound [of b] by linarith
  then show "unat b + unat x < 4294967296"
    using page_aligned_div [OF assms(1)] assms(2) by linarith
qed

lemma page_add_div:
  assumes "page_aligned b" "unat x < 4096"
  shows "unat (b + x) div 4096 = unat b div 4096" "unat (b + x) mod 4096 = unat x"
proof -
  have e: "unat (b + x) = 4096 * (unat b div 4096) + unat x"
    using page_add_unat [OF assms] page_aligned_div [OF assms(1)] by linarith
  show "unat (b + x) div 4096 = unat b div 4096" unfolding e using assms(2) by simp
  show "unat (b + x) mod 4096 = unat x" unfolding e using assms(2) by simp
qed

lemma page_add_inj:
  assumes "page_aligned b" "page_aligned c" "unat x < 4096" "unat y < 4096" "b + x = c + y"
  shows "b = c \<and> x = y"
proof -
  have "unat b div 4096 = unat c div 4096"
    using page_add_div(1) [OF assms(1,3)] page_add_div(1) [OF assms(2,4)] assms(5) by simp
  then have "b = c"
    using page_aligned_div [OF assms(1)] page_aligned_div [OF assms(2)] by (metis unat_inj_u32)
  with assms(5) show ?thesis by simp
qed

lemma four_times_unat: "unat (i :: u32) < 1024 \<Longrightarrow> unat (4 * i) = 4 * unat i"
  using unat_mult_u32 [of 4 i] by simp

lemma four_times_inj: "unat (i :: u32) < 1024 \<Longrightarrow> unat j < 1024 \<Longrightarrow> 4 * i = 4 * j \<Longrightarrow> i = j"
  using four_times_unat [of i] four_times_unat [of j] by (simp add: unat_inj_u32)

lemma entry_off: "unat (i :: u32) < 1024 \<Longrightarrow> unat (4 * i) < 4096"
  by (simp add: four_times_unat)

lemma entry_aligned4:
  assumes "page_aligned t" "unat (i :: u32) < 1024"
  shows "aligned4 (t + 4 * i)"
proof -
  obtain q where "unat t = 4096 * q" using page_aligned_div [OF assms(1)] ..
  then have e: "unat (t + 4 * i) = 4 * (1024 * q + unat i)"
    using page_add_unat [OF assms(1) entry_off [OF assms(2)]] four_times_unat [OF assms(2)] by simp
  show ?thesis unfolding aligned4_def e by simp
qed

lemma entry_inj:
  assumes "page_aligned t" "page_aligned u" "unat (i :: u32) < 1024" "unat j < 1024"
  shows "t + 4 * i = u + 4 * j \<longleftrightarrow> t = u \<and> i = j"
  using page_add_inj [OF assms(1,2) entry_off [OF assms(3)] entry_off [OF assms(4)]]
    four_times_inj [OF assms(3,4)] by blast

lemma page_base_id: "page_aligned f \<Longrightarrow> page_base f = f"
  using page_base_unat [of f] page_aligned_div [of f] by (metis mult.commute unat_inj_u32)

lemma page_base_or: "page_base (a OR b) = page_base a OR page_base b"
  by (simp add: page_base_def bit.conj_disj_distrib2)

lemma present_or: "(a OR b) AND PAGE_PRESENT = 0 \<longleftrightarrow> a AND PAGE_PRESENT = 0 \<and> b AND PAGE_PRESENT = 0"
  by (simp add: bit.conj_disj_distrib2 or_eq_0_iff)

lemma page_base_low: "unat x < 4096 \<Longrightarrow> page_base x = 0"
  using page_base_unat [of x] by (simp add: unat_eq_0)

lemma load32_memset_page:
  assumes "page_aligned f" "page_aligned u" "unat (i :: u32) < 1024"
  shows "load32 (memset m f 0 PAGE_SIZE) (u + 4 * i) = (if u = f then 0 else load32 m (u + 4 * i))"
proof -
  have byte: "memset m f 0 PAGE_SIZE (u + 4 * i + of_nat k) =
      (if u = f then 0 else m (u + 4 * i + of_nat k))" if k: "k < 4" for k
  proof -
    have x: "unat (4 * i + of_nat k) = 4 * unat i + k"
      using assms(3) k four_times_unat [OF assms(3)] by (subst unat_add_u32) auto
    then have lt: "unat (4 * i + of_nat k) < 4096" using assms(3) k by simp
    have "unat (u + 4 * i + of_nat k - f) < 4096 \<longleftrightarrow> u = f"
    proof
      assume d: "unat (u + 4 * i + of_nat k - f) < 4096"
      have "u + (4 * i + of_nat k) = f + (u + 4 * i + of_nat k - f)" by (simp add: add.assoc)
      from page_add_inj [OF assms(2,1) lt d this] show "u = f" ..
    qed (use lt in \<open>simp add: add.assoc\<close>)
    then show ?thesis by (simp add: memset_at PAGE_SIZE_def)
  qed
  from byte [of 0] byte [of 1] byte [of 2] byte [of 3] show ?thesis
    by (simp add: load32_def)
qed

section \<open>The recursive slot\<close>

definition paging_inv :: "vm \<Rightarrow> bool" where
  "paging_inv s \<longleftrightarrow> pmm_inv (frames s) \<and> page_aligned (cr3 s) \<and> cr3 s \<notin> free_frames (frames s)
     \<and> pde s RECURSIVE_SLOT AND PAGE_PRESENT \<noteq> 0 \<and> page_base (pde s RECURSIVE_SLOT) = cr3 s
     \<and> (\<forall>i. unat i < 1023 \<longrightarrow> pde s i AND PAGE_PRESENT \<noteq> 0 \<longrightarrow>
          page_base (pde s i) \<noteq> cr3 s \<and> page_base (pde s i) \<notin> free_frames (frames s))"

lemma mod_1047552: "x < 1024 \<Longrightarrow> (1047552 + x) mod 1024 = (x :: nat)"
  using mod_mult_self3 [of 1023 1024 x] by simp

lemma recursive_indices:
  assumes "unat (i :: u32) < 1024" "unat j < 1024"
  shows "pd_index (RECURSIVE_BASE + i * 0x1000 + 4 * j) = RECURSIVE_SLOT"
    and "pt_index (RECURSIVE_BASE + i * 0x1000 + 4 * j) = i"
    and "(RECURSIVE_BASE + i * 0x1000 + 4 * j) AND 0xfff = 4 * j"
proof -
  let ?v = "RECURSIVE_BASE + i * 0x1000 + 4 * j"
  have i4: "unat (i * 0x1000) = 4096 * unat i"
    using unat_mult_u32 [of i "0x1000"] assms(1) by simp
  have "unat (RECURSIVE_BASE + i * 0x1000) = 4290772992 + 4096 * unat i"
    using unat_add_u32 [of RECURSIVE_BASE "i * 0x1000"] assms(1) i4 by (simp add: RECURSIVE_BASE_def)
  then have v: "unat ?v = 4290772992 + 4096 * unat i + 4 * unat j"
    using unat_add_u32 [of "RECURSIVE_BASE + i * 0x1000" "4 * j"] assms four_times_unat [OF assms(2)]
    by simp
  have "unat (pd_index ?v) = unat RECURSIVE_SLOT"
    using assms unfolding pd_index_unat v RECURSIVE_SLOT_def by simp
  then show "pd_index ?v = RECURSIVE_SLOT" by (rule unat_inj_u32)
  have "unat ?v div 4096 = 1047552 + unat i"
    using assms(2) unfolding v by simp
  then have "unat (pt_index ?v) = unat i"
    using assms(1) mod_1047552 unfolding pt_index_unat by simp
  then show "pt_index ?v = i" by (rule unat_inj_u32)
  have "4290772992 + 4096 * unat i + 4 * unat j = 4096 * (1047552 + unat i) + 4 * unat j"
    by simp
  then have "unat ?v mod 4096 = 4 * unat j"
    using assms(2) unfolding v by (simp only: mod_mult_self4) simp
  then have "unat (?v AND 0xfff) = unat (4 * j)"
    unfolding page_off_unat four_times_unat [OF assms(2)] .
  then show "?v AND 0xfff = 4 * j" by (rule unat_inj_u32)
qed

lemma translate_recursive:
  assumes "paging_inv s" "unat (i :: u32) < 1024" "unat j < 1024" "pde s i AND PAGE_PRESENT \<noteq> 0"
  shows "translate s (RECURSIVE_BASE + i * 0x1000 + 4 * j) = Some (page_base (pde s i) + 4 * j)"
  using assms
  by (simp add: translate_def recursive_indices paging_inv_def pde_def pte_def Let_def)

lemma dir_virt: "PAGE_DIR_VIRT = RECURSIVE_BASE + RECURSIVE_SLOT * 0x1000"
  by (simp add: PAGE_DIR_VIRT_def RECURSIVE_BASE_def RECURSIVE_SLOT_def)

lemma translate_dir:
  assumes "paging_inv s" "unat (i :: u32) < 1024"
  shows "translate s (PAGE_DIR_VIRT + 4 * i) = Some (cr3 s + 4 * i)"
  unfolding dir_virt using assms translate_recursive [OF assms(1) _ assms(2), of RECURSIVE_SLOT]
  by (simp add: paging_inv_def RECURSIVE_SLOT_def)

lemma vload32_dir [simp]:
  "paging_inv s \<Longrightarrow> unat i < 1024 \<Longrightarrow> vload32 (PAGE_DIR_VIRT + 4 * i) s = Inr (pde s i)"
  by (simp add: vload32_def translate_dir pde_def)

text \<open>One entry of a page written through its table or directory.\<close>

definition set_entry :: "u32 \<Rightarrow> u32 \<Rightarrow> u32 \<Rightarrow> vm \<Rightarrow> vm" where
  "set_entry t i x s = s\<lparr>pmem := store32 (pmem s) (t + 4 * i) x\<rparr>"

definition zero_page :: "u32 \<Rightarrow> vm \<Rightarrow> vm" where
  "zero_page f s = s\<lparr>pmem := memset (pmem s) f 0 PAGE_SIZE\<rparr>"

lemma set_entry_fields [simp]:
  "cr3 (set_entry t i x s) = cr3 s" "frames (set_entry t i x s) = frames s"
  "cr3 (zero_page f s) = cr3 s" "frames (zero_page f s) = frames s"
  by (simp_all add: set_entry_def zero_page_def)

lemma pte_set_entry:
  assumes "page_aligned t" "page_aligned u" "unat i < 1024" "unat j < 1024"
  shows "pte (set_entry t i x s) u j = (if u = t \<and> j = i then x else pte s u j)"
proof (cases "u = t \<and> j = i")
  case False
  then have "t + 4 * i \<noteq> u + 4 * j" using entry_inj [OF assms] by auto
  then show ?thesis
    using False entry_aligned4 assms by (auto simp: pte_def set_entry_def)
qed (simp add: pte_def set_entry_def)

lemma pde_pte: "pde s i = pte s (cr3 s) i"
  by (simp add: pde_def pte_def)

lemma pte_zero_page:
  assumes "page_aligned f" "page_aligned u" "unat j < 1024"
  shows "pte (zero_page f s) u j = (if u = f then 0 else pte s u j)"
  by (simp add: pte_def zero_page_def load32_memset_page [OF assms])

lemma pte_frames [simp]: "pte (s\<lparr>frames := p\<rparr>) t i = pte s t i" "pde (s\<lparr>frames := p\<rparr>) i = pde s i"
  by (simp_all add: pte_def pde_def)

lemma vstore32_dir [simp]:
  "paging_inv s \<Longrightarrow> unat i < 1024 \<Longrightarrow>
     vstore32 (PAGE_DIR_VIRT + 4 * i) x s = Inr (set_entry (cr3 s) i x s)"
  by (simp add: vstore32_def translate_dir set_entry_def)

lemma vstore32_table [simp]:
  "paging_inv s \<Longrightarrow> unat i < 1024 \<Longrightarrow> unat j < 1024 \<Longrightarrow> pde s i AND PAGE_PRESENT \<noteq> 0 \<Longrightarrow>
     vstore32 (RECURSIVE_BASE + i * 0x1000 + 4 * j) x s = Inr (set_entry (page_base (pde s i)) j x s)"
  by (simp add: vstore32_def translate_recursive set_entry_def)

lemma vload32_table [simp]:
  "paging_inv s \<Longrightarrow> unat i < 1024 \<Longrightarrow> unat j < 1024 \<Longrightarrow> pde s i AND PAGE_PRESENT \<noteq> 0 \<Longrightarrow>
     vload32 (RECURSIVE_BASE + i * 0x1000 + 4 * j) s = Inr (pte s (page_base (pde s i)) j)"
  by (simp add: vload32_def translate_recursive pte_def)

lemma vmemset_table [simp]:
  "paging_inv s \<Longrightarrow> unat i < 1024 \<Longrightarrow> pde s i AND PAGE_PRESENT \<noteq> 0 \<Longrightarrow>
     vmemset_page (RECURSIVE_BASE + i * 0x1000) 0 s = Inr (zero_page (page_base (pde s i)) s)"
  using translate_recursive [of s i 0] by (simp add: vmemset_page_def zero_page_def)

text \<open>What keeps the invariant: writing an entry of a table that is not the directory, and
  making a directory entry point to a frame that is neither free nor the directory.\<close>

lemma paging_inv_set_pte:
  assumes "paging_inv s" "page_aligned t" "t \<noteq> cr3 s" "unat i < 1024"
  shows "paging_inv (set_entry t i x s)" "unat j < 1024 \<Longrightarrow> pde (set_entry t i x s) j = pde s j"
proof -
  show pd: "pde (set_entry t i x s) j = pde s j" if "unat j < 1024" for j
    using assms that by (simp add: pde_pte pte_set_entry paging_inv_def)
  show "paging_inv (set_entry t i x s)"
    using assms(1) pd [of RECURSIVE_SLOT] pd unfolding paging_inv_def
    by (simp add: RECURSIVE_SLOT_def)
qed

lemma paging_inv_zero_page:
  assumes "paging_inv s" "page_aligned t" "t \<noteq> cr3 s"
  shows "paging_inv (zero_page t s)" "unat j < 1024 \<Longrightarrow> pde (zero_page t s) j = pde s j"
proof -
  show pd: "pde (zero_page t s) j = pde s j" if "unat j < 1024" for j
    using assms that by (simp add: pde_pte pte_zero_page paging_inv_def)
  show "paging_inv (zero_page t s)"
    using assms(1) pd [of RECURSIVE_SLOT] pd unfolding paging_inv_def
    by (simp add: RECURSIVE_SLOT_def)
qed

lemma paging_inv_set_pde:
  assumes "paging_inv s" "unat i < 1023"
    and "x AND PAGE_PRESENT \<noteq> 0 \<longrightarrow> page_base x \<noteq> cr3 s \<and> page_base x \<notin> free_frames (frames s)"
  shows "paging_inv (set_entry (cr3 s) i x s)"
    and "unat j < 1024 \<Longrightarrow> pde (set_entry (cr3 s) i x s) j = (if j = i then x else pde s j)"
proof -
  show pd: "pde (set_entry (cr3 s) i x s) j = (if j = i then x else pde s j)" if "unat j < 1024" for j
    using assms(1,2) that by (simp add: pde_pte pte_set_entry paging_inv_def)
  have "i \<noteq> RECURSIVE_SLOT" using assms(2) by (auto simp: RECURSIVE_SLOT_def)
  then show "paging_inv (set_entry (cr3 s) i x s)"
    using assms pd [of RECURSIVE_SLOT] pd unfolding paging_inv_def
    by (auto simp: RECURSIVE_SLOT_def)
qed

lemma paging_inv_alloc:
  assumes "paging_inv s" "alloc_frame s = Inr (f, s')"
  shows "paging_inv s' \<and> f \<in> free_frames (frames s) \<and> f \<notin> free_frames (frames s')
    \<and> f \<noteq> 0 \<and> page_aligned f \<and> f \<noteq> cr3 s
    \<and> (\<forall>i. unat i < 1023 \<longrightarrow> pde s i AND PAGE_PRESENT \<noteq> 0 \<longrightarrow> page_base (pde s i) \<noteq> f)
    \<and> s' = s\<lparr>frames := frames s'\<rparr> \<and> free_frames (frames s') \<subseteq> free_frames (frames s)"
proof -
  obtain p where p: "pmm_alloc_frame (frames s) = Inr (f, p)" and s': "s' = s\<lparr>frames := p\<rparr>"
    using assms(2) by (auto simp: alloc_frame_def)
  have inv: "pmm_inv (frames s)" using assms(1) by (simp add: paging_inv_def)
  note a = pmm_alloc_Inr [OF inv p]
  have page: "f \<noteq> 0 \<and> f AND 0xfff = 0" using free_frames_page [OF inv] a by blast
  then show ?thesis using a assms(1) unfolding s' paging_inv_def
    by (auto simp: page_aligned_iff)
qed

section \<open>map_page\<close>

text \<open>The page table entry \<open>map_page\<close> writes, and the flags of a fresh directory entry.\<close>

definition map_entry :: "u32 \<Rightarrow> u32 \<Rightarrow> u32" where
  "map_entry phys flags = (phys AND NOT 0xfff) OR (flags AND 0xfff) OR PAGE_PRESENT"

definition dir_flags :: "u32 \<Rightarrow> u32" where
  "dir_flags flags = (if flags AND PAGE_USER \<noteq> 0 then 7 else 3)"

lemma map_entry_present [simp]: "map_entry phys flags AND PAGE_PRESENT \<noteq> 0"
  unfolding map_entry_def present_or by (simp add: PAGE_PRESENT_def)

lemma map_entry_base [simp]: "page_base (map_entry phys flags) = page_base phys"
proof -
  have "unat (flags AND 0xfff) < 4096" by (simp add: page_off_unat)
  moreover have "page_base (phys AND NOT 0xfff) = page_base phys"
    by (simp add: page_base_def and.assoc)
  ultimately show ?thesis
    by (simp add: map_entry_def page_base_or page_base_low PAGE_PRESENT_def)
qed

lemma dir_entry [simp]:
  "(f OR dir_flags flags) AND PAGE_PRESENT \<noteq> 0"
  "page_aligned f \<Longrightarrow> page_base (f OR dir_flags flags) = f"
  unfolding present_or
  by (simp_all add: page_base_or dir_flags_def page_base_low page_base_id PAGE_PRESENT_def)

lemma below_slot: "unat (i :: u32) < 1024 \<Longrightarrow> i \<noteq> RECURSIVE_SLOT \<Longrightarrow> unat i < 1023"
  using unat_inj_u32 [of i RECURSIVE_SLOT]
  by (cases "unat i = 1023") (auto simp: RECURSIVE_SLOT_def)

lemma map_page_present:
  assumes "paging_inv s" "pd_index virt \<noteq> RECURSIVE_SLOT" "pde s (pd_index virt) AND PAGE_PRESENT \<noteq> 0"
  shows "map_page phys virt flags s =
    Inr (set_entry (page_base (pde s (pd_index virt))) (pt_index virt) (map_entry phys flags) s)"
  using assms by (simp add: map_page_def Let_def map_entry_def)

lemma map_page_absent:
  fixes flags phys :: u32
  assumes "paging_inv s" "pd_index virt \<noteq> RECURSIVE_SLOT" "pde s (pd_index virt) AND PAGE_PRESENT = 0"
    and "alloc_frame s = Inr (f, s1)"
  defines "s2 \<equiv> set_entry (cr3 s) (pd_index virt) (f OR dir_flags flags) s1"
  shows "map_page phys virt flags s =
      Inr (set_entry f (pt_index virt) (map_entry phys flags) (zero_page f s2))"
    and "paging_inv (zero_page f s2)"
    and "\<And>j. unat j < 1024 \<Longrightarrow> pde (zero_page f s2) j = (if j = pd_index virt then f OR dir_flags flags else pde s j)"
proof -
  note a = paging_inv_alloc [OF assms(1,4)]
  have s1: "cr3 s1 = cr3 s" "pde s1 j = pde s j" for j
    using a by (metis vm.select_convs(1) vm.surjective vm.update_convs(3))
      (use a in \<open>metis pte_frames(2)\<close>)
  have lt: "unat (pd_index virt) < 1023" by (rule below_slot [OF pd_index_bound assms(2)])
  have inv2: "paging_inv s2"
    and pd2: "\<And>j. unat j < 1024 \<Longrightarrow> pde s2 j = (if j = pd_index virt then f OR dir_flags flags else pde s j)"
    using paging_inv_set_pde [of s1 "pd_index virt" "f OR dir_flags flags"] a lt
    by (simp_all add: s2_def s1)
  have cr: "cr3 s2 = cr3 s" by (simp add: s2_def s1)
  from a have f: "page_aligned f" "f \<noteq> cr3 s2" by (simp_all add: cr)
  show inv3: "paging_inv (zero_page f s2)"
    by (rule paging_inv_zero_page [OF inv2 f])
  show pd3: "\<And>j. unat j < 1024 \<Longrightarrow>
      pde (zero_page f s2) j = (if j = pd_index virt then f OR dir_flags flags else pde s j)"
    using paging_inv_zero_page(2) [OF inv2 f] pd2 by simp
  have fl: "(if flags AND PAGE_USER \<noteq> 0 then PAGE_PRESENT OR PAGE_RW OR PAGE_USER
      else PAGE_PRESENT OR PAGE_RW) = dir_flags flags"
    by (simp add: dir_flags_def PAGE_PRESENT_def PAGE_RW_def PAGE_USER_def)
  have m: "vmemset_page (RECURSIVE_BASE + pd_index virt * 0x1000) 0 s2 = Inr (zero_page f s2)"
    using vmemset_table [OF inv2 pd_index_bound, of virt] pd2 [of "pd_index virt"] f(1) by simp
  have e: "vstore32 (RECURSIVE_BASE + pd_index virt * 0x1000 + 4 * pt_index virt) x (zero_page f s2) =
      Inr (set_entry f (pt_index virt) x (zero_page f s2))" for x
    using vstore32_table [OF inv3 pd_index_bound pt_index_bound, of virt virt x]
      pd3 [of "pd_index virt"] f(1) by simp
  have st: "vstore32 (PAGE_DIR_VIRT + 4 * pd_index virt) (f OR dir_flags flags) s1 = Inr s2"
    using a by (simp add: s2_def s1)
  show "map_page phys virt flags s =
      Inr (set_entry f (pt_index virt) (map_entry phys flags) (zero_page f s2))"
    using assms(1,3,4) a
    by (simp add: map_page_def Let_def or.assoc [symmetric] m e st map_entry_def
        fl [unfolded or.assoc [symmetric]])
qed

lemma page_of_indices:
  assumes "pd_index v = pd_index w" "pt_index v = pt_index w"
  shows "page_base v = page_base w"
proof -
  have page: "unat x div 4096 = unat (pd_index x) * 1024 + unat (pt_index x)" for x
  proof -
    have "unat x div 4096 = (unat x div 4096) div 1024 * 1024 + (unat x div 4096) mod 1024"
      by (rule div_mult_mod_eq [symmetric])
    then show ?thesis by (simp add: pd_index_unat pt_index_unat div_mult2_eq [symmetric])
  qed
  have "unat (page_base v) = unat (page_base w)"
    unfolding page_base_unat page assms ..
  then show ?thesis by (rule unat_inj_u32)
qed

text \<open>Two directory slots that point to the same table, as 0 and 768 do until
  \<open>remove_identity_map\<close>.\<close>

definition shares_table :: "vm \<Rightarrow> u32 \<Rightarrow> u32 \<Rightarrow> bool" where
  "shares_table s v w \<longleftrightarrow> pd_index v \<noteq> pd_index w
     \<and> pde s (pd_index v) AND PAGE_PRESENT \<noteq> 0 \<and> pde s (pd_index w) AND PAGE_PRESENT \<noteq> 0
     \<and> page_base (pde s (pd_index v)) = page_base (pde s (pd_index w))"

definition other_page :: "vm \<Rightarrow> u32 \<Rightarrow> u32 \<Rightarrow> bool" where
  "other_page s v virt \<longleftrightarrow> page_base v \<noteq> page_base virt \<and> pd_index v \<noteq> RECURSIVE_SLOT
     \<and> \<not> shares_table s v virt"

lemma table_ne_dir:
  assumes "paging_inv s" "pd_index v \<noteq> RECURSIVE_SLOT" "pde s (pd_index v) AND PAGE_PRESENT \<noteq> 0"
  shows "page_base (pde s (pd_index v)) \<noteq> cr3 s"
    and "page_base (pde s (pd_index v)) \<notin> free_frames (frames s)"
  using assms below_slot [OF pd_index_bound assms(2)] by (simp_all add: paging_inv_def)

lemma translate_cong:
  assumes "pde s' (pd_index v) = pde s (pd_index v)"
    and "pde s (pd_index v) AND PAGE_PRESENT \<noteq> 0 \<Longrightarrow>
      pte s' (page_base (pde s (pd_index v))) (pt_index v) = pte s (page_base (pde s (pd_index v))) (pt_index v)"
  shows "translate s' v = translate s v"
  using assms by (simp add: translate_def Let_def)

text \<open>One entry of a mapped table changes the translation of its own page only.\<close>

lemma set_pte_translate:
  fixes x :: u32
  assumes "paging_inv s" "pd_index virt \<noteq> RECURSIVE_SLOT" "pde s (pd_index virt) AND PAGE_PRESENT \<noteq> 0"
  defines "s' \<equiv> set_entry (page_base (pde s (pd_index virt))) (pt_index virt) x s"
  shows "paging_inv s'"
    and "translate s' virt =
      (if x AND PAGE_PRESENT = 0 then None else Some (page_base x + (virt AND 0xfff)))"
    and "other_page s v virt \<Longrightarrow> translate s' v = translate s v"
proof -
  let ?t = "page_base (pde s (pd_index virt))"
  note ne = table_ne_dir(1) [OF assms(1-3)]
  note inv = paging_inv_set_pte [OF assms(1) page_base_aligned ne pt_index_bound]
  show "paging_inv s'" unfolding s'_def by (rule inv(1))
  have pd: "pde s' j = pde s j" if "unat j < 1024" for j
    unfolding s'_def by (rule inv(2) [OF that])
  show "translate s' virt =
      (if x AND PAGE_PRESENT = 0 then None else Some (page_base x + (virt AND 0xfff)))"
    using assms(3) by (simp add: translate_def Let_def pd) (simp add: s'_def pte_set_entry)
  assume v: "other_page s v virt"
  show "translate s' v = translate s v"
  proof (rule translate_cong)
    show "pde s' (pd_index v) = pde s (pd_index v)" by (rule pd) simp
    assume "pde s (pd_index v) AND PAGE_PRESENT \<noteq> 0"
    then have "\<not> (page_base (pde s (pd_index v)) = ?t \<and> pt_index v = pt_index virt)"
      using v assms(3) page_of_indices [of v virt] by (auto simp: other_page_def shares_table_def)
    then show "pte s' (page_base (pde s (pd_index v))) (pt_index v) =
        pte s (page_base (pde s (pd_index v))) (pt_index v)"
      by (auto simp: s'_def pte_set_entry)
  qed
qed

lemma fresh_table_translate:
  fixes flags :: u32
  assumes "paging_inv s" "pd_index virt \<noteq> RECURSIVE_SLOT" "pde s (pd_index virt) AND PAGE_PRESENT = 0"
    and "alloc_frame s = Inr (f, s1)"
  defines "s3 \<equiv> zero_page f (set_entry (cr3 s) (pd_index virt) (f OR dir_flags flags) s1)"
  shows "pd_index v \<noteq> RECURSIVE_SLOT \<Longrightarrow> translate s3 v = translate s v"
    and "shares_table s3 v virt \<Longrightarrow> pd_index v \<noteq> RECURSIVE_SLOT \<Longrightarrow> False"
proof -
  note a = paging_inv_alloc [OF assms(1,4)]
  note m = map_page_absent(2,3) [OF assms(1-4), where flags = flags, folded s3_def]
  have f: "page_aligned f" "page_aligned (cr3 s)" using a assms(1) by (auto simp: paging_inv_def)
  have p1: "pte s1 u j = pte s u j" for u j using a by (metis pte_frames(1))
  have pt: "pte s3 u j = (if u = f then 0 else pte s u j)"
    if "page_aligned u" "u \<noteq> cr3 s" "unat j < 1024" for u j
    using that f by (simp add: s3_def pte_zero_page pte_set_entry p1)
  have other: "page_base (pde s (pd_index v)) \<noteq> f \<and> page_base (pde s (pd_index v)) \<noteq> cr3 s"
    if "pd_index v \<noteq> RECURSIVE_SLOT" "pde s (pd_index v) AND PAGE_PRESENT \<noteq> 0" for v
    using a that table_ne_dir(1) [OF assms(1)] below_slot [OF pd_index_bound that(1)] by blast
  show "translate s3 v = translate s v" if v: "pd_index v \<noteq> RECURSIVE_SLOT"
  proof (cases "pd_index v = pd_index virt")
    case True
    have "pte s3 f (pt_index v) = 0" using pt [OF f(1) _ pt_index_bound] a by simp
    with True assms(3) m(2) [of "pd_index v"] f(1) show ?thesis
      by (simp add: translate_def Let_def)
  next
    case False
    show ?thesis
      by (rule translate_cong) (use False v m(2) other pt in \<open>auto\<close>)
  qed
  show False if "shares_table s3 v virt" "pd_index v \<noteq> RECURSIVE_SLOT"
    using that m(2) [of "pd_index v"] m(2) [of "pd_index virt"] other [of v] f(1)
    by (auto simp: shares_table_def)
qed

lemma table_empty_iff:
  assumes "paging_inv s" "unat i < 1024" "pde s i AND PAGE_PRESENT \<noteq> 0"
  shows "unat k + n \<le> 1024 \<Longrightarrow> table_empty n (RECURSIVE_BASE + i * 0x1000) k s =
    Inr (\<forall>j. unat k \<le> unat j \<and> unat j < unat k + n \<longrightarrow> pte s (page_base (pde s i)) j AND PAGE_PRESENT = 0)"
proof (induction n arbitrary: k)
  case (Suc n)
  have k: "unat k < 1024" using Suc.prems by simp
  have "unat k + unat (1 :: u32) < 4294967296" using k by simp
  then have k1: "unat (k + 1) = Suc (unat k)" by (simp add: unat_add_u32)
  have split: "unat k \<le> unat j \<and> unat j < unat k + Suc n \<longleftrightarrow>
      j = k \<or> unat (k + 1) \<le> unat j \<and> unat j < unat (k + 1) + n" for j
    unfolding k1 using unat_inj_u32 [of j k] by (cases "unat j = unat k") auto
  have "table_empty n (RECURSIVE_BASE + i * 0x1000) (k + 1) s = Inr (\<forall>j. unat (k + 1) \<le> unat j
      \<and> unat j < unat (k + 1) + n \<longrightarrow> pte s (page_base (pde s i)) j AND PAGE_PRESENT = 0)"
    using Suc.prems k1 by (intro Suc.IH) simp
  then show ?case
    unfolding split table_empty.simps vload32_table [OF assms(1,2) k assms(3)] by auto
qed auto

section \<open>Properties\<close>

definition other_entry :: "vm \<Rightarrow> u32 \<Rightarrow> bool" where
  "other_entry s virt \<longleftrightarrow> (\<exists>j. unat j < 1024 \<and> j \<noteq> pt_index virt
     \<and> pte s (page_base (pde s (pd_index virt))) j AND PAGE_PRESENT \<noteq> 0)"

lemma map_page_spec:
  assumes "paging_inv s" "pd_index virt \<noteq> RECURSIVE_SLOT" "map_page phys virt flags s = Inr s'"
  shows "paging_inv s'" and "translate s' virt = Some (page_base phys + (virt AND 0xfff))"
    and "other_page s v virt \<Longrightarrow> translate s' v = translate s v"
proof -
  have "paging_inv s' \<and> translate s' virt = Some (page_base phys + (virt AND 0xfff))
      \<and> (other_page s v virt \<longrightarrow> translate s' v = translate s v)"
  proof (cases "pde s (pd_index virt) AND PAGE_PRESENT = 0")
    case False
    then show ?thesis
      using assms(3) map_page_present [OF assms(1,2) False]
        set_pte_translate [OF assms(1,2) False, where x = "map_entry phys flags"] by simp
  next
    case True
    then obtain f s1 where a: "alloc_frame s = Inr (f, s1)"
      using assms(1,3) by (auto simp: map_page_def Let_def)
    define s3 where "s3 = zero_page f (set_entry (cr3 s) (pd_index virt) (f OR dir_flags flags) s1)"
    note m = map_page_absent [OF assms(1,2) True a, where flags = flags, folded s3_def]
    note fresh = fresh_table_translate [OF assms(1,2) True a, where flags = flags, folded s3_def]
    have f: "page_aligned f" using paging_inv_alloc [OF assms(1) a] by simp
    have pd: "pde s3 (pd_index virt) = f OR dir_flags flags" using m(3) by simp
    have s': "s' = set_entry (page_base (pde s3 (pd_index virt))) (pt_index virt) (map_entry phys flags) s3"
      using assms(3) m(1) [of phys] f pd by simp
    have present: "pde s3 (pd_index virt) AND PAGE_PRESENT \<noteq> 0" unfolding pd by (rule dir_entry(1))
    note st = set_pte_translate [OF m(2) assms(2) present, where x = "map_entry phys flags", folded s']
    have "other_page s v virt \<Longrightarrow> other_page s3 v virt"
      using fresh(2) [of v] by (auto simp: other_page_def)
    then show ?thesis using st fresh(1) [of v] by (auto simp: other_page_def)
  qed
  then show "paging_inv s'" and "translate s' virt = Some (page_base phys + (virt AND 0xfff))"
    and "other_page s v virt \<Longrightarrow> translate s' v = translate s v" by simp_all
qed

lemma map_page_Inl:
  assumes "paging_inv s" "pd_index virt \<noteq> RECURSIVE_SLOT" "map_page phys virt flags s = Inl e"
  shows "free_frames (frames s) = {} \<and> e = Panic ''pmm_alloc_frame() -> out of physical memory''"
proof (cases "pde s (pd_index virt) AND PAGE_PRESENT = 0")
  case True
  show ?thesis
  proof (cases "alloc_frame s")
    case (Inl e')
    then have "pmm_alloc_frame (frames s) = Inl e'"
      by (auto simp: alloc_frame_def bind_res_eq_Inl)
    moreover have "e = e'" using Inl assms True by (simp add: map_page_def Let_def)
    ultimately show ?thesis using pmm_alloc_Inl by blast
  next
    case (Inr r)
    then obtain f s1 where "alloc_frame s = Inr (f, s1)" by (cases r) auto
    with map_page_absent(1) [OF assms(1,2) True] assms(3) show ?thesis by simp
  qed
qed (use map_page_present [OF assms(1,2)] assms(3) in simp)

text \<open>An address space for the witnesses: an empty directory in frame 1, slot 1023 recursive.\<close>

definition small_vm :: vm where
  "small_vm = set_entry 0x1000 RECURSIVE_SLOT 0x1003
     \<lparr>cr3 = 0x1000, pmem = (\<lambda>_. 0), frames = small_pmm\<rparr>"

lemma small_vm_pde: "unat i < 1024 \<Longrightarrow> pde small_vm i = (if i = RECURSIVE_SLOT then 0x1003 else 0)"
  using pte_set_entry [of "0x1000" "0x1000" RECURSIVE_SLOT i "0x1003"
      "\<lparr>cr3 = 0x1000, pmem = (\<lambda>_. 0), frames = small_pmm\<rparr>"]
  by (simp add: small_vm_def pde_pte page_aligned_def RECURSIVE_SLOT_def pte_def load32_def)

lemma small_vm_frames:
  "frames small_vm = small_pmm" "cr3 small_vm = 0x1000"
  "0x2000 \<in> free_frames small_pmm" "0x1000 \<notin> free_frames small_pmm"
  using pmm_alloc_Inr [OF small_pmm_ok(1) small_pmm_alloc] by (auto simp: small_vm_def)

lemma small_vm_inv: "paging_inv small_vm"
  using small_pmm_ok(1) small_vm_pde [of RECURSIVE_SLOT] small_vm_pde small_vm_frames
  by (auto simp: paging_inv_def page_aligned_def RECURSIVE_SLOT_def PAGE_PRESENT_def page_base_def)

lemma small_vm_slot: "pd_index 0x00400123 \<noteq> RECURSIVE_SLOT"
  by (simp add: pd_index_def RECURSIVE_SLOT_def)

lemma small_vm_map: "\<exists>s'. map_page 0x5000 0x00400123 7 small_vm = Inr s'"
proof (cases "map_page 0x5000 0x00400123 7 small_vm")
  case (Inl e)
  from map_page_Inl [OF small_vm_inv small_vm_slot Inl] small_vm_frames show ?thesis by auto
qed simp

text \<open>C3: a successful \<open>map_page\<close> maps exactly the page of \<open>virt\<close>: afterwards \<open>virt\<close>
  translates to its offset in the frame of \<open>phys\<close>, every other page outside the recursive
  window and outside an aliased table translates as before, and the paging invariant holds
  (the recursive slot included, through which the tables were written).\<close>

theorem map_page_maps:
  assumes "paging_inv s" "pd_index virt \<noteq> RECURSIVE_SLOT" "map_page phys virt flags s = Inr s'"
  shows "paging_inv s' \<and> translate s' virt = Some (page_base phys + (virt AND 0xfff))
    \<and> (\<forall>v. other_page s v virt \<longrightarrow> translate s' v = translate s v)"
  using map_page_spec [OF assms] by blast

lemma map_page_maps_witness:
  "\<exists>s'. map_page 0x5000 0x00400123 7 small_vm = Inr s' \<and> translate s' 0x00400123 = Some 0x5123"
proof -
  obtain s' where s': "map_page 0x5000 0x00400123 7 small_vm = Inr s'" using small_vm_map ..
  from map_page_maps [OF small_vm_inv small_vm_slot s'] s' show ?thesis
    by (simp add: page_base_def)
qed

text \<open>\<open>map_page\<close> outside the recursive window always returns, except for the panic "out of
  physical memory" when a page table is missing and no frame is free.\<close>

theorem map_page_total:
  assumes "paging_inv s" "pd_index virt \<noteq> RECURSIVE_SLOT"
  shows "(\<exists>s'. map_page phys virt flags s = Inr s') \<longleftrightarrow>
    pde s (pd_index virt) AND PAGE_PRESENT \<noteq> 0 \<or> free_frames (frames s) \<noteq> {}"
proof (cases "pde s (pd_index virt) AND PAGE_PRESENT = 0")
  case True
  show ?thesis
  proof (cases "map_page phys virt flags s")
    case (Inl e)
    with map_page_Inl [OF assms Inl] True show ?thesis by simp
  next
    case (Inr s')
    then obtain f s1 where a: "alloc_frame s = Inr (f, s1)"
      using assms(1) True by (auto simp: map_page_def Let_def)
    then show ?thesis using paging_inv_alloc [OF assms(1) a] Inr by auto
  qed
qed (use map_page_present [OF assms] in simp)

lemma map_page_total_witness: "\<exists>s'. map_page 0x5000 0x00400123 7 small_vm = Inr s'"
  using map_page_total [OF small_vm_inv small_vm_slot] small_vm_frames by auto

text \<open>C7: \<open>unmap_page\<close> removes the translation of \<open>virt\<close> and of no other page while the
  page table keeps another present entry; on an unmapped page it does nothing; but unmapping the
  last page of a table always panics, because \<open>pmm_free_frame\<close> refuses a frame in use.\<close>

theorem unmap_page_spec:
  assumes "paging_inv s" "pd_index virt \<noteq> RECURSIVE_SLOT"
  shows "if translate s virt = None then unmap_page virt s = Inr s
    else if other_entry s virt
    then \<exists>s'. unmap_page virt s = Inr s' \<and> paging_inv s' \<and> translate s' virt = None
      \<and> (\<forall>v. other_page s v virt \<longrightarrow> translate s' v = translate s v)
    else \<exists>e. unmap_page virt s = Inl (Panic e)"
proof (cases "translate s virt = None")
  case True
  then show ?thesis
    using assms by (auto simp: unmap_page_def translate_def Let_def split: if_splits)
next
  case False
  let ?t = "page_base (pde s (pd_index virt))" and ?rb = "RECURSIVE_BASE + pd_index virt * 0x1000"
  have p: "pde s (pd_index virt) AND PAGE_PRESENT \<noteq> 0" "pte s ?t (pt_index virt) AND PAGE_PRESENT \<noteq> 0"
    using False by (auto simp: translate_def Let_def split: if_splits)
  define s1 where "s1 = set_entry ?t (pt_index virt) 0 s"
  note st = set_pte_translate [OF assms p(1), where x = 0, folded s1_def]
  have fr: "frames s1 = frames s" "cr3 s1 = cr3 s" by (simp_all add: s1_def)
  have pd: "pde s1 (pd_index virt) = pde s (pd_index virt)"
    using paging_inv_set_pte(2) [OF assms(1) page_base_aligned table_ne_dir(1) [OF assms p(1)]]
    by (simp add: s1_def)
  have ent: "pte s1 ?t j = (if j = pt_index virt then 0 else pte s ?t j)" if "unat j < 1024" for j
    using that by (simp add: s1_def pte_set_entry)
  have "table_empty 1024 ?rb 0 s1 = Inr (\<not> other_entry s virt)"
    using table_empty_iff [OF st(1) pd_index_bound, of virt 0 1024] p(1) ent
    by (auto simp: pd other_entry_def)
  then have u: "unmap_page virt s = (if other_entry s virt then Inr s1
      else free_frame ?t (set_entry (cr3 s1) (pd_index virt) 0 s1))"
    using assms(1) p st(1)
    unfolding unmap_page_def Let_def page_base_def [symmetric]
    by (simp add: s1_def [symmetric] pd)
  show ?thesis
  proof (cases "other_entry s virt")
    case True
    then show ?thesis using st u by (simp add: False)
  next
    case other: False
    have "?t \<notin> free_frames (frames s)" by (rule table_ne_dir(2) [OF assms p(1)])
    then obtain e where e: "pmm_free_frame ?t (frames s) = Inl e"
      using pmm_free_Inr [of "frames s" ?t] assms(1) unfolding paging_inv_def
      by (cases "pmm_free_frame ?t (frames s)") blast+
    then obtain m where "e = Panic m"
      by (auto simp: pmm_free_frame_def Let_def split: if_splits)
    with e other u show ?thesis by (simp add: False free_frame_def fr)
  qed
qed

lemma unmap_page_spec_witness: "unmap_page 0x00400123 small_vm = Inr small_vm"
proof -
  have "translate small_vm 0x00400123 = None"
    using small_vm_pde [OF pd_index_bound, of "0x00400123"] small_vm_slot
    by (simp add: translate_def Let_def)
  with unmap_page_spec [OF small_vm_inv small_vm_slot] show ?thesis by simp
qed

end
