(* ===== verification/Kheap.thy ===== *)
theory Kheap
  imports Paging
begin

text \<open>
  The kernel heap, \<open>src/memory/kheap.c\<close>: a doubly linked list of blocks, first fit from
  \<open>free_head\<close>, split on allocation, merged with both neighbours on \<open>kfree\<close>.

  The headers are records in a typed store \<open>blocks\<close> (address of the header to its fields);
  a header is 20 bytes (\<open>sizeof(k_heap_block_t)\<close> on i686). Every pointer the code follows is a
  lookup that faults when no header is there. Loops that follow \<open>next\<close> are
  \<open>partial_function\<close>s, and so is the recursion of \<open>kmalloc\<close> after it has grown the heap:
  not returning is \<open>None\<close>, and the properties prove when it returns.

  The abstraction is the list of blocks in address order (\<open>heap_inv h bs\<close>); the lemmas show
  that the pointer updates implement the list operations, and the locale \<open>heap_allocator\<close>
  states the contract the file systems and processes use.
\<close>

section \<open>State\<close>

record k_heap_block =
  addr :: u32
  bsize :: u32
  bfree :: bool
  prev :: u32
  nxt :: u32

record kheap =
  kheap_start :: u32
  kheap_end :: u32
  kheap_size :: u32
  head :: u32
  free_head :: u32
  large_alloc_base :: u32
  blocks :: "u32 \<Rightarrow> k_heap_block option"
  vmem :: vm

definition KHEAP_VIRT_START :: u32 where "KHEAP_VIRT_START = 0xd0000000"
definition KHEAP_INITIAL_SIZE :: u32 where "KHEAP_INITIAL_SIZE = 0x400000"
definition HDR :: u32 where "HDR = 20"

definition deref :: "u32 \<Rightarrow> kheap \<Rightarrow> k_heap_block res" where
  "deref p h = (case blocks h p of None \<Rightarrow> Inl (Fault ''no heap header'') | Some b \<Rightarrow> Inr b)"

definition set_block :: "u32 \<Rightarrow> k_heap_block \<Rightarrow> kheap \<Rightarrow> kheap" where
  "set_block p b h = h\<lparr>blocks := (blocks h)(p \<mapsto> b)\<rparr>"

definition set_prev :: "u32 \<Rightarrow> u32 \<Rightarrow> kheap \<Rightarrow> kheap res" where
  "set_prev p x h = bind_res (deref p h) (\<lambda>b. Inr (set_block p (b\<lparr>prev := x\<rparr>) h))"

section \<open>kheap_init and kalloc_pages\<close>

primrec map_fresh_pages :: "string \<Rightarrow> nat \<Rightarrow> u32 \<Rightarrow> vm \<Rightarrow> vm res" where
  "map_fresh_pages msg 0 virt s = Inr s"
| "map_fresh_pages msg (Suc n) virt s =
     bind_res (alloc_frame s) (\<lambda>(f, s).
       if f = 0 then Inl (Panic msg)
       else bind_res (map_page f virt (PAGE_PRESENT OR PAGE_RW) s)
              (map_fresh_pages msg n (virt + PAGE_SIZE)))"

definition kheap_init :: "kheap \<Rightarrow> kheap res" where
  "kheap_init h =
     (let start = KHEAP_VIRT_START; h_end = start + KHEAP_INITIAL_SIZE
      in bind_res (map_fresh_pages ''kheap_init() -> out of physical memory''
               (unat ((h_end - start) div PAGE_SIZE)) start (vmem h)) (\<lambda>s.
           Inr (set_block start
             \<lparr>addr = start + HDR, bsize = KHEAP_INITIAL_SIZE - HDR, bfree = True, prev = 0, nxt = 0\<rparr>
             (h\<lparr>kheap_start := start, kheap_end := h_end, kheap_size := KHEAP_INITIAL_SIZE,
                head := start, free_head := start, vmem := s\<rparr>))))"

definition kalloc_pages :: "u32 \<Rightarrow> kheap \<Rightarrow> (u32 \<times> kheap) res" where
  "kalloc_pages num_pages h =
     (let virt = large_alloc_base h
      in bind_res (map_fresh_pages ''kalloc_pages() -> out of physical memory''
               (unat num_pages) virt (vmem h)) (\<lambda>s.
           Inr (virt, h\<lparr>large_alloc_base := virt + num_pages * PAGE_SIZE, vmem := s\<rparr>)))"

section \<open>kmalloc\<close>

partial_function (option) find_block :: "kheap \<Rightarrow> u32 \<Rightarrow> u32 \<Rightarrow> u32 res option" where
  "find_block h sz cur =
     (if cur = 0 then Some (Inr 0)
      else case blocks h cur of
          None \<Rightarrow> Some (Inl (Fault ''no heap header''))
        | Some b \<Rightarrow> if bfree b \<and> bsize b \<ge> sz then Some (Inr cur)
                    else find_block h sz (nxt b))"

partial_function (option) skip_used :: "kheap \<Rightarrow> u32 \<Rightarrow> u32 res option" where
  "skip_used h p =
     (if p = 0 then Some (Inr 0)
      else case blocks h p of
          None \<Rightarrow> Some (Inl (Fault ''no heap header''))
        | Some b \<Rightarrow> if bfree b then Some (Inr p) else skip_used h (nxt b))"

definition split_block :: "u32 \<Rightarrow> u32 \<Rightarrow> kheap \<Rightarrow> kheap res" where
  "split_block cur sz h =
     bind_res (deref cur h) (\<lambda>b.
       if bsize b \<ge> sz + HDR + 1
       then let nb = addr b + sz;
                h = set_block nb \<lparr>addr = addr b + sz + HDR, bsize = bsize b - sz - HDR,
                      bfree = True, prev = cur, nxt = nxt b\<rparr> h
            in bind_res (if nxt b \<noteq> 0 then set_prev (nxt b) nb h else Inr h) (\<lambda>h.
                 bind_res (deref cur h) (\<lambda>b. Inr (set_block cur (b\<lparr>nxt := nb\<rparr>) h)))
       else Inr h)"

definition take_block :: "u32 \<Rightarrow> u32 \<Rightarrow> kheap \<Rightarrow> (u32 \<times> kheap) res option" where
  "take_block cur sz h =
     (case bind_res (split_block cur sz h) (\<lambda>h. bind_res (deref cur h) (\<lambda>b.
             Inr (b, set_block cur (b\<lparr>bsize := sz, bfree := False\<rparr>) h))) of
        Inl e \<Rightarrow> Some (Inl e)
      | Inr (b, h) \<Rightarrow>
          if cur = free_head h
          then map_option (\<lambda>r. bind_res r (\<lambda>p. Inr (addr b, h\<lparr>free_head := p\<rparr>))) (skip_used h (nxt b))
          else Some (Inr (addr b, h)))"

partial_function (option) find_tail :: "kheap \<Rightarrow> u32 \<Rightarrow> u32 res option" where
  "find_tail h p =
     (case blocks h p of
        None \<Rightarrow> Some (Inl (Fault ''no heap header''))
      | Some b \<Rightarrow> if nxt b = 0 then Some (Inr p) else find_tail h (nxt b))"

definition grow_map :: "kheap \<Rightarrow> kheap res" where
  "grow_map h =
     bind_res (alloc_frame (vmem h)) (\<lambda>(f, s).
     bind_res (map_page f (kheap_end h) (PAGE_PRESENT OR PAGE_RW) s) (\<lambda>s.
       Inr (set_block (kheap_end h)
         \<lparr>addr = kheap_end h + HDR, bsize = PAGE_SIZE - HDR, bfree = True, prev = 0, nxt = 0\<rparr>
         (h\<lparr>kheap_end := kheap_end h + PAGE_SIZE, kheap_size := kheap_size h + PAGE_SIZE,
            vmem := s\<rparr>))))"

definition grow_link :: "u32 \<Rightarrow> u32 \<Rightarrow> kheap \<Rightarrow> kheap res" where
  "grow_link nb tail h =
     bind_res (set_prev nb tail h) (\<lambda>h.
     bind_res (deref tail h) (\<lambda>b.
       let h = set_block tail (b\<lparr>nxt := nb\<rparr>) h
       in Inr (if free_head h = 0 then h\<lparr>free_head := nb\<rparr> else h)))"

definition grow_heap :: "kheap \<Rightarrow> kheap res option" where
  "grow_heap h =
     (case grow_map h of
        Inl e \<Rightarrow> Some (Inl e)
      | Inr h' \<Rightarrow> map_option (\<lambda>r. bind_res r (\<lambda>tail. grow_link (kheap_end h) tail h'))
                   (find_tail h' (head h')))"

partial_function (option) kmalloc :: "u32 \<Rightarrow> kheap \<Rightarrow> (u32 \<times> kheap) res option" where
  "kmalloc sz h =
     Option.bind (find_block h sz (free_head h)) (\<lambda>r. case r of
       Inl e \<Rightarrow> Some (Inl e)
     | Inr cur \<Rightarrow>
         if cur \<noteq> 0 then take_block cur sz h
         else Option.bind (grow_heap h) (\<lambda>r'. case r' of
                Inl e \<Rightarrow> Some (Inl e)
              | Inr h' \<Rightarrow> kmalloc sz h'))"

section \<open>kfree\<close>

definition merge_next :: "u32 \<Rightarrow> kheap \<Rightarrow> kheap res" where
  "merge_next block h =
     bind_res (deref block h) (\<lambda>b.
       if nxt b \<noteq> 0
       then bind_res (deref (nxt b) h) (\<lambda>n.
              if bfree n
              then let h = set_block block (b\<lparr>bsize := bsize b + (HDR + bsize n), nxt := nxt n\<rparr>) h
                   in if nxt n \<noteq> 0 then set_prev (nxt n) block h else Inr h
              else Inr h)
       else Inr h)"

definition merge_prev :: "u32 \<Rightarrow> kheap \<Rightarrow> (u32 \<times> kheap) res" where
  "merge_prev block h =
     bind_res (deref block h) (\<lambda>b.
       if prev b \<noteq> 0
       then bind_res (deref (prev b) h) (\<lambda>p.
              if bfree p
              then let h = set_block (prev b) (p\<lparr>bsize := bsize p + (HDR + bsize b), nxt := nxt b\<rparr>) h
                   in bind_res (if nxt b \<noteq> 0 then set_prev (nxt b) (prev b) h else Inr h)
                        (\<lambda>h. Inr (prev b, h))
              else Inr (block, h))
       else Inr (block, h))"

definition kfree :: "u32 \<Rightarrow> kheap \<Rightarrow> kheap res" where
  "kfree a h =
     (if a = 0 then Inr h
      else let block = a - HDR in
        bind_res (deref block h) (\<lambda>b.
          if bfree b then Inr h
          else bind_res (merge_next block (set_block block (b\<lparr>bfree := True\<rparr>) h)) (\<lambda>h.
               bind_res (merge_prev block h) (\<lambda>(block, h).
                 Inr (if free_head h = 0 \<or> block < free_head h
                      then h\<lparr>free_head := block\<rparr> else h)))))"

section \<open>The block list\<close>

text \<open>A block of the list: header address, size, free flag.\<close>

type_synonym ablock = "u32 \<times> u32 \<times> bool"

fun hd_or :: "ablock list \<Rightarrow> u32 \<Rightarrow> u32" where
  "hd_or [] x = x"
| "hd_or (b # bs) x = fst b"

fun last_or :: "u32 \<Rightarrow> ablock list \<Rightarrow> u32" where
  "last_or x [] = x"
| "last_or x (b # bs) = last_or (fst b) bs"

fun seg :: "(u32 \<Rightarrow> k_heap_block option) \<Rightarrow> u32 \<Rightarrow> ablock list \<Rightarrow> u32 \<Rightarrow> bool" where
  "seg m pr [] nx \<longleftrightarrow> True"
| "seg m pr ((a, sz, fr) # bs) nx \<longleftrightarrow> a \<noteq> 0
     \<and> m a = Some \<lparr>addr = a + HDR, bsize = sz, bfree = fr, prev = pr, nxt = hd_or bs nx\<rparr>
     \<and> seg m a bs nx"

text \<open>The blocks in address order between \<open>lo\<close> and \<open>hi\<close>, no two of them overlapping.\<close>

fun layout :: "nat \<Rightarrow> ablock list \<Rightarrow> nat \<Rightarrow> bool" where
  "layout lo [] hi \<longleftrightarrow> lo \<le> hi"
| "layout lo ((a, sz, fr) # bs) hi \<longleftrightarrow> lo \<le> unat a \<and> layout (unat a + 20 + unat sz) bs hi"

fun first_free :: "ablock list \<Rightarrow> u32" where
  "first_free [] = 0"
| "first_free ((a, sz, fr) # bs) = (if fr then a else first_free bs)"

fun first_fit :: "u32 \<Rightarrow> ablock list \<Rightarrow> u32" where
  "first_fit n [] = 0"
| "first_fit n ((a, sz, fr) # bs) = (if fr \<and> n \<le> sz then a else first_fit n bs)"

definition used_only :: "ablock list \<Rightarrow> bool" where
  "used_only bs \<longleftrightarrow> (\<forall>(a, sz, fr) \<in> set bs. \<not> fr)"

definition heap_inv :: "kheap \<Rightarrow> ablock list \<Rightarrow> bool" where
  "heap_inv h bs \<longleftrightarrow> bs \<noteq> [] \<and> head h = hd_or bs 0 \<and> seg (blocks h) 0 bs 0
     \<and> layout (unat (kheap_start h)) bs (unat (kheap_end h)) \<and> 0 < unat (kheap_start h)
     \<and> free_head h = first_free bs"

lemma used_only_simps [simp]:
  "used_only []" "used_only ((a, sz, fr) # bs) \<longleftrightarrow> \<not> fr \<and> used_only bs"
  "used_only (xs @ ys) \<longleftrightarrow> used_only xs \<and> used_only ys"
  by (auto simp: used_only_def ball_Un)

named_theorems heap_simps \<open>segments, layouts and list ends over append\<close>

lemma hd_or_append [simp, heap_simps]: "hd_or (xs @ ys) x = hd_or xs (hd_or ys x)"
  by (cases xs) auto

lemma last_or_append [simp, heap_simps]: "last_or x (xs @ ys) = last_or (last_or x xs) ys"
  by (induction xs arbitrary: x) auto

lemma seg_append [simp, heap_simps]:
  "seg m pr (xs @ ys) nx \<longleftrightarrow> seg m pr xs (hd_or ys nx) \<and> seg m (last_or pr xs) ys nx"
proof (induction xs arbitrary: pr)
  case (Cons b xs)
  then show ?case by (cases b) simp
qed simp

lemma seg_cong: "(\<And>x. x \<in> fst ` set bs \<Longrightarrow> m' x = m x) \<Longrightarrow> seg m' pr bs nx = seg m pr bs nx"
proof (induction bs arbitrary: pr)
  case (Cons b bs)
  obtain a sz fr where b: "b = (a, sz, fr)" by (cases b) auto
  have "m' a = m a" using Cons.prems by (simp add: b)
  with Cons show ?case by (simp add: b)
qed simp

lemma seg_upd [simp]: "p \<notin> fst ` set bs \<Longrightarrow> seg (m(p \<mapsto> r)) pr bs nx = seg m pr bs nx"
  by (rule seg_cong) auto

lemma seg_upd_set [simp]: "p \<notin> fst ` set bs \<Longrightarrow> seg (blocks (set_block p r h)) pr bs nx = seg (blocks h) pr bs nx"
  by (simp add: set_block_def)

lemma layout_mono: "layout lo bs hi \<Longrightarrow> lo' \<le> lo \<Longrightarrow> layout lo' bs hi"
  by (cases bs) auto

lemma layout_le: "layout lo bs hi \<Longrightarrow> lo \<le> hi"
  by (induction lo bs hi rule: layout.induct) auto

lemma layout_append [simp, heap_simps]:
  "layout lo (xs @ ys) hi \<longleftrightarrow> (\<exists>mid. layout lo xs mid \<and> layout mid ys hi)"
proof (induction lo xs hi rule: layout.induct)
  case (1 lo hi)
  then show ?case by (auto intro: layout_mono)
qed simp

lemma layout_member:
  "layout lo bs hi \<Longrightarrow> (a, sz, fr) \<in> set bs \<Longrightarrow> lo \<le> unat a \<and> unat a + 20 + unat sz \<le> hi"
proof (induction lo bs hi rule: layout.induct)
  case (2 lo a' sz' fr' bs hi)
  then show ?case using layout_le [of "unat a' + 20 + unat sz'" bs hi] by auto
qed simp

lemma layout_distinct: "layout lo bs hi \<Longrightarrow> distinct (map fst bs)"
proof (induction lo bs hi rule: layout.induct)
  case (2 lo a sz fr bs hi)
  have "unat a < unat (fst b)" if "b \<in> set bs" for b
    using layout_member [of "unat a + 20 + unat sz" bs hi "fst b" "fst (snd b)" "snd (snd b)"] 2 that
    by auto
  with 2 show ?case by fastforce
qed simp

lemma first_free_append:
  "first_free (xs @ ys) = (if used_only xs then first_free ys else first_free xs)"
  by (induction xs rule: first_free.induct) auto

lemma first_free_member: "\<not> used_only xs \<Longrightarrow> first_free xs \<in> fst ` set xs"
  by (induction xs rule: first_free.induct) auto

lemma first_free_split:
  "\<exists>us fs. bs = us @ fs \<and> used_only us \<and> first_free bs = hd_or fs 0
     \<and> (fs = [] \<or> snd (snd (hd fs)))"
proof (induction bs rule: first_free.induct)
  case (2 a sz fr bs)
  show ?case
  proof (cases fr)
    case True
    then show ?thesis by - (rule exI [of _ "[]"], rule exI [of _ "(a, sz, fr) # bs"], simp)
  next
    case False
    with 2 obtain us fs where "bs = us @ fs \<and> used_only us \<and> first_free bs = hd_or fs 0
        \<and> (fs = [] \<or> snd (snd (hd fs)))" by blast
    with False show ?thesis
      by - (rule exI [of _ "(a, sz, fr) # us"], rule exI [of _ fs], auto)
  qed
qed simp

lemma first_fit_used: "used_only us \<Longrightarrow> first_fit n (us @ fs) = first_fit n fs"
  by (induction us rule: first_free.induct) auto

lemma first_fit_Some:
  "first_fit n bs \<noteq> 0 \<Longrightarrow> \<exists>xs sz ys. bs = xs @ (first_fit n bs, sz, True) # ys \<and> n \<le> sz \<and> first_fit n xs = 0"
proof (induction n bs rule: first_fit.induct)
  case (2 n a sz fr bs)
  show ?case
  proof (cases "fr \<and> n \<le> sz")
    case True
    then show ?thesis by - (rule exI [of _ "[]"], rule exI [of _ sz], rule exI [of _ bs], simp)
  next
    case False
    with 2 obtain xs sz' ys where
      "bs = xs @ (first_fit n bs, sz', True) # ys \<and> n \<le> sz' \<and> first_fit n xs = 0" by auto
    with False show ?thesis by (intro exI [of _ "(a, sz, fr) # xs"]) auto
  qed
qed simp

section \<open>The loops on a block list\<close>

lemma find_block_seg:
  "seg (blocks h) pr bs 0 \<Longrightarrow> find_block h n (hd_or bs 0) = Some (Inr (first_fit n bs))"
proof (induction bs arbitrary: pr)
  case Nil
  then show ?case by (simp add: find_block.simps)
next
  case (Cons b bs)
  then show ?case by (cases b) (subst find_block.simps, auto)
qed

lemma skip_used_seg:
  "seg (blocks h) pr bs 0 \<Longrightarrow> skip_used h (hd_or bs 0) = Some (Inr (first_free bs))"
proof (induction bs arbitrary: pr)
  case Nil
  then show ?case by (simp add: skip_used.simps)
next
  case (Cons b bs)
  then show ?case by (cases b) (subst skip_used.simps, auto)
qed

lemma find_tail_seg:
  "seg (blocks h) pr bs 0 \<Longrightarrow> bs \<noteq> [] \<Longrightarrow> find_tail h (hd_or bs 0) = Some (Inr (last_or pr bs))"
proof (induction bs arbitrary: pr)
  case (Cons b bs)
  obtain a sz fr where b: "b = (a, sz, fr)" by (cases b) auto
  show ?case
  proof (cases bs)
    case Nil
    with Cons.prems b show ?thesis by (simp add: find_tail.simps)
  next
    case (Cons c cs)
    then have "hd_or bs 0 \<noteq> 0" using Cons.prems(1) by (cases c) (auto simp: b)
    with Cons.prems Cons.IH [of a] Cons show ?thesis
      by (subst find_tail.simps) (auto simp: b)
  qed
qed simp

lemma find_block_inv:
  assumes "heap_inv h bs"
  shows "find_block h n (free_head h) = Some (Inr (first_fit n bs))"
proof -
  obtain us fs where fs: "bs = us @ fs" "used_only us" "first_free bs = hd_or fs 0"
    using first_free_split [of bs] by blast
  have "seg (blocks h) (last_or 0 us) fs 0" using assms fs(1) by (simp add: heap_inv_def)
  from find_block_seg [OF this] show ?thesis
    using assms fs first_fit_used by (simp add: heap_inv_def)
qed

lemma relink:
  assumes "seg (blocks h) pr ys 0" "distinct (map fst ys)"
  shows "\<exists>m. (if hd_or ys 0 \<noteq> 0 then set_prev (hd_or ys 0) q h else Inr h) = Inr (h\<lparr>blocks := m\<rparr>)
    \<and> seg m q ys 0 \<and> (\<forall>x. x \<notin> fst ` set ys \<longrightarrow> m x = blocks h x)"
proof (cases ys)
  case Nil
  then show ?thesis by (intro exI [of _ "blocks h"]) simp
next
  case (Cons y ys')
  obtain c sz fr where y: "y = (c, sz, fr)" by (cases y) auto
  let ?b = "\<lparr>addr = c + HDR, bsize = sz, bfree = fr, prev = q, nxt = hd_or ys' 0\<rparr>"
  have "seg ((blocks h)(c \<mapsto> ?b)) c ys' 0"
    using assms y Cons by (subst seg_cong [of _ _ "blocks h"]) auto
  with assms show ?thesis
    by (intro exI [of _ "(blocks h)(c \<mapsto> ?b)"])
      (auto simp: Cons y set_prev_def deref_def set_block_def)
qed

section \<open>Taking a block\<close>

definition alloc_at :: "u32 \<Rightarrow> u32 \<Rightarrow> u32 \<Rightarrow> ablock list" where
  "alloc_at a n sz = (if unat n + 21 \<le> unat sz
     then [(a, n, False), (a + HDR + n, sz - n - HDR, True)] else [(a, n, False)])"

lemma fits_split:
  assumes "n \<le> sz" "unat sz + 21 < 2 ^ 32"
  shows "n + HDR + 1 \<le> sz \<longleftrightarrow> unat n + 21 \<le> unat sz"
    "unat n + 21 \<le> unat sz \<Longrightarrow> unat (sz - n - HDR) = unat sz - unat n - 20"
proof -
  have n: "unat n \<le> unat sz" using assms(1) by (simp add: word_le_nat_alt)
  have "unat (n + 21) = unat n + 21" if "unat n + 21 < 2 ^ 32"
    using that by (simp add: unat_add_u32)
  moreover have "unat (n + 21) = unat n + 21 - 2 ^ 32" if "\<not> unat n + 21 < 2 ^ 32"
    using that by (simp add: unat_word_ariths le_mod_geq, intro mod_less)
      (insert unat_u32_bound [of n], linarith)
  ultimately show "n + HDR + 1 \<le> sz \<longleftrightarrow> unat n + 21 \<le> unat sz"
    using n assms(2) by (cases "unat n + 21 < 2 ^ 32") (auto simp: word_le_nat_alt HDR_def add.assoc)
  show "unat (sz - n - HDR) = unat sz - unat n - 20" if "unat n + 21 \<le> unat sz"
    using that n by (simp add: HDR_def unat_sub_u32)
qed

lemma layout_split_used:
  assumes "layout lo (xs @ (a, sz, fr) # ys) hi"
  shows "lo \<le> unat a" "unat a + 20 + unat sz \<le> hi" "layout (unat a + 20 + unat sz) ys hi"
    "distinct (map fst (xs @ (a, sz, fr) # ys))"
    "\<And>y. y \<in> fst ` set ys \<Longrightarrow> unat a + 20 + unat sz \<le> unat y"
    "\<And>x. x \<in> fst ` set xs \<Longrightarrow> unat x < unat a"
proof -
  obtain mid where mid: "layout lo xs mid" "mid \<le> unat a" "layout (unat a + 20 + unat sz) ys hi"
    using assms by auto
  show "lo \<le> unat a" using layout_le [OF mid(1)] mid(2) by simp
  show "unat a + 20 + unat sz \<le> hi" using layout_le [OF mid(3)] .
  show "layout (unat a + 20 + unat sz) ys hi" by (rule mid(3))
  show "distinct (map fst (xs @ (a, sz, fr) # ys))" by (rule layout_distinct [OF assms])
  show "unat a + 20 + unat sz \<le> unat y" if "y \<in> fst ` set ys" for y
    using layout_member [OF mid(3)] that by fastforce
  show "unat x < unat a" if "x \<in> fst ` set xs" for x
    using layout_member [OF mid(1)] that mid(2) by fastforce
qed

lemma take_free_head:
  assumes "layout lo (xs @ (a, n, False) # rest) hi"
    "seg (blocks h) 0 (xs @ (a, n, False) # rest) 0" "a \<noteq> 0"
    "free_head h = first_free (xs @ (a, sz, True) # ys)"
  shows "(if a = free_head h
        then map_option (\<lambda>r. bind_res r (\<lambda>p. Inr (a + HDR, h\<lparr>free_head := p\<rparr>))) (skip_used h (hd_or rest 0))
        else Some (Inr (a + HDR, h)))
      = Some (Inr (a + HDR, h\<lparr>free_head := first_free (xs @ (a, n, False) # rest)\<rparr>))"
proof -
  have s: "seg (blocks h) a rest 0" using assms(2) by simp
  show ?thesis
  proof (cases "used_only xs")
    case True
    then have "free_head h = a" using assms(4) by (simp add: first_free_append)
    then show ?thesis using True by (simp add: skip_used_seg [OF s] first_free_append)
  next
    case False
    then have "free_head h = first_free xs" "first_free xs \<in> fst ` set xs"
      using assms(4) by (auto simp: first_free_append intro: first_free_member)
    with layout_distinct [OF assms(1)] False show ?thesis
      by (auto simp: first_free_append)
  qed
qed

lemma layout_replace:
  assumes "layout lo (xs @ (a, sz, fr) # ys) hi" "layout (unat a) zs (unat a + 20 + unat sz)"
  shows "layout lo (xs @ zs @ ys) hi"
  using assms by (auto intro: layout_mono)

lemma layout_alloc_at:
  assumes "n \<le> sz" "unat a + 20 + unat sz < 2 ^ 32" "0 < unat a"
  shows "layout (unat a) (alloc_at a n sz) (unat a + 20 + unat sz)"
proof (cases "unat n + 21 \<le> unat sz")
  case True
  have "unat (a + HDR) = unat a + 20" using assms(2) by (simp add: HDR_def unat_add_u32)
  then have "unat (a + HDR + n) = unat a + 20 + unat n"
    using assms(2) True by (simp add: unat_add_u32)
  moreover have "unat (sz - n - HDR) = unat sz - unat n - 20"
    using fits_split(2) [OF assms(1)] assms(2,3) True by simp
  ultimately show ?thesis using True by (simp add: alloc_at_def)
next
  case False
  then show ?thesis using assms(1) by (simp add: alloc_at_def word_le_nat_alt)
qed

lemma take_block_spec:
  assumes inv: "heap_inv h (xs @ (a, sz, True) # ys)" and fits: "n \<le> sz"
  shows "\<exists>h'. take_block a n h = Some (Inr (a + HDR, h')) \<and> heap_inv h' (xs @ alloc_at a n sz @ ys)
    \<and> vmem h' = vmem h \<and> kheap_start h' = kheap_start h \<and> kheap_end h' = kheap_end h"
proof -
  let ?lo = "unat (kheap_start h)" and ?hi = "unat (kheap_end h)"
  have lay: "layout ?lo (xs @ (a, sz, True) # ys) ?hi" using inv by (simp add: heap_inv_def)
  note L = layout_split_used [OF lay]
  have lo0: "0 < ?lo" using inv by (simp add: heap_inv_def)
  have hi: "?hi < 2 ^ 32" using unat_u32_bound [of "kheap_end h"] by simp
  have a0: "0 < unat a" "a \<noteq> 0" using L(1) lo0 by auto
  have szb: "unat sz + 21 < 2 ^ 32" using L(1,2) lo0 hi by linarith
  have top: "unat a + 20 + unat sz < 2 ^ 32" using L(2) hi by linarith
  have sx: "seg (blocks h) 0 xs a" and sy: "seg (blocks h) a ys 0"
    and ba: "blocks h a = Some \<lparr>addr = a + HDR, bsize = sz, bfree = True, prev = last_or 0 xs, nxt = hd_or ys 0\<rparr>"
    using inv by (auto simp: heap_inv_def)
  have ff: "free_head h = first_free (xs @ (a, sz, True) # ys)" using inv by (simp add: heap_inv_def)
  have lay': "layout ?lo (xs @ alloc_at a n sz @ ys) ?hi"
    using layout_replace [OF lay layout_alloc_at [OF fits top a0(1)]] .
  have hd: "head h = hd_or (xs @ alloc_at a n sz @ ys) 0"
    using inv by (cases xs) (auto simp: heap_inv_def alloc_at_def)
  show ?thesis
  proof (cases "unat n + 21 \<le> unat sz")
    case True
    then have split: "n + HDR + 1 \<le> sz" using fits_split(1) [OF fits szb] by simp
    let ?nb = "a + HDR + n"
    have "unat (a + HDR) = unat a + 20" using top by (simp add: HDR_def unat_add_u32)
    then have nb: "unat ?nb = unat a + 20 + unat n" using top True by (simp add: unat_add_u32)
    have nb_ys: "?nb \<notin> fst ` set ys" using L(5) [of ?nb] nb True by linarith
    have "?nb \<noteq> a" using nb arg_cong [of ?nb a unat] by linarith
    then have nb_xs: "?nb \<notin> fst ` set xs" "?nb \<noteq> a" using L(6) [of ?nb] nb by auto
    let ?rn = "\<lparr>addr = ?nb + HDR, bsize = sz - n - HDR, bfree = True, prev = a, nxt = hd_or ys 0\<rparr>"
    let ?h1 = "set_block ?nb ?rn h"
    have s1: "seg (blocks ?h1) a ys 0"
      using sy nb_ys by simp
    have dy: "distinct (map fst ys)" using L(4) by simp
    obtain m where m: "(if hd_or ys 0 \<noteq> 0 then set_prev (hd_or ys 0) ?nb ?h1 else Inr ?h1) = Inr (?h1\<lparr>blocks := m\<rparr>)"
      "seg m ?nb ys 0" "\<And>x. x \<notin> fst ` set ys \<Longrightarrow> m x = blocks ?h1 x"
      using relink [OF s1 dy, of ?nb] by blast
    have ma: "m a = blocks h a" "m ?nb = Some ?rn"
      using m(3) [of a] m(3) [of ?nb] nb_ys nb_xs(2) L(4) by (auto simp: set_block_def)
    let ?rest = "(?nb, sz - n - HDR, True) # ys"
    let ?ra = "\<lparr>addr = a + HDR, bsize = n, bfree = False, prev = last_or 0 xs, nxt = ?nb\<rparr>"
    let ?h2 = "h\<lparr>blocks := m(a \<mapsto> ?ra)\<rparr>"
    have al: "xs @ alloc_at a n sz @ ys = xs @ (a, n, False) # ?rest"
      using True by (simp add: alloc_at_def)
    let ?rb = "\<lparr>addr = a + HDR, bsize = sz, bfree = True, prev = last_or 0 xs, nxt = ?nb\<rparr>"
    have "deref a (?h1\<lparr>blocks := m\<rparr>) = deref a h" by (simp add: deref_def ma)
    moreover have "deref a h = Inr (?rb\<lparr>nxt := hd_or ys 0\<rparr>)" by (simp add: deref_def ba)
    ultimately have "split_block a n h = Inr (set_block a ?rb (?h1\<lparr>blocks := m\<rparr>))"
      unfolding split_block_def
      by (simp only: bind_res_simps Let_def k_heap_block.simps split if_True m(1))
    then have sb: "split_block a n h = Inr (h\<lparr>blocks := m(a \<mapsto> ?rb)\<rparr>)"
      by (simp add: set_block_def)
    have "?nb \<noteq> 0" using nb by (auto simp del: unat_0_iff simp: unat_eq_zero [symmetric])
    moreover have "seg (m(a \<mapsto> ?ra)) 0 xs a"
    proof -
      have "seg m 0 xs a = seg (blocks h) 0 xs a"
      proof (rule seg_cong)
        fix x assume x: "x \<in> fst ` set xs"
        then have "x \<noteq> ?nb" using nb_xs(1) by metis
        moreover have "x \<notin> fst ` set ys" using L(4) x by (simp only: map_append distinct_append) auto
        ultimately show "m x = blocks h x" using m(3) by (simp add: set_block_def)
      qed
      then show ?thesis using sx L(4) by simp
    qed
    moreover have "seg (m(a \<mapsto> ?ra)) ?nb ys 0" using m(2) L(4) by simp
    ultimately have s2: "seg (blocks ?h2) 0 (xs @ (a, n, False) # ?rest) 0"
      using ma nb_xs(2) a0(2) by simp
    have "take_block a n h = (if a = free_head ?h2
        then map_option (\<lambda>r. bind_res r (\<lambda>p. Inr (a + HDR, ?h2\<lparr>free_head := p\<rparr>))) (skip_used ?h2 (hd_or ?rest 0))
        else Some (Inr (a + HDR, ?h2)))"
      by (simp add: take_block_def sb deref_def set_block_def)
    with take_free_head [OF _ s2 a0(2), of ?lo ?hi sz ys] lay' ff hd s2 lo0 show ?thesis
      by (auto simp: heap_inv_def al)
  next
    case False
    then have split: "\<not> n + HDR + 1 \<le> sz" using fits_split(1) [OF fits szb] by simp
    let ?ra = "\<lparr>addr = a + HDR, bsize = n, bfree = False, prev = last_or 0 xs, nxt = hd_or ys 0\<rparr>"
    let ?h2 = "h\<lparr>blocks := (blocks h)(a \<mapsto> ?ra)\<rparr>"
    have al: "xs @ alloc_at a n sz @ ys = xs @ (a, n, False) # ys"
      using False by (simp add: alloc_at_def)
    have "seg ((blocks h)(a \<mapsto> ?ra)) 0 xs a" "seg ((blocks h)(a \<mapsto> ?ra)) a ys 0"
      using sx sy L(4) by simp_all
    then have s2: "seg (blocks ?h2) 0 (xs @ (a, n, False) # ys) 0" using a0(2) by simp
    have "take_block a n h = (if a = free_head ?h2
        then map_option (\<lambda>r. bind_res r (\<lambda>p. Inr (a + HDR, ?h2\<lparr>free_head := p\<rparr>))) (skip_used ?h2 (hd_or ys 0))
        else Some (Inr (a + HDR, ?h2)))"
      using split by (simp add: take_block_def split_block_def deref_def ba set_block_def)
    with take_free_head [OF _ s2 a0(2), of ?lo ?hi sz ys] lay' ff hd s2 lo0 show ?thesis
      by (auto simp: heap_inv_def al)
  qed
qed

section \<open>Giving a block back\<close>

text \<open>The invariant without the free-list head, which \<open>kfree\<close> updates last.\<close>

definition chain :: "kheap \<Rightarrow> ablock list \<Rightarrow> bool" where
  "chain h bs \<longleftrightarrow> bs \<noteq> [] \<and> head h = hd_or bs 0 \<and> seg (blocks h) 0 bs 0
     \<and> layout (unat (kheap_start h)) bs (unat (kheap_end h)) \<and> 0 < unat (kheap_start h)"

lemma heap_inv_chain: "heap_inv h bs \<longleftrightarrow> chain h bs \<and> free_head h = first_free bs"
  by (auto simp: heap_inv_def chain_def)

fun absorb :: "ablock \<Rightarrow> ablock list \<Rightarrow> ablock list" where
  "absorb b [] = [b]"
| "absorb (a, sz, fr) ((c, csz, cf) # ys) =
     (if cf then (a, sz + (HDR + csz), fr) # ys else (a, sz, fr) # (c, csz, cf) # ys)"

lemma merged_size:
  assumes "layout lo ((a, sz, fr) # (c, csz, cf) # ys) hi" "hi < 2 ^ 32"
  shows "unat (sz + (HDR + csz)) = unat sz + 20 + unat csz"
proof -
  have b: "unat a + 20 + unat sz \<le> unat c" "unat c + 20 + unat csz \<le> hi"
    using assms(1) layout_le by auto
  then have "unat (HDR + csz) = 20 + unat csz" using assms(2) by (simp add: HDR_def unat_add_u32)
  then show ?thesis using b assms(2) by (simp add: unat_add_u32)
qed

lemma merge_next_chain:
  assumes "chain h (xs @ (a, sz, fr) # ys)"
  shows "\<exists>m. merge_next a h = Inr (h\<lparr>blocks := m\<rparr>)
    \<and> chain (h\<lparr>blocks := m\<rparr>) (xs @ absorb (a, sz, fr) ys)"
proof -
  have ba: "deref a h = Inr \<lparr>addr = a + HDR, bsize = sz, bfree = fr, prev = last_or 0 xs, nxt = hd_or ys 0\<rparr>"
    using assms by (simp add: chain_def deref_def)
  show ?thesis
  proof (cases ys)
    case Nil
    then show ?thesis using assms ba by (intro exI [of _ "blocks h"]) (simp add: merge_next_def)
  next
    case (Cons y ys')
    obtain c csz cf where y: "y = (c, csz, cf)" by (cases y) auto
    have bc: "deref c h = Inr \<lparr>addr = c + HDR, bsize = csz, bfree = cf, prev = a, nxt = hd_or ys' 0\<rparr>" "c \<noteq> 0"
      using assms by (simp_all add: chain_def deref_def Cons y)
    show ?thesis
    proof (cases cf)
      case False
      then show ?thesis using assms ba bc
        by (intro exI [of _ "blocks h"]) (simp add: merge_next_def Cons y)
    next
      case True
      let ?ra = "\<lparr>addr = a + HDR, bsize = sz + (HDR + csz), bfree = fr, prev = last_or 0 xs, nxt = hd_or ys' 0\<rparr>"
      have lay: "layout (unat (kheap_start h)) (xs @ (a, sz, fr) # (c, csz, cf) # ys') (unat (kheap_end h))"
        using assms by (simp add: chain_def Cons y)
      have d: "a \<notin> fst ` set xs" "a \<notin> fst ` set ys'" "distinct (map fst ys')"
        "fst ` set xs \<inter> fst ` set ys' = {}" "a \<noteq> 0"
        using layout_distinct [OF lay] assms by (auto simp: chain_def)
      have s: "seg (blocks h) 0 xs a" "seg (blocks h) c ys' 0"
        using assms by (simp_all add: chain_def Cons y)
      have "seg (blocks (set_block a ?ra h)) c ys' 0" using s d by simp
      from relink [OF this d(3), of a] obtain m where
        m: "(if hd_or ys' 0 \<noteq> 0 then set_prev (hd_or ys' 0) a (set_block a ?ra h) else Inr (set_block a ?ra h))
            = Inr (set_block a ?ra h\<lparr>blocks := m\<rparr>)" "seg m a ys' 0"
          "\<And>x. x \<notin> fst ` set ys' \<Longrightarrow> m x = blocks (set_block a ?ra h) x" by blast
      have eq: "merge_next a h = Inr (h\<lparr>blocks := m\<rparr>)"
        using m(1) bc True by (simp add: merge_next_def ba Cons y set_block_def Let_def cong: if_cong)
      have "seg m 0 xs a = seg (blocks h) 0 xs a"
      proof (rule seg_cong)
        fix x assume x: "x \<in> fst ` set xs"
        then have "x \<noteq> a" using d(1) by metis
        moreover have "x \<notin> fst ` set ys'" using d(4) x by blast
        ultimately show "m x = blocks h x" using m(3) by (simp add: set_block_def)
      qed
      moreover have "m a = Some ?ra" using m(3) [OF d(2)] by (simp add: set_block_def)
      moreover obtain mid where mid: "layout (unat (kheap_start h)) xs mid"
        "layout mid ((a, sz, fr) # (c, csz, cf) # ys') (unat (kheap_end h))" using lay by auto
      moreover have "layout mid ((a, sz + (HDR + csz), fr) # ys') (unat (kheap_end h))"
        using merged_size [OF mid(2)] mid(2) unat_u32_bound [of "kheap_end h"]
        by (auto intro: layout_mono)
      moreover have "head h = hd_or xs a" using assms by (simp add: chain_def Cons y)
      ultimately have "chain (h\<lparr>blocks := m\<rparr>) (xs @ absorb (a, sz, fr) ys)"
        using s(1) m(2) d(5) assms True by (auto simp: chain_def Cons y)
      with eq show ?thesis by blast
    qed
  qed
qed

lemma merge_prev_chain:
  assumes "chain h (xs @ (a, sz, True) # ys)"
  shows "merge_prev a h = (if xs \<noteq> [] \<and> snd (snd (last xs))
    then bind_res (merge_next (fst (last xs)) h) (\<lambda>h. Inr (fst (last xs), h)) else Inr (a, h))"
proof (cases xs rule: rev_cases)
  case Nil
  then show ?thesis using assms by (simp add: merge_prev_def chain_def deref_def)
next
  case (snoc xs' b)
  obtain p psz pf where b: "b = (p, psz, pf)" by (cases b) auto
  have "deref a h = Inr \<lparr>addr = a + HDR, bsize = sz, bfree = True, prev = p, nxt = hd_or ys 0\<rparr>"
    "deref p h = Inr \<lparr>addr = p + HDR, bsize = psz, bfree = pf, prev = last_or 0 xs', nxt = a\<rparr>"
    "p \<noteq> 0" "a \<noteq> 0"
    using assms by (simp_all add: chain_def deref_def snoc b)
  then show ?thesis by (simp add: merge_prev_def merge_next_def snoc b Let_def cong: if_cong)
qed

definition coalesce :: "ablock list \<Rightarrow> u32 \<Rightarrow> u32 \<Rightarrow> ablock list \<Rightarrow> ablock list" where
  "coalesce xs a sz ys = (let m = absorb (a, sz, True) ys in
     if xs \<noteq> [] \<and> snd (snd (last xs)) then butlast xs @ absorb (last xs) m else xs @ m)"

lemma absorb_first_free [simp]: "first_free (xs @ absorb (a, sz, True) ys) = (if used_only xs then a else first_free xs)"
  by (cases ys) (auto simp: first_free_append)

lemma absorb_free: "\<exists>z zs. absorb (a, sz, True) ys = (a, z, True) # zs"
  by (cases ys) auto

lemma free_head_after:
  assumes "layout lo (xs @ (a, sz, False) # ys) hi" "0 < lo"
    "block = (if xs \<noteq> [] \<and> snd (snd (last xs)) then fst (last xs) else a)"
    "fh = first_free (xs @ (a, sz, False) # ys)"
  shows "(if fh = 0 \<or> block < fh then block else fh) = first_free (coalesce xs a sz ys)"
proof -
  note L = layout_split_used [OF assms(1)]
  have a0: "0 < unat a" using L(1) assms(2) by simp
  have old: "fh = (if used_only xs then first_free ys else first_free xs)"
    using assms(4) by (simp add: first_free_append)
  have xs_lt: "first_free xs < a \<and> 0 < unat (first_free xs)" if "\<not> used_only xs"
  proof -
    have m: "first_free xs \<in> fst ` set xs" by (rule first_free_member [OF that])
    then have "lo \<le> unat (first_free xs)" using layout_member [OF assms(1)] by fastforce
    with L(6) [OF m] assms(2) show ?thesis by (simp add: word_less_nat_alt)
  qed
  have ys_gt: "first_free ys = 0 \<or> a < first_free ys"
  proof (cases "used_only ys")
    case True
    then show ?thesis using first_free_append [of ys "[]"] by simp
  next
    case False
    from L(5) [OF first_free_member [OF False]] show ?thesis by (simp add: word_less_nat_alt)
  qed
  obtain z zs where m: "absorb (a, sz, True) ys = (a, z, True) # zs" using absorb_free by blast
  show ?thesis
  proof (cases "xs \<noteq> [] \<and> snd (snd (last xs))")
    case False
    have "coalesce xs a sz ys = xs @ absorb (a, sz, True) ys" using False by (auto simp: coalesce_def Let_def)
    moreover have "block = a" using False assms(3) by auto
    ultimately show ?thesis using old xs_lt ys_gt by (auto simp: word_less_nat_alt)
  next
    case True
    then obtain xs' p psz where xs: "xs = xs' @ [(p, psz, True)]"
      by (cases xs rule: rev_cases) auto
    have bl: "block = p" using assms(3) xs by simp
    have new: "first_free (coalesce xs a sz ys) = (if used_only xs' then p else first_free xs')"
      by (simp add: coalesce_def Let_def xs m first_free_append)
    have pa: "p \<noteq> 0" using layout_split_used(1) [of lo xs' p psz True "(a, sz, False) # ys" hi] assms(1,2)
      by (auto simp: xs)
    show ?thesis
    proof (cases "used_only xs'")
      case True
      then show ?thesis using old new bl by (simp add: xs first_free_append)
    next
      case False
      have "first_free xs' < p"
        using layout_split_used(6) [of lo xs' p psz True "(a, sz, False) # ys" hi] assms(1)
          first_free_member [OF False] by (simp add: xs word_less_nat_alt)
      then show ?thesis using old new bl False xs_lt by (auto simp: xs first_free_append)
    qed
  qed
qed

lemma kfree_spec:
  assumes inv: "heap_inv h (xs @ (a, sz, False) # ys)"
  shows "\<exists>m f. kfree (a + HDR) h = Inr (h\<lparr>blocks := m, free_head := f\<rparr>)
    \<and> heap_inv (h\<lparr>blocks := m, free_head := f\<rparr>) (coalesce xs a sz ys)"
proof -
  let ?lo = "unat (kheap_start h)" and ?hi = "unat (kheap_end h)"
  let ?bl = "if xs \<noteq> [] \<and> snd (snd (last xs)) then fst (last xs) else a"
  have lay: "layout ?lo (xs @ (a, sz, False) # ys) ?hi" and lo: "0 < ?lo"
    and ff: "free_head h = first_free (xs @ (a, sz, False) # ys)"
    using inv by (simp_all add: heap_inv_def)
  note L = layout_split_used [OF lay]
  have "unat a + 20 < 4294967296" using L(2) unat_u32_bound [of "kheap_end h"] by linarith
  then have "unat (a + HDR) = unat a + 20" by (simp add: HDR_def unat_add_u32)
  then have nz: "a + HDR \<noteq> 0" by (auto simp del: unat_0_iff simp: unat_eq_zero [symmetric])
  let ?r = "\<lparr>addr = a + HDR, bsize = sz, bfree = True, prev = last_or 0 xs, nxt = hd_or ys 0\<rparr>"
  have ba: "deref a h = Inr (?r\<lparr>bfree := False\<rparr>)"
    using inv by (simp add: heap_inv_def deref_def)
  define h1 where "h1 = set_block a ?r h"
  have c1: "chain h1 (xs @ (a, sz, True) # ys)"
    using inv L(4) by (auto simp: h1_def heap_inv_def chain_def set_block_def)
  from merge_next_chain [OF c1] obtain m1 where
    m1: "merge_next a h1 = Inr (h1\<lparr>blocks := m1\<rparr>)"
      "chain (h1\<lparr>blocks := m1\<rparr>) (xs @ absorb (a, sz, True) ys)" by blast
  obtain z zs where ab: "absorb (a, sz, True) ys = (a, z, True) # zs" using absorb_free by blast
  have "\<exists>m. merge_prev a (h1\<lparr>blocks := m1\<rparr>) = Inr (?bl, h1\<lparr>blocks := m\<rparr>)
      \<and> chain (h1\<lparr>blocks := m\<rparr>) (coalesce xs a sz ys)"
  proof (cases "xs \<noteq> [] \<and> snd (snd (last xs))")
    case False
    then show ?thesis using merge_prev_chain [OF m1(2) [unfolded ab]] m1(2)
      by (intro exI [of _ m1]) (auto simp: coalesce_def Let_def)
  next
    case True
    then obtain xs' p psz where xs: "xs = xs' @ [(p, psz, True)]"
      by (cases xs rule: rev_cases) auto
    have c2: "chain (h1\<lparr>blocks := m1\<rparr>) (xs' @ (p, psz, True) # absorb (a, sz, True) ys)"
      using m1(2) by (simp add: xs)
    show ?thesis using merge_prev_chain [OF m1(2) [unfolded ab]] merge_next_chain [OF c2]
      by (auto simp: xs coalesce_def Let_def)
  qed
  then obtain m where m: "merge_prev a (h1\<lparr>blocks := m1\<rparr>) = Inr (?bl, h1\<lparr>blocks := m\<rparr>)"
    "chain (h1\<lparr>blocks := m\<rparr>) (coalesce xs a sz ys)" by blast
  define f where "f = (if free_head h = 0 \<or> ?bl < free_head h then ?bl else free_head h)"
  have f: "f = first_free (coalesce xs a sz ys)"
    unfolding f_def by (rule free_head_after [OF lay lo refl ff])
  have "kfree (a + HDR) h = Inr (h\<lparr>blocks := m, free_head := f\<rparr>)"
    using nz m(1) m1(1) ba by (simp add: kfree_def h1_def f_def set_block_def)
  moreover have "heap_inv (h\<lparr>blocks := m, free_head := f\<rparr>) (coalesce xs a sz ys)"
    using m(2) f by (simp add: heap_inv_chain chain_def h1_def set_block_def)
  ultimately show ?thesis by blast
qed

text \<open>Freeing a block that is free already changes nothing.\<close>

lemma kfree_free_block:
  assumes "heap_inv h (xs @ (a, sz, True) # ys)" "a + HDR \<noteq> 0"
  shows "kfree (a + HDR) h = Inr h"
  using assms by (simp add: kfree_def heap_inv_def deref_def)

section \<open>Live blocks\<close>

lemma seg_unique:
  "seg m pr bs 0 \<Longrightarrow> seg m pr' bs' 0 \<Longrightarrow> hd_or bs 0 = hd_or bs' 0 \<Longrightarrow> bs = bs'"
proof (induction bs arbitrary: pr pr' bs')
  case Nil
  then show ?case by (cases bs') auto
next
  case (Cons b bs)
  then obtain c cs where bs': "bs' = c # cs" by (cases bs'; cases b) auto
  obtain a sz fr where b: "b = (a, sz, fr)" by (cases b) auto
  obtain a' sz' fr' where c: "c = (a', sz', fr')" by (cases c) auto
  have eq: "a' = a" using Cons.prems(3) by (simp add: b c bs')
  with Cons.prems(1,2) have "sz' = sz" "fr' = fr" "hd_or bs 0 = hd_or cs 0"
    by (auto simp: b c bs')
  moreover have "bs = cs"
    using Cons.IH [of a a cs] Cons.prems(1,2) eq calculation(3) by (simp add: b c bs')
  ultimately show ?case by (simp add: b c bs' eq)
qed

lemma heap_inv_unique: "heap_inv h bs \<Longrightarrow> heap_inv h bs' \<Longrightarrow> bs = bs'"
  using seg_unique by (metis heap_inv_def)

definition used_blocks :: "ablock list \<Rightarrow> (u32 \<times> u32) set" where
  "used_blocks bs = {(a + HDR, sz) | a sz. (a, sz, False) \<in> set bs}"

definition live :: "kheap \<Rightarrow> (u32 \<times> u32) set" where
  "live h = \<Union> {used_blocks bs | bs. heap_inv h bs}"

lemma live_inv: "heap_inv h bs \<Longrightarrow> live h = used_blocks bs"
  using heap_inv_unique by (auto simp: live_def)

lemma used_blocks_simps [simp, heap_simps]:
  "used_blocks [] = {}"
  "used_blocks ((a, sz, fr) # bs) = (if fr then used_blocks bs else insert (a + HDR, sz) (used_blocks bs))"
  "used_blocks (xs @ ys) = used_blocks xs \<union> used_blocks ys"
  by (auto simp: used_blocks_def)

definition disjoint_blocks :: "u32 \<times> u32 \<Rightarrow> u32 \<times> u32 \<Rightarrow> bool" where
  "disjoint_blocks x y \<longleftrightarrow> unat (fst x) + unat (snd x) < unat (fst y)
     \<or> unat (fst y) + unat (snd y) < unat (fst x)"

lemma disjoint_blocks_sym: "disjoint_blocks x y \<Longrightarrow> disjoint_blocks y x"
  by (auto simp: disjoint_blocks_def)

lemma used_blocks_bounds:
  assumes "layout lo bs hi" "hi < 2 ^ 32" "(p, n) \<in> used_blocks bs"
  shows "lo + 20 \<le> unat p \<and> unat p + unat n \<le> hi"
proof -
  obtain a where a: "p = a + HDR" "(a, n, False) \<in> set bs" using assms(3) by (auto simp: used_blocks_def)
  note m = layout_member [OF assms(1) a(2)]
  then have "unat p = unat a + 20" using assms(2) a(1) by (simp add: HDR_def unat_add_u32)
  with m show ?thesis by simp
qed

lemma used_blocks_disjoint:
  assumes "layout lo bs hi" "hi < 2 ^ 32" "x \<in> used_blocks bs" "y \<in> used_blocks bs" "x \<noteq> y"
  shows "disjoint_blocks x y"
  using assms
proof (induction lo bs hi rule: layout.induct)
  case (2 lo a sz fr bs hi)
  have "unat a + 20 \<le> hi" using layout_le 2(2) by fastforce
  then have p: "unat (a + HDR) = unat a + 20" using 2(3) by (simp add: HDR_def unat_add_u32)
  have sep: "disjoint_blocks (a + HDR, sz) z" if "z \<in> used_blocks bs" for z
    using used_blocks_bounds [of "unat a + 20 + unat sz" bs hi "fst z" "snd z"] 2(2,3) that p
    by (simp add: disjoint_blocks_def)
  have "x \<in> used_blocks bs \<or> x = (a + HDR, sz)" "y \<in> used_blocks bs \<or> y = (a + HDR, sz)"
    using 2(4,5) by (auto split: if_splits)
  moreover have "disjoint_blocks x y" if "x \<in> used_blocks bs" "y \<in> used_blocks bs"
    using 2(1) [OF _ 2(3)] 2(2,6) that by simp
  ultimately show ?case using 2(6) sep disjoint_blocks_sym by blast
qed simp

section \<open>Tables without aliases\<close>

text \<open>No two directory slots share a table (true once \<open>remove_identity_map\<close> has run).\<close>

definition unaliased :: "vm \<Rightarrow> bool" where
  "unaliased s \<longleftrightarrow> (\<forall>i j. unat i < 1023 \<and> unat j < 1023 \<and> i \<noteq> j
     \<and> pde s i AND PAGE_PRESENT \<noteq> 0 \<and> pde s j AND PAGE_PRESENT \<noteq> 0 \<longrightarrow>
       page_base (pde s i) \<noteq> page_base (pde s j))"

lemma unaliased_not_shared:
  assumes "unaliased s" "pd_index v \<noteq> RECURSIVE_SLOT" "pd_index w \<noteq> RECURSIVE_SLOT"
  shows "\<not> shares_table s v w"
  using assms below_slot [of "pd_index v"] below_slot [of "pd_index w"]
  by (auto simp: unaliased_def shares_table_def)

lemma unaliased_frames: "unaliased (s\<lparr>frames := p\<rparr>) = unaliased s"
  by (simp add: unaliased_def)

lemma map_page_unaliased:
  assumes inv: "paging_inv s" and un: "unaliased s" and slot: "pd_index virt \<noteq> RECURSIVE_SLOT"
    and m: "map_page phys virt flags s = Inr s'"
  shows "unaliased s'"
proof (cases "pde s (pd_index virt) AND PAGE_PRESENT = 0")
  case False
  have t: "page_base (pde s (pd_index virt)) \<noteq> cr3 s" using table_ne_dir(1) [OF inv slot False] .
  have "pde s' j = pde s j" if "unat j < 1024" for j
    using map_page_present [OF inv slot False] m paging_inv_set_pte(2) [OF inv _ t pt_index_bound that]
    by auto
  then show ?thesis using un by (auto simp: unaliased_def)
next
  case True
  then obtain f s1 where a: "alloc_frame s = Inr (f, s1)"
    using inv m by (auto simp: map_page_def Let_def)
  note A = paging_inv_alloc [OF inv a]
  define s3 where "s3 = zero_page f (set_entry (cr3 s) (pd_index virt) (f OR dir_flags flags) s1)"
  have eq: "s' = set_entry f (pt_index virt) (map_entry phys flags) s3"
    using map_page_absent(1) [OF inv slot True a, of phys flags] m by (simp add: s3_def)
  have inv3: "paging_inv s3" using map_page_absent(2) [OF inv slot True a] by (simp add: s3_def)
  have pd3: "pde s3 j = (if j = pd_index virt then f OR dir_flags flags else pde s j)" if "unat j < 1024" for j
    unfolding s3_def by (rule map_page_absent(3) [OF inv slot True a that])
  have "cr3 s3 = cr3 s" unfolding s3_def using A by (metis set_entry_fields(1,3) vm.select_convs(1) vm.surjective vm.update_convs(3))
  then have "f \<noteq> cr3 s3" using A by simp
  then have pd: "pde s' j = (if j = pd_index virt then f OR dir_flags flags else pde s j)" if "unat j < 1024" for j
    using paging_inv_set_pte(2) [OF inv3 _ _ pt_index_bound that] A pd3 [OF that] by (simp add: eq)
  show ?thesis using un A pd
    by (auto simp: unaliased_def)
qed

section \<open>Growing the heap\<close>

text \<open>
  Growth maps one frame per page, so it stops when the frames are gone. \<open>heap_ok\<close> adds to the
  block list that the page tables are well formed, none of them shared, and that the address range above the heap is
  large enough for every free frame (the kernel's own range ends at the recursive slot).
\<close>

definition avail :: "vm \<Rightarrow> nat" where
  "avail s = card (free_frames (frames s))"

definition oom :: kerr where
  "oom = Panic ''pmm_alloc_frame() -> out of physical memory''"

definition heap_ok :: "kheap \<Rightarrow> ablock list \<Rightarrow> bool" where
  "heap_ok h bs \<longleftrightarrow> heap_inv h bs \<and> paging_inv (vmem h) \<and> unaliased (vmem h)
     \<and> unat (kheap_end h) + 4096 * avail (vmem h) \<le> 0xffc00000"

lemma alloc_frame_avail:
  assumes "paging_inv s" "alloc_frame s = Inr (f, s')"
  shows "avail s = Suc (avail s')"
proof -
  obtain p where p: "pmm_alloc_frame (frames s) = Inr (f, p)" "s' = s\<lparr>frames := p\<rparr>"
    using assms(2) by (auto simp: alloc_frame_def)
  have "pmm_inv (frames s)" using assms(1) by (simp add: paging_inv_def)
  from pmm_alloc_Inr [OF this p(1)] show ?thesis
    unfolding avail_def p(2) using card_Suc_Diff1 [OF free_frames_finite, of f "frames s"] by simp
qed

lemma alloc_frame_Inl: "alloc_frame s = Inl e \<Longrightarrow> e = oom \<and> avail s = 0"
  using pmm_alloc_Inl [of "frames s" e] by (auto simp: alloc_frame_def bind_res_eq_Inl avail_def oom_def)

lemma map_page_avail:
  assumes "paging_inv s" "pd_index virt \<noteq> RECURSIVE_SLOT" "map_page phys virt flags s = Inr s'"
  shows "free_frames (frames s') \<subseteq> free_frames (frames s)" "avail s' \<le> avail s"
    "avail s \<le> Suc (avail s')"
proof -
  have both: "free_frames (frames s') \<subseteq> free_frames (frames s) \<and> avail s \<le> Suc (avail s')"
  proof (cases "pde s (pd_index virt) AND PAGE_PRESENT = 0")
    case False
    with map_page_present [OF assms(1,2) False] assms(3) show ?thesis by (auto simp: avail_def)
  next
    case True
    then obtain f s1 where a: "alloc_frame s = Inr (f, s1)"
      using assms(1,3) by (auto simp: map_page_def Let_def)
    have "s' = set_entry f (pt_index virt) (map_entry phys flags)
        (zero_page f (set_entry (cr3 s) (pd_index virt) (f OR dir_flags flags) s1))"
      using map_page_absent(1) [OF assms(1,2) True a, of phys flags] assms(3) by simp
    then have "frames s' = frames s1" by (simp add: zero_page_def)
    then show ?thesis using paging_inv_alloc [OF assms(1) a] alloc_frame_avail [OF assms(1) a]
      by (simp add: avail_def)
  qed
  then show sub: "free_frames (frames s') \<subseteq> free_frames (frames s)" by blast
  show "avail s' \<le> avail s"
    unfolding avail_def by (rule card_mono [OF free_frames_finite sub])
  show "avail s \<le> Suc (avail s')" using both by blast
qed

lemma below_recursive: "unat (v :: u32) < 0xffc00000 \<Longrightarrow> pd_index v \<noteq> RECURSIVE_SLOT"
  using pd_index_unat [of v] by (auto simp: RECURSIVE_SLOT_def)

lemma grow_map_spec:
  assumes "heap_ok h bs"
  shows "grow_map h = Inl oom \<or> (\<exists>s. grow_map h = Inr (set_block (kheap_end h)
         \<lparr>addr = kheap_end h + HDR, bsize = PAGE_SIZE - HDR, bfree = True, prev = 0, nxt = 0\<rparr>
         (h\<lparr>kheap_end := kheap_end h + PAGE_SIZE, kheap_size := kheap_size h + PAGE_SIZE, vmem := s\<rparr>))
      \<and> paging_inv s \<and> unaliased s \<and> avail s < avail (vmem h))"
proof (cases "alloc_frame (vmem h)")
  case (Inl e)
  with alloc_frame_Inl [OF Inl] show ?thesis by (simp add: grow_map_def)
next
  case (Inr r)
  then obtain f s1 where f: "alloc_frame (vmem h) = Inr (f, s1)" by (cases r) auto
  have inv: "paging_inv (vmem h)" using assms by (simp add: heap_ok_def)
  note a = alloc_frame_avail [OF inv f]
  have inv1: "paging_inv s1" using paging_inv_alloc [OF inv f] by simp
  have "unaliased (vmem h)" using assms by (simp add: heap_ok_def)
  then have un1: "unaliased s1"
    using paging_inv_alloc [OF inv f] by (metis unaliased_frames)
  have slot: "pd_index (kheap_end h) \<noteq> RECURSIVE_SLOT"
    using assms a by (intro below_recursive) (simp add: heap_ok_def)
  show ?thesis
  proof (cases "map_page f (kheap_end h) (PAGE_PRESENT OR PAGE_RW) s1")
    case (Inl e)
    with map_page_Inl [OF inv1 slot Inl] f show ?thesis by (simp add: grow_map_def oom_def)
  next
    case (Inr s2)
    with map_page_spec(1) [OF inv1 slot Inr] map_page_unaliased [OF inv1 un1 slot Inr]
      map_page_avail(2) [OF inv1 slot Inr] a f
    show ?thesis by (intro disjI2 exI [of _ s2]) (simp add: grow_map_def)
  qed
qed

lemma last_or_member: "bs \<noteq> [] \<Longrightarrow> last_or x bs = fst (last bs)"
  by (induction x bs rule: last_or.induct) auto

lemma grow_heap_spec:
  assumes ok: "heap_ok h bs"
  shows "grow_heap h = Some (Inl oom) \<or> (\<exists>h'. grow_heap h = Some (Inr h')
      \<and> heap_ok h' (bs @ [(kheap_end h, 4076, True)]) \<and> avail (vmem h') < avail (vmem h))"
proof (cases "grow_map h")
  case (Inl e)
  with grow_map_spec [OF ok] show ?thesis by (simp add: grow_heap_def)
next
  case (Inr h1)
  let ?e = "kheap_end h"
  let ?r = "\<lparr>addr = ?e + HDR, bsize = PAGE_SIZE - HDR, bfree = True, prev = 0, nxt = 0\<rparr>"
  from grow_map_spec [OF ok] Inr obtain s where
    h1: "h1 = set_block ?e ?r (h\<lparr>kheap_end := ?e + PAGE_SIZE, kheap_size := kheap_size h + PAGE_SIZE, vmem := s\<rparr>)"
    and s: "paging_inv s" "unaliased s" "avail s < avail (vmem h)" by auto
  have inv: "heap_inv h bs" and room: "unat ?e + 4096 * avail (vmem h) \<le> 0xffc00000"
    using ok by (simp_all add: heap_ok_def)
  have lay: "layout (unat (kheap_start h)) bs (unat ?e)" and ne: "bs \<noteq> []" and seg: "seg (blocks h) 0 bs 0"
    and lo: "0 < unat (kheap_start h)" and hd: "head h = hd_or bs 0" and ff: "free_head h = first_free bs"
    using inv by (simp_all add: heap_inv_def)
  have e: "unat (?e + PAGE_SIZE) = unat ?e + 4096"
    using room s(3) by (simp add: PAGE_SIZE_def unat_add_u32)
  have e0: "?e \<noteq> 0" using layout_le [OF lay] lo by auto
  have fresh: "?e \<notin> fst ` set bs"
  proof
    assume "?e \<in> fst ` set bs"
    then show False using layout_member [OF lay] by fastforce
  qed
  obtain zs t tsz tf where bs: "bs = zs @ [(t, tsz, tf)]"
    using ne by (cases bs rule: rev_cases) auto
  have dist: "t \<notin> fst ` set zs" using layout_distinct [OF lay] by (simp add: bs)
  have te: "t \<noteq> ?e" "?e \<notin> fst ` set zs" using fresh by (auto simp: bs)
  have t0: "t \<noteq> 0" "blocks h t = Some \<lparr>addr = t + HDR, bsize = tsz, bfree = tf, prev = last_or 0 zs, nxt = 0\<rparr>"
    "seg (blocks h) 0 zs t"
    using seg by (simp_all add: bs)
  have "seg (blocks h1) 0 bs 0" using seg fresh by (simp add: h1)
  from find_tail_seg [OF this ne] have tail: "find_tail h1 (head h1) = Some (Inr t)"
    using hd by (simp add: h1 bs set_block_def)
  let ?h2 = "h1\<lparr>blocks := (blocks h)(?e \<mapsto> ?r\<lparr>prev := t\<rparr>,
      t \<mapsto> \<lparr>addr = t + HDR, bsize = tsz, bfree = tf, prev = last_or 0 zs, nxt = ?e\<rparr>)\<rparr>"
  let ?h' = "if free_head h = 0 then ?h2\<lparr>free_head := ?e\<rparr> else ?h2"
  have link: "grow_link ?e t h1 = Inr ?h'"
    using te t0(2) by (simp add: grow_link_def set_prev_def deref_def set_block_def h1 Let_def)
  have psz: "PAGE_SIZE - HDR = 4076" by (simp add: PAGE_SIZE_def HDR_def)
  have zero_free: "first_free bs = 0 \<longleftrightarrow> used_only bs"
  proof
    assume z: "first_free bs = 0"
    show "used_only bs"
    proof (rule ccontr)
      assume "\<not> used_only bs"
      from layout_member [OF lay, of "first_free bs"] first_free_member [OF this] lo z show False by auto
    qed
  next
    assume "used_only bs"
    then show "first_free bs = 0" using first_free_append [of bs "[]"] by simp
  qed
  have "heap_inv ?h' (bs @ [(?e, 4076, True)])"
  proof -
    have "layout (unat (kheap_start h)) (bs @ [(?e, 4076, True)]) (unat (?e + PAGE_SIZE))"
      using lay by (auto simp: e)
    moreover have "seg (blocks ?h2) 0 (bs @ [(?e, 4076, True)]) 0"
      using t0 te dist e0 by (simp add: bs psz)
    moreover have "hd_or bs ?e = hd_or bs 0" using ne by (cases bs) auto
    ultimately show ?thesis
      using hd ff lo ne zero_free by (simp add: heap_inv_def h1 set_block_def first_free_append)
  qed
  moreover have "unat (?e + PAGE_SIZE) + 4096 * avail s \<le> 0xffc00000" using room s(3) by (simp add: e)
  ultimately have "heap_ok ?h' (bs @ [(?e, 4076, True)]) \<and> avail (vmem ?h') < avail (vmem h)"
    using s by (simp add: heap_ok_def h1 set_block_def)
  moreover have "grow_heap h = Some (Inr ?h')" using Inr tail link by (simp add: grow_heap_def)
  ultimately show ?thesis by blast
qed

section \<open>kmalloc\<close>

lemma first_fit_seg:
  "seg m pr xs nx \<Longrightarrow> first_fit n xs = 0 \<Longrightarrow> first_fit n (xs @ ys) = first_fit n ys"
proof (induction xs arbitrary: pr)
  case (Cons b bs)
  then show ?case by (cases b) (auto split: if_splits)
qed simp

lemma kmalloc_fit:
  assumes "heap_ok h (xs @ (a, sz, True) # ys)" "n \<le> sz" "first_fit n xs = 0"
  shows "\<exists>h'. kmalloc n h = Some (Inr (a + HDR, h')) \<and> heap_ok h' (xs @ alloc_at a n sz @ ys)
    \<and> vmem h' = vmem h"
proof -
  have inv: "heap_inv h (xs @ (a, sz, True) # ys)" using assms(1) by (simp add: heap_ok_def)
  then have a0: "a \<noteq> 0" by (simp add: heap_inv_def)
  have "seg (blocks h) 0 xs a" using inv by (simp add: heap_inv_def)
  from first_fit_seg [OF this assms(3)] assms(2)
  have "first_fit n (xs @ (a, sz, True) # ys) = a" by simp
  then have fb: "find_block h n (free_head h) = Some (Inr a)" using find_block_inv [OF inv] by simp
  from take_block_spec [OF inv assms(2)] obtain h' where
    h': "take_block a n h = Some (Inr (a + HDR, h'))" "heap_inv h' (xs @ alloc_at a n sz @ ys)"
      "vmem h' = vmem h" "kheap_end h' = kheap_end h" by blast
  have "kmalloc n h = Some (Inr (a + HDR, h'))"
    by (subst kmalloc.simps) (simp add: fb a0 h'(1))
  moreover have "heap_ok h' (xs @ alloc_at a n sz @ ys)"
    using assms(1) h' by (simp add: heap_ok_def)
  ultimately show ?thesis using h'(3) by blast
qed

lemma kmalloc_grow:
  assumes "heap_ok h bs" "first_fit n bs = 0"
  shows "kmalloc n h = Some (Inl oom) \<or> (\<exists>h'. heap_ok h' (bs @ [(kheap_end h, 4076, True)])
    \<and> avail (vmem h') < avail (vmem h) \<and> kmalloc n h = kmalloc n h')"
proof -
  have inv: "heap_inv h bs" using assms(1) by (simp add: heap_ok_def)
  have fb: "find_block h n (free_head h) = Some (Inr 0)" using find_block_inv [OF inv] assms(2) by simp
  from grow_heap_spec [OF assms(1)] show ?thesis
  proof (elim disjE exE conjE)
    assume "grow_heap h = Some (Inl oom)"
    then show ?thesis by (subst kmalloc.simps) (simp add: fb)
  next
    fix h' assume g: "grow_heap h = Some (Inr h')" "heap_ok h' (bs @ [(kheap_end h, 4076, True)])"
      "avail (vmem h') < avail (vmem h)"
    have "kmalloc n h = kmalloc n h'" by (subst kmalloc.simps) (simp add: fb g(1))
    with g show ?thesis by blast
  qed
qed

lemma first_fit_append: "first_fit n xs = 0 \<Longrightarrow> heap_inv h (xs @ ys) \<Longrightarrow> first_fit n (xs @ ys) = first_fit n ys"
  using first_fit_seg [of "blocks h" 0 xs "hd_or ys 0" n ys] by (simp add: heap_inv_def)

lemma kmalloc_small:
  assumes ok: "heap_ok h bs" and n: "n \<le> 4076"
  shows "kmalloc n h = Some (Inl oom) \<or> (\<exists>xs a sz ys h'. n \<le> sz \<and>
      (bs = xs @ (a, sz, True) # ys \<or> bs = xs \<and> ys = [] \<and> a = kheap_end h \<and> sz = 4076)
      \<and> first_fit n xs = 0
      \<and> kmalloc n h = Some (Inr (a + HDR, h')) \<and> heap_ok h' (xs @ alloc_at a n sz @ ys))"
proof (cases "first_fit n bs = 0")
  case False
  from first_fit_Some [OF this] obtain xs sz ys where
    bs: "bs = xs @ (first_fit n bs, sz, True) # ys" "n \<le> sz" "first_fit n xs = 0" by blast
  with kmalloc_fit [OF _ bs(2,3), of h "first_fit n bs" ys] ok show ?thesis by metis
next
  case True
  from kmalloc_grow [OF ok True] show ?thesis
  proof (elim disjE exE conjE)
    fix h1 assume h1: "heap_ok h1 (bs @ [(kheap_end h, 4076, True)])" "kmalloc n h = kmalloc n h1"
    from kmalloc_fit [OF h1(1) n True] h1(2) obtain h' where
      "kmalloc n h = Some (Inr (kheap_end h + HDR, h'))" "heap_ok h' (bs @ alloc_at (kheap_end h) n 4076 @ [])"
      by auto
    with n True show ?thesis
      by - (rule disjI2, rule exI [of _ bs], rule exI [of _ "kheap_end h"], rule exI [of _ 4076],
        rule exI [of _ "[]"], auto)
  qed simp
qed

lemma kmalloc_big:
  assumes "heap_ok h bs" "4076 < n" "first_fit n bs = 0"
  shows "kmalloc n h = Some (Inl oom)"
  using assms
proof (induction "avail (vmem h)" arbitrary: h bs rule: less_induct)
  case less
  from kmalloc_grow [OF less(2,4)] show ?case
  proof (elim disjE exE conjE)
    fix h' assume h': "heap_ok h' (bs @ [(kheap_end h, 4076, True)])"
      "avail (vmem h') < avail (vmem h)" "kmalloc n h = kmalloc n h'"
    have "first_fit n (bs @ [(kheap_end h, 4076, True)]) = 0"
      using first_fit_append [OF less(4), of h' "[(kheap_end h, 4076, True)]"] h'(1) less(3)
      by (auto simp: heap_ok_def)
    with less(1) [OF h'(2,1) less(3)] h'(3) show ?thesis by simp
  qed simp
qed

section \<open>Runs of fresh pages\<close>

lemma page_add_aligned:
  "page_aligned virt \<Longrightarrow> unat virt + 4096 < 4294967296 \<Longrightarrow> page_aligned (virt + PAGE_SIZE)"
  by (simp add: page_aligned_def PAGE_SIZE_def unat_add_u32)

lemma page_step:
  assumes "unat virt + 4096 * n \<le> 0xffc00000" "i < n"
  shows "unat (virt + of_nat i * PAGE_SIZE) = unat virt + 4096 * i"
proof -
  have "4096 * i < 4294967296" using assms by linarith
  then have "unat (of_nat i * PAGE_SIZE :: u32) = 4096 * i"
    by (simp add: PAGE_SIZE_def unat_word_ariths unat_of_nat mod_mult_left_eq mult.commute)
  then show ?thesis using assms by (simp add: unat_add_u32)
qed

text \<open>A frame that holds neither the directory nor a table: writing to it changes no translation.\<close>

definition data_frame :: "vm \<Rightarrow> u32 \<Rightarrow> bool" where
  "data_frame s f \<longleftrightarrow> page_aligned f \<and> f \<noteq> cr3 s
     \<and> (\<forall>i. unat i < 1023 \<longrightarrow> pde s i AND PAGE_PRESENT \<noteq> 0 \<longrightarrow> page_base (pde s i) \<noteq> f)"

lemma data_frame_frames [simp]: "data_frame (s\<lparr>frames := p\<rparr>) f = data_frame s f"
  by (simp add: data_frame_def)

lemma free_data_frame:
  assumes "paging_inv s" "f \<in> free_frames (frames s)"
  shows "data_frame s f"
  using assms free_frames_page [of "frames s" f]
  by (auto simp: data_frame_def paging_inv_def page_aligned_iff)

lemma map_page_data:
  assumes inv: "paging_inv s" and slot: "pd_index virt \<noteq> RECURSIVE_SLOT"
    and m: "map_page phys virt flags s = Inr s'" and d: "data_frame s f" "f \<notin> free_frames (frames s)"
  shows "data_frame s' f"
proof (cases "pde s (pd_index virt) AND PAGE_PRESENT = 0")
  case False
  have t: "page_base (pde s (pd_index virt)) \<noteq> cr3 s" using table_ne_dir(1) [OF inv slot False] .
  have "pde s' j = pde s j" if "unat j < 1024" for j
    using map_page_present [OF inv slot False] m paging_inv_set_pte(2) [OF inv _ t pt_index_bound that]
    by auto
  moreover have "cr3 s' = cr3 s" using map_page_present [OF inv slot False] m by auto
  ultimately show ?thesis using d(1) by (simp add: data_frame_def)
next
  case True
  then obtain g s1 where a: "alloc_frame s = Inr (g, s1)"
    using inv m by (auto simp: map_page_def Let_def)
  note A = paging_inv_alloc [OF inv a]
  define s3 where "s3 = zero_page g (set_entry (cr3 s) (pd_index virt) (g OR dir_flags flags) s1)"
  have eq: "s' = set_entry g (pt_index virt) (map_entry phys flags) s3"
    using map_page_absent(1) [OF inv slot True a, of phys flags] m by (simp add: s3_def)
  have inv3: "paging_inv s3" using map_page_absent(2) [OF inv slot True a] by (simp add: s3_def)
  have pd3: "pde s3 j = (if j = pd_index virt then g OR dir_flags flags else pde s j)" if "unat j < 1024" for j
    unfolding s3_def by (rule map_page_absent(3) [OF inv slot True a that])
  have cr: "cr3 s3 = cr3 s" unfolding s3_def using A by (metis set_entry_fields(1,3) vm.select_convs(1) vm.surjective vm.update_convs(3))
  then have "g \<noteq> cr3 s3" using A by simp
  then have pd: "pde s' j = (if j = pd_index virt then g OR dir_flags flags else pde s j)" if "unat j < 1024" for j
    using paging_inv_set_pte(2) [OF inv3 _ _ pt_index_bound that] A pd3 [OF that] by (simp add: eq)
  have "f \<noteq> g" using A d(2) by auto
  then show ?thesis using d(1) pd A cr by (auto simp: data_frame_def eq)
qed

definition in_pages :: "u32 \<Rightarrow> nat \<Rightarrow> u32 \<Rightarrow> bool" where
  "in_pages virt n v \<longleftrightarrow> unat virt \<le> unat v \<and> unat v < unat virt + 4096 * n"

definition fresh_run :: "vm \<Rightarrow> u32 \<Rightarrow> nat \<Rightarrow> u32 list \<Rightarrow> vm \<Rightarrow> bool" where
  "fresh_run s virt n fs s' \<longleftrightarrow> paging_inv s' \<and> unaliased s' \<and> avail s' + n \<le> avail s
     \<and> length fs = n \<and> distinct fs \<and> set fs \<subseteq> free_frames (frames s)
     \<and> free_frames (frames s') \<subseteq> free_frames (frames s) - set fs
     \<and> (\<forall>i<n. translate s' (virt + of_nat i * PAGE_SIZE) = Some (fs ! i))
     \<and> (\<forall>f \<in> set fs. data_frame s' f)
     \<and> (\<forall>f. data_frame s f \<and> f \<notin> free_frames (frames s) \<longrightarrow> data_frame s' f)
     \<and> (\<forall>v. pd_index v \<noteq> RECURSIVE_SLOT \<and> \<not> in_pages virt n v \<longrightarrow> translate s' v = translate s v)"

lemma page_base_in_pages:
  assumes "page_aligned virt" "page_base v = virt"
  shows "in_pages virt (Suc n) v"
proof -
  have "unat v div 4096 * 4096 + unat v mod 4096 = unat v" by (rule div_mult_mod_eq)
  moreover have "unat v mod 4096 < 4096" by simp
  ultimately have "unat (page_base v) \<le> unat v \<and> unat v < unat (page_base v) + 4096"
    unfolding page_base_unat by linarith
  then show ?thesis by (simp add: in_pages_def assms(2))
qed

lemma map_fresh_pages_spec:
  assumes "paging_inv s" "unaliased s" "page_aligned virt" "unat virt + 4096 * n \<le> 0xffc00000"
    and "map_fresh_pages msg n virt s = Inr s'"
  shows "\<exists>fs. fresh_run s virt n fs s'"
  using assms
proof (induction n arbitrary: virt s)
  case 0
  then show ?case by (simp add: fresh_run_def)
next
  case (Suc n)
  from Suc.prems(5) obtain f s1 s2 where f: "alloc_frame s = Inr (f, s1)"
    and m: "map_page f virt (PAGE_PRESENT OR PAGE_RW) s1 = Inr s2"
    and r: "map_fresh_pages msg n (virt + PAGE_SIZE) s2 = Inr s'"
    by (auto split: if_splits)
  note A = paging_inv_alloc [OF Suc.prems(1) f]
  have s1: "s1 = s\<lparr>frames := frames s1\<rparr>" using A by simp
  have t1: "translate s1 v = translate s v" for v
    by (subst s1) (simp add: translate_def Let_def)
  have un1: "unaliased s1" by (subst s1) (simp add: unaliased_frames Suc.prems(2))
  have inv1: "paging_inv s1" using A by simp
  have lt: "unat virt + 4096 < 4294967296" "unat virt < 0xffc00000" using Suc.prems(4) by simp_all
  have slot: "pd_index virt \<noteq> RECURSIVE_SLOT" by (rule below_recursive [OF lt(2)])
  note M = map_page_spec [OF inv1 slot m] and V = map_page_avail [OF inv1 slot m]
  have un2: "unaliased s2" by (rule map_page_unaliased [OF inv1 un1 slot m])
  have next1: "unat (virt + PAGE_SIZE) = unat virt + 4096" using lt(1) by (simp add: PAGE_SIZE_def unat_add_u32)
  from Suc.IH [OF M(1) un2 page_add_aligned [OF Suc.prems(3) lt(1)] _ r] Suc.prems(4) next1
  obtain fs where fs: "fresh_run s2 (virt + PAGE_SIZE) n fs s'" by auto
  have off: "virt AND 0xfff = 0" using Suc.prems(3) page_aligned_iff by simp
  have pf: "page_base f = f" using A by (simp add: page_base_id)
  have vv: "translate s' virt = Some f"
    using fs slot M(2) next1 off pf by (simp add: fresh_run_def in_pages_def)
  have d1: "data_frame s1 g = data_frame s g" for g by (metis s1 data_frame_frames)
  have df: "data_frame s2 f"
  proof (rule map_page_data [OF inv1 slot m])
    show "data_frame s1 f" using A free_data_frame [OF Suc.prems(1)] d1 by blast
    show "f \<notin> free_frames (frames s1)" using A by simp
  qed
  have keep: "data_frame s2 g" if "data_frame s g" "g \<notin> free_frames (frames s)" for g
  proof (rule map_page_data [OF inv1 slot m])
    show "data_frame s1 g" using that d1 by blast
    show "g \<notin> free_frames (frames s1)" using A that by auto
  qed
  have "fresh_run s virt (Suc n) (f # fs) s'"
    unfolding fresh_run_def
  proof (intro conjI allI impI ballI)
    show "data_frame s' g" if "g \<in> set (f # fs)" for g
    proof (cases "g = f")
      case True
      have "f \<notin> free_frames (frames s2)" using A V(1) by auto
      with df fs True show ?thesis by (simp add: fresh_run_def)
    next
      case False
      with that fs show ?thesis by (simp add: fresh_run_def)
    qed
    show "data_frame s' g" if "data_frame s g \<and> g \<notin> free_frames (frames s)" for g
    proof -
      have "g \<notin> free_frames (frames s2)" using that A V(1) by auto
      with keep [of g] that fs show ?thesis by (simp add: fresh_run_def)
    qed
    show "paging_inv s'" "unaliased s'" "length (f # fs) = Suc n" using fs by (simp_all add: fresh_run_def)
    show "avail s' + Suc n \<le> avail s"
      using fs V(2) alloc_frame_avail [OF Suc.prems(1) f] by (simp add: fresh_run_def)
    have sub: "set fs \<subseteq> free_frames (frames s1)" using fs V(1) by (auto simp: fresh_run_def)
    then show "distinct (f # fs)" using fs A by (auto simp: fresh_run_def)
    show "set (f # fs) \<subseteq> free_frames (frames s)" using sub A by auto
    show "free_frames (frames s') \<subseteq> free_frames (frames s) - set (f # fs)"
      using fs V(1) A by (auto simp: fresh_run_def)
    show "translate s' (virt + of_nat i * PAGE_SIZE) = Some ((f # fs) ! i)" if "i < Suc n" for i
    proof (cases i)
      case 0
      then show ?thesis using vv by simp
    next
      case (Suc j)
      then show ?thesis using fs that by (simp add: fresh_run_def algebra_simps)
    qed
    show "translate s' v = translate s v" if "pd_index v \<noteq> RECURSIVE_SLOT \<and> \<not> in_pages virt (Suc n) v" for v
    proof -
      have "page_base v \<noteq> virt" using that page_base_in_pages [OF Suc.prems(3)] by blast
      moreover have "page_base virt = virt" by (rule page_base_id [OF Suc.prems(3)])
      ultimately have "other_page s1 v virt"
        using that unaliased_not_shared [OF un1 _ slot] by (simp add: other_page_def)
      moreover have "\<not> in_pages (virt + PAGE_SIZE) n v" using that next1 by (auto simp: in_pages_def)
      ultimately show ?thesis using fs M(3) t1 that by (simp add: fresh_run_def)
    qed
  qed
  then show ?case by blast
qed

lemma map_fresh_pages_Inl:
  assumes "paging_inv s" "unat virt + 4096 * n \<le> 0xffc00000"
    and "map_fresh_pages msg n virt s = Inl e"
  shows "e = oom \<and> avail s < 2 * n"
  using assms
proof (induction n arbitrary: virt s)
  case (Suc n)
  have lt: "unat virt + 4096 < 4294967296" "unat virt < 0xffc00000" using Suc.prems(2) by simp_all
  have slot: "pd_index virt \<noteq> RECURSIVE_SLOT" by (rule below_recursive [OF lt(2)])
  have next1: "unat (virt + PAGE_SIZE) = unat virt + 4096" using lt(1) by (simp add: PAGE_SIZE_def unat_add_u32)
  show ?case
  proof (cases "alloc_frame s")
    case (Inl e')
    with Suc.prems(3) alloc_frame_Inl [OF Inl] show ?thesis by simp
  next
    case (Inr r)
    then obtain f s1 where f: "alloc_frame s = Inr (f, s1)" by (cases r) auto
    note A = paging_inv_alloc [OF Suc.prems(1) f] and C = alloc_frame_avail [OF Suc.prems(1) f]
    show ?thesis
    proof (cases "map_page f virt (PAGE_PRESENT OR PAGE_RW) s1")
      case (Inl e')
      with Suc.prems(3) f A C map_page_Inl [OF _ slot Inl] show ?thesis by (simp add: oom_def avail_def)
    next
      case (Inr s2)
      have inv1: "paging_inv s1" using A by simp
      have bound: "avail s1 \<le> Suc (avail s2)"
        by (rule map_page_avail(3) [OF inv1 slot Inr])
      have "map_fresh_pages msg n (virt + PAGE_SIZE) s2 = Inl e"
        using Suc.prems(3) f Inr A by simp
      with Suc.IH [OF map_page_spec(1) [OF inv1 slot Inr], of "virt + PAGE_SIZE"] next1 Suc.prems(2) C bound
      show ?thesis by simp
    qed
  qed
qed simp

lemma kheap_init_spec:
  assumes "paging_inv (vmem h)" "unaliased (vmem h)" "2048 \<le> avail (vmem h)"
  shows "\<exists>h' fs. kheap_init h = Inr h' \<and> heap_inv h' [(0xd0000000, 0x3fffec, True)]
    \<and> kheap_end h' = 0xd0400000 \<and> fresh_run (vmem h) 0xd0000000 1024 fs (vmem h')
    \<and> large_alloc_base h' = large_alloc_base h"
proof -
  have n: "unat ((KHEAP_VIRT_START + KHEAP_INITIAL_SIZE - KHEAP_VIRT_START) div PAGE_SIZE) = 1024"
    by (simp add: KHEAP_VIRT_START_def KHEAP_INITIAL_SIZE_def PAGE_SIZE_def)
  have al: "page_aligned 0xd0000000" by (simp add: page_aligned_def)
  let ?msg = "''kheap_init() -> out of physical memory''"
  obtain s where s: "map_fresh_pages ?msg 1024 0xd0000000 (vmem h) = Inr s"
    using map_fresh_pages_Inl [of "vmem h" "0xd0000000" 1024 ?msg] assms(1,3)
    by (cases "map_fresh_pages ?msg 1024 0xd0000000 (vmem h)") auto
  from map_fresh_pages_spec [OF assms(1,2) al _ s] obtain fs where
    "fresh_run (vmem h) 0xd0000000 1024 fs s" by auto
  then have "\<exists>h'. kheap_init h = Inr h' \<and> heap_inv h' [(0xd0000000, 0x3fffec, True)]
      \<and> kheap_end h' = 0xd0400000 \<and> fresh_run (vmem h) 0xd0000000 1024 fs (vmem h')
      \<and> large_alloc_base h' = large_alloc_base h"
    using s n by (simp add: kheap_init_def KHEAP_VIRT_START_def KHEAP_INITIAL_SIZE_def PAGE_SIZE_def
        HDR_def set_block_def heap_inv_def)
  then show ?thesis by blast
qed

section \<open>The contract of the heap\<close>

text \<open>
  What the callers of \<open>kmalloc\<close> and \<open>kfree\<close> rely on: a call always returns (or panics), the
  block is new and disjoint from every live block, and freeing a live block removes it alone.
\<close>

locale heap_allocator =
  fixes malloc :: "u32 \<Rightarrow> 's \<Rightarrow> (u32 \<times> 's) res option"
    and free :: "u32 \<Rightarrow> 's \<Rightarrow> 's res"
    and blocks_of :: "'s \<Rightarrow> (u32 \<times> u32) set"
    and inv :: "'s \<Rightarrow> bool"
  assumes malloc_returns: "inv s \<Longrightarrow> malloc n s \<noteq> None"
    and malloc_Inr: "inv s \<Longrightarrow> malloc n s = Some (Inr (p, s')) \<Longrightarrow>
      inv s' \<and> p \<noteq> 0 \<and> p \<notin> fst ` blocks_of s \<and> blocks_of s' = insert (p, n) (blocks_of s)"
    and free_live: "inv s \<Longrightarrow> (p, n) \<in> blocks_of s \<Longrightarrow>
      \<exists>s'. free p s = Inr s' \<and> inv s' \<and> blocks_of s' = blocks_of s - {(p, n)}"
    and separate: "inv s \<Longrightarrow> x \<in> blocks_of s \<Longrightarrow> y \<in> blocks_of s \<Longrightarrow> x \<noteq> y \<Longrightarrow> disjoint_blocks x y"
begin

primrec mallocs :: "u32 list \<Rightarrow> 's \<Rightarrow> (u32 list \<times> 's) res option" where
  "mallocs [] s = Some (Inr ([], s))"
| "mallocs (n # ns) s = Option.bind (malloc n s) (\<lambda>r. case r of
       Inl e \<Rightarrow> Some (Inl e)
     | Inr (p, s1) \<Rightarrow> map_option (\<lambda>r. bind_res r (\<lambda>(ps, s2). Inr (p # ps, s2))) (mallocs ns s1))"

primrec frees :: "u32 list \<Rightarrow> 's \<Rightarrow> 's res" where
  "frees [] s = Inr s"
| "frees (p # ps) s = bind_res (free p s) (frees ps)"

lemma mallocs_returns: "inv s \<Longrightarrow> mallocs ns s \<noteq> None"
proof (induction ns arbitrary: s)
  case (Cons n ns)
  then obtain r where r: "malloc n s = Some r" using malloc_returns by fastforce
  show ?case
  proof (cases r)
    case (Inr q)
    then obtain p s1 where "q = (p, s1)" by (cases q)
    with Cons.IH [of s1] Cons.prems malloc_Inr r Inr show ?thesis by auto
  qed (simp add: r)
qed simp

lemma mallocs_Inr:
  "inv s \<Longrightarrow> mallocs ns s = Some (Inr (ps, s')) \<Longrightarrow>
     inv s' \<and> length ps = length ns \<and> distinct ps \<and> set ps \<inter> fst ` blocks_of s = {}
     \<and> blocks_of s' = blocks_of s \<union> set (zip ps ns)"
proof (induction ns arbitrary: s ps)
  case (Cons n ns)
  obtain r where r: "malloc n s = Some r" using Cons.prems(2) by (cases "malloc n s") auto
  obtain p s1 where m: "malloc n s = Some (Inr (p, s1))"
    using Cons.prems(2) r by (cases r) auto
  with Cons.prems(2) obtain qs where ms: "mallocs ns s1 = Some (Inr (qs, s'))" and ps: "ps = p # qs"
    by auto
  note M = malloc_Inr [OF Cons.prems(1) m]
  from Cons.IH [OF _ ms] M show ?case by (auto simp: ps)
qed simp

lemma frees_all:
  "inv s \<Longrightarrow> distinct ps \<Longrightarrow> length ps = length ns \<Longrightarrow> set (zip ps ns) \<subseteq> blocks_of s \<Longrightarrow>
     \<exists>s'. frees ps s = Inr s' \<and> inv s' \<and> blocks_of s' = blocks_of s - set (zip ps ns)"
proof (induction ps arbitrary: s ns)
  case (Cons p ps)
  then obtain n ns' where ns: "ns = n # ns'" by (cases ns) auto
  with free_live [OF Cons.prems(1), of p n] Cons.prems obtain s1 where
    s1: "free p s = Inr s1" "inv s1" "blocks_of s1 = blocks_of s - {(p, n)}" by auto
  have "(p, n) \<notin> set (zip ps ns')" using Cons.prems(2) by (auto dest: set_zip_leftD)
  with Cons.prems s1(3) have "set (zip ps ns') \<subseteq> blocks_of s1" by (auto simp: ns)
  with Cons.IH [OF s1(2), of ns'] Cons.prems(2,3) obtain s' where
    "frees ps s1 = Inr s'" "inv s'" "blocks_of s' = blocks_of s1 - set (zip ps ns')" by (auto simp: ns)
  then show ?case using s1(1,3) by (auto simp: ns)
qed simp

text \<open>A run of allocations followed by freeing them all gives back the live set it started from.\<close>

lemma malloc_free_roundtrip:
  assumes "inv s" "mallocs ns s = Some (Inr (ps, s'))"
  shows "\<exists>s''. frees ps s' = Inr s'' \<and> inv s'' \<and> blocks_of s'' = blocks_of s"
proof -
  note M = mallocs_Inr [OF assms]
  have "\<exists>s''. frees ps s' = Inr s'' \<and> inv s'' \<and> blocks_of s'' = blocks_of s' - set (zip ps ns)"
    using M by (intro frees_all) auto
  moreover have "blocks_of s \<inter> set (zip ps ns) = {}"
    using M by (auto dest!: set_zip_leftD) (metis IntI fst_conv image_eqI empty_iff)
  ultimately show ?thesis using M by (metis Diff_triv Un_Diff Diff_cancel sup_bot_right)
qed

end

definition heap_wf :: "kheap \<Rightarrow> bool" where
  "heap_wf h \<longleftrightarrow> (\<exists>bs. heap_ok h bs)"

lemma alloc_used:
  assumes "heap_ok h' (xs @ alloc_at a n sz @ ys)"
  shows "used_blocks (xs @ alloc_at a n sz @ ys) = insert (a + HDR, n) (used_blocks (xs @ ys))"
    and "a + HDR \<notin> fst ` used_blocks (xs @ ys)" and "a + HDR \<noteq> 0"
proof -
  obtain zs where al: "alloc_at a n sz = (a, n, False) # zs" and z: "used_blocks zs = {}"
    by (cases "unat n + 21 \<le> unat sz") (auto simp: alloc_at_def)
  then show "used_blocks (xs @ alloc_at a n sz @ ys) = insert (a + HDR, n) (used_blocks (xs @ ys))"
    by auto
  have inv: "heap_inv h' (xs @ (a, n, False) # zs @ ys)" using assms al by (simp add: heap_ok_def)
  then have lay: "layout (unat (kheap_start h')) (xs @ (a, n, False) # zs @ ys) (unat (kheap_end h'))"
    by (simp add: heap_inv_def)
  have "a \<notin> fst ` set (xs @ ys)" using layout_distinct [OF lay] by auto
  then show "a + HDR \<notin> fst ` used_blocks (xs @ ys)" by (force simp: used_blocks_def)
  have "unat a + 20 \<le> unat (kheap_end h')" using layout_split_used(2) [OF lay] by simp
  then have "unat a + 20 < 4294967296" using unat_u32_bound [of "kheap_end h'"] by linarith
  then have "unat (a + HDR) = unat a + 20" by (simp add: HDR_def unat_add_u32)
  then show "a + HDR \<noteq> 0" by (auto simp del: unat_0_iff simp: unat_eq_zero [symmetric])
qed

lemma kmalloc_cases:
  assumes ok: "heap_ok h bs"
  shows "kmalloc n h = Some (Inl oom) \<or> (\<exists>p h' bs'. kmalloc n h = Some (Inr (p, h')) \<and> heap_ok h' bs'
    \<and> p \<noteq> 0 \<and> p \<notin> fst ` used_blocks bs \<and> used_blocks bs' = insert (p, n) (used_blocks bs))"
proof -
  have fit: ?thesis if "n \<le> sz" "bs = xs @ (a, sz, True) # ys \<or> bs = xs \<and> ys = []"
    "kmalloc n h = Some (Inr (a + HDR, h'))" "heap_ok h' (xs @ alloc_at a n sz @ ys)" for xs a sz ys h'
  proof -
    have "used_blocks bs = used_blocks (xs @ ys)" using that(2) by auto
    with alloc_used [OF that(4)] that(3,4) show ?thesis by metis
  qed
  show ?thesis
  proof (cases "n \<le> 4076")
    case True
    from kmalloc_small [OF ok True] fit show ?thesis by blast
  next
    case big: False
    show ?thesis
    proof (cases "first_fit n bs = 0")
      case True
      with kmalloc_big [OF ok] big show ?thesis by (simp add: not_le)
    next
      case False
      from first_fit_Some [OF this] obtain xs sz ys where
        bs: "bs = xs @ (first_fit n bs, sz, True) # ys" "n \<le> sz" "first_fit n xs = 0" by blast
      with kmalloc_fit [OF _ bs(2,3), of h "first_fit n bs" ys] ok obtain h' where
        "kmalloc n h = Some (Inr (first_fit n bs + HDR, h'))"
        "heap_ok h' (xs @ alloc_at (first_fit n bs) n sz @ ys)" by auto
      with fit [OF bs(2)] bs(1) show ?thesis by blast
    qed
  qed
qed

lemma heap_ok_live: "heap_ok h bs \<Longrightarrow> live h = used_blocks bs"
  by (simp add: heap_ok_def live_inv)

lemma absorb_used [simp]: "used_blocks (absorb (a, sz, True) ys) = used_blocks ys"
  by (cases ys) auto

lemma coalesce_used: "used_blocks (coalesce xs a sz ys) = used_blocks (xs @ ys)"
proof (cases "xs \<noteq> [] \<and> snd (snd (last xs))")
  case True
  then obtain xs' p psz where "xs = xs' @ [(p, psz, True)]" by (cases xs rule: rev_cases) auto
  then show ?thesis by (auto simp: coalesce_def Let_def)
next
  case False
  then show ?thesis by (auto simp: coalesce_def Let_def)
qed

lemma kfree_live:
  assumes "heap_ok h bs" "(p, n) \<in> used_blocks bs"
  shows "\<exists>h'. kfree p h = Inr h' \<and> heap_wf h' \<and> live h' = live h - {(p, n)}"
proof -
  obtain a where a: "p = a + HDR" "(a, n, False) \<in> set bs" using assms(2) by (auto simp: used_blocks_def)
  then obtain xs ys where bs: "bs = xs @ (a, n, False) # ys" by (meson split_list)
  have inv: "heap_inv h (xs @ (a, n, False) # ys)" using assms(1) by (simp add: heap_ok_def bs)
  from kfree_spec [OF inv] obtain m f where k: "kfree p h = Inr (h\<lparr>blocks := m, free_head := f\<rparr>)"
    "heap_inv (h\<lparr>blocks := m, free_head := f\<rparr>) (coalesce xs a n ys)" unfolding a(1) by blast
  have ok: "heap_ok (h\<lparr>blocks := m, free_head := f\<rparr>) (coalesce xs a n ys)"
    using k(2) assms(1) by (simp add: heap_ok_def)
  have lay: "layout (unat (kheap_start h)) bs (unat (kheap_end h))" using assms(1) by (simp add: heap_ok_def heap_inv_def)
  have "a \<notin> fst ` set (xs @ ys)" using layout_distinct [OF lay] by (auto simp: bs)
  then have "(p, n) \<notin> used_blocks (xs @ ys)" by (force simp: used_blocks_def a(1))
  then have "used_blocks (coalesce xs a n ys) = used_blocks bs - {(p, n)}"
    by (auto simp: coalesce_used bs a(1))
  with ok k(1) show ?thesis using heap_ok_live [OF ok] heap_ok_live [OF assms(1)] by (auto simp: heap_wf_def)
qed

interpretation heap: heap_allocator kmalloc kfree live heap_wf
proof unfold_locales
  fix s :: kheap and n :: u32
  assume "heap_wf s"
  then obtain bs where "heap_ok s bs" by (auto simp: heap_wf_def)
  from kmalloc_cases [OF this, of n] show "kmalloc n s \<noteq> None" by auto
next
  fix s s' :: kheap and n p :: u32
  assume "heap_wf s" and k: "kmalloc n s = Some (Inr (p, s'))"
  then obtain bs where ok: "heap_ok s bs" by (auto simp: heap_wf_def)
  from kmalloc_cases [OF this, of n] k obtain bs' where b: "heap_ok s' bs'" "p \<noteq> 0"
    "p \<notin> fst ` used_blocks bs" "used_blocks bs' = insert (p, n) (used_blocks bs)" by auto
  then show "heap_wf s' \<and> p \<noteq> 0 \<and> p \<notin> fst ` live s \<and> live s' = insert (p, n) (live s)"
    using heap_ok_live [OF ok] heap_ok_live [OF b(1)] by (auto simp: heap_wf_def)
next
  fix s :: kheap and p n :: u32
  assume "heap_wf s" and l: "(p, n) \<in> live s"
  then obtain bs where ok: "heap_ok s bs" by (auto simp: heap_wf_def)
  from kfree_live [OF ok] l show "\<exists>s'. kfree p s = Inr s' \<and> heap_wf s' \<and> live s' = live s - {(p, n)}"
    by (simp add: heap_ok_live [OF ok])
next
  fix s :: kheap and x y :: "u32 \<times> u32"
  assume "heap_wf s" and l: "x \<in> live s" "y \<in> live s" "x \<noteq> y"
  then obtain bs where ok: "heap_ok s bs" by (auto simp: heap_wf_def)
  then have "layout (unat (kheap_start s)) bs (unat (kheap_end s))" by (simp add: heap_ok_def heap_inv_def)
  from used_blocks_disjoint [OF this] l show "disjoint_blocks x y"
    by (simp add: heap_ok_live [OF ok])
qed

section \<open>Properties\<close>

text \<open>A heap of one 236-byte block on the eight-page machine, for the witnesses.\<close>

definition small_heap :: kheap where
  "small_heap = \<lparr>kheap_start = 0xd0000000, kheap_end = 0xd0000100, kheap_size = 256,
     head = 0xd0000000, free_head = 0xd0000000, large_alloc_base = 0xe0000000,
     blocks = (\<lambda>_. None)(0xd0000000 \<mapsto>
       \<lparr>addr = 0xd0000014, bsize = 236, bfree = True, prev = 0, nxt = 0\<rparr>),
     vmem = small_vm\<rparr>"

lemma avail_bound: "avail s \<le> unat (total_pages (frames s))"
proof -
  let ?n = "unat (total_pages (frames s))"
  have "free_frames (frames s) \<subseteq> (\<lambda>i. of_nat i * PAGE_SIZE) ` {..<?n}"
  proof
    fix f assume "f \<in> free_frames (frames s)"
    then obtain i where "f = i * PAGE_SIZE" "i < total_pages (frames s)" by (auto simp: free_frames_def)
    then show "f \<in> (\<lambda>i. of_nat i * PAGE_SIZE) ` {..<?n}"
      by (intro image_eqI [of _ _ "unat i"]) (auto simp: word_less_nat_alt)
  qed
  then have "card (free_frames (frames s)) \<le> card ((\<lambda>i. of_nat i * PAGE_SIZE) ` {..<?n})"
    by (intro card_mono) auto
  also have "\<dots> \<le> card {..<?n}" by (rule card_image_le) simp
  finally show ?thesis by (simp add: avail_def)
qed

lemma small_vm_unaliased: "unaliased small_vm"
proof -
  have "pde small_vm i = 0" if "unat i < 1023" for i
    using small_vm_pde [of i] that by (auto simp: RECURSIVE_SLOT_def)
  then show ?thesis by (simp add: unaliased_def)
qed

lemma small_heap_ok: "heap_ok small_heap [(0xd0000000, 236, True)]"
  using small_vm_inv small_vm_unaliased avail_bound [of small_vm]
  by (simp add: heap_ok_def heap_inv_def small_heap_def HDR_def small_vm_frames small_pmm_def)

text \<open>A machine of 4096 pages, page 1 holding the directory.\<close>

definition big_vm :: vm where
  "big_vm = set_entry 0x1000 RECURSIVE_SLOT 0x1003 \<lparr>cr3 = 0x1000, pmem = (\<lambda>_. 0),
     frames = pmm_mark_used 0x1000 0x1000
       \<lparr>total_pages = 4096, bitmap_addr = 0xc0400000, bitmap_size = 512, pmm_mem = (\<lambda>_. 0)\<rparr>\<rparr>"

lemma big_vm_used: "used (frames big_vm) i \<longleftrightarrow> i = 1"
proof -
  let ?p = "\<lparr>total_pages = 4096, bitmap_addr = 0xc0400000, bitmap_size = 512, pmm_mem = (\<lambda>_. 0)\<rparr>"
  have "used (frames big_vm) i \<longleftrightarrow> page_in 0x1000 0x1000 i \<or> used ?p i"
    unfolding big_vm_def set_entry_def by (simp only: vm.simps used_mark_used)
  moreover have "\<not> used ?p i" by (simp add: used_def BIT_TEST_def)
  moreover have "page_in 0x1000 0x1000 i \<longleftrightarrow> i = 1"
    by (simp add: page_in_def addr_to_page_def PAGE_SIZE_def unat_eq_zero)
  ultimately show ?thesis by blast
qed

lemma big_vm_fields: "total_pages (frames big_vm) = 4096" "cr3 big_vm = 0x1000"
  by (simp_all add: big_vm_def)

lemma big_vm_pde: "unat i < 1024 \<Longrightarrow> pde big_vm i = (if i = RECURSIVE_SLOT then 0x1003 else 0)"
  by (simp add: big_vm_def pde_pte pte_set_entry page_aligned_def RECURSIVE_SLOT_def)
    (simp add: pte_def load32_def)

lemma big_vm_free: "free_frames (frames big_vm) = (\<lambda>i. of_nat i * PAGE_SIZE) ` {2..<4096}"
proof (intro set_eqI iffI)
  fix f assume "f \<in> free_frames (frames big_vm)"
  then obtain i where i: "f = i * PAGE_SIZE" "1 \<le> i" "i < 4096" "i \<noteq> 1"
    by (auto simp: free_frames_def big_vm_used big_vm_fields)
  have "unat i \<noteq> 1" using i(4) unat_inj_u32 [of i 1] by auto
  then have "unat i \<in> {2..<4096}" using i(2,3) by (auto simp: word_le_nat_alt word_less_nat_alt)
  then show "f \<in> (\<lambda>i. of_nat i * PAGE_SIZE) ` {2..<4096}"
    using i(1) by (intro image_eqI [of _ _ "unat i"]) simp_all
next
  fix f assume "f \<in> (\<lambda>i. of_nat i * PAGE_SIZE) ` {2..<4096}"
  then obtain k :: nat where k: "f = of_nat k * PAGE_SIZE" "2 \<le> k" "k < 4096" by auto
  have u: "unat (of_nat k :: u32) = k" using k(3) by (simp add: unat_of_nat)
  then have "(of_nat k :: u32) \<noteq> 1" using k(2) by (metis numeral_le_one_iff semiring_norm(69) unsigned_1)
  then show "f \<in> free_frames (frames big_vm)"
    using k u by (auto simp: free_frames_def big_vm_used big_vm_fields word_le_nat_alt word_less_nat_alt)
qed

lemma big_vm_ok: "paging_inv big_vm" "unaliased big_vm" "2048 \<le> avail big_vm"
proof -
  have u: "unat (of_nat i * PAGE_SIZE :: u32) = 4096 * i" if "i < 4096" for i
    using that by (simp add: PAGE_SIZE_def unat_word_ariths unat_of_nat mod_mult_left_eq mult.commute)
  have "0x1000 \<notin> free_frames (frames big_vm)"
  proof
    assume "0x1000 \<in> free_frames (frames big_vm)"
    then obtain k :: nat where k: "0x1000 = (of_nat k * PAGE_SIZE :: u32)" "2 \<le> k" "k < 4096"
      by (auto simp: big_vm_free)
    have "unat (0x1000 :: u32) = 4096 * k" unfolding k(1) by (rule u [OF k(3)])
    then show False using k(2) by simp
  qed
  moreover have low: "pde big_vm i = 0" if "unat i < 1023" for i
    using big_vm_pde [of i] that by (auto simp: RECURSIVE_SLOT_def)
  moreover have "pde big_vm RECURSIVE_SLOT = 0x1003"
    using big_vm_pde [of RECURSIVE_SLOT] by (simp add: RECURSIVE_SLOT_def)
  ultimately show "paging_inv big_vm"
    by (simp add: paging_inv_def pmm_inv_def big_vm_fields page_aligned_def PAGE_PRESENT_def page_base_def)
  show "unaliased big_vm" by (simp add: unaliased_def low)
  have "inj_on (\<lambda>i. of_nat i * PAGE_SIZE :: u32) {2..<4096}"
  proof (rule inj_onI)
    fix i j :: nat assume ij: "i \<in> {2..<4096}" "j \<in> {2..<4096}" "of_nat i * PAGE_SIZE = (of_nat j * PAGE_SIZE :: u32)"
    have "i < 4096" "j < 4096" using ij(1,2) by simp_all
    then have "4096 * i = 4096 * j" using u [of i] u [of j] unfolding ij(3) by linarith
    then show "i = j" by simp
  qed
  then show "2048 \<le> avail big_vm" by (simp add: avail_def big_vm_free card_image)
qed

definition big_heap :: kheap where
  "big_heap = small_heap\<lparr>vmem := big_vm\<rparr>"

text \<open>\<open>kheap_init\<close> with two free frames per page succeeds: the heap is one free block of 4 MiB
  less a header, and its 1024 pages are mapped to distinct frames that were free, nothing outside
  the range being remapped.\<close>

theorem kheap_init_one_block:
  assumes "paging_inv (vmem h)" "unaliased (vmem h)" "2048 \<le> avail (vmem h)"
  shows "\<exists>h' fs. kheap_init h = Inr h' \<and> heap_inv h' [(0xd0000000, 0x3fffec, True)]
    \<and> live h' = {} \<and> fresh_run (vmem h) 0xd0000000 1024 fs (vmem h')"
proof -
  from kheap_init_spec [OF assms] obtain h' fs where h': "kheap_init h = Inr h'"
    "heap_inv h' [(0xd0000000, 0x3fffec, True)]" "fresh_run (vmem h) 0xd0000000 1024 fs (vmem h')" by blast
  moreover have "live h' = {}" using live_inv [OF h'(2)] by simp
  ultimately show ?thesis by blast
qed

lemma kheap_init_one_block_witness:
  "\<exists>h'. kheap_init big_heap = Inr h' \<and> heap_inv h' [(0xd0000000, 0x3fffec, True)] \<and> live h' = {}"
  using kheap_init_one_block [of big_heap] big_vm_ok by (auto simp: big_heap_def)



text \<open>C2: the blocks of any run of \<open>kmalloc\<close> calls are distinct from each other and from every
  block that was live, and freeing them restores exactly the live set of before.\<close>

theorem kmalloc_kfree_roundtrip:
  assumes "heap_wf h" "heap.mallocs ns h = Some (Inr (ps, h'))"
  shows "distinct ps \<and> set ps \<inter> fst ` live h = {} \<and> live h' = live h \<union> set (zip ps ns)
    \<and> (\<forall>x \<in> live h'. \<forall>y \<in> live h'. x \<noteq> y \<longrightarrow> disjoint_blocks x y)
    \<and> (\<exists>h''. heap.frees ps h' = Inr h'' \<and> heap_wf h'' \<and> live h'' = live h)"
  using heap.mallocs_Inr [OF assms] heap.malloc_free_roundtrip [OF assms] heap.separate by blast

lemma kmalloc_kfree_roundtrip_witness:
  "\<exists>p h'. heap.mallocs [100] small_heap = Some (Inr ([p], h')) \<and> live h' = live small_heap \<union> {(p, 100)}"
proof -
  from kmalloc_fit [of small_heap "[]" "0xd0000000" 236 "[]" 100] small_heap_ok obtain h' where
    k: "kmalloc 100 small_heap = Some (Inr (0xd0000000 + HDR, h'))" by auto
  have w: "heap_wf small_heap" using small_heap_ok by (auto simp: heap_wf_def)
  have "heap.mallocs [100] small_heap = Some (Inr ([0xd0000000 + HDR], h'))" using k by simp
  with kmalloc_kfree_roundtrip [OF w this] show ?thesis by auto
qed

text \<open>C5: \<open>kfree\<close> of a used block marks it free, merges it with the free neighbours on both sides
  and leaves the rest of the list alone, with \<open>free_head\<close> the first free block again.\<close>

theorem kfree_coalesces:
  assumes "heap_inv h (xs @ (a, sz, False) # ys)"
  shows "\<exists>m f. kfree (a + HDR) h = Inr (h\<lparr>blocks := m, free_head := f\<rparr>)
    \<and> heap_inv (h\<lparr>blocks := m, free_head := f\<rparr>) (coalesce xs a sz ys)"
  using assms by (rule kfree_spec)

lemma kfree_coalesces_witness:
  "\<exists>h'. kfree (0xd0000000 + HDR) (small_heap\<lparr>free_head := 0, blocks := (\<lambda>_. None)(0xd0000000 \<mapsto>
       \<lparr>addr = 0xd0000014, bsize = 236, bfree = False, prev = 0, nxt = 0\<rparr>)\<rparr>) = Inr h'
     \<and> heap_inv h' [(0xd0000000, 236, True)]"
proof -
  let ?h = "small_heap\<lparr>free_head := 0, blocks := (\<lambda>_. None)(0xd0000000 \<mapsto>
       \<lparr>addr = 0xd0000014, bsize = 236, bfree = False, prev = 0, nxt = 0\<rparr>)\<rparr>"
  have "heap_inv ?h ([] @ (0xd0000000, 236, False) # [])"
    by (simp add: heap_inv_def small_heap_def HDR_def)
  from kfree_coalesces [OF this] show ?thesis by (auto simp: coalesce_def)
qed

text \<open>A request above 4076 bytes that no block of the heap fits is never served: growing
  adds separate one-page blocks, so the recursion runs until the frames are exhausted.\<close>

theorem kmalloc_large_panics:
  assumes "heap_ok h bs" "4076 < n" "first_fit n bs = 0"
  shows "kmalloc n h = Some (Inl oom)"
  using assms by (rule kmalloc_big)

lemma kmalloc_large_panics_witness: "kmalloc 5000 small_heap = Some (Inl oom)"
  using kmalloc_large_panics [OF small_heap_ok, of 5000] by simp

text \<open>C8: \<open>kalloc_pages\<close> returns the old base, advances it by the pages, and backs every page of
  the range by a frame of its own that was free before; every address outside the range and the
  recursive window translates as before.\<close>

theorem kalloc_pages_fresh:
  assumes "paging_inv (vmem h)" "unaliased (vmem h)" "page_aligned (large_alloc_base h)"
    and "unat (large_alloc_base h) + 4096 * unat n \<le> 0xffc00000"
    and "kalloc_pages n h = Inr (p, h')"
  shows "p = large_alloc_base h \<and> large_alloc_base h' = p + n * PAGE_SIZE
    \<and> (\<exists>fs. fresh_run (vmem h) p (unat n) fs (vmem h'))"
proof -
  from assms(5) obtain s where s: "map_fresh_pages ''kalloc_pages() -> out of physical memory''
      (unat n) (large_alloc_base h) (vmem h) = Inr s"
    "p = large_alloc_base h" "h' = h\<lparr>large_alloc_base := large_alloc_base h + n * PAGE_SIZE, vmem := s\<rparr>"
    by (auto simp: kalloc_pages_def Let_def)
  from map_fresh_pages_spec [OF assms(1-4) s(1)] show ?thesis by (simp add: s(2,3))
qed

lemma kalloc_pages_fresh_witness:
  "\<exists>h' fs. kalloc_pages 2 big_heap = Inr (0xe0000000, h') \<and> fresh_run big_vm 0xe0000000 2 fs (vmem h')"
proof -
  let ?m = "map_fresh_pages ''kalloc_pages() -> out of physical memory'' 2 0xe0000000 big_vm"
  have "\<exists>s. ?m = Inr s"
    using map_fresh_pages_Inl [of big_vm "0xe0000000" 2 "''kalloc_pages() -> out of physical memory''"] big_vm_ok
    by (cases ?m) auto
  then obtain h' where k: "kalloc_pages 2 big_heap = Inr (0xe0000000, h')"
    by (auto simp: kalloc_pages_def big_heap_def small_heap_def simp del: map_fresh_pages.simps)
  from kalloc_pages_fresh [OF _ _ _ _ k] big_vm_ok show ?thesis
    using k by (auto simp: big_heap_def small_heap_def page_aligned_def)
qed

end
