(* ===== verification/Kstate.thy ===== *)
theory Kstate
  imports Kheap Gdt
begin

text \<open>
  The kernel objects that several parts of the kernel share, and the state of the kernel:
  \<open>thread_t\<close> (\<open>src/thread/kthread.h\<close>), \<open>process_t\<close> (\<open>src/userspace/uprocess.h\<close>), \<open>vnode_t\<close>,
  \<open>file_t\<close> and \<open>fs_mount_t\<close> (\<open>src/vfs/vfs.h\<close>), and the globals of \<open>kthread.c\<close>, \<open>uprocess.c\<close>
  and \<open>vfs.c\<close>.

  An object that the code allocates with \<open>kmalloc\<close> is a record in a typed store, at the address
  \<open>kmalloc\<close> returned; pointers are these addresses, 0 is \<open>NULL\<close>. The stores keep an object after
  \<open>kfree\<close>, as the bytes stay in memory; whether its block is allocated is \<open>live (heap s)\<close>. The
  state of the drivers is the type variable \<open>'d\<close>, so that the VFS is independent of them.

  Memory that the code reads and writes through plain pointers (stacks, user buffers) is the
  byte memory behind the page tables of \<open>Paging\<close>: an access to an unmapped page faults.
\<close>

section \<open>Objects\<close>

datatype thread_state = THREAD_READY | THREAD_RUNNING | THREAD_BLOCKED | THREAD_DEAD

record thread =
  esp :: u32
  stack_base :: u32
  stack_size :: u32
  tstate :: thread_state
  tprocess :: u32
  tnext :: u32

datatype process_state = PROCESS_RUNNING | PROCESS_DEAD | PROCESS_WAITING

definition MAX_FDS :: nat where "MAX_FDS = 256"

text \<open>An \<open>fd_table_t\<close> is its array of \<open>MAX_FDS\<close> file pointers.\<close>

type_synonym fd_table = "u32 list"

record process =
  pid :: u32
  page_dir :: u32
  pentry :: u32
  pthread :: u32
  pstate :: process_state
  parent :: u32
  pnext :: u32
  exit_code :: u32
  fds :: fd_table
  heap_start :: u32
  heap_end :: u32

record vnode =
  inode :: u32
  vflags :: u32
  vuid :: u32
  vgid :: u32
  vsize :: u32
  permissions :: u32
  ops :: u32
  vmount :: u32
  mounted_here :: u32
  private_data :: u32

record file_t =
  fvnode :: u32
  offset :: u32
  fflags :: u32
  ref_count :: u32

record fs_mount =
  mpath :: "u8 list"
  driver :: u32
  root :: u32
  mprivate :: u32

definition sizeof_thread :: u32 where "sizeof_thread = 24"
definition sizeof_process :: u32 where "sizeof_process = 1064"
definition sizeof_vnode :: u32 where "sizeof_vnode = 40"
definition sizeof_file :: u32 where "sizeof_file = 16"

section \<open>The state of the kernel\<close>

record 'd ksys =
  heap :: kheap
  gdts :: gdt_state
  kernel_pd_phys :: u32
  threads :: "u32 \<Rightarrow> thread option"
  processes :: "u32 \<Rightarrow> process option"
  vnodes :: "u32 \<Rightarrow> vnode option"
  files :: "u32 \<Rightarrow> file_t option"
  idle_thread :: u32
  curr_thread :: u32
  schedule_pending :: bool
  thread_list_head :: u32
  curr_process :: u32
  process_list :: u32
  next_pid :: u32
  mount_table :: "fs_mount list"
  kernel_fd_table :: fd_table
  dev :: 'd

definition thread_at :: "u32 \<Rightarrow> 'd ksys \<Rightarrow> thread res" where
  "thread_at p s = (case threads s p of None \<Rightarrow> Inl (Fault ''no thread'') | Some t \<Rightarrow> Inr t)"

definition process_at :: "u32 \<Rightarrow> 'd ksys \<Rightarrow> process res" where
  "process_at p s = (case processes s p of None \<Rightarrow> Inl (Fault ''no process'') | Some q \<Rightarrow> Inr q)"

definition vnode_at :: "u32 \<Rightarrow> 'd ksys \<Rightarrow> vnode res" where
  "vnode_at p s = (case vnodes s p of None \<Rightarrow> Inl (Fault ''no vnode'') | Some v \<Rightarrow> Inr v)"

definition file_at :: "u32 \<Rightarrow> 'd ksys \<Rightarrow> file_t res" where
  "file_at p s = (case files s p of None \<Rightarrow> Inl (Fault ''no file'') | Some f \<Rightarrow> Inr f)"

definition put_thread :: "u32 \<Rightarrow> thread \<Rightarrow> 'd ksys \<Rightarrow> 'd ksys" where
  "put_thread p t s = s\<lparr>threads := (threads s)(p \<mapsto> t)\<rparr>"

definition put_process :: "u32 \<Rightarrow> process \<Rightarrow> 'd ksys \<Rightarrow> 'd ksys" where
  "put_process p q s = s\<lparr>processes := (processes s)(p \<mapsto> q)\<rparr>"

definition put_vnode :: "u32 \<Rightarrow> vnode \<Rightarrow> 'd ksys \<Rightarrow> 'd ksys" where
  "put_vnode p v s = s\<lparr>vnodes := (vnodes s)(p \<mapsto> v)\<rparr>"

definition put_file :: "u32 \<Rightarrow> file_t \<Rightarrow> 'd ksys \<Rightarrow> 'd ksys" where
  "put_file p f s = s\<lparr>files := (files s)(p \<mapsto> f)\<rparr>"

definition set_thread_state :: "u32 \<Rightarrow> thread_state \<Rightarrow> 'd ksys \<Rightarrow> 'd ksys res" where
  "set_thread_state p x s = bind_res (thread_at p s) (\<lambda>t. Inr (put_thread p (t\<lparr>tstate := x\<rparr>) s))"

definition set_process_state :: "u32 \<Rightarrow> process_state \<Rightarrow> 'd ksys \<Rightarrow> 'd ksys res" where
  "set_process_state p x s = bind_res (process_at p s) (\<lambda>q. Inr (put_process p (q\<lparr>pstate := x\<rparr>) s))"

text \<open>The heap calls, lifted to the kernel state.\<close>

definition k_malloc :: "u32 \<Rightarrow> 'd ksys \<Rightarrow> (u32 \<times> 'd ksys) res" where
  "k_malloc n s = bind_res (ret (kmalloc n (heap s))) (\<lambda>(p, h). Inr (p, s\<lparr>heap := h\<rparr>))"

definition k_free :: "u32 \<Rightarrow> 'd ksys \<Rightarrow> 'd ksys res" where
  "k_free p s = bind_res (kfree p (heap s)) (\<lambda>h. Inr (s\<lparr>heap := h\<rparr>))"

definition k_alloc_pages :: "u32 \<Rightarrow> 'd ksys \<Rightarrow> (u32 \<times> 'd ksys) res" where
  "k_alloc_pages n s = bind_res (kalloc_pages n (heap s)) (\<lambda>(p, h). Inr (p, s\<lparr>heap := h\<rparr>))"

lemmas put_defs = put_thread_def put_process_def put_vnode_def put_file_def
lemmas at_defs = thread_at_def process_at_def vnode_at_def file_at_def

section \<open>Bytes behind the page tables\<close>

definition vload8 :: "u32 \<Rightarrow> vm \<Rightarrow> u8 res" where
  "vload8 v s = (case translate s v of None \<Rightarrow> Inl (Fault ''page fault'') | Some p \<Rightarrow> Inr (pmem s p))"

definition vstore8 :: "u32 \<Rightarrow> u8 \<Rightarrow> vm \<Rightarrow> vm res" where
  "vstore8 v x s = (case translate s v of None \<Rightarrow> Inl (Fault ''page fault'')
     | Some p \<Rightarrow> Inr (s\<lparr>pmem := (pmem s)(p := x)\<rparr>))"

primrec vread :: "nat \<Rightarrow> u32 \<Rightarrow> vm \<Rightarrow> u8 list res" where
  "vread 0 v s = Inr []"
| "vread (Suc n) v s = bind_res (vload8 v s) (\<lambda>x. bind_res (vread n (v + 1) s) (\<lambda>xs. Inr (x # xs)))"

primrec vwrite :: "u8 list \<Rightarrow> u32 \<Rightarrow> vm \<Rightarrow> vm res" where
  "vwrite [] v s = Inr s"
| "vwrite (x # xs) v s = bind_res (vstore8 v x s) (vwrite xs (v + 1))"

text \<open>A C string of at most \<open>n\<close> bytes (\<open>strnlen\<close> and the copy that follows it), and a whole one.\<close>

primrec vstrn :: "nat \<Rightarrow> u32 \<Rightarrow> vm \<Rightarrow> u8 list res" where
  "vstrn 0 v s = Inr []"
| "vstrn (Suc n) v s = bind_res (vload8 v s) (\<lambda>x.
     if x = 0 then Inr [] else bind_res (vstrn n (v + 1) s) (\<lambda>xs. Inr (x # xs)))"

partial_function (option) vcstr :: "u32 \<Rightarrow> vm \<Rightarrow> u8 list res option" where
  "vcstr v s = (case vload8 v s of
       Inl e \<Rightarrow> Some (Inl e)
     | Inr x \<Rightarrow> if x = 0 then Some (Inr [])
                else Option.bind (vcstr (v + 1) s) (\<lambda>r. Some (bind_res r (\<lambda>xs. Inr (x # xs)))))"

definition with_vm :: "(vm \<Rightarrow> vm res) \<Rightarrow> 'd ksys \<Rightarrow> 'd ksys res" where
  "with_vm f s = bind_res (f (vmem (heap s))) (\<lambda>m. Inr (s\<lparr>heap := (heap s)\<lparr>vmem := m\<rparr>\<rparr>))"

text \<open>A 32-bit field at any address, and a struct of zero bytes.\<close>

definition word_bytes :: "u32 \<Rightarrow> u8 list" where
  "word_bytes x = [ucast x, ucast (drop_bit 8 x), ucast (drop_bit 16 x), ucast (drop_bit 24 x)]"

definition k_write :: "u8 list \<Rightarrow> u32 \<Rightarrow> 'd ksys \<Rightarrow> 'd ksys res" where
  "k_write xs v = with_vm (vwrite xs v)"

definition k_read :: "nat \<Rightarrow> u32 \<Rightarrow> 'd ksys \<Rightarrow> u8 list res" where
  "k_read n v s = vread n v (vmem (heap s))"

section \<open>The part of a driver in the driver state\<close>

text \<open>
  A driver's own state is one part of \<open>'d\<close>; its operations read and write that part through these
  two functions, so that each driver is a theory of its own.
\<close>

record ('d, 'x) part =
  get_part :: "'d \<Rightarrow> 'x"
  put_part :: "'x \<Rightarrow> 'd \<Rightarrow> 'd"

definition dget :: "('d, 'x) part \<Rightarrow> 'd ksys \<Rightarrow> 'x" where
  "dget L s = get_part L (dev s)"

definition dput :: "('d, 'x) part \<Rightarrow> 'x \<Rightarrow> 'd ksys \<Rightarrow> 'd ksys" where
  "dput L x s = s\<lparr>dev := put_part L x (dev s)\<rparr>"

locale driver_part =
  fixes L :: "('d, 'x) part"
  assumes get_put [simp]: "get_part L (put_part L x d) = x"
    and put_get [simp]: "put_part L (get_part L d) d = d"
    and put_put [simp]: "put_part L x (put_part L y d) = put_part L x d"
begin

lemma dget_dput [simp]: "dget L (dput L x s) = x"
  by (simp add: dget_def dput_def)

lemma dput_dget [simp]: "dput L (dget L s) s = s"
  by (simp add: dget_def dput_def)

lemma dput_dput [simp]: "dput L x (dput L y s) = dput L x s"
  by (simp add: dput_def)

end

definition whole :: "('x, 'x) part" where
  "whole = \<lparr>get_part = (\<lambda>d. d), put_part = (\<lambda>x d. x)\<rparr>"

interpretation whole: driver_part whole
  by unfold_locales (simp_all add: whole_def)

text \<open>Two drivers side by side.\<close>

definition part_fst :: "('a \<times> 'b, 'a) part" where
  "part_fst = \<lparr>get_part = fst, put_part = (\<lambda>x d. (x, snd d))\<rparr>"

definition part_snd :: "('a \<times> 'b, 'b) part" where
  "part_snd = \<lparr>get_part = snd, put_part = (\<lambda>x d. (fst d, x))\<rparr>"

interpretation left_part: driver_part part_fst
  by unfold_locales (simp_all add: part_fst_def)

interpretation right_part: driver_part part_snd
  by unfold_locales (simp_all add: part_snd_def)

end
