(* ===== verification/Kstack.thy ===== *)
theory Kstack
  imports Kstate
begin

text \<open>
  Words pushed on a kernel stack, the idiom \<open>*--sp = x\<close> of \<open>kthread_create\<close> and
  \<open>uprocess_create\<close>, and what it leaves in memory when the stack page is backed by a frame that
  holds no page table (as the pages of \<open>kalloc_pages\<close> are).
\<close>

section \<open>Pushing\<close>

definition push32 :: "u32 \<Rightarrow> u32 \<times> 'd ksys \<Rightarrow> (u32 \<times> 'd ksys) res" where
  "push32 x = (\<lambda>(sp, s). bind_res (with_vm (vstore32 (sp - 4) x) s) (\<lambda>s. Inr (sp - 4, s)))"

primrec push_all :: "u32 list \<Rightarrow> u32 \<times> 'd ksys \<Rightarrow> (u32 \<times> 'd ksys) res" where
  "push_all [] c = Inr c"
| "push_all (x # xs) c = bind_res (push32 x c) (push_all xs)"

section \<open>Words of a data page\<close>

text \<open>The word slot of an address in its page.\<close>

lemma page_word:
  assumes "page_aligned pg" "unat i < 1024"
  shows "page_base (pg + 4 * i) = pg" "(pg + 4 * i) AND 0xfff = 4 * i" "pd_index (pg + 4 * i) = pd_index pg"
    "pt_index (pg + 4 * i) = pt_index pg"
proof -
  note o = entry_off [OF assms(2)]
  have u: "unat (pg + 4 * i) = unat pg + unat (4 * i)" by (rule page_add_unat [OF assms(1) o])
  note d = page_add_div [OF assms(1) o]
  show pb: "page_base (pg + 4 * i) = pg"
    using d(1) page_aligned_div [OF assms(1)]
    by (intro unat_inj_u32) (simp add: page_base_unat mult.commute)
  show "(pg + 4 * i) AND 0xfff = 4 * i"
    by (intro unat_inj_u32) (simp add: page_off_unat d(2))
  have div: "unat x div 4194304 = unat x div 4096 div 1024" for x :: u32
    by (simp add: div_mult2_eq [symmetric])
  show "pd_index (pg + 4 * i) = pd_index pg"
    by (intro unat_inj_u32) (simp add: pd_index_unat div d(1))
  show "pt_index (pg + 4 * i) = pt_index pg"
    by (intro unat_inj_u32) (simp add: pt_index_unat d(1))
qed

lemma translate_word:
  assumes "page_aligned pg" "unat i < 1024" "translate s pg = Some f"
  shows "translate s (pg + 4 * i) = Some (f + 4 * i)"
proof -
  have "pg AND 0xfff = 0" using assms(1) page_aligned_iff by simp
  then show ?thesis
    using assms(3) by (auto simp: translate_def Let_def page_word [OF assms(1,2)] split: if_splits)
qed

lemma set_word_translate:
  assumes inv: "paging_inv s" and d: "data_frame s f" and i: "unat i < 1024"
    and v: "pd_index v \<noteq> RECURSIVE_SLOT"
  shows "translate (set_entry f i x s) v = translate s v" "paging_inv (set_entry f i x s)"
    "data_frame (set_entry f i x s) g = data_frame s g"
proof -
  have f: "page_aligned f" "f \<noteq> cr3 s" using d by (simp_all add: data_frame_def)
  note P = paging_inv_set_pte [OF inv f i, where x = x]
  show "paging_inv (set_entry f i x s)" by (rule P(1))
  have pd: "pde (set_entry f i x s) j = pde s j" if "unat j < 1024" for j using P(2) [OF that] .
  have "page_base (pde s (pd_index v)) \<noteq> f" if "pde s (pd_index v) AND PAGE_PRESENT \<noteq> 0"
    using d that below_slot [OF pd_index_bound v] by (simp add: data_frame_def)
  then show "translate (set_entry f i x s) v = translate s v"
    using pte_set_entry [OF f(1) page_base_aligned i pt_index_bound]
    by (simp add: translate_def Let_def pd)
  show "data_frame (set_entry f i x s) g = data_frame s g" by (simp add: data_frame_def pd)
qed

lemma vstore32_word:
  "page_aligned pg \<Longrightarrow> unat i < 1024 \<Longrightarrow> translate s pg = Some f \<Longrightarrow>
     vstore32 (pg + 4 * i) x s = Inr (set_entry f i x s)"
  by (simp add: vstore32_def translate_word set_entry_def)

lemma vload32_word:
  "page_aligned pg \<Longrightarrow> unat i < 1024 \<Longrightarrow> translate s pg = Some f \<Longrightarrow>
     vload32 (pg + 4 * i) s = Inr (pte s f i)"
  by (simp add: vload32_def translate_word pte_def)

section \<open>A frame of words at the top of a page\<close>

lemma slot_addr:
  assumes "k < 1024"
  shows "pg + 0x1000 - 4 * of_nat k - 4 = (pg :: u32) + 4 * of_nat (1023 - k)"
proof -
  have "4 * k + 4 * (1023 - k) = 4092" using assms by simp
  then have "(of_nat (4 * k + 4 * (1023 - k)) :: u32) = of_nat 4092" by (rule arg_cong)
  then have "4 * of_nat k + 4 * of_nat (1023 - k) = (4092 :: u32)" by simp
  then show ?thesis by (simp add: algebra_simps)
qed

lemma push_page:
  fixes s :: "'d ksys"
  assumes "paging_inv m" "page_aligned pg" "pd_index pg \<noteq> RECURSIVE_SLOT" "translate m pg = Some f"
    "data_frame m f" "k + length xs \<le> 1024" "vmem (heap s) = m"
  shows "\<exists>m'. push_all xs (pg + 0x1000 - 4 * of_nat k, s) =
        Inr (pg + 0x1000 - 4 * of_nat (k + length xs), s\<lparr>heap := (heap s)\<lparr>vmem := m'\<rparr>\<rparr>)
      \<and> paging_inv m' \<and> frames m' = frames m \<and> cr3 m' = cr3 m
      \<and> (\<forall>g. data_frame m' g = data_frame m g) \<and> (\<forall>j. unat j < 1024 \<longrightarrow> pde m' j = pde m j)
      \<and> (\<forall>v. pd_index v \<noteq> RECURSIVE_SLOT \<longrightarrow> translate m' v = translate m v)
      \<and> (\<forall>i < length xs. pte m' f (of_nat (1023 - (k + i))) = xs ! i)
      \<and> (\<forall>g j. page_aligned g \<longrightarrow> unat j < 1024 \<longrightarrow> (g \<noteq> f \<or> 1024 - k \<le> unat j) \<longrightarrow> pte m' g j = pte m g j)"
  using assms
proof (induction xs arbitrary: k s m)
  case Nil
  then show ?case by (intro exI [of _ m]) simp
next
  case (Cons x xs)
  have k: "k < 1024" using Cons.prems(6) by simp
  define i :: u32 where "i = of_nat (1023 - k)"
  have ui: "unat i = 1023 - k" unfolding i_def by simp
  have i: "unat i < 1024" using ui by simp
  let ?m = "set_entry f i x m"
  let ?s = "s\<lparr>heap := (heap s)\<lparr>vmem := ?m\<rparr>\<rparr>"
  note W = set_word_translate [OF Cons.prems(1,5) i, where x = x]
  have fa: "page_aligned f" "f \<noteq> cr3 m" using Cons.prems(5) by (simp_all add: data_frame_def)
  have sp: "pg + 0x1000 - 4 * of_nat k - 4 = pg + 4 * i" unfolding i_def by (rule slot_addr [OF k])
  have "push32 x (pg + 0x1000 - 4 * of_nat k, s) = Inr (pg + 4 * i, ?s)"
    using vstore32_word [OF Cons.prems(2) i Cons.prems(4)] Cons.prems(7)
    by (simp add: push32_def sp with_vm_def)
  moreover have "pg + 4 * i = pg + 0x1000 - 4 * of_nat (Suc k)" using sp by (simp add: algebra_simps)
  ultimately have step: "push_all (x # xs) (pg + 0x1000 - 4 * of_nat k, s)
      = push_all xs (pg + 0x1000 - 4 * of_nat (Suc k), ?s)" by simp
  have "translate ?m pg = Some f" using W(1) [OF Cons.prems(3)] Cons.prems(4) by simp
  moreover have "paging_inv ?m" using W(2) [OF Cons.prems(3)] .
  moreover have "data_frame ?m f" using W(3) [OF Cons.prems(3)] Cons.prems(5) by simp
  ultimately obtain m' where m': "push_all xs (pg + 0x1000 - 4 * of_nat (Suc k), ?s) =
        Inr (pg + 0x1000 - 4 * of_nat (Suc k + length xs), ?s\<lparr>heap := (heap ?s)\<lparr>vmem := m'\<rparr>\<rparr>)"
      "paging_inv m'" "frames m' = frames ?m" "cr3 m' = cr3 ?m"
      "\<forall>g. data_frame m' g = data_frame ?m g" "\<forall>j. unat j < 1024 \<longrightarrow> pde m' j = pde ?m j"
      "\<forall>v. pd_index v \<noteq> RECURSIVE_SLOT \<longrightarrow> translate m' v = translate ?m v"
      "\<forall>i < length xs. pte m' f (of_nat (1023 - (Suc k + i))) = xs ! i"
      "\<forall>g j. page_aligned g \<longrightarrow> unat j < 1024 \<longrightarrow> (g \<noteq> f \<or> 1024 - Suc k \<le> unat j) \<longrightarrow> pte m' g j = pte ?m g j"
    using Cons.IH [of ?m "Suc k" ?s] Cons.prems(2,3,6) by auto
  have pd: "pde ?m j = pde m j" if "unat j < 1024" for j
    using paging_inv_set_pte(2) [OF Cons.prems(1) fa i that] .
  have same: "pte ?m g j = (if g = f \<and> j = i then x else pte m g j)" if "page_aligned g" "unat j < 1024" for g j
    by (rule pte_set_entry [OF fa(1) that(1) i that(2)])
  show ?case
  proof (intro exI [of _ m'] conjI allI impI)
    show "push_all (x # xs) (pg + 0x1000 - 4 * of_nat k, s) =
        Inr (pg + 0x1000 - 4 * of_nat (k + length (x # xs)), s\<lparr>heap := (heap s)\<lparr>vmem := m'\<rparr>\<rparr>)"
      using step m'(1) by simp
    show "paging_inv m'" by (rule m'(2))
    show "frames m' = frames m" "cr3 m' = cr3 m" using m'(3,4) by simp_all
    show "data_frame m' g = data_frame m g" for g using m'(5) W(3) [OF Cons.prems(3)] by simp
    show "pde m' j = pde m j" if "unat j < 1024" for j using m'(6) pd that by simp
    show "translate m' v = translate m v" if "pd_index v \<noteq> RECURSIVE_SLOT" for v
      using m'(7) W(1) that by simp
    show "pte m' f (of_nat (1023 - (k + j))) = (x # xs) ! j" if "j < length (x # xs)" for j
    proof (cases j)
      case 0
      have "pte m' f i = pte ?m f i" using m'(9) fa(1) i ui by simp
      then show ?thesis using 0 same [OF fa(1) i] by (simp add: i_def)
    next
      case (Suc j')
      then show ?thesis using m'(8) that by simp
    qed
    show "pte m' g j = pte m g j" if "page_aligned g" "unat j < 1024" "g \<noteq> f \<or> 1024 - k \<le> unat j" for g j
    proof -
      have "\<not> (g = f \<and> j = i)" using that(3) ui k by auto
      then have "pte ?m g j = pte m g j" using same [OF that(1,2)] by auto
      moreover have "g \<noteq> f \<or> 1024 - Suc k \<le> unat j" using that(3) by auto
      ultimately show ?thesis using m'(9) that by simp
    qed
  qed
qed

section \<open>A fresh kernel stack\<close>

lemma heap_ok_vmem:
  assumes "heap_ok h bs" "paging_inv m" "unaliased m" "avail m \<le> avail (vmem h)"
  shows "heap_ok (h\<lparr>large_alloc_base := b, vmem := m\<rparr>) bs"
  using assms by (simp add: heap_ok_def heap_inv_def)

lemma heap_ok_vmem_only:
  assumes "heap_ok h bs" "paging_inv m" "unaliased m" "avail m \<le> avail (vmem h)"
  shows "heap_ok (h\<lparr>vmem := m\<rparr>) bs"
  using assms by (simp add: heap_ok_def heap_inv_def)

lemma k_malloc_Inr:
  assumes "heap_wf (heap s)" "k_malloc n s = Inr (p, s')"
  shows "heap_wf (heap s') \<and> p \<noteq> 0 \<and> p \<notin> fst ` live (heap s)
    \<and> live (heap s') = insert (p, n) (live (heap s)) \<and> s' = s\<lparr>heap := heap s'\<rparr>"
proof -
  obtain h where h: "kmalloc n (heap s) = Some (Inr (p, h))" "s' = s\<lparr>heap := h\<rparr>"
    using assms(2) by (cases "kmalloc n (heap s)") (auto simp: k_malloc_def)
  with heap.malloc_Inr [OF assms(1) h(1)] show ?thesis by simp
qed

text \<open>\<open>kmalloc\<close> leaves the base of the page ranges alone.\<close>

lemma grow_map_base: "grow_map h = Inr h' \<Longrightarrow> large_alloc_base h' = large_alloc_base h"
  by (auto simp: grow_map_def set_block_def)

lemma set_prev_base: "set_prev p x h = Inr h' \<Longrightarrow> large_alloc_base h' = large_alloc_base h"
  by (auto simp: set_prev_def set_block_def)

lemma grow_heap_base: "grow_heap h = Some (Inr h') \<Longrightarrow> large_alloc_base h' = large_alloc_base h"
  by (auto simp: grow_heap_def grow_link_def Let_def set_block_def split: sum.splits if_splits
      dest!: grow_map_base set_prev_base)

lemma split_block_base: "split_block cur n h = Inr h' \<Longrightarrow> large_alloc_base h' = large_alloc_base h"
  by (auto simp: split_block_def Let_def set_block_def split: if_splits dest!: set_prev_base)

lemma take_block_base: "take_block cur n h = Some (Inr (p, h')) \<Longrightarrow> large_alloc_base h' = large_alloc_base h"
  by (auto simp: take_block_def set_block_def split: sum.splits if_splits dest!: split_block_base)

lemma kmalloc_base:
  assumes "kmalloc n h = Some r"
  shows "\<forall>p h'. r = Inr (p, h') \<longrightarrow> large_alloc_base h' = large_alloc_base h"
proof (rule kmalloc.raw_induct [where P = "\<lambda>n h r. \<forall>p h'. r = Inr (p, h') \<longrightarrow>
    large_alloc_base h' = large_alloc_base h", OF _ assms])
  fix f n h r
  assume IH: "\<And>n h r. f n h = Some r \<Longrightarrow>
      \<forall>p h'. r = Inr (p, h') \<longrightarrow> large_alloc_base h' = large_alloc_base h"
    and step: "Option.bind (find_block h n (free_head h)) (\<lambda>r. case r of
       Inl e \<Rightarrow> Some (Inl e)
     | Inr cur \<Rightarrow>
         if cur \<noteq> 0 then take_block cur n h
         else Option.bind (grow_heap h) (\<lambda>r'. case r' of
                Inl e \<Rightarrow> Some (Inl e)
              | Inr h' \<Rightarrow> f n h')) = Some r"
  show "\<forall>p h'. r = Inr (p, h') \<longrightarrow> large_alloc_base h' = large_alloc_base h"
  proof (intro allI impI)
    fix p h' assume r: "r = Inr (p, h')"
    obtain c where c: "find_block h n (free_head h) = Some (Inr c)"
    proof (cases "find_block h n (free_head h)")
      case (Some x)
      then show thesis using step r that by (cases x) auto
    qed (use step in simp)
    show "large_alloc_base h' = large_alloc_base h"
    proof (cases "c = 0")
      case False
      then have "take_block c n h = Some (Inr (p, h'))" using step c r by simp
      then show ?thesis by (rule take_block_base)
    next
      case True
      obtain h1 where g: "grow_heap h = Some (Inr h1)"
      proof (cases "grow_heap h")
        case (Some x)
        then show thesis using step r c True that by (cases x) auto
      qed (use step c True in simp)
      then have "f n h1 = Some (Inr (p, h'))" using step c r True by simp
      from IH [OF this] grow_heap_base [OF g] show ?thesis by simp
    qed
  qed
qed

lemma k_malloc_base: "k_malloc n s = Inr (p, s') \<Longrightarrow> large_alloc_base (heap s') = large_alloc_base (heap s)"
  using kmalloc_base by (cases "kmalloc n (heap s)") (auto simp: k_malloc_def)

text \<open>
  The allocation of \<open>n\<close> stack pages followed by pushing a frame of words at their end, as both
  thread constructors do: the words read back in reverse order from the final stack pointer, and
  the heap and the page tables stay well formed.
\<close>

lemma fresh_stack:
  fixes s :: "'d ksys"
  assumes wf: "heap_wf (heap s)" and al: "page_aligned (large_alloc_base (heap s))"
    and room: "unat (large_alloc_base (heap s)) + 4096 * unat n \<le> 0xffc00000" and n: "0 < n"
    and alloc: "k_alloc_pages n s = Inr (base, s1)" and xs: "length xs \<le> 1024"
    and sp0: "sp0 = base + n * PAGE_SIZE"
  shows "base = large_alloc_base (heap s) \<and> (\<exists>m. push_all xs (sp0, s1) =
        Inr (sp0 - 4 * of_nat (length xs), s\<lparr>heap := (heap s)\<lparr>large_alloc_base := sp0, vmem := m\<rparr>\<rparr>)
      \<and> heap_wf ((heap s)\<lparr>large_alloc_base := sp0, vmem := m\<rparr>)
      \<and> live ((heap s)\<lparr>large_alloc_base := sp0, vmem := m\<rparr>) = live (heap s)
      \<and> (\<forall>i < length xs. vload32 (sp0 - 4 * of_nat (length xs) + 4 * of_nat i) m = Inr (rev xs ! i)))"
proof -
  obtain bs where ok: "heap_ok (heap s) bs" using wf by (auto simp: heap_wf_def)
  have inv: "paging_inv (vmem (heap s))" and un: "unaliased (vmem (heap s))" using ok by (simp_all add: heap_ok_def)
  obtain h1 where h1: "kalloc_pages n (heap s) = Inr (base, h1)" "s1 = s\<lparr>heap := h1\<rparr>"
    using alloc by (auto simp: k_alloc_pages_def)
  then obtain m1 where m1: "map_fresh_pages ''kalloc_pages() -> out of physical memory''
      (unat n) (large_alloc_base (heap s)) (vmem (heap s)) = Inr m1" "base = large_alloc_base (heap s)"
    "h1 = (heap s)\<lparr>large_alloc_base := sp0, vmem := m1\<rparr>"
    by (auto simp: kalloc_pages_def Let_def sp0)
  from map_fresh_pages_spec [OF inv un al room m1(1)] obtain fs where
    fs: "fresh_run (vmem (heap s)) base (unat n) fs m1" by (auto simp: m1(2))
  define pg where "pg = sp0 - 0x1000"
  have n1: "unat n = Suc (unat n - 1)" using n by (simp add: word_less_nat_alt)
  define j where "j = unat n - 1"
  have "n = of_nat (unat n)" by simp
  also have "\<dots> = of_nat (Suc j)" using n1 by (simp only: j_def)
  finally have nj: "n = of_nat j + 1" "j < unat n" using n1 by (simp_all add: j_def add.commute)
  have pgj: "pg = base + of_nat j * PAGE_SIZE"
    unfolding pg_def sp0 nj(1) by (simp add: PAGE_SIZE_def algebra_simps)
  have upg: "unat pg = unat base + 4096 * j"
    unfolding pgj using room nj(2) by (intro page_step [of _ "unat n"]) (simp_all add: m1(2))
  have pa: "page_aligned pg" using al upg by (simp add: page_aligned_def m1(2))
  have slot: "pd_index pg \<noteq> RECURSIVE_SLOT"
    using room nj(2) upg by (intro below_recursive) (simp add: m1(2))
  have tr: "translate m1 pg = Some (fs ! j)" using fs nj(2) by (simp add: fresh_run_def pgj)
  have df: "data_frame m1 (fs ! j)" using fs nj(2) by (simp add: fresh_run_def)
  have inv1: "paging_inv m1" "unaliased m1" "avail m1 \<le> avail (vmem (heap s))"
    using fs by (simp_all add: fresh_run_def)
  have t0: "pg + 0x1000 - 4 * of_nat 0 = sp0" by (simp add: pg_def)
  have vm1: "vmem (heap s1) = m1" by (simp add: h1(2) m1(3))
  from push_page [OF inv1(1) pa slot tr df _ vm1, of 0 xs] xs obtain m where
    m: "push_all xs (sp0, s1) = Inr (sp0 - 4 * of_nat (length xs), s1\<lparr>heap := (heap s1)\<lparr>vmem := m\<rparr>\<rparr>)"
      "paging_inv m" "frames m = frames m1" "\<forall>j. unat j < 1024 \<longrightarrow> pde m j = pde m1 j"
      "\<forall>v. pd_index v \<noteq> RECURSIVE_SLOT \<longrightarrow> translate m v = translate m1 v"
      "\<forall>i < length xs. pte m (fs ! j) (of_nat (1023 - i)) = xs ! i"
    unfolding t0 by (auto simp: pg_def)
  have pdm: "pde m j = pde m1 j" if "unat j < 1023" for j using m(4) that by simp
  have un': "unaliased m" using inv1(2) by (auto simp: unaliased_def pdm)
  have av: "avail m \<le> avail (vmem (heap s))" using inv1(3) m(3) by (simp add: avail_def)
  have ok': "heap_ok ((heap s)\<lparr>large_alloc_base := sp0, vmem := m\<rparr>) bs"
    by (rule heap_ok_vmem [OF ok m(2) un' av])
  have "vload32 (sp0 - 4 * of_nat (length xs) + 4 * of_nat i) m = Inr (rev xs ! i)" if i: "i < length xs" for i
  proof -
    define k where "k = length xs - Suc i"
    have k: "k < 1024" "k < length xs" using i xs by (simp_all add: k_def)
    have "sp0 - 4 * of_nat (length xs) + 4 * of_nat i = pg + 0x1000 - 4 * of_nat k - 4"
    proof -
      have "4 * k + 4 + 4 * i = 4 * length xs" using i by (simp add: k_def)
      then have "(of_nat (4 * k + 4 + 4 * i) :: u32) = of_nat (4 * length xs)" by (rule arg_cong)
      then have "4 * of_nat k + 4 + 4 * of_nat i = (4 * of_nat (length xs) :: u32)" by simp
      then show ?thesis by (simp add: pg_def algebra_simps)
    qed
    also have "\<dots> = pg + 4 * of_nat (1023 - k)" by (rule slot_addr [OF k(1)])
    finally have a: "sp0 - 4 * of_nat (length xs) + 4 * of_nat i = pg + 4 * of_nat (1023 - k)" .
    have "translate m pg = Some (fs ! j)" using m(5) slot tr by simp
    then have "vload32 (pg + 4 * of_nat (1023 - k)) m = Inr (pte m (fs ! j) (of_nat (1023 - k)))"
      by (intro vload32_word [OF pa]) simp_all
    then show ?thesis using m(6) k(2) rev_nth [OF i] by (simp add: a k_def [symmetric])
  qed
  with m ok' heap_ok_live [OF ok'] heap_ok_live [OF ok] show ?thesis
    by (auto simp: m1(2,3) h1(2) heap_wf_def)
qed

end
