(* ===== verification/Kthread.thy ===== *)
theory Kthread
  imports Kstack
begin

text \<open>
  Threads and the scheduler, \<open>src/thread/kthread.c\<close>: \<open>kthread_create\<close> with the initial stack
  that \<open>irq_common\<close> pops, the circular run queue, the round-robin choice and the switch. The
  loops over the ring are \<open>partial_function\<close>s. The abstraction of the queue is the list of
  threads in ring order (\<open>ring s ts\<close>).
\<close>

section \<open>kthread_create\<close>

definition KSTACK_SIZE :: u32 where "KSTACK_SIZE = 0x2000"

text \<open>The words \<open>kthread_create\<close> pushes, in the order of the code: what \<open>iret\<close> pops, the vector
  and error code, the eight registers of \<open>popa\<close>, the four segment registers.\<close>

definition kthread_frame :: "u32 \<Rightarrow> u32 list" where
  "kthread_frame entry =
     [0x00200202, SEG_KCODE, entry, 32, 0, 0, 0, 0, 0, 0, 0, 0, 0,
      SEG_KDATA, SEG_KDATA, SEG_KDATA, SEG_KDATA]"

definition kthread_create :: "u32 \<Rightarrow> u32 \<Rightarrow> 'd ksys \<Rightarrow> (u32 \<times> 'd ksys) res" where
  "kthread_create entry stksz s =
     bind_res (k_malloc sizeof_thread s) (\<lambda>(t, s).
     bind_res (k_alloc_pages ((stksz + PAGE_SIZE - 1) div PAGE_SIZE) s) (\<lambda>(base, s).
     bind_res (push_all (kthread_frame entry) (base + stksz, s)) (\<lambda>(sp, s).
       Inr (t, put_thread t \<lparr>esp = sp, stack_base = base, stack_size = stksz,
                 tstate = THREAD_READY, tprocess = 0, tnext = 0\<rparr> s))))"

section \<open>The run queue\<close>

definition set_next :: "u32 \<Rightarrow> u32 \<Rightarrow> 'd ksys \<Rightarrow> 'd ksys res" where
  "set_next p x s = bind_res (thread_at p s) (\<lambda>t. Inr (put_thread p (t\<lparr>tnext := x\<rparr>) s))"

partial_function (option) ring_tail :: "'d ksys \<Rightarrow> u32 \<Rightarrow> u32 res option" where
  "ring_tail s p = (case threads s p of
       None \<Rightarrow> Some (Inl (Fault ''no thread''))
     | Some t \<Rightarrow> if tnext t = thread_list_head s then Some (Inr p) else ring_tail s (tnext t))"

definition scheduler_add :: "u32 \<Rightarrow> 'd ksys \<Rightarrow> 'd ksys res" where
  "scheduler_add t s =
     (if thread_list_head s = 0
      then bind_res (set_next t t (s\<lparr>thread_list_head := t\<rparr>)) Inr
      else bind_res (ret (ring_tail s (thread_list_head s))) (\<lambda>tail.
           bind_res (set_next tail t s) (set_next t (thread_list_head s))))"

partial_function (option) next_runnable :: "'d ksys \<Rightarrow> u32 \<Rightarrow> u32 \<Rightarrow> u32 res option" where
  "next_runnable s start p = (case threads s p of
       None \<Rightarrow> Some (Inl (Fault ''no thread''))
     | Some t \<Rightarrow>
         if tstate t \<noteq> THREAD_READY \<and> tstate t \<noteq> THREAD_RUNNING
         then if tnext t = start then Some (Inr (idle_thread s)) else next_runnable s start (tnext t)
         else Some (Inr p))"

definition scheduler_next :: "'d ksys \<Rightarrow> u32 res" where
  "scheduler_next s =
     (if curr_thread s = 0 then Inr (idle_thread s)
      else bind_res (thread_at (curr_thread s) s) (\<lambda>c. ret (next_runnable s (tnext c) (tnext c))))"

definition process_dir :: "u32 \<Rightarrow> 'd ksys \<Rightarrow> u32 res" where
  "process_dir p s = (if p = 0 then Inr 0 else bind_res (process_at p s) (\<lambda>q. Inr (page_dir q)))"

definition load_cr3 :: "u32 \<Rightarrow> 'd ksys \<Rightarrow> 'd ksys" where
  "load_cr3 pd s = s\<lparr>heap := (heap s)\<lparr>vmem := (vmem (heap s))\<lparr>cr3 := pd\<rparr>\<rparr>\<rparr>"

definition scheduler_switch :: "u32 \<Rightarrow> 'd ksys \<Rightarrow> (u32 \<times> 'd ksys) res" where
  "scheduler_switch old_esp s =
     (let old = curr_thread s in
      bind_res (thread_at old s) (\<lambda>t.
      let s = put_thread old (t\<lparr>esp := old_esp\<rparr>) s in
      bind_res (scheduler_next s) (\<lambda>next.
      if next = old then Inr (old_esp, s)
      else
        bind_res (set_thread_state old THREAD_READY s) (\<lambda>s.
        bind_res (set_thread_state next THREAD_RUNNING s) (\<lambda>s.
        bind_res (thread_at next s) (\<lambda>n.
        let s = s\<lparr>curr_thread := next, curr_process := tprocess n,
                  gdts := tss_set_kernel_stack (stack_base n + stack_size n) (gdts s)\<rparr> in
        bind_res (process_dir (tprocess n) s) (\<lambda>next_pd.
        bind_res (process_dir (tprocess t) s) (\<lambda>old_pd.
        let s = (if next_pd \<noteq> 0 then load_cr3 next_pd s
                 else if old_pd \<noteq> 0 then load_cr3 (kernel_pd_phys s) s else s)
        in Inr (esp n, s)))))))))"

text \<open>The tail of \<open>irq_common\<close> (\<open>isr_stubs.s\<close>): a pending request is consumed and, when a thread
  is running, the stack is switched.\<close>

definition irq_return :: "u32 \<Rightarrow> 'd ksys \<Rightarrow> (u32 \<times> 'd ksys) res" where
  "irq_return sp s =
     (if \<not> schedule_pending s then Inr (sp, s)
      else let s = s\<lparr>schedule_pending := False\<rparr>
           in if curr_thread s = 0 then Inr (sp, s) else scheduler_switch sp s)"

section \<open>The queue as a list\<close>

fun hd0 :: "u32 list \<Rightarrow> u32" where
  "hd0 [] = 0"
| "hd0 (p # ps) = p"

fun links :: "(u32 \<Rightarrow> thread option) \<Rightarrow> u32 list \<Rightarrow> u32 \<Rightarrow> bool" where
  "links m [] e \<longleftrightarrow> True"
| "links m [p] e \<longleftrightarrow> (\<exists>t. m p = Some t \<and> tnext t = e)"
| "links m (p # q # ps) e \<longleftrightarrow> (\<exists>t. m p = Some t \<and> tnext t = q) \<and> links m (q # ps) e"

definition ring :: "'d ksys \<Rightarrow> u32 list \<Rightarrow> bool" where
  "ring s ts \<longleftrightarrow> distinct ts \<and> 0 \<notin> set ts \<and> thread_list_head s = hd0 ts
     \<and> links (threads s) ts (hd0 ts)"

definition runnable :: "'d ksys \<Rightarrow> u32 \<Rightarrow> bool" where
  "runnable s p \<longleftrightarrow> (\<exists>t. threads s p = Some t \<and> (tstate t = THREAD_READY \<or> tstate t = THREAD_RUNNING))"

definition next_of :: "'d ksys \<Rightarrow> u32 list \<Rightarrow> u32" where
  "next_of s ps = (case find (runnable s) ps of None \<Rightarrow> idle_thread s | Some p \<Rightarrow> p)"

named_theorems ring_simps \<open>links of the run queue over append\<close>

lemma links_append [ring_simps]:
  "ys \<noteq> [] \<Longrightarrow> links m (xs @ ys) e \<longleftrightarrow> links m xs (hd0 ys) \<and> links m ys e"
proof (induction m xs e rule: links.induct)
  case (2 m p e)
  then show ?case by (cases ys) auto
qed auto

lemma links_cong: "(\<And>p. p \<in> set ps \<Longrightarrow> map_option tnext (m' p) = map_option tnext (m p)) \<Longrightarrow>
    links m' ps e = links m ps e"
proof (induction m ps e rule: links.induct)
  case (2 m p e)
  then have "map_option tnext (m' p) = map_option tnext (m p)" by simp
  then show ?case by (cases "m' p"; cases "m p") auto
next
  case (3 m p q ps e)
  then have "map_option tnext (m' p) = map_option tnext (m p)" by simp
  with 3 show ?case by (cases "m' p"; cases "m p") auto
qed simp

lemma links_defined: "links m ps e \<Longrightarrow> p \<in> set ps \<Longrightarrow> \<exists>t. m p = Some t"
  by (induction m ps e rule: links.induct) auto

lemma links_upd [simp]: "p \<notin> set ps \<Longrightarrow> links (m(p \<mapsto> t)) ps e = links m ps e"
  by (rule links_cong) auto

lemma hd0_append [simp, ring_simps]: "hd0 (xs @ ys) = (if xs = [] then hd0 ys else hd0 xs)"
  by (cases xs) auto

lemma hd0_in: "ps \<noteq> [] \<Longrightarrow> hd0 ps \<in> set ps"
  by (cases ps) auto

lemma ring_tail_links:
  "links (threads s) ps (thread_list_head s) \<Longrightarrow> ps \<noteq> [] \<Longrightarrow> thread_list_head s \<notin> set (tl ps) \<Longrightarrow>
     ring_tail s (hd0 ps) = Some (Inr (last ps))"
proof (induction "threads s" ps "thread_list_head s" rule: links.induct)
  case (2 p)
  then show ?case by (auto simp: ring_tail.simps)
next
  case (3 p q ps)
  then show ?case by (subst ring_tail.simps) auto
qed simp

lemma next_runnable_links:
  "links (threads s) ps e \<Longrightarrow> ps \<noteq> [] \<Longrightarrow> e \<notin> set (tl ps) \<Longrightarrow>
     next_runnable s e (hd0 ps) = Some (Inr (next_of s ps))"
proof (induction "threads s" ps e rule: links.induct)
  case (2 p e)
  then show ?case by (subst next_runnable.simps) (auto simp: next_of_def runnable_def)
next
  case (3 p q ps e)
  then show ?case by (subst next_runnable.simps) (auto simp: next_of_def runnable_def)
qed simp

text \<open>The ring read from the thread after \<open>c\<close> round to \<open>c\<close>.\<close>

lemma ring_rotate:
  assumes "ring s (xs @ c # ys)"
  shows "links (threads s) (ys @ xs @ [c]) (hd0 (ys @ xs @ [c]))"
    and "threads s c \<noteq> None" and "\<And>t. threads s c = Some t \<Longrightarrow> tnext t = hd0 (ys @ xs @ [c])"
proof -
  have l: "links (threads s) (xs @ c # ys) (hd0 (xs @ [c]))"
    using assms by (cases xs) (auto simp: ring_def)
  then have x: "links (threads s) xs c" and c: "links (threads s) (c # ys) (hd0 (xs @ [c]))"
    by (simp_all add: links_append)
  show "links (threads s) (ys @ xs @ [c]) (hd0 (ys @ xs @ [c]))"
  proof -
    have "links (threads s) ys (hd0 (xs @ [c]))" using c by (cases ys) auto
    moreover have "links (threads s) (xs @ [c]) (hd0 (ys @ xs @ [c]))"
      using x c by (cases ys) (auto simp: links_append)
    ultimately show ?thesis using links_append [of "xs @ [c]" _ ys] by simp
  qed
  show "threads s c \<noteq> None" using links_defined [OF c] by auto
  show "tnext t = hd0 (ys @ xs @ [c])" if "threads s c = Some t" for t
    using c that by (cases ys) auto
qed

lemma scheduler_next_ring:
  assumes "ring s (xs @ c # ys)" "curr_thread s = c"
  shows "scheduler_next s = Inr (next_of s (ys @ xs @ [c]))"
proof -
  note r = ring_rotate [OF assms(1)]
  obtain t where t: "threads s c = Some t" using r(2) by auto
  have d: "distinct (xs @ c # ys)" "c \<noteq> 0" using assms(1) by (auto simp: ring_def)
  have "hd0 (ys @ xs @ [c]) \<notin> set (tl (ys @ xs @ [c]))"
    using d(1) by (cases ys; cases xs) auto
  from next_runnable_links [OF r(1) _ this] r(3) [OF t] show ?thesis
    using assms(2) d(2) t by (simp add: scheduler_next_def thread_at_def)
qed

lemma scheduler_add_ring:
  assumes "ring s ts" "t \<noteq> 0" "t \<notin> set ts" "threads s t \<noteq> None"
  shows "\<exists>m. scheduler_add t s = Inr (s\<lparr>thread_list_head := hd0 (ts @ [t]), threads := m\<rparr>)
    \<and> ring (s\<lparr>thread_list_head := hd0 (ts @ [t]), threads := m\<rparr>) (ts @ [t])
    \<and> (\<forall>p. map_option (\<lambda>x. x\<lparr>tnext := 0\<rparr>) (m p) = map_option (\<lambda>x. x\<lparr>tnext := 0\<rparr>) (threads s p))"
proof -
  obtain r where r: "threads s t = Some r" using assms(4) by auto
  show ?thesis
  proof (cases ts rule: rev_cases)
    case Nil
    then show ?thesis using assms r
      by (intro exI [of _ "(threads s)(t \<mapsto> r\<lparr>tnext := t\<rparr>)"])
        (auto simp: scheduler_add_def ring_def set_next_def thread_at_def put_thread_def)
  next
    case (snoc us l)
    have hd: "thread_list_head s = hd0 ts" "hd0 ts \<noteq> 0" "hd0 ts \<in> set ts"
      using assms(1) hd0_in [of ts] snoc by (auto simp: ring_def)
    have lk: "links (threads s) ts (thread_list_head s)" using assms(1) hd by (simp add: ring_def)
    have "thread_list_head s \<notin> set (tl ts)"
      using assms(1) hd by (cases ts) (auto simp: ring_def)
    from ring_tail_links [OF lk _ this] have tail: "ring_tail s (thread_list_head s) = Some (Inr l)"
      using hd snoc by simp
    have l: "l \<noteq> t" "l \<notin> set us" using assms(1,3) snoc by (auto simp: ring_def)
    obtain q where q: "threads s l = Some q" using links_defined [OF lk] snoc by auto
    let ?m = "(threads s)(l \<mapsto> q\<lparr>tnext := t\<rparr>, t \<mapsto> r\<lparr>tnext := hd0 ts\<rparr>)"
    have eq: "scheduler_add t s = Inr (s\<lparr>thread_list_head := hd0 (ts @ [t]), threads := ?m\<rparr>)"
      using tail q r l hd snoc
      by (simp add: scheduler_add_def set_next_def thread_at_def put_thread_def)
    have "links (threads s) us l" using lk snoc by (simp add: links_append)
    then have "links ?m us l" using l assms(3) snoc by simp
    then have "links ?m (ts @ [t]) (hd0 ts)"
      using l snoc by (simp add: links_append)
    then have "ring (s\<lparr>thread_list_head := hd0 (ts @ [t]), threads := ?m\<rparr>) (ts @ [t])"
      using assms(1-3) snoc by (cases us) (auto simp: ring_def)
    with eq q r show ?thesis by (intro exI [of _ ?m]) auto
  qed
qed

section \<open>One switch\<close>

definition cycle :: "'d ksys \<Rightarrow> u32 \<Rightarrow> u32 list \<Rightarrow> bool" where
  "cycle s c ps \<longleftrightarrow> distinct (ps @ [c]) \<and> 0 \<notin> set (ps @ [c]) \<and> links (threads s) (ps @ [c]) (hd0 (ps @ [c]))"

definition procs_ok :: "'d ksys \<Rightarrow> u32 set \<Rightarrow> bool" where
  "procs_ok s P \<longleftrightarrow> (\<forall>p \<in> P. \<forall>t. threads s p = Some t \<longrightarrow> tprocess t \<noteq> 0 \<longrightarrow> processes s (tprocess t) \<noteq> None)"

definition same_shape :: "'d ksys \<Rightarrow> 'd ksys \<Rightarrow> bool" where
  "same_shape s s' \<longleftrightarrow> processes s' = processes s \<and> thread_list_head s' = thread_list_head s
     \<and> idle_thread s' = idle_thread s
     \<and> (\<forall>p. map_option (\<lambda>t. t\<lparr>esp := 0, tstate := THREAD_READY\<rparr>) (threads s' p)
          = map_option (\<lambda>t. t\<lparr>esp := 0, tstate := THREAD_READY\<rparr>) (threads s p))"

lemma same_shape_refl [simp]: "same_shape s s"
  by (simp add: same_shape_def)

lemma same_shape_trans: "same_shape s1 s2 \<Longrightarrow> same_shape s2 s3 \<Longrightarrow> same_shape s1 s3"
  by (simp add: same_shape_def)

lemma same_shape_thread:
  assumes "same_shape s s'"
  shows "map_option tnext (threads s' p) = map_option tnext (threads s p)"
    and "map_option tprocess (threads s' p) = map_option tprocess (threads s p)"
proof -
  have e: "map_option (\<lambda>t. t\<lparr>esp := 0, tstate := THREAD_READY\<rparr>) (threads s' p)
      = map_option (\<lambda>t. t\<lparr>esp := 0, tstate := THREAD_READY\<rparr>) (threads s p)"
    using assms by (simp add: same_shape_def)
  have "map_option tnext x = map_option tnext y \<and> map_option tprocess x = map_option tprocess y"
    if "map_option (\<lambda>t. t\<lparr>esp := 0, tstate := THREAD_READY\<rparr>) x
      = map_option (\<lambda>t. t\<lparr>esp := 0, tstate := THREAD_READY\<rparr>) y" for x y :: "thread option"
    using that by (cases x; cases y) (auto dest: arg_cong [where f = tnext] arg_cong [where f = tprocess])
  from this [OF e] show "map_option tnext (threads s' p) = map_option tnext (threads s p)"
    "map_option tprocess (threads s' p) = map_option tprocess (threads s p)" by simp_all
qed

lemma same_shape_links: "same_shape s s' \<Longrightarrow> links (threads s') ps e = links (threads s) ps e"
  by (rule links_cong) (rule same_shape_thread(1))

lemma same_shape_ring: "same_shape s s' \<Longrightarrow> ring s' ts = ring s ts"
  by (simp add: ring_def same_shape_links) (simp add: same_shape_def)

lemma same_shape_cycle: "same_shape s s' \<Longrightarrow> cycle s' c ps = cycle s c ps"
  by (simp add: cycle_def same_shape_links)

lemma same_shape_procs:
  assumes "same_shape s s'" "procs_ok s P"
  shows "procs_ok s' P"
  unfolding procs_ok_def
proof (intro ballI allI impI)
  fix p t assume p: "p \<in> P" "threads s' p = Some t" "tprocess t \<noteq> 0"
  then obtain t0 where "threads s p = Some t0" "tprocess t0 = tprocess t"
    using same_shape_thread(2) [OF assms(1), of p] by (cases "threads s p") auto
  with p assms show "processes s' (tprocess t) \<noteq> None"
    by (auto simp: procs_ok_def same_shape_def)
qed

lemma cycle_next:
  assumes "cycle s c ps" "curr_thread s = c"
  shows "scheduler_next s = Inr (next_of s (ps @ [c]))"
proof -
  have l: "links (threads s) (ps @ [c]) (hd0 (ps @ [c]))" and d: "distinct (ps @ [c])" "c \<noteq> 0"
    using assms(1) by (auto simp: cycle_def)
  then have "links (threads s) [c] (hd0 (ps @ [c]))" by (simp add: links_append)
  then obtain t where t: "threads s c = Some t" "tnext t = hd0 (ps @ [c])" by auto
  have "hd0 (ps @ [c]) \<notin> set (tl (ps @ [c]))" using d by (cases ps) auto
  from next_runnable_links [OF l _ this] t show ?thesis
    using assms(2) d(2) by (simp add: scheduler_next_def thread_at_def)
qed

lemma cycle_rotate: "cycle s c (us @ n # vs) \<Longrightarrow> cycle s n (vs @ c # us)"
proof -
  assume a: "cycle s c (us @ n # vs)"
  then have "links (threads s) (us @ [n] @ vs @ [c]) (hd0 (us @ [n]))"
    by (cases us) (simp_all add: cycle_def)
  then have u: "links (threads s) (us @ [n]) (hd0 (vs @ [c]))" and v: "links (threads s) (vs @ [c]) (hd0 (us @ [n]))"
    using links_append [of "vs @ [c]" "threads s" "us @ [n]"] by simp_all
  have "links (threads s) ((vs @ [c]) @ us @ [n]) (hd0 ((vs @ [c]) @ us @ [n]))"
    using u v by (subst links_append) (auto split: if_splits)
  then show ?thesis using a by (auto simp: cycle_def)
qed

lemma runnable_cong: "tstate t = tstate t' \<Longrightarrow> threads s p = Some t \<Longrightarrow> threads s' p = Some t' \<Longrightarrow>
    runnable s p = runnable s' p"
  by (simp add: runnable_def)

lemma esp_shape: "threads s c = Some t \<Longrightarrow> same_shape s (put_thread c (t\<lparr>esp := e\<rparr>) s)"
  by (simp add: same_shape_def put_thread_def)

lemma next_of_cong: "(\<And>p. p \<in> set ps \<Longrightarrow> runnable s' p = runnable s p) \<Longrightarrow> idle_thread s' = idle_thread s \<Longrightarrow>
    next_of s' ps = next_of s ps"
proof -
  assume r: "\<And>p. p \<in> set ps \<Longrightarrow> runnable s' p = runnable s p" and i: "idle_thread s' = idle_thread s"
  have "find (runnable s') ps = find (runnable s) ps" using r by (rule find_cong [OF refl])
  with i show ?thesis by (simp add: next_of_def split: option.split)
qed

lemma esp_next:
  assumes "cycle s c ps" "curr_thread s = c" "threads s c = Some t"
  shows "scheduler_next (put_thread c (t\<lparr>esp := e\<rparr>) s) = Inr (next_of s (ps @ [c]))"
proof -
  let ?s = "put_thread c (t\<lparr>esp := e\<rparr>) s"
  have "cycle ?s c ps" using same_shape_cycle [OF esp_shape [OF assms(3)]] assms(1) by blast
  moreover have "curr_thread ?s = c" using assms(2) by (simp add: put_thread_def)
  moreover have "next_of ?s (ps @ [c]) = next_of s (ps @ [c])"
    using assms(3) by (intro next_of_cong) (auto simp: runnable_def put_thread_def)
  ultimately show ?thesis using cycle_next by metis
qed

lemma process_dir_ok:
  "(p \<noteq> 0 \<Longrightarrow> processes s p \<noteq> None) \<Longrightarrow> \<exists>d. process_dir p s = Inr d"
  by (auto simp: process_dir_def process_at_def)

lemma switch_other:
  assumes cy: "cycle s c ps" and c: "threads s c = Some t" "curr_thread s = c"
    and n: "next_of s (ps @ [c]) = n" "n \<noteq> c" "threads s n = Some u"
    and p: "procs_ok s {c, n}"
  shows "\<exists>s'. scheduler_switch e s = Inr (esp u, s') \<and> curr_thread s' = n \<and> same_shape s s'
    \<and> (\<forall>q. q \<noteq> c \<longrightarrow> q \<noteq> n \<longrightarrow> threads s' q = threads s q)
    \<and> threads s' c = Some (t\<lparr>esp := e, tstate := THREAD_READY\<rparr>)
    \<and> threads s' n = Some (u\<lparr>tstate := THREAD_RUNNING\<rparr>)
    \<and> curr_process s' = tprocess u
    \<and> esp0 (kernel_tss (gdts s')) = stack_base u + stack_size u"
proof -
  let ?m = "(threads s)(c \<mapsto> t\<lparr>esp := e, tstate := THREAD_READY\<rparr>, n \<mapsto> u\<lparr>tstate := THREAD_RUNNING\<rparr>)"
  let ?s = "s\<lparr>threads := ?m, curr_thread := n, curr_process := tprocess u,
      gdts := tss_set_kernel_stack (stack_base u + stack_size u) (gdts s)\<rparr>"
  obtain nd where nd: "process_dir (tprocess u) ?s = Inr nd"
    using process_dir_ok [of "tprocess u" ?s] p n(3) by (auto simp: procs_ok_def)
  obtain od where od: "process_dir (tprocess t) ?s = Inr od"
    using process_dir_ok [of "tprocess t" ?s] p c(1) by (auto simp: procs_ok_def)
  have nx: "scheduler_next (put_thread c (t\<lparr>esp := e\<rparr>) s) = Inr n"
    using esp_next [OF cy c(2,1)] n(1) by simp
  let ?s' = "if nd \<noteq> 0 then load_cr3 nd ?s else if od \<noteq> 0 then load_cr3 (kernel_pd_phys s) ?s else ?s"
  have upd: "put_thread n (u\<lparr>tstate := THREAD_RUNNING\<rparr>) (put_thread c (t\<lparr>esp := e, tstate := THREAD_READY\<rparr>)
      (put_thread c (t\<lparr>esp := e\<rparr>) s)) = s\<lparr>threads := ?m\<rparr>"
    by (simp add: put_thread_def)
  have "scheduler_switch e s = Inr (esp u, ?s')"
    using c n(2,3) nx nd od
    by (simp add: scheduler_switch_def thread_at_def set_thread_state_def put_thread_def Let_def)
  moreover have "threads ?s' = ?m" "curr_thread ?s' = n" "processes ?s' = processes s"
    "thread_list_head ?s' = thread_list_head s" "idle_thread ?s' = idle_thread s"
    "curr_process ?s' = tprocess u" "gdts ?s' = gdts ?s"
    by (simp_all add: load_cr3_def)
  moreover have "esp0 (kernel_tss (gdts ?s)) = stack_base u + stack_size u"
    by (simp add: tss_set_kernel_stack_def)
  moreover have "same_shape s ?s'" using c(1) n(3) calculation by (auto simp: same_shape_def)
  ultimately show ?thesis using n(2) by (intro exI [of _ ?s']) (simp only:, auto)
qed

section \<open>A run of switches\<close>

primrec switches :: "u32 list \<Rightarrow> 'd ksys \<Rightarrow> 'd ksys res" where
  "switches [] s = Inr s"
| "switches (e # es) s = bind_res (scheduler_switch e s) (\<lambda>(_, s). switches es s)"

lemma find_split: "find P us = Some n \<Longrightarrow> \<exists>as bs. us = as @ n # bs \<and> P n \<and> (\<forall>a \<in> set as. \<not> P a)"
proof (induction us)
  case (Cons u us)
  show ?case
  proof (cases "P u")
    case True
    with Cons.prems show ?thesis by - (rule exI [of _ "[]"], rule exI [of _ us], auto)
  next
    case False
    with Cons obtain as bs where "us = as @ n # bs \<and> P n \<and> (\<forall>a \<in> set as. \<not> P a)" by auto
    with False show ?thesis by - (rule exI [of _ "u # as"], rule exI [of _ bs], auto)
  qed
qed simp

lemma find_app: "find P (xs @ ys) = (case find P xs of None \<Rightarrow> find P ys | Some x \<Rightarrow> Some x)"
  by (induction xs) auto

lemma round_robin_cycle:
  assumes "cycle s c (us @ t # vs)" "curr_thread s = c" "procs_ok s (set (c # us @ t # vs))"
    "runnable s t" "length es = Suc (length (filter (runnable s) us))"
  shows "\<exists>s'. switches es s = Inr s' \<and> curr_thread s' = t \<and> same_shape s s'"
  using assms
proof (induction "length us" arbitrary: s c us vs es rule: less_induct)
  case less
  obtain e es' where es: "es = e # es'" using less.prems(5) by (cases es) auto
  obtain tc where tc: "threads s c = Some tc" "curr_thread s = c"
    using less.prems(1,2) links_defined [of "threads s" "(us @ t # vs) @ [c]" _ c] by (auto simp: cycle_def)
  have dist: "distinct ((us @ t # vs) @ [c])" using less.prems(1) by (simp add: cycle_def)
  show ?case
  proof (cases "find (runnable s) us")
    case None
    then have nf: "filter (runnable s) us = []" "find (runnable s) ((us @ t # vs) @ [c]) = Some t"
      using less.prems(4) None by (auto simp: find_None_iff filter_empty_conv) (simp add: find_app None)
    obtain u where u: "threads s t = Some u" using less.prems(4) by (auto simp: runnable_def)
    have "procs_ok s {c, t}" using less.prems(3) by (auto simp: procs_ok_def)
    from switch_other [OF less.prems(1) tc _ _ u this, of e] nf(2) dist obtain s' where
      "scheduler_switch e s = Inr (esp u, s')" "curr_thread s' = t" "same_shape s s'"
      by (auto simp: next_of_def)
    then show ?thesis using less.prems(5) nf(1) by (simp add: es)
  next
    case (Some n)
    from find_split [OF Some] obtain as bs where n: "us = as @ n # bs" "runnable s n"
      "\<forall>a \<in> set as. \<not> runnable s a" by blast
    obtain u where u: "threads s n = Some u" using n(2) by (auto simp: runnable_def)
    have nx: "next_of s ((us @ t # vs) @ [c]) = n" using Some by (simp add: next_of_def find_app)
    have "procs_ok s {c, n}" using less.prems(3) n(1) by (auto simp: procs_ok_def)
    from switch_other [OF less.prems(1) tc nx _ u this, of e] dist n(1) obtain s' where
      s': "scheduler_switch e s = Inr (esp u, s')" "curr_thread s' = n" "same_shape s s'"
        "\<forall>q. q \<noteq> c \<longrightarrow> q \<noteq> n \<longrightarrow> threads s' q = threads s q" by auto
    have same: "runnable s' q = runnable s q" if "q \<noteq> c" "q \<noteq> n" for q
      using s'(4) that by (simp add: runnable_def)
    have cy: "cycle s' n (bs @ t # (vs @ c # as))"
      using cycle_rotate [of s c as n "bs @ t # vs"] less.prems(1) same_shape_cycle [OF s'(3)]
      by (simp add: n(1))
    have pr: "procs_ok s' (set (n # bs @ t # (vs @ c # as)))"
      by (rule same_shape_procs [OF s'(3)]) (use less.prems(3) in \<open>auto simp: n(1) procs_ok_def\<close>)
    have rt: "runnable s' t" using less.prems(4) same [of t] dist n(1) by auto
    have "filter (runnable s') bs = filter (runnable s) bs"
      by (rule filter_cong [OF refl same]) (use dist n(1) in auto)
    then have "length es' = Suc (length (filter (runnable s') bs))"
      using less.prems(5) n by (simp add: es)
    from less.hyps [OF _ cy s'(2) pr rt this] n(1) obtain s'' where
      "switches es' s' = Inr s''" "curr_thread s'' = t" "same_shape s' s''" by auto
    then show ?thesis using s'(1) same_shape_trans [OF s'(3)] by (auto simp: es)
  qed
qed

lemma ring_cycle:
  assumes "ring s (xs @ c # ys)"
  shows "cycle s c (ys @ xs)"
  using ring_rotate(1) [OF assms] assms by (auto simp: cycle_def ring_def)

section \<open>Properties\<close>

text \<open>A machine with an idle thread at 0x10, the running thread at 0x20 and a ready one at 0x30,
  in this queue order; the thread at 0x40 is not queued yet.\<close>

definition a_thread :: "thread_state \<Rightarrow> u32 \<Rightarrow> thread" where
  "a_thread x n = \<lparr>esp = 0, stack_base = 0, stack_size = 0, tstate = x, tprocess = 0, tnext = n\<rparr>"

definition small_sys :: "thread_state \<Rightarrow> unit ksys" where
  "small_sys x = \<lparr>heap = big_heap, gdts = empty_gdt, kernel_pd_phys = 0x1000,
     threads = (\<lambda>_. None)(0x10 \<mapsto> a_thread THREAD_BLOCKED 0x20, 0x20 \<mapsto> a_thread x 0x30,
       0x30 \<mapsto> a_thread THREAD_READY 0x10, 0x40 \<mapsto> a_thread THREAD_READY 0),
     processes = (\<lambda>_. None), vnodes = (\<lambda>_. None), files = (\<lambda>_. None), idle_thread = 0x10,
     curr_thread = 0x20, schedule_pending = False, thread_list_head = 0x10, curr_process = 0,
     process_list = 0, next_pid = 1, mount_table = [], kernel_fd_table = replicate MAX_FDS 0, dev = ()\<rparr>"

lemma small_sys_ring: "ring (small_sys x) ([0x10] @ 0x20 # [0x30])" "curr_thread (small_sys x) = 0x20"
    "procs_ok (small_sys x) P" "threads (small_sys x) 0x20 = Some (a_thread x 0x30)"
    "runnable (small_sys x) 0x30"
  by (auto simp: ring_def small_sys_def a_thread_def procs_ok_def runnable_def)

lemma small_sys_fields: "threads (small_sys x) 0x40 = Some (a_thread THREAD_READY 0)"
    "heap (small_sys x) = big_heap"
  by (simp_all add: small_sys_def)

text \<open>\<open>scheduler_add\<close> implements "append to the run queue": from a well-formed ring it ends (the
  walk to the tail terminates), puts the thread behind all others and changes only \<open>next\<close> links.\<close>

theorem scheduler_add_appends:
  assumes "ring s ts" "t \<noteq> 0" "t \<notin> set ts" "threads s t \<noteq> None"
  shows "\<exists>m. scheduler_add t s = Inr (s\<lparr>thread_list_head := hd0 (ts @ [t]), threads := m\<rparr>)
    \<and> ring (s\<lparr>thread_list_head := hd0 (ts @ [t]), threads := m\<rparr>) (ts @ [t])
    \<and> (\<forall>p. map_option (\<lambda>x. x\<lparr>tnext := 0\<rparr>) (m p) = map_option (\<lambda>x. x\<lparr>tnext := 0\<rparr>) (threads s p))"
  using assms by (rule scheduler_add_ring)

lemma scheduler_add_appends_witness:
  "\<exists>s'. scheduler_add 0x40 (small_sys THREAD_RUNNING) = Inr s' \<and> ring s' [0x10, 0x20, 0x30, 0x40]"
  using scheduler_add_appends [of "small_sys THREAD_RUNNING" "[0x10, 0x20, 0x30]" "0x40"]
    small_sys_ring(1) [of THREAD_RUNNING] small_sys_fields(1) by auto

text \<open>\<open>scheduler_next\<close> is round robin: it returns the first runnable thread after the current
  one in queue order, the current one last, and the idle thread when none is runnable.\<close>

theorem scheduler_next_round_robin:
  assumes "ring s (xs @ c # ys)" "curr_thread s = c"
  shows "scheduler_next s = Inr (case find (runnable s) (ys @ xs @ [c]) of
      None \<Rightarrow> idle_thread s | Some p \<Rightarrow> p)"
  using scheduler_next_ring [OF assms] by (simp add: next_of_def)

lemma scheduler_next_round_robin_witness: "scheduler_next (small_sys THREAD_RUNNING) = Inr 0x30"
  using scheduler_next_round_robin [OF small_sys_ring(1,2), of THREAD_RUNNING]
    small_sys_ring(5) [of THREAD_RUNNING] by simp

text \<open>C11: no runnable thread starves: a runnable thread with \<open>k\<close> runnable threads between it and
  the current one is running after exactly \<open>k + 1\<close> switches, and the queue is still the same.\<close>

theorem runnable_thread_runs:
  assumes "ring s (xs @ c # ys)" "curr_thread s = c" "procs_ok s (set (xs @ c # ys))"
    and "ys @ xs = us @ t # vs" "runnable s t" "length es = Suc (length (filter (runnable s) us))"
  shows "\<exists>s'. switches es s = Inr s' \<and> curr_thread s' = t \<and> ring s' (xs @ c # ys)"
proof -
  have "set (c # us @ t # vs) = set (xs @ c # ys)" using arg_cong [OF assms(4), of set] by auto
  then have "procs_ok s (set (c # us @ t # vs))" using assms(3) by simp
  moreover have "cycle s c (us @ t # vs)" using ring_cycle [OF assms(1)] assms(4) by simp
  ultimately obtain s' where "switches es s = Inr s'" "curr_thread s' = t" "same_shape s s'"
    using round_robin_cycle assms(2,5,6) by blast
  with same_shape_ring [OF this(3)] assms(1) show ?thesis by blast
qed

lemma runnable_thread_runs_witness:
  "\<exists>s'. switches [0x500] (small_sys THREAD_RUNNING) = Inr s' \<and> curr_thread s' = 0x30"
  using runnable_thread_runs [OF small_sys_ring(1-3) _ small_sys_ring(5), of "[]" "[0x10]" "[0x500]" THREAD_RUNNING]
  by auto

text \<open>The switch resurrects dead threads: when the thread that \<open>sys_exit\<close> marked dead is
  switched away from, its state becomes ready and the scheduler picks it again after the runnable
  threads of one round.\<close>

theorem dead_thread_runs_again:
  assumes "ring s (xs @ c # ys)" "curr_thread s = c" "procs_ok s (set (xs @ c # ys))"
    and "threads s c = Some t" "tstate t = THREAD_DEAD" "n \<in> set (ys @ xs)" "runnable s n"
  shows "\<exists>k s'. switches (replicate k e) s = Inr s' \<and> 0 < k \<and> curr_thread s' = c"
proof -
  have cy: "cycle s c (ys @ xs)" by (rule ring_cycle [OF assms(1)])
  have dist: "distinct ((ys @ xs) @ [c])" using cy by (simp add: cycle_def)
  obtain m where m: "find (runnable s) (ys @ xs) = Some m"
    using assms(6,7) by (cases "find (runnable s) (ys @ xs)") (auto simp: find_None_iff)
  from find_split [OF m] obtain as bs where ab: "ys @ xs = as @ m # bs" "runnable s m" by blast
  obtain u where u: "threads s m = Some u" using ab(2) by (auto simp: runnable_def)
  have nx: "next_of s ((ys @ xs) @ [c]) = m"
    using m by (simp add: next_of_def find_app split: option.splits)
  have mc: "m \<noteq> c" using ab(1) dist by auto
  have "m \<in> set (xs @ c # ys)" using arg_cong [OF ab(1), of set] by auto
  then have "procs_ok s {c, m}" using assms(3) by (auto simp: procs_ok_def)
  from switch_other [OF cy assms(4,2) nx mc u this, of e] obtain s1 where
    s1: "scheduler_switch e s = Inr (esp u, s1)" "curr_thread s1 = m" "same_shape s s1"
      "threads s1 c = Some (t\<lparr>esp := e, tstate := THREAD_READY\<rparr>)" by blast
  have "cycle s1 m (bs @ c # as)"
    using cycle_rotate [of s c as m bs] cy ab(1) same_shape_cycle [OF s1(3)] by simp
  moreover have "set (m # bs @ c # as) = set (xs @ c # ys)"
    using arg_cong [OF ab(1), of set] by auto
  then have "procs_ok s1 (set (m # bs @ c # as))" using same_shape_procs [OF s1(3) assms(3)] by simp
  moreover have "runnable s1 c" using s1(4) by (simp add: runnable_def)
  ultimately obtain s' where
    "switches (replicate (Suc (length (filter (runnable s1) bs))) e) s1 = Inr s'" "curr_thread s' = c"
    using round_robin_cycle [of s1 m bs c as] s1(2) by (metis length_replicate)
  then show ?thesis using s1(1)
    by (intro exI [of _ "Suc (Suc (length (filter (runnable s1) bs)))"] exI [of _ s']) simp
qed

lemma dead_thread_runs_again_witness:
  "\<exists>k s'. switches (replicate k 0x500) (small_sys THREAD_DEAD) = Inr s' \<and> 0 < k \<and> curr_thread s' = 0x20"
  using dead_thread_runs_again [OF small_sys_ring(1-4), of THREAD_DEAD "0x30" "0x500"]
    small_sys_ring(5) [of THREAD_DEAD] by (simp add: a_thread_def)

text \<open>C12: \<open>kthread_create\<close> returns a new ready thread of no process; from its \<open>esp\<close> upwards, read
  through the page tables, its stack holds what the return path of \<open>isr_stubs.s\<close> pops: four data
  segment selectors, eight zero registers, two words to skip, then the entry point, the kernel code
  selector and the flags with interrupts on.\<close>

theorem kthread_create_frame:
  assumes "heap_wf (heap s)" "page_aligned (large_alloc_base (heap s))"
    and "unat (large_alloc_base (heap s)) + 0x2000 \<le> 0xffc00000"
    and "kthread_create entry KSTACK_SIZE s = Inr (t, s')"
  shows "\<exists>th. threads s' t = Some th \<and> tstate th = THREAD_READY \<and> tprocess th = 0
    \<and> stack_base th = large_alloc_base (heap s) \<and> esp th = stack_base th + KSTACK_SIZE - 68
    \<and> (\<forall>i<17. vload32 (esp th + 4 * of_nat i) (vmem (heap s')) =
          Inr ([SEG_KDATA, SEG_KDATA, SEG_KDATA, SEG_KDATA, 0, 0, 0, 0, 0, 0, 0, 0, 0, 32, entry,
                SEG_KCODE, 0x00200202] ! i))
    \<and> t \<notin> fst ` live (heap s) \<and> live (heap s') = insert (t, sizeof_thread) (live (heap s))
    \<and> heap_wf (heap s')"
proof -
  have n: "(KSTACK_SIZE + PAGE_SIZE - 1) div PAGE_SIZE = 2" "unat (2 :: u32) = 2"
    by (simp_all add: KSTACK_SIZE_def PAGE_SIZE_def)
  obtain s1 base s2 sp s3 where k: "k_malloc sizeof_thread s = Inr (t, s1)"
    "k_alloc_pages 2 s1 = Inr (base, s2)" "push_all (kthread_frame entry) (base + KSTACK_SIZE, s2) = Inr (sp, s3)"
    "s' = put_thread t \<lparr>esp = sp, stack_base = base, stack_size = KSTACK_SIZE, tstate = THREAD_READY,
       tprocess = 0, tnext = 0\<rparr> s3"
    using assms(4) by (auto simp: kthread_create_def n)
  note M = k_malloc_Inr [OF assms(1) k(1)] and B = k_malloc_base [OF k(1)]
  have "base + KSTACK_SIZE = base + 2 * PAGE_SIZE" by (simp add: KSTACK_SIZE_def PAGE_SIZE_def)
  from fresh_stack [OF _ _ _ _ k(2) _ this, of "kthread_frame entry"] M B assms(2,3)
  obtain m where base: "base = large_alloc_base (heap s)" and
    m: "push_all (kthread_frame entry) (base + KSTACK_SIZE, s2) = Inr (base + KSTACK_SIZE - 68,
        s1\<lparr>heap := (heap s1)\<lparr>large_alloc_base := base + KSTACK_SIZE, vmem := m\<rparr>\<rparr>)"
      "heap_wf ((heap s1)\<lparr>large_alloc_base := base + KSTACK_SIZE, vmem := m\<rparr>)"
      "live ((heap s1)\<lparr>large_alloc_base := base + KSTACK_SIZE, vmem := m\<rparr>) = live (heap s1)"
      "\<forall>i<17. vload32 (base + KSTACK_SIZE - 68 + 4 * of_nat i) m = Inr (rev (kthread_frame entry) ! i)"
    by (auto simp: n(2) kthread_frame_def word_less_nat_alt)
  have "rev (kthread_frame entry) = [SEG_KDATA, SEG_KDATA, SEG_KDATA, SEG_KDATA, 0, 0, 0, 0, 0, 0, 0, 0,
      0, 32, entry, SEG_KCODE, 0x00200202]" by (simp add: kthread_frame_def)
  moreover have "sp = base + KSTACK_SIZE - 68"
    "s3 = s1\<lparr>heap := (heap s1)\<lparr>large_alloc_base := base + KSTACK_SIZE, vmem := m\<rparr>\<rparr>"
    using m(1) k(3) by simp_all
  ultimately show ?thesis using m(2-4) M by (simp add: k(4) put_thread_def base)
qed

lemma big_heap_ok: "heap_ok big_heap [(0xd0000000, 236, True)]"
  using big_vm_ok avail_bound [of big_vm]
  by (simp add: heap_ok_def heap_inv_def big_heap_def small_heap_def HDR_def big_vm_fields)

lemma kthread_create_frame_witness:
  "\<exists>t s' th. kthread_create 0xc0100000 KSTACK_SIZE (small_sys THREAD_READY) = Inr (t, s')
    \<and> threads s' t = Some th \<and> vload32 (esp th + 56) (vmem (heap s')) = Inr 0xc0100000"
proof -
  let ?s = "small_sys THREAD_READY"
  have wf: "heap_wf (heap ?s)" using big_heap_ok by (auto simp: heap_wf_def small_sys_fields)
  have base: "large_alloc_base (heap ?s) = 0xe0000000"
    by (simp add: small_sys_fields big_heap_def small_heap_def)
  obtain h where h: "kmalloc sizeof_thread big_heap = Some (Inr (0xd0000014, h))" "vmem h = big_vm"
    using kmalloc_fit [of big_heap "[]" "0xd0000000" 236 "[]" sizeof_thread] big_heap_ok
    by (auto simp: sizeof_thread_def HDR_def big_heap_def)
  let ?s1 = "?s\<lparr>heap := h\<rparr>"
  have m: "k_malloc sizeof_thread ?s = Inr (0xd0000014, ?s1)" using h by (simp add: k_malloc_def small_sys_fields)
  have hb: "large_alloc_base h = 0xe0000000" using k_malloc_base [OF m] base by simp
  let ?p = "map_fresh_pages ''kalloc_pages() -> out of physical memory'' 2 0xe0000000 big_vm"
  have "\<exists>v. ?p = Inr v"
    using map_fresh_pages_Inl [of big_vm "0xe0000000" 2 "''kalloc_pages() -> out of physical memory''"] big_vm_ok
    by (cases ?p) auto
  then obtain s2 where k: "k_alloc_pages 2 ?s1 = Inr (0xe0000000, s2)"
    by (auto simp: k_alloc_pages_def kalloc_pages_def hb h(2) simp del: map_fresh_pages.simps)
  have "heap_wf (heap ?s1)" using k_malloc_Inr [OF wf m] by simp
  from fresh_stack [OF this _ _ _ k, of "kthread_frame 0xc0100000" "0xe0002000"] obtain c where
    "push_all (kthread_frame 0xc0100000) (0xe0002000, s2) = Inr c"
    by (auto simp: hb page_aligned_def kthread_frame_def PAGE_SIZE_def)
  then obtain t s' where kt: "kthread_create 0xc0100000 KSTACK_SIZE ?s = Inr (t, s')"
    using m k by (cases c) (auto simp: kthread_create_def KSTACK_SIZE_def PAGE_SIZE_def)
  from kthread_create_frame [OF wf _ _ kt] base obtain th where th: "threads s' t = Some th"
    "\<forall>i<17. vload32 (esp th + 4 * of_nat i) (vmem (heap s')) =
          Inr ([SEG_KDATA, SEG_KDATA, SEG_KDATA, SEG_KDATA, 0, 0, 0, 0, 0, 0, 0, 0, 0, 32, 0xc0100000,
                SEG_KCODE, 0x00200202] ! i)"
    by (auto simp: page_aligned_def)
  have "vload32 (esp th + 4 * of_nat 14) (vmem (heap s')) = Inr 0xc0100000"
    using th(2) [rule_format, of 14] by simp
  with kt th(1) show ?thesis by auto
qed

end
