(* ===== verification/Vfs.thy ===== *)
theory Vfs
  imports Kstack CString "HOL-Library.Sublist"
begin

text \<open>
  The virtual file system, \<open>src/vfs/vfs.c\<close>: the mount table, path resolution, the file
  descriptor tables of the kernel and of the processes, and the calls that forward to the
  operations of a vnode.

  A \<open>vnode_ops_t\<close> is a record of optional functions (an absent member is a NULL pointer), an
  \<open>fs_driver_t\<close> likewise; \<open>tables\<close> gives the tables by address, with the address of
  \<open>mount_table\<close>. File systems and devices are separate theories that provide them. Paths are the
  lists of their bytes before the NUL; buffers are addresses. Results are 32-bit words, an error is
  \<open>-1\<close>.
\<close>

section \<open>Interfaces\<close>

definition MAX_MOUNTS :: nat where "MAX_MOUNTS = 64"
definition MAX_PATH :: nat where "MAX_PATH = 256"
definition VFS_FILE :: u32 where "VFS_FILE = 0x01"
definition VFS_DIRECTORY :: u32 where "VFS_DIRECTORY = 0x02"
definition VFS_CHARDEV :: u32 where "VFS_CHARDEV = 0x04"
definition VFS_MOUNTPT :: u32 where "VFS_MOUNTPT = 0x40"

record 'd vnode_ops =
  op_open :: "(u32 \<Rightarrow> u32 \<Rightarrow> 'd ksys \<Rightarrow> (u32 \<times> 'd ksys) res) option"
  op_close :: "(u32 \<Rightarrow> 'd ksys \<Rightarrow> (u32 \<times> 'd ksys) res) option"
  op_read :: "(u32 \<Rightarrow> u32 \<Rightarrow> u32 \<Rightarrow> u32 \<Rightarrow> 'd ksys \<Rightarrow> (u32 \<times> 'd ksys) res) option"
  op_write :: "(u32 \<Rightarrow> u32 \<Rightarrow> u32 \<Rightarrow> u32 \<Rightarrow> 'd ksys \<Rightarrow> (u32 \<times> 'd ksys) res) option"
  op_readdir :: "(u32 \<Rightarrow> u32 \<Rightarrow> u32 \<Rightarrow> u32 \<Rightarrow> 'd ksys \<Rightarrow> (u32 \<times> 'd ksys) res) option"
  op_finddir :: "(u32 \<Rightarrow> u8 list \<Rightarrow> 'd ksys \<Rightarrow> (u32 \<times> 'd ksys) res) option"
  op_ioctl :: "(u32 \<Rightarrow> u32 \<Rightarrow> u32 \<Rightarrow> 'd ksys \<Rightarrow> (u32 \<times> 'd ksys) res) option"
  op_stat :: "(u32 \<Rightarrow> u32 \<Rightarrow> 'd ksys \<Rightarrow> (u32 \<times> 'd ksys) res) option"

text \<open>The drivers take the index of the mount in the table and the device argument.\<close>

record 'd fs_driver =
  dr_mount :: "nat \<Rightarrow> u32 \<Rightarrow> 'd ksys \<Rightarrow> (u32 \<times> 'd ksys) res"
  dr_unmount :: "(nat \<Rightarrow> 'd ksys \<Rightarrow> (u32 \<times> 'd ksys) res) option"
  dr_get_root :: "nat \<Rightarrow> 'd ksys \<Rightarrow> (u32 \<times> 'd ksys) res"

record 'd tables =
  vops :: "u32 \<Rightarrow> 'd vnode_ops option"
  drivers :: "u32 \<Rightarrow> 'd fs_driver option"
  mount_table_addr :: u32

definition no_ops :: "'d vnode_ops" where
  "no_ops = \<lparr>op_open = None, op_close = None, op_read = None, op_write = None, op_readdir = None,
     op_finddir = None, op_ioctl = None, op_stat = None\<rparr>"

definition neg :: "u32 \<Rightarrow> bool" where
  "neg x \<longleftrightarrow> sint x < 0"

text \<open>The member of a vnode's table, \<open>None\<close> when the table or the member is NULL.\<close>

definition the_op :: "'d tables \<Rightarrow> ('d vnode_ops \<Rightarrow> 'f option) \<Rightarrow> vnode \<Rightarrow> 'f option res" where
  "the_op T sel v = (if ops v = 0 then Inr None
     else case vops T (ops v) of None \<Rightarrow> Inl (Fault ''no operations'') | Some o' \<Rightarrow> Inr (sel o'))"

section \<open>File descriptors\<close>

definition active_fd_table :: "'d ksys \<Rightarrow> fd_table res" where
  "active_fd_table s = (if curr_process s \<noteq> 0
     then bind_res (process_at (curr_process s) s) (\<lambda>p. Inr (fds p)) else Inr (kernel_fd_table s))"

definition set_active_fd :: "nat \<Rightarrow> u32 \<Rightarrow> 'd ksys \<Rightarrow> 'd ksys res" where
  "set_active_fd i f s = (if curr_process s \<noteq> 0
     then bind_res (process_at (curr_process s) s) (\<lambda>p.
            Inr (put_process (curr_process s) (p\<lparr>fds := (fds p)[i := f]\<rparr>) s))
     else Inr (s\<lparr>kernel_fd_table := (kernel_fd_table s)[i := f]\<rparr>))"

primrec free_slot :: "u32 list \<Rightarrow> nat \<Rightarrow> nat option" where
  "free_slot [] i = None"
| "free_slot (f # fs) i = (if f = 0 then Some i else free_slot fs (Suc i))"

definition alloc_fd :: "u32 \<Rightarrow> 'd ksys \<Rightarrow> (u32 \<times> 'd ksys) res" where
  "alloc_fd file s = bind_res (active_fd_table s) (\<lambda>t.
     case free_slot t 0 of
       None \<Rightarrow> Inr (-1, s)
     | Some i \<Rightarrow> bind_res (set_active_fd i file s) (\<lambda>s. Inr (of_nat i, s)))"

definition get_file :: "u32 \<Rightarrow> 'd ksys \<Rightarrow> u32 res" where
  "get_file fd s = (if neg fd \<or> sint fd \<ge> int MAX_FDS then Inr 0
     else bind_res (active_fd_table s) (\<lambda>t. Inr (t ! unat fd)))"

section \<open>Mounts and paths\<close>

primrec best_mount :: "u8 list \<Rightarrow> fs_mount list \<Rightarrow> nat \<Rightarrow> nat option \<times> nat \<Rightarrow> nat option \<times> nat" where
  "best_mount path [] i best = best"
| "best_mount path (m # ms) i best =
     (let mlen = length (mpath m) in
      best_mount path ms (Suc i)
        (if strncmp_l mlen (mpath m) path = 0 \<and> mlen > snd best then (Some i, mlen) else best))"

definition find_mount :: "u8 list \<Rightarrow> 'd ksys \<Rightarrow> fs_mount option" where
  "find_mount path s =
     map_option (\<lambda>i. mount_table s ! i) (fst (best_mount path (mount_table s) 0 (None, 0)))"

definition slash :: u8 where "slash = 0x2f"

text \<open>One path component: the vnode it leads to, 0 when there is none.\<close>

definition step_into :: "'d tables \<Rightarrow> u32 \<Rightarrow> u8 list \<Rightarrow> 'd ksys \<Rightarrow> (u32 \<times> 'd ksys) res" where
  "step_into T node cname s =
     bind_res (vnode_at node s) (\<lambda>v.
     if vflags v AND (VFS_DIRECTORY OR VFS_MOUNTPT) = 0 then Inr (0, s)
     else let node = (if mounted_here v \<noteq> 0 then mounted_here v else node) in
       bind_res (vnode_at node s) (\<lambda>v.
       bind_res (the_op T op_finddir v) (\<lambda>f. case f of
           None \<Rightarrow> Inr (0, s)
         | Some finddir \<Rightarrow> finddir node cname s)))"

lemma rest_shorter:
  assumes "dropWhile (\<lambda>c. c = slash) rel \<noteq> []"
  shows "length (dropWhile (\<lambda>c. c \<noteq> slash) (dropWhile (\<lambda>c. c = slash) rel)) < length rel"
proof -
  let ?r = "dropWhile (\<lambda>c. c = slash) rel"
  have "hd ?r \<noteq> slash" using assms hd_dropWhile [of "\<lambda>c. c = slash" rel] by blast
  then have "length (dropWhile (\<lambda>c. c \<noteq> slash) ?r) < length ?r"
    using assms by (cases ?r) (auto simp: length_dropWhile_le le_imp_less_Suc)
  also have "\<dots> \<le> length rel" by (rule length_dropWhile_le)
  finally show ?thesis .
qed

text \<open>The loop of \<open>vfs_resolve\<close> over the rest of the path; \<open>component\<close> has \<open>MAX_PATH\<close> bytes.\<close>

function resolve_loop :: "'d tables \<Rightarrow> u32 \<Rightarrow> u8 list \<Rightarrow> 'd ksys \<Rightarrow> (u32 \<times> 'd ksys) res" where
  "resolve_loop T node rel s =
     (let rel = dropWhile (\<lambda>c. c = slash) rel in
      if rel = [] then Inr (node, s)
      else let cname = takeWhile (\<lambda>c. c \<noteq> slash) rel; rest = dropWhile (\<lambda>c. c \<noteq> slash) rel in
        if length cname \<ge> MAX_PATH then Inl (Fault ''component overflow'')
        else case step_into T node cname s of
            Inl e \<Rightarrow> Inl e
          | Inr (node', s') \<Rightarrow> if node' = 0 then Inr (0, s') else resolve_loop T node' rest s')"
  by pat_completeness auto
termination
  by (relation "measure (\<lambda>(T, node, rel, s). length rel)") (auto intro: rest_shorter)

declare resolve_loop.simps [simp del]

definition vfs_resolve :: "'d tables \<Rightarrow> u8 list \<Rightarrow> 'd ksys \<Rightarrow> (u32 \<times> 'd ksys) res" where
  "vfs_resolve T path s = (case find_mount path s of
       None \<Rightarrow> Inr (0, s)
     | Some mnt \<Rightarrow>
         if root mnt = 0 then Inr (0, s)
         else bind_res (resolve_loop T (root mnt) (drop (length (mpath mnt)) path) s) (\<lambda>(node, s).
           if node = 0 then Inr (0, s)
           else bind_res (vnode_at node s) (\<lambda>v.
             Inr (if vflags v AND VFS_MOUNTPT \<noteq> 0 \<and> mounted_here v \<noteq> 0 then mounted_here v else node, s))))"

section \<open>vfs_mount and vfs_unmount\<close>

definition vfs_mount :: "'d tables \<Rightarrow> u8 list \<Rightarrow> u32 \<Rightarrow> u32 \<Rightarrow> 'd ksys \<Rightarrow> (u32 \<times> 'd ksys) res" where
  "vfs_mount T path drv device s =
     (let i = length (mount_table s) in
      if i \<ge> MAX_MOUNTS then Inr (-1, s)
      else case drivers T drv of
          None \<Rightarrow> Inl (Fault ''no driver'')
        | Some d \<Rightarrow>
            bind_res (dr_mount d i device s) (\<lambda>(r, s).
            if neg r then Inr (-1, s)
            else bind_res (dr_get_root d i s) (\<lambda>(rt, s).
              if rt = 0 then Inr (-1, s)
              else Inr (0, s\<lparr>mount_table := mount_table s @
                     [\<lparr>mpath = take (MAX_PATH - 1) path, driver = drv, root = rt, mprivate = 0\<rparr>]\<rparr>))))"

primrec mount_index :: "u8 list \<Rightarrow> fs_mount list \<Rightarrow> nat \<Rightarrow> nat option" where
  "mount_index path [] i = None"
| "mount_index path (m # ms) i =
     (if strncmp_l MAX_PATH (mpath m) path = 0 then Some i else mount_index path ms (Suc i))"

definition sizeof_mount :: u32 where "sizeof_mount = 268"

primrec mount_busy :: "u32 \<Rightarrow> u32 list \<Rightarrow> 'd ksys \<Rightarrow> bool res" where
  "mount_busy mnt [] s = Inr False"
| "mount_busy mnt (f # fs) s =
     (if f = 0 then mount_busy mnt fs s
      else bind_res (file_at f s) (\<lambda>fl.
        if fvnode fl = 0 then mount_busy mnt fs s
        else bind_res (vnode_at (fvnode fl) s) (\<lambda>v.
          if vmount v = mnt then Inr True else mount_busy mnt fs s)))"

definition vfs_unmount :: "'d tables \<Rightarrow> u8 list \<Rightarrow> 'd ksys \<Rightarrow> (u32 \<times> 'd ksys) res" where
  "vfs_unmount T path s = (case mount_index path (mount_table s) 0 of
       None \<Rightarrow> Inr (-1, s)
     | Some i \<Rightarrow>
         bind_res (mount_busy (mount_table_addr T + of_nat i * sizeof_mount) (kernel_fd_table s) s) (\<lambda>busy.
         if busy then Inr (-1, s)
         else bind_res (if i > 0
                then bind_res (vfs_resolve T path s) (\<lambda>(par, s).
                       if par = 0 then Inr s
                       else bind_res (vnode_at par s) (\<lambda>v.
                         Inr (if vflags v AND VFS_MOUNTPT \<noteq> 0
                              then put_vnode par (v\<lparr>mounted_here := 0\<rparr>) s else s)))
                else Inr s) (\<lambda>s.
           bind_res (let drv = driver (mount_table s ! i) in
               if drv = 0 then Inr s
               else case drivers T drv of
                   None \<Rightarrow> Inl (Fault ''no driver'')
                 | Some d \<Rightarrow> (case dr_unmount d of
                       None \<Rightarrow> Inr s
                     | Some f \<Rightarrow> bind_res (f i s) (\<lambda>(_, s). Inr s))) (\<lambda>s.
             Inr (0, s\<lparr>mount_table := take i (mount_table s) @ drop (Suc i) (mount_table s)\<rparr>)))))"

section \<open>Files\<close>

definition vfs_open :: "'d tables \<Rightarrow> u8 list \<Rightarrow> u32 \<Rightarrow> 'd ksys \<Rightarrow> (u32 \<times> 'd ksys) res" where
  "vfs_open T path flags s =
     bind_res (vfs_resolve T path s) (\<lambda>(node, s).
     if node = 0 then Inr (-1, s)
     else bind_res (vnode_at node s) (\<lambda>v.
       bind_res (the_op T op_open v) (\<lambda>op.
       bind_res (case op of None \<Rightarrow> Inr (0, s) | Some f \<Rightarrow> f node flags s) (\<lambda>(r, s).
       if op \<noteq> None \<and> neg r then Inr (-1, s)
       else bind_res (k_malloc sizeof_file s) (\<lambda>(file, s).
         if file = 0 then Inr (-1, s)
         else let s = put_file file \<lparr>fvnode = node, offset = 0, fflags = flags, ref_count = 1\<rparr> s in
           bind_res (alloc_fd file s) (\<lambda>(fd, s).
             if neg fd then bind_res (k_free file s) (\<lambda>s. Inr (-1, s)) else Inr (fd, s)))))))"

definition vfs_close :: "'d tables \<Rightarrow> u32 \<Rightarrow> 'd ksys \<Rightarrow> (u32 \<times> 'd ksys) res" where
  "vfs_close T fd s =
     bind_res (get_file fd s) (\<lambda>file.
     if file = 0 then Inr (-1, s)
     else bind_res (file_at file s) (\<lambda>f.
       let f = f\<lparr>ref_count := ref_count f - 1\<rparr>; s = put_file file f s in
       bind_res
         (if ref_count f = 0
          then bind_res (vnode_at (fvnode f) s) (\<lambda>v.
               bind_res (the_op T op_close v) (\<lambda>op.
               bind_res (case op of None \<Rightarrow> Inr (0, s) | Some g \<Rightarrow> g (fvnode f) s) (\<lambda>(_, s).
                 k_free file s)))
          else Inr s) (\<lambda>s.
       Inr (0, s\<lparr>kernel_fd_table := (kernel_fd_table s)[unat fd := 0]\<rparr>))))"

text \<open>The calls that only forward to an operation of the open file's vnode.\<close>

definition on_file :: "'d tables \<Rightarrow> ('d vnode_ops \<Rightarrow> 'f option) \<Rightarrow> u32 \<Rightarrow>
    (u32 \<Rightarrow> file_t \<Rightarrow> 'f \<Rightarrow> (u32 \<times> 'd ksys) res) \<Rightarrow> 'd ksys \<Rightarrow> (u32 \<times> 'd ksys) res" where
  "on_file T sel fd k s =
     bind_res (get_file fd s) (\<lambda>file.
     if file = 0 then Inr (-1, s)
     else bind_res (file_at file s) (\<lambda>f.
          bind_res (vnode_at (fvnode f) s) (\<lambda>v.
          bind_res (the_op T sel v) (\<lambda>op. case op of
              None \<Rightarrow> Inr (-1, s)
            | Some g \<Rightarrow> k file f g))))"

text \<open>\<open>file->offset += n\<close> when \<open>n\<close> is positive as a signed number.\<close>

definition advance :: "u32 \<Rightarrow> u32 \<Rightarrow> 'd ksys \<Rightarrow> (u32 \<times> 'd ksys) res" where
  "advance file n s = (if sint n > 0
     then bind_res (file_at file s) (\<lambda>f. Inr (n, put_file file (f\<lparr>offset := offset f + n\<rparr>) s))
     else Inr (n, s))"

definition vfs_stat :: "'d tables \<Rightarrow> u32 \<Rightarrow> u32 \<Rightarrow> 'd ksys \<Rightarrow> (u32 \<times> 'd ksys) res" where
  "vfs_stat T fd st s = on_file T op_stat fd (\<lambda>file f g. g (fvnode f) st s) s"

definition vfs_read :: "'d tables \<Rightarrow> u32 \<Rightarrow> u32 \<Rightarrow> u32 \<Rightarrow> 'd ksys \<Rightarrow> (u32 \<times> 'd ksys) res" where
  "vfs_read T fd buf len s = on_file T op_read fd (\<lambda>file f g.
     bind_res (g (fvnode f) buf len (offset f) s) (\<lambda>(n, s). advance file n s)) s"

definition vfs_write :: "'d tables \<Rightarrow> u32 \<Rightarrow> u32 \<Rightarrow> u32 \<Rightarrow> 'd ksys \<Rightarrow> (u32 \<times> 'd ksys) res" where
  "vfs_write T fd buf len s = on_file T op_write fd (\<lambda>file f g.
     bind_res (g (fvnode f) buf len (offset f) s) (\<lambda>(n, s). advance file n s)) s"

definition vfs_readdir :: "'d tables \<Rightarrow> u32 \<Rightarrow> u32 \<Rightarrow> u32 \<Rightarrow> u32 \<Rightarrow> 'd ksys \<Rightarrow> (u32 \<times> 'd ksys) res" where
  "vfs_readdir T fd index name_out name_max s =
     bind_res (get_file fd s) (\<lambda>file.
     if file = 0 then Inr (-1, s)
     else bind_res (file_at file s) (\<lambda>f.
          bind_res (vnode_at (fvnode f) s) (\<lambda>v.
          if vflags v AND VFS_DIRECTORY = 0 then Inr (-1, s)
          else bind_res (the_op T op_readdir v) (\<lambda>op. case op of
              None \<Rightarrow> Inr (-1, s)
            | Some g \<Rightarrow> g (fvnode f) index name_out name_max s))))"

definition vfs_ioctl :: "'d tables \<Rightarrow> u32 \<Rightarrow> u32 \<Rightarrow> u32 \<Rightarrow> 'd ksys \<Rightarrow> (u32 \<times> 'd ksys) res" where
  "vfs_ioctl T fd request arg s = on_file T op_ioctl fd (\<lambda>file f g. g (fvnode f) request arg s) s"

section \<open>Descriptor tables\<close>

lemmas vfs_tables = active_fd_table_def set_active_fd_def alloc_fd_def get_file_def

lemma free_slot_None: "free_slot t i = None \<longleftrightarrow> 0 \<notin> set t"
  by (induction t arbitrary: i) auto

lemma free_slot_Some:
  "free_slot t i = Some j \<longleftrightarrow> i \<le> j \<and> j - i < length t \<and> t ! (j - i) = 0 \<and> 0 \<notin> set (take (j - i) t)"
proof (induction t arbitrary: i)
  case (Cons x t)
  show ?case
  proof (cases "x = 0")
    case True
    then show ?thesis by (cases "j = i") (auto simp: take_Cons' )
  next
    case False
    then show ?thesis using Cons.IH [of "Suc i"]
      by (cases "j = i") (auto simp: take_Cons' nth_Cons' Suc_le_eq diff_Suc split: nat.splits)
  qed
qed auto

lemma unat_small: "n < 2147483648 \<Longrightarrow> unat (of_nat n :: u32) = n"
  by (intro unat_of_nat_u32) simp

lemma neg_of_nat: "n < 2147483648 \<Longrightarrow> \<not> neg (of_nat n)"
  by (simp add: neg_def sint_small unat_small)

section \<open>Sequential reads\<close>

text \<open>A run of reads into buffers, and the writes it amounts to.\<close>

primrec vfs_reads :: "'d tables \<Rightarrow> u32 \<Rightarrow> (u32 \<times> u32) list \<Rightarrow> 'd ksys \<Rightarrow> 'd ksys res" where
  "vfs_reads T fd [] s = Inr s"
| "vfs_reads T fd (bl # bls) s = bind_res (vfs_read T fd (fst bl) (snd bl) s) (\<lambda>(n, s). vfs_reads T fd bls s)"

primrec chunks :: "'a list \<Rightarrow> nat list \<Rightarrow> 'a list list" where
  "chunks c [] = []"
| "chunks c (n # ns) = take n c # chunks (drop n c) ns"

primrec k_writes :: "(u8 list \<times> u32) list \<Rightarrow> 'd ksys \<Rightarrow> 'd ksys res" where
  "k_writes [] s = Inr s"
| "k_writes (x # xs) s = bind_res (k_write (fst x) (snd x) s) (k_writes xs)"

lemma concat_chunks: "concat (chunks c ns) = take (sum_list ns) c"
  by (induction ns arbitrary: c) (simp_all add: take_add)

lemma length_chunks [simp]: "length (chunks c ns) = length ns"
  by (induction ns arbitrary: c) simp_all

lemma k_write_Nil [simp]: "k_write [] v s = Inr s"
  by (simp add: k_write_def with_vm_def)

lemma k_write_fields:
  "k_write xs v s = Inr s' \<Longrightarrow> \<exists>m. s' = s\<lparr>heap := (heap s)\<lparr>vmem := m\<rparr>\<rparr>"
  by (auto simp: k_write_def with_vm_def)

lemma get_file_heap [simp]: "get_file fd (s\<lparr>heap := h\<rparr>) = get_file fd s"
  by (simp add: get_file_def active_fd_table_def process_at_def)

lemma get_file_put_file [simp]: "get_file fd (put_file p f s) = get_file fd s"
  by (simp add: get_file_def active_fd_table_def process_at_def put_file_def)

lemma put_file_same: "files s p = Some f \<Longrightarrow> put_file p f s = s"
  by (simp add: put_file_def map_upd_triv)

lemma put_file_put_file [simp]: "put_file p f (put_file p g s) = put_file p f s"
  by (simp add: put_file_def)

lemma k_write_put_file:
  "k_write xs v (put_file p f s) = bind_res (k_write xs v s) (\<lambda>s. Inr (put_file p f s))"
  by (cases "vwrite xs v (vmem (heap s))") (simp_all add: k_write_def with_vm_def put_file_def)

lemma k_writes_put_file:
  "k_writes xs (put_file p f s) = bind_res (k_writes xs s) (\<lambda>s. Inr (put_file p f s))"
proof (induction xs arbitrary: s)
  case (Cons x xs)
  then show ?case by (cases "k_write (fst x) (snd x) s") (simp_all add: k_write_put_file)
qed simp

text \<open>What a file system promises for reading a regular file.\<close>

locale file_source =
  fixes read :: "u32 \<Rightarrow> u32 \<Rightarrow> u32 \<Rightarrow> u32 \<Rightarrow> 'd ksys \<Rightarrow> (u32 \<times> 'd ksys) res"
    and contents :: "u32 \<Rightarrow> 'd ksys \<Rightarrow> u8 list option"
  assumes read_contents: "contents node s = Some c \<Longrightarrow> read node buf len off s =
      (let b = take (unat len) (drop (unat off) c)
       in bind_res (k_write b buf s) (\<lambda>s. Inr (of_nat (length b), s)))"
    and contents_bound: "contents node s = Some c \<Longrightarrow> length c < 2147483648"
    and contents_heap: "contents node (s\<lparr>heap := h\<rparr>) = contents node s"
    and contents_file: "contents node (put_file p f s) = contents node s"
begin

definition open_on :: "'d tables \<Rightarrow> u32 \<Rightarrow> u32 \<Rightarrow> file_t \<Rightarrow> u8 list \<Rightarrow> 'd ksys \<Rightarrow> bool" where
  "open_on T fd file f c s \<longleftrightarrow> get_file fd s = Inr file \<and> file \<noteq> 0 \<and> files s file = Some f
     \<and> (\<exists>v. vnodes s (fvnode f) = Some v \<and> the_op T op_read v = Inr (Some read))
     \<and> contents (fvnode f) s = Some c"

lemma open_on_heap: "open_on T fd file f c (s\<lparr>heap := h\<rparr>) = open_on T fd file f c s"
  by (simp add: open_on_def contents_heap)

lemma open_on_file:
  "open_on T fd file f c s \<Longrightarrow> fvnode g = fvnode f \<Longrightarrow> open_on T fd file g c (put_file file g s)"
  by (simp add: open_on_def contents_file) (simp add: put_file_def)

lemma read_step:
  assumes "open_on T fd file f c s" "unat (offset f) \<le> length c" and b_def: "b = take (unat len) (drop (unat (offset f)) c)"
  shows "vfs_read T fd buf len s = bind_res (k_write b buf s)
    (\<lambda>s. Inr (of_nat (length b), put_file file (f\<lparr>offset := offset f + of_nat (length b)\<rparr>) s))"
proof (cases "k_write b buf s")
  case (Inl e)
  then show ?thesis using assms
    by (auto simp: open_on_def vfs_read_def on_file_def file_at_def vnode_at_def read_contents Let_def)
next
  case (Inr s')
  obtain m where s': "s' = s\<lparr>heap := (heap s)\<lparr>vmem := m\<rparr>\<rparr>" using k_write_fields [OF Inr] ..
  have "length c < 2147483648" using contents_bound assms by (auto simp: open_on_def)
  then have "length b < 2147483648" by (simp add: b_def)
  then have "sint (of_nat (length b) :: u32) = int (length b)" by (simp add: sint_small unat_small)
  moreover have "b = [] \<or> sint (of_nat (length b) :: u32) > 0" using calculation by auto
  ultimately show ?thesis using assms(1) Inr s'
    by (auto simp: open_on_def vfs_read_def on_file_def file_at_def vnode_at_def read_contents Let_def
        advance_def put_file_same simp flip: b_def)
qed

lemma reads_sequential:
  "open_on T fd file f c s \<Longrightarrow> unat (offset f) \<le> length c \<Longrightarrow>
    vfs_reads T fd bls s = bind_res
      (k_writes (zip (chunks (drop (unat (offset f)) c) (map (\<lambda>bl. unat (snd bl)) bls)) (map fst bls)) s)
      (\<lambda>s. Inr (put_file file
         (f\<lparr>offset := offset f + of_nat (min (length c - unat (offset f)) (\<Sum>bl\<leftarrow>bls. unat (snd bl)))\<rparr>) s))"
proof (induction bls arbitrary: s f)
  case Nil
  then show ?case by (simp add: open_on_def put_file_same)
next
  case (Cons bl bls)
  let ?o = "unat (offset f)" and ?n = "unat (snd bl)"
  define b where "b = take ?n (drop ?o c)"
  define g where "g = f\<lparr>offset := offset f + of_nat (length b)\<rparr>"
  have len: "length c < 2147483648" using contents_bound Cons.prems(1) by (auto simp: open_on_def)
  have lb: "length b = min ?n (length c - ?o)" by (simp add: b_def min.commute)
  have og: "unat (offset g) = ?o + length b"
    using len Cons.prems(2) lb by (simp add: g_def unat_add_u32 unat_small)
  show ?case
  proof (cases "k_write b (fst bl) s")
    case (Inl e)
    then show ?thesis using read_step [OF Cons.prems b_def, where buf = "fst bl"]
      by (simp add: b_def [symmetric])
  next
    case (Inr s1)
    obtain m where s1: "s1 = s\<lparr>heap := (heap s)\<lparr>vmem := m\<rparr>\<rparr>" using k_write_fields [OF Inr] ..
    have r: "vfs_read T fd (fst bl) (snd bl) s = Inr (of_nat (length b), put_file file g s1)"
      using read_step [OF Cons.prems b_def, where buf = "fst bl"] Inr by (simp add: g_def)
    have oo: "open_on T fd file g c (put_file file g s1)"
      using open_on_file Cons.prems(1) by (simp add: s1 open_on_heap g_def)
    have d: "drop (unat (offset g)) c = drop ?n (drop ?o c)"
      using lb by (simp add: og add.commute min_def)
    have "min (length c - ?o) (?n + x) = length b + min (length c - unat (offset g)) x" for x
      using lb Cons.prems(2) og by linarith
    then show ?thesis using Cons.IH [OF oo] og lb Cons.prems(2) d Inr r
      by (cases "k_writes (zip (chunks (drop (unat (offset g)) c) (map (\<lambda>bl. unat (snd bl)) bls)) (map fst bls)) s1")
        (simp_all add: k_writes_put_file b_def [symmetric] g_def add.assoc)
  qed
qed

end

section \<open>The mount a path belongs to\<close>

lemma strncmp_prefix:
  "0 \<notin> set m \<Longrightarrow> 0 \<notin> set p \<Longrightarrow> strncmp_l (length m) m p = 0 \<longleftrightarrow> prefix m p"
  by (auto simp: strncmp_l_0 prefix_def) (metis append_take_drop_id)

definition best_ok :: "u8 list \<Rightarrow> fs_mount list \<Rightarrow> nat option \<times> nat \<Rightarrow> bool" where
  "best_ok path ms b \<longleftrightarrow> (\<forall>m \<in> set ms. prefix (mpath m) path \<longrightarrow> length (mpath m) \<le> snd b)
     \<and> (case fst b of None \<Rightarrow> snd b = 0
        | Some j \<Rightarrow> j < length ms \<and> snd b = length (mpath (ms ! j)) \<and> prefix (mpath (ms ! j)) path)"

lemma best_ok_step:
  "best_ok path ms b \<Longrightarrow> best_ok path (ms @ [m])
     (if prefix (mpath m) path \<and> length (mpath m) > snd b then (Some (length ms), length (mpath m)) else b)"
  by (auto simp: best_ok_def nth_append split: option.splits)

lemma best_mount_ok:
  assumes "\<forall>m \<in> set ms. 0 \<notin> set (mpath m)" "0 \<notin> set path" "best_ok path pre b"
  shows "best_ok path (pre @ ms) (best_mount path ms (length pre) b)"
  using assms
proof (induction ms arbitrary: pre b)
  case (Cons m ms)
  let ?b = "if prefix (mpath m) path \<and> length (mpath m) > snd b then (Some (length pre), length (mpath m)) else b"
  have "best_ok path (pre @ [m]) ?b" using best_ok_step Cons.prems(3) .
  from Cons.IH [OF _ Cons.prems(2) this] Cons.prems(1,2) show ?case by (simp add: strncmp_prefix Let_def)
qed simp

lemma find_mount_spec:
  assumes "\<forall>m \<in> set (mount_table s). 0 \<notin> set (mpath m)" "0 \<notin> set path"
  shows "case find_mount path s of
      None \<Rightarrow> \<forall>m \<in> set (mount_table s). prefix (mpath m) path \<longrightarrow> mpath m = []
    | Some m \<Rightarrow> m \<in> set (mount_table s) \<and> prefix (mpath m) path
        \<and> (\<forall>m' \<in> set (mount_table s). prefix (mpath m') path \<longrightarrow> length (mpath m') \<le> length (mpath m))"
proof -
  let ?b = "best_mount path (mount_table s) 0 (None, 0)"
  have "best_ok path [] (None, 0)" by (simp add: best_ok_def)
  from best_mount_ok [OF assms this] have "best_ok path (mount_table s) ?b" by simp
  then show ?thesis by (cases "fst ?b") (auto simp: best_ok_def find_mount_def)
qed

section \<open>Opening and closing\<close>

lemma set_active_fd_spec:
  assumes "active_fd_table s = Inr t"
  shows "\<exists>s'. set_active_fd i f s = Inr s' \<and> active_fd_table s' = Inr (t[i := f]) \<and> heap s' = heap s
    \<and> files s' = files s \<and> vnodes s' = vnodes s \<and> mount_table s' = mount_table s
    \<and> curr_process s' = curr_process s"
proof (cases "curr_process s = 0")
  case False
  then obtain p where "processes s (curr_process s) = Some p" "fds p = t"
    using assms by (auto simp: active_fd_table_def process_at_def split: option.splits)
  with False show ?thesis by (simp add: active_fd_table_def set_active_fd_def process_at_def put_process_def)
qed (use assms in \<open>simp add: active_fd_table_def set_active_fd_def\<close>)

lemma active_fd_table_put [simp]:
  "active_fd_table (put_file p f s) = active_fd_table s" "active_fd_table (s\<lparr>heap := h\<rparr>) = active_fd_table s"
  by (simp_all add: active_fd_table_def process_at_def put_file_def)

lemma put_file_fields [simp]:
  "heap (put_file p f s) = heap s" "files (put_file p f s) = (files s)(p \<mapsto> f)"
  "curr_process (put_file p f s) = curr_process s" "vnodes (put_file p f s) = vnodes s"
  by (simp_all add: put_file_def)

lemma alloc_fd_spec:
  assumes "active_fd_table s = Inr t" "length t \<le> MAX_FDS"
  shows "0 \<notin> set t \<and> alloc_fd fp s = Inr (-1, s) \<or>
    (\<exists>i s'. i < length t \<and> t ! i = 0 \<and> 0 \<notin> set (take i t) \<and> alloc_fd fp s = Inr (of_nat i, s')
      \<and> \<not> neg (of_nat i) \<and> active_fd_table s' = Inr (t[i := fp]) \<and> heap s' = heap s
      \<and> files s' = files s \<and> vnodes s' = vnodes s \<and> curr_process s' = curr_process s)"
proof (cases "free_slot t 0")
  case None
  then have "0 \<notin> set t" by (simp add: free_slot_None)
  with None show ?thesis using assms(1) by (simp add: alloc_fd_def)
next
  case (Some i)
  then have i: "i < length t" "t ! i = 0" "0 \<notin> set (take i t)" using free_slot_Some [of t 0 i] by auto
  obtain s' where "set_active_fd i fp s = Inr s'" "active_fd_table s' = Inr (t[i := fp])" "heap s' = heap s"
    "files s' = files s" "vnodes s' = vnodes s" "curr_process s' = curr_process s"
    using set_active_fd_spec [OF assms(1)] by metis
  moreover have "\<not> neg (of_nat i)" using i(1) assms(2) by (intro neg_of_nat) (simp add: MAX_FDS_def)
  ultimately show ?thesis using Some i assms(1) by (auto simp: alloc_fd_def)
qed

lemma neg_minus_one [simp]: "neg (-1)" "neg 0xffffffff"
  by (simp_all add: neg_def)

lemma vfs_open_spec:
  assumes res: "vfs_resolve T path s = Inr (node, s1)" "node \<noteq> 0" "vnodes s1 node = Some v"
      "the_op T op_open v = Inr None"
    and t: "active_fd_table s1 = Inr t" "length t \<le> MAX_FDS"
    and m: "heap_wf (heap s1)" "k_malloc sizeof_file s1 = Inr (fp, s2)"
  shows "0 \<notin> set t \<and> (\<exists>s'. vfs_open T path flags s = Inr (-1, s') \<and> active_fd_table s' = Inr t
        \<and> heap_wf (heap s') \<and> live (heap s') = live (heap s1))
    \<or> (\<exists>i s'. i < length t \<and> t ! i = 0 \<and> 0 \<notin> set (take i t) \<and> vfs_open T path flags s = Inr (of_nat i, s')
        \<and> active_fd_table s' = Inr (t[i := fp]) \<and> fp \<noteq> 0
        \<and> files s' fp = Some \<lparr>fvnode = node, offset = 0, fflags = flags, ref_count = 1\<rparr>
        \<and> fp \<notin> fst ` live (heap s1) \<and> live (heap s') = insert (fp, sizeof_file) (live (heap s1))
        \<and> heap_wf (heap s') \<and> vnodes s' = vnodes s1 \<and> curr_process s' = curr_process s1)"
proof -
  note M = k_malloc_Inr [OF m]
  define s3 where "s3 = put_file fp \<lparr>fvnode = node, offset = 0, fflags = flags, ref_count = 1\<rparr> s2"
  have s2: "s2 = s1\<lparr>heap := heap s2\<rparr>" using M by simp
  have v2: "vnodes s2 = vnodes s1" by (subst s2) simp
  have c2: "curr_process s2 = curr_process s1" by (subst s2) simp
  have t3: "active_fd_table s3 = Inr t" using t(1) s2 unfolding s3_def active_fd_table_put by (metis active_fd_table_put(2))
  have op: "vfs_open T path flags s = bind_res (alloc_fd fp s3) (\<lambda>(fd, s).
      if neg fd then bind_res (k_free fp s) (\<lambda>s. Inr (-1, s)) else Inr (fd, s))"
    using res m M by (simp add: vfs_open_def vnode_at_def s3_def neg_def)
  from alloc_fd_spec [OF t3 t(2), of fp] show ?thesis
  proof (elim disjE exE conjE)
    assume a: "0 \<notin> set t" "alloc_fd fp s3 = Inr (-1, s3)"
    have l: "(fp, sizeof_file) \<in> live (heap s3)" "heap_wf (heap s3)" "live (heap s3) - {(fp, sizeof_file)} = live (heap s1)"
      using M by (auto simp: s3_def image_iff)
    obtain h where "kfree fp (heap s3) = Inr h" "heap_wf h" "live h = live (heap s1)"
      using heap.free_live [OF l(2,1)] l(3) by auto
    then show ?thesis using a t3 by (simp add: op k_free_def)
  next
    fix i s'
    assume "i < length t" "t ! i = 0" "0 \<notin> set (take i t)" "alloc_fd fp s3 = Inr (of_nat i, s')"
      "\<not> neg (of_nat i)" "active_fd_table s' = Inr (t[i := fp])" "heap s' = heap s3" "files s' = files s3"
      "vnodes s' = vnodes s3" "curr_process s' = curr_process s3"
    then show ?thesis using M v2 c2
      by (intro disjI2 exI [of _ i] exI [of _ s']) (simp add: op s3_def)
  qed
qed

lemma vfs_close_spec:
  assumes "get_file fd s = Inr fp" "fp \<noteq> 0" "files s fp = Some f" "ref_count f = 1"
    and "vnodes s (fvnode f) = Some v" "the_op T op_close v = Inr None"
    and "heap_wf (heap s)" "(fp, sizeof_file) \<in> live (heap s)"
  shows "\<exists>s'. vfs_close T fd s = Inr (0, s') \<and> kernel_fd_table s' = (kernel_fd_table s)[unat fd := 0]
    \<and> processes s' = processes s \<and> curr_process s' = curr_process s
    \<and> heap_wf (heap s') \<and> live (heap s') = live (heap s) - {(fp, sizeof_file)}"
proof -
  obtain h where "kfree fp (heap s) = Inr h" "heap_wf h" "live h = live (heap s) - {(fp, sizeof_file)}"
    using heap.free_live [OF assms(7,8)] by auto
  then show ?thesis using assms
    by (simp add: vfs_close_def file_at_def vnode_at_def k_free_def Let_def) (simp add: put_file_def)
qed

section \<open>Properties\<close>

text \<open>A machine with one directory, mounted at \<open>/\<close>, and one process.\<close>

definition root_dir :: vnode where
  "root_dir = \<lparr>inode = 0, vflags = VFS_DIRECTORY, vuid = 0, vgid = 0, vsize = 0, permissions = 0, ops = 0,
     vmount = 0, mounted_here = 0, private_data = 0\<rparr>"

definition no_ptrs :: "'d tables" where
  "no_ptrs = \<lparr>vops = (\<lambda>_. None), drivers = (\<lambda>_. None), mount_table_addr = 0\<rparr>"

definition vfs_sys :: "'d \<Rightarrow> u32 \<Rightarrow> 'd ksys" where
  "vfs_sys d cp = \<lparr>heap = small_heap, gdts = empty_gdt, kernel_pd_phys = 0x1000,
     threads = (\<lambda>_. None),
     processes = (\<lambda>_. None)(0x200 \<mapsto> \<lparr>pid = 1, page_dir = 0, entry = 0, pthread = 0, pstate = PROCESS_RUNNING,
       parent = 0, pnext = 0, exit_code = 0, fds = replicate MAX_FDS 0, heap_start = 0, heap_end = 0\<rparr>),
     vnodes = (\<lambda>_. None)(0x100 \<mapsto> root_dir), files = (\<lambda>_. None), idle_thread = 0,
     curr_thread = 0, schedule_pending = False, thread_list_head = 0, curr_process = cp,
     process_list = 0, next_pid = 1,
     mount_table = [\<lparr>mpath = [slash], driver = 0, root = 0x100, mprivate = 0\<rparr>],
     kernel_fd_table = replicate MAX_FDS 0, dev = d\<rparr>"

lemma vfs_sys_resolve: "vfs_resolve T [slash] (vfs_sys d cp) = Inr (0x100, vfs_sys d cp)"
  by (simp add: vfs_resolve_def find_mount_def vfs_sys_def resolve_loop.simps vnode_at_def root_dir_def
      VFS_DIRECTORY_def VFS_MOUNTPT_def)

lemma vfs_sys_facts:
  "vnodes (vfs_sys d cp) 0x100 = Some root_dir" "the_op T (sel :: 'd vnode_ops \<Rightarrow> 'f option) root_dir = Inr None"
  "cp = 0 \<or> cp = 0x200 \<Longrightarrow> active_fd_table (vfs_sys d cp) = Inr (replicate MAX_FDS 0)"
  "heap_wf (heap (vfs_sys d cp))" "length (replicate MAX_FDS (0::u32)) \<le> MAX_FDS" "0 \<in> set (replicate MAX_FDS (0::u32))"
  "curr_process (vfs_sys d cp) = cp"
  using small_heap_ok
  by (auto simp: vfs_sys_def root_dir_def the_op_def active_fd_table_def process_at_def heap_wf_def MAX_FDS_def)

lemma vfs_sys_malloc: "\<exists>s2. k_malloc sizeof_file (vfs_sys d cp) = Inr (0xd0000014, s2)"
proof -
  obtain h' where "kmalloc sizeof_file small_heap = Some (Inr (0xd0000000 + HDR, h'))"
    using kmalloc_fit [of small_heap "[]" "0xd0000000" 236 "[]" sizeof_file] small_heap_ok
    by (auto simp: sizeof_file_def)
  then show ?thesis by (simp add: k_malloc_def vfs_sys_def HDR_def)
qed

text \<open>C13: \<open>vfs_open\<close> of a path that resolves to a vnode without an \<open>open\<close> operation stores a fresh
  file record with offset 0 under the lowest free descriptor of the active table (of the process, or
  the kernel's) and returns that descriptor; with a full table it returns \<open>-1\<close> and gives the record
  back to the heap.\<close>

theorem vfs_open_lowest_fd:
  assumes "vfs_resolve T path s = Inr (node, s1)" "node \<noteq> 0" "vnodes s1 node = Some v"
    and "the_op T op_open v = Inr None"
    and "active_fd_table s1 = Inr t" "length t \<le> MAX_FDS"
    and "heap_wf (heap s1)" "k_malloc sizeof_file s1 = Inr (fp, s2)"
  shows "0 \<notin> set t \<and> (\<exists>s'. vfs_open T path flags s = Inr (-1, s') \<and> active_fd_table s' = Inr t
        \<and> heap_wf (heap s') \<and> live (heap s') = live (heap s1))
    \<or> (\<exists>i s'. i < length t \<and> t ! i = 0 \<and> 0 \<notin> set (take i t) \<and> vfs_open T path flags s = Inr (of_nat i, s')
        \<and> active_fd_table s' = Inr (t[i := fp]) \<and> fp \<noteq> 0
        \<and> files s' fp = Some \<lparr>fvnode = node, offset = 0, fflags = flags, ref_count = 1\<rparr>
        \<and> fp \<notin> fst ` live (heap s1) \<and> live (heap s') = insert (fp, sizeof_file) (live (heap s1))
        \<and> heap_wf (heap s') \<and> vnodes s' = vnodes s1 \<and> curr_process s' = curr_process s1)"
  using assms by (rule vfs_open_spec)

lemma vfs_open_lowest_fd_witness:
  "\<exists>s'. vfs_open no_ptrs [slash] 0 (vfs_sys () 0x200) = Inr (0, s') \<and> files s' 0xd0000014 =
     Some \<lparr>fvnode = 0x100, offset = 0, fflags = 0, ref_count = 1\<rparr>"
proof -
  obtain s2 where m: "k_malloc sizeof_file (vfs_sys () 0x200) = Inr (0xd0000014, s2)" using vfs_sys_malloc [of "()" "0x200"] ..
  have "i = 0" if "i < MAX_FDS" "0 \<notin> set (take i (replicate MAX_FDS (0::u32)))" for i
    using that by (cases i) (auto simp: min_def)
  with vfs_open_lowest_fd [OF vfs_sys_resolve _ vfs_sys_facts(1,2) vfs_sys_facts(3) vfs_sys_facts(5,4) m, of no_ptrs 0]
  show ?thesis by (auto simp: MAX_FDS_def)
qed

text \<open>C14: what \<open>vfs_close\<close> does to a descriptor that \<open>vfs_open\<close> has just returned. In the kernel the
  descriptor table and the live heap blocks are as before the open. In a process the file record is
  freed as well, but its address stays in the table of the process: the next call on the descriptor
  uses freed memory.\<close>

theorem vfs_open_then_close:
  assumes "vfs_resolve T path s = Inr (node, s1)" "node \<noteq> 0" "vnodes s1 node = Some v"
    and "the_op T op_open v = Inr None" "the_op T op_close v = Inr None"
    and "active_fd_table s1 = Inr t" "length t \<le> MAX_FDS" "0 \<in> set t"
    and "heap_wf (heap s1)" "k_malloc sizeof_file s1 = Inr (fp, s2)"
  shows "\<exists>fd s' s''. vfs_open T path flags s = Inr (fd, s') \<and> get_file fd s' = Inr fp
    \<and> vfs_close T fd s' = Inr (0, s'') \<and> live (heap s'') = live (heap s1) \<and> heap_wf (heap s'')
    \<and> fp \<notin> fst ` live (heap s'')
    \<and> (if curr_process s1 = 0 then active_fd_table s'' = active_fd_table s1 else get_file fd s'' = Inr fp)"
proof -
  from vfs_open_spec [OF assms(1-4,6,7,9,10)] assms(8) obtain i s' where
    i: "i < length t" "t ! i = 0" "vfs_open T path flags s = Inr (of_nat i, s')"
    and s': "active_fd_table s' = Inr (t[i := fp])" "fp \<noteq> 0"
      "files s' fp = Some \<lparr>fvnode = node, offset = 0, fflags = flags, ref_count = 1\<rparr>"
      "fp \<notin> fst ` live (heap s1)" "live (heap s') = insert (fp, sizeof_file) (live (heap s1))"
      "heap_wf (heap s')" "vnodes s' = vnodes s1" "curr_process s' = curr_process s1" by blast
  have small: "i < 256" using i(1) assms(7) by (simp add: MAX_FDS_def)
  then have g: "\<not> neg (of_nat i)" "sint (of_nat i :: u32) = int i" "unat (of_nat i :: u32) = i"
    by (simp_all add: neg_of_nat sint_small unat_small)
  have gf: "get_file (of_nat i) s' = Inr fp" using s'(1) i(1) small g by (simp add: get_file_def MAX_FDS_def)
  obtain s'' where c: "vfs_close T (of_nat i) s' = Inr (0, s'')"
    "kernel_fd_table s'' = (kernel_fd_table s')[i := 0]" "processes s'' = processes s'"
    "curr_process s'' = curr_process s'" "heap_wf (heap s'')"
    "live (heap s'') = live (heap s') - {(fp, sizeof_file)}"
    using vfs_close_spec [OF gf s'(2,3), where v = v and T = T] assms(3,5) s' g by auto
  have live: "live (heap s'') = live (heap s1)" using c(6) s'(4,5) by (auto simp: image_iff)
  have "active_fd_table s'' = (if curr_process s1 = 0 then Inr (t[i := 0]) else active_fd_table s')"
    using c(2-4) s'(1,8) by (auto simp: active_fd_table_def process_at_def)
  moreover have "t[i := 0] = t" using i(2) by (metis list_update_id)
  ultimately show ?thesis using i(3) gf c live s' assms(6) small g i(1)
    by (intro exI [of _ "of_nat i"] exI [of _ s'] exI [of _ s'']) (simp add: get_file_def MAX_FDS_def)
qed

lemma vfs_open_then_close_witness:
  "\<exists>fd s' s''. vfs_open no_ptrs [slash] 0 (vfs_sys () 0x200) = Inr (fd, s') \<and> vfs_close no_ptrs fd s' = Inr (0, s'')
     \<and> get_file fd s'' = Inr 0xd0000014 \<and> 0xd0000014 \<notin> fst ` live (heap s'')"
proof -
  obtain s2 where m: "k_malloc sizeof_file (vfs_sys () 0x200) = Inr (0xd0000014, s2)" using vfs_sys_malloc [of "()" "0x200"] ..
  from vfs_open_then_close [OF vfs_sys_resolve _ vfs_sys_facts(1,2,2) vfs_sys_facts(3) vfs_sys_facts(5,6,4) m,
      of no_ptrs 0]
  show ?thesis by (auto simp: vfs_sys_facts(7))
qed

text \<open>C15: \<open>find_mount\<close> chooses a mount whose path is a prefix of the path and no shorter than any
  other such mount, and finds none only when every such prefix is empty. Where the prefix ends in the
  path is not looked at.\<close>

theorem find_mount_longest_prefix:
  assumes "\<forall>m \<in> set (mount_table s). 0 \<notin> set (mpath m)" "0 \<notin> set path"
  shows "case find_mount path s of
      None \<Rightarrow> \<forall>m \<in> set (mount_table s). prefix (mpath m) path \<longrightarrow> mpath m = []
    | Some m \<Rightarrow> m \<in> set (mount_table s) \<and> prefix (mpath m) path
        \<and> (\<forall>m' \<in> set (mount_table s). prefix (mpath m') path \<longrightarrow> length (mpath m') \<le> length (mpath m))"
  using assms by (rule find_mount_spec)

lemma find_mount_longest_prefix_witness:
  "find_mount [slash, 0x61] (vfs_sys () 0) = Some \<lparr>mpath = [slash], driver = 0, root = 0x100, mprivate = 0\<rparr>"
proof -
  have "find_mount [slash, 0x61] (vfs_sys () 0) \<noteq> None"
    using find_mount_longest_prefix [of "vfs_sys () 0" "[slash, 0x61]"]
    by (auto simp: vfs_sys_def slash_def split: option.splits)
  then show ?thesis using find_mount_longest_prefix [of "vfs_sys () 0" "[slash, 0x61]"]
    by (auto simp: vfs_sys_def slash_def split: option.splits)
qed

end
