(* ===== verification/Initrd.thy ===== *)
theory Initrd
  imports Vfs
begin

text \<open>
  The initial ramdisk, \<open>src/initrd/initrd.c\<close> and the file system on it,
  \<open>src/initrd/initrdfs.c\<close>: the module tag, the walk over the USTAR headers, and the operations
  of its directory and file vnodes.

  The archive is the byte list \<open>image\<close> at the address \<open>iaddr\<close>; pointers into it are 32-bit, and the
  walk is a \<open>partial_function\<close> because a size field can make the pointer wrap. An access outside
  the archive faults. The private data of a vnode is its path, in the store \<open>vdata\<close>.
\<close>

section \<open>State\<close>

record initrd_fs =
  iaddr :: u32
  phys_addr :: u32
  isize :: u32
  image :: "u8 list"
  vdata :: "u32 \<Rightarrow> u8 list option"

text \<open>The fields of \<open>ustar_header_t\<close> the code reads: offset and length.\<close>

definition hdr_name :: "u8 list \<Rightarrow> u8 list" where "hdr_name h = take 100 h"
definition hdr_size :: "u8 list \<Rightarrow> u8 list" where "hdr_size h = take 12 (drop 124 h)"
definition hdr_typeflag :: "u8 list \<Rightarrow> u8" where "hdr_typeflag h = h ! 156"
definition hdr_magic :: "u8 list \<Rightarrow> u8 list" where "hdr_magic h = take 6 (drop 257 h)"
definition hdr_prefix :: "u8 list \<Rightarrow> u8 list" where "hdr_prefix h = take 155 (drop 345 h)"

definition ustar :: "u8 list" where "ustar = [0x75, 0x73, 0x74, 0x61, 0x72]"

record initrd_file =
  fname :: u32
  fdata :: u32
  fsize :: u32
  ftypeflag :: u8

definition no_initrd_file :: initrd_file where
  "no_initrd_file = \<lparr>fname = 0, fdata = 0, fsize = 0, ftypeflag = 0\<rparr>"

fun oct2int :: "u8 list \<Rightarrow> u32 \<Rightarrow> u32" where
  "oct2int [] val = val"
| "oct2int (c # cs) val =
     (if c < 0x30 \<or> c > 0x37 then val
      else oct2int cs (push_bit 3 val OR (ucast c - 0x30)))"

section \<open>initrd.c\<close>

definition initrd_init :: "mem \<Rightarrow> u32 \<Rightarrow> initrd_fs \<Rightarrow> initrd_fs res option" where
  "initrd_init m mb2_info i =
     Option.bind (find_tag m 3 (mb2_info + 8)) (\<lambda>tag.
       if tag = 0 then Some (Inl (Panic ''initrd_init() -> no module tag found in multiboot2 info''))
       else Some (Inr (i\<lparr>phys_addr := load32 m (tag + 8),
                         isize := load32 m (tag + 12) - load32 m (tag + 8)\<rparr>)))"

definition initrd_remap :: "('d, initrd_fs) part \<Rightarrow> 'd ksys \<Rightarrow> 'd ksys res" where
  "initrd_remap L s =
     (let pages = (isize (dget L s) + PAGE_SIZE - 1) div PAGE_SIZE in
      bind_res (k_alloc_pages pages s) (\<lambda>(a, s).
      bind_res (k_read (unat (isize (dget L s))) (phys_addr (dget L s)) s) (\<lambda>bytes.
      bind_res (k_write bytes a s) (\<lambda>s.
        Inr (dput L ((dget L s)\<lparr>iaddr := a, image := bytes\<rparr>) s)))))"

text \<open>The header at \<open>ptr\<close>, 512 bytes.\<close>

definition header_at :: "initrd_fs \<Rightarrow> u32 \<Rightarrow> u8 list res" where
  "header_at i ptr = (let off = unat (ptr - iaddr i) in
     if off + 512 \<le> length (image i) then Inr (take 512 (drop off (image i)))
     else Inl (Fault ''read outside the initrd''))"

text \<open>\<open>fullpath\<close> has 256 bytes; a trailing slash is dropped.\<close>

definition strip_slash :: "u8 list \<Rightarrow> u8 list" where
  "strip_slash p = (if length p > 1 \<and> last p = slash then butlast p else p)"

definition fullpath :: "u8 list \<Rightarrow> u8 list res" where
  "fullpath h =
     (if hd (hdr_prefix h) \<noteq> 0
      then let pre = cstr_of (hdr_prefix h); nm = cstr_of (hdr_name h); path = pre @ slash # nm in
        if length path \<ge> 256 then Inl (Fault ''fullpath overflow'') else Inr (strip_slash path)
      else Inr (strip_slash (cstr_of (take 255 h))))"

text \<open>
  The walk that \<open>initrd_lookup\<close>, \<open>initrd_dir_finddir\<close> and \<open>initrd_dir_readdir\<close> each contain:
  \<open>visit\<close> looks at one entry and ends the walk with a value or goes on with a new counter.
\<close>

partial_function (option) tar_walk ::
  "initrd_fs \<Rightarrow> (u8 list \<Rightarrow> u8 list \<Rightarrow> u32 \<Rightarrow> 'a \<Rightarrow> 'r + 'a) \<Rightarrow> u32 \<Rightarrow> 'a \<Rightarrow> ('r option) res option" where
  "tar_walk i visit ptr acc =
     (if \<not> ptr + 512 \<le> iaddr i + isize i then Some (Inr None)
      else case header_at i ptr of
          Inl e \<Rightarrow> Some (Inl e)
        | Inr h \<Rightarrow>
            if hd (hdr_name h) = 0 \<or> take 5 (hdr_magic h) \<noteq> ustar then Some (Inr None)
            else case fullpath h of
                Inl e \<Rightarrow> Some (Inl e)
              | Inr path \<Rightarrow>
                  (case visit path h ptr acc of
                     Inl r \<Rightarrow> Some (Inr (Some r))
                   | Inr acc' \<Rightarrow> tar_walk i visit
                       (ptr + 512 + ((oct2int (hdr_size h) 0 + 511) AND NOT 511)) acc'))"

definition initrd_lookup :: "initrd_fs \<Rightarrow> u8 list \<Rightarrow> initrd_file res" where
  "initrd_lookup i filepath =
     bind_res (ret (tar_walk i (\<lambda>path h ptr _.
         if strcmp_l path filepath = 0
         then Inl \<lparr>fname = ptr, fdata = ptr + 512, fsize = oct2int (hdr_size h) 0, ftypeflag = hdr_typeflag h\<rparr>
         else Inr ()) (iaddr i) ()))
       (\<lambda>r. Inr (case r of None \<Rightarrow> no_initrd_file | Some f \<Rightarrow> f))"

section \<open>initrdfs.c\<close>

text \<open>The addresses of the two operation tables.\<close>

record initrd_syms =
  file_ops_addr :: u32
  dir_ops_addr :: u32

definition sizeof_vnode_data :: u32 where "sizeof_vnode_data = 256"
definition sizeof_stat :: nat where "sizeof_stat = 64"
definition S_IFREG :: u32 where "S_IFREG = 0x8000"
definition S_IFDIR :: u32 where "S_IFDIR = 0x4000"

definition vnode_path :: "('d, initrd_fs) part \<Rightarrow> u32 \<Rightarrow> 'd ksys \<Rightarrow> u8 list res" where
  "vnode_path L node s = bind_res (vnode_at node s) (\<lambda>v.
     case vdata (dget L s) (private_data v) of
       None \<Rightarrow> Inl (Fault ''no vnode data'')
     | Some p \<Rightarrow> Inr p)"

definition initrd_file_read ::
  "('d, initrd_fs) part \<Rightarrow> u32 \<Rightarrow> u32 \<Rightarrow> u32 \<Rightarrow> u32 \<Rightarrow> 'd ksys \<Rightarrow> (u32 \<times> 'd ksys) res" where
  "initrd_file_read L node buf len off s =
     bind_res (vnode_path L node s) (\<lambda>path.
     bind_res (initrd_lookup (dget L s) path) (\<lambda>f.
     if fdata f = 0 then Inr (-1, s)
     else if off \<ge> fsize f then Inr (0, s)
     else let available = fsize f - off;
              to_read = (if len < available then len else available);
              start = unat (fdata f + off - iaddr (dget L s))
          in if start + unat to_read \<le> length (image (dget L s))
             then bind_res (k_write (take (unat to_read) (drop start (image (dget L s)))) buf s)
                    (\<lambda>s. Inr (to_read, s))
             else Inl (Fault ''read outside the initrd'')))"

definition initrd_file_stat ::
  "('d, initrd_fs) part \<Rightarrow> u32 \<Rightarrow> u32 \<Rightarrow> 'd ksys \<Rightarrow> (u32 \<times> 'd ksys) res" where
  "initrd_file_stat L node st s =
     bind_res (vnode_path L node s) (\<lambda>path.
     bind_res (initrd_lookup (dget L s) path) (\<lambda>f.
     if fdata f = 0 then Inr (-1, s)
     else bind_res (vnode_at node s) (\<lambda>v.
          bind_res (k_write (replicate sizeof_stat 0) st s) (\<lambda>s.
          bind_res (k_write (word_bytes (fsize f)) (st + 28) s) (\<lambda>s.
          bind_res (k_write (word_bytes (if vflags v AND VFS_DIRECTORY \<noteq> 0 then S_IFDIR else S_IFREG)) (st + 8) s)
            (\<lambda>s. Inr (0, s)))))))"

definition initrd_vnode_create ::
  "('d, initrd_fs) part \<Rightarrow> initrd_syms \<Rightarrow> u8 list \<Rightarrow> u8 \<Rightarrow> 'd ksys \<Rightarrow> (u32 \<times> 'd ksys) res" where
  "initrd_vnode_create L A path typeflag s =
     bind_res (k_malloc sizeof_vnode s) (\<lambda>(node, s).
     if node = 0 then Inr (0, s)
     else bind_res (k_malloc sizeof_vnode_data s) (\<lambda>(priv, s).
       if priv = 0 then bind_res (k_free node s) (\<lambda>s. Inr (0, s))
       else let s = dput L ((dget L s)\<lparr>vdata := (vdata (dget L s))(priv \<mapsto> take 255 path)\<rparr>) s;
                v = \<lparr>inode = 0, vflags = 0, vuid = 0, vgid = 0, vsize = 0, permissions = 0, ops = 0,
                     vmount = 0, mounted_here = 0, private_data = priv\<rparr>
            in if typeflag = 0x35
               then Inr (node, put_vnode node (v\<lparr>vflags := VFS_DIRECTORY, ops := dir_ops_addr A\<rparr>) s)
               else bind_res (initrd_lookup (dget L s) path) (\<lambda>f.
                 Inr (node, put_vnode node (v\<lparr>vflags := VFS_FILE,
                        vsize := (if fdata f \<noteq> 0 then fsize f else 0), ops := file_ops_addr A\<rparr>) s))))"

definition child_path :: "u8 list \<Rightarrow> u8 list \<Rightarrow> u8 list" where
  "child_path dir name =
     (if dir = [] \<or> dir = [slash] then take 255 name else take 255 (dir @ slash # name))"

definition initrd_dir_finddir ::
  "('d, initrd_fs) part \<Rightarrow> initrd_syms \<Rightarrow> u32 \<Rightarrow> u8 list \<Rightarrow> 'd ksys \<Rightarrow> (u32 \<times> 'd ksys) res" where
  "initrd_dir_finddir L A node name s =
     bind_res (vnode_path L node s) (\<lambda>dir.
     let child = child_path dir name in
     bind_res (ret (tar_walk (dget L s) (\<lambda>path h ptr _.
         if strcmp_l path child = 0 then Inl (path, hdr_typeflag h) else Inr ()) (iaddr (dget L s)) ()))
       (\<lambda>r. case r of
           None \<Rightarrow> Inr (0, s)
         | Some (path, typeflag) \<Rightarrow> initrd_vnode_create L A path typeflag s))"

text \<open>The name of an entry below the directory \<open>dir\<close>, when it is directly in it.\<close>

definition entry_below :: "u8 list \<Rightarrow> u8 list \<Rightarrow> u8 list option" where
  "entry_below dir path =
     (let below = (if dir = [] then Some path
            else if strncmp_l (length dir) path dir = 0 \<and> length path > length dir \<and> path ! length dir = slash
                 then Some (drop (length dir + 1) path) else None)
      in case below of
           None \<Rightarrow> None
         | Some r \<Rightarrow> if r \<noteq> [] \<and> slash \<notin> set r then Some r else None)"

definition initrd_dir_readdir ::
  "('d, initrd_fs) part \<Rightarrow> u32 \<Rightarrow> u32 \<Rightarrow> u32 \<Rightarrow> u32 \<Rightarrow> 'd ksys \<Rightarrow> (u32 \<times> 'd ksys) res" where
  "initrd_dir_readdir L node index name_out name_max s =
     bind_res (vnode_path L node s) (\<lambda>dir.
     bind_res (ret (tar_walk (dget L s) (\<lambda>path h ptr found.
         case entry_below dir path of
           None \<Rightarrow> Inr found
         | Some r \<Rightarrow> if found = index then Inl r else Inr (found + 1)) (iaddr (dget L s)) 0))
       (\<lambda>r. case r of
           None \<Rightarrow> Inr (-1, s)
         | Some nm \<Rightarrow>
             bind_res (k_write (strncpy_l (unat (name_max - 1)) nm @ [0]) name_out s) (\<lambda>s. Inr (0, s))))"

definition initrd_file_ops :: "('d, initrd_fs) part \<Rightarrow> 'd vnode_ops" where
  "initrd_file_ops L = no_ops\<lparr>op_read := Some (initrd_file_read L), op_stat := Some (initrd_file_stat L)\<rparr>"

definition initrd_dir_ops :: "('d, initrd_fs) part \<Rightarrow> initrd_syms \<Rightarrow> 'd vnode_ops" where
  "initrd_dir_ops L A = no_ops\<lparr>op_finddir := Some (initrd_dir_finddir L A),
     op_readdir := Some (initrd_dir_readdir L)\<rparr>"

definition initrd_get_root ::
  "('d, initrd_fs) part \<Rightarrow> initrd_syms \<Rightarrow> nat \<Rightarrow> 'd ksys \<Rightarrow> (u32 \<times> 'd ksys) res" where
  "initrd_get_root L A mnt s = initrd_vnode_create L A [] 0x35 s"

definition initrd_driver :: "('d, initrd_fs) part \<Rightarrow> initrd_syms \<Rightarrow> 'd fs_driver" where
  "initrd_driver L A = \<lparr>dr_mount = (\<lambda>mnt device s. Inr (0, s)), dr_unmount = Some (\<lambda>mnt s. Inr (0, s)),
     dr_get_root = initrd_get_root L A\<rparr>"

section \<open>Archives\<close>

text \<open>
  What a tar writer produces, as the specification of the walk: an entry is its name as stored
  (directories with a trailing slash), its type flag and its contents; the archive ends in two
  zero blocks.
\<close>

type_synonym tar_entry = "u8 list \<times> u8 \<times> u8 list"

primrec oct_digits :: "nat \<Rightarrow> nat \<Rightarrow> u8 list" where
  "oct_digits 0 n = []"
| "oct_digits (Suc k) n = oct_digits k (n div 8) @ [0x30 + of_nat (n mod 8)]"

definition tar_header :: "tar_entry \<Rightarrow> u8 list" where
  "tar_header = (\<lambda>(nm, tf, data). nm @ replicate (100 - length nm) 0 @ replicate 24 0
     @ oct_digits 11 (length data) @ [0] @ replicate 20 0 @ [tf] @ replicate 100 0 @ ustar @ [0]
     @ replicate 249 0)"

definition tar_entry_bytes :: "tar_entry \<Rightarrow> u8 list" where
  "tar_entry_bytes e = (case e of (nm, tf, data) \<Rightarrow>
     tar_header e @ data @ replicate ((511 - (length data + 511) mod 512)) 0)"

definition tar_archive :: "tar_entry list \<Rightarrow> u8 list" where
  "tar_archive es = concat (map tar_entry_bytes es) @ replicate 1024 0"

definition tar_path :: "tar_entry \<Rightarrow> u8 list" where
  "tar_path e = strip_slash (fst e)"

definition entry_ok :: "tar_entry \<Rightarrow> bool" where
  "entry_ok e \<longleftrightarrow> fst e \<noteq> [] \<and> length (fst e) \<le> 99 \<and> 0 \<notin> set (fst e) \<and> length (snd (snd e)) < 2 ^ 31"

definition holds_archive :: "initrd_fs \<Rightarrow> tar_entry list \<Rightarrow> bool" where
  "holds_archive i es \<longleftrightarrow> image i = tar_archive es \<and> (\<forall>e \<in> set es. entry_ok e)
     \<and> unat (isize i) = length (image i) \<and> unat (iaddr i) + length (image i) < 2 ^ 32 \<and> 0 < iaddr i"

named_theorems tar_simps \<open>fields of a header of the archive\<close>

lemma length_oct_digits [simp]: "length (oct_digits k n) = k"
  by (induction k arbitrary: n) auto

lemma length_header [simp]: "entry_ok e \<Longrightarrow> length (tar_header e) = 512"
  by (cases e) (auto simp: tar_header_def entry_ok_def ustar_def)

lemma push_or_digit:
  assumes d: "d < 8"
  shows "push_bit 3 v OR d = 8 * v + (d :: u32)"
proof -
  have "d mod 8 = d" using d by (intro unat_inj_u32) (simp add: unat_mod word_less_nat_alt)
  then have t: "take_bit 3 d = d" by (simp add: take_bit_eq_mod)
  have "push_bit 3 v AND take_bit 3 d = 0"
    by (rule bit_eqI) (auto simp: bit_simps)
  then have "push_bit 3 v AND d = 0" by (simp add: t)
  then have "push_bit 3 v + d = push_bit 3 v OR d" by (rule disjunctive_add_eq_or)
  then show ?thesis by (simp add: push_bit_eq_mult mult.commute)
qed

lemma clear_low_bits:
  "(a :: u32) AND NOT (mask k) = a div 2 ^ k * 2 ^ k"
proof -
  have "a AND NOT (mask k) = push_bit k (drop_bit k a)"
    by (rule bit_word_eqI) (auto simp: bit_simps)
  then show ?thesis by (simp add: push_bit_eq_mult drop_bit_eq_div)
qed

lemma round512:
  assumes "unat n + 511 < 2 ^ 32"
  shows "unat ((n + 511) AND NOT 511 :: u32) = (unat n + 511) div 512 * 512"
proof -
  have "(511 :: u32) = mask 9" by (simp add: mask_eq_exp_minus_1)
  then have "(n + 511) AND NOT 511 = (n + 511) div 512 * 512" using clear_low_bits [of "n + 511" 9] by simp
  moreover have "unat (n + 511) = unat n + 511" using assms by (simp add: unat_add_u32)
  moreover have "(unat n + 511) div 512 * 512 \<le> unat n + 511" by simp
  ultimately show ?thesis using assms by (simp add: unat_word_ariths unat_div)
qed

lemma oct_digit:
  assumes "x < 8"
  shows "oct2int ((0x30 + of_nat x) # cs) v = oct2int cs (8 * v + of_nat x)"
proof -
  have c: "unat (0x30 + of_nat x :: u8) = 48 + x"
    using assms by (simp add: unat_word_ariths unat_of_nat)
  then have r: "\<not> (0x30 + of_nat x :: u8) < 0x30" "\<not> (0x30 + of_nat x :: u8) > 0x37"
    using assms by (simp_all add: word_less_nat_alt)
  have "unat (ucast (0x30 + of_nat x :: u8) :: u32) = 48 + x" using c assms by (simp add: unsigned_ucast_eq take_bit_nat_eq_self)
  moreover have "unat (of_nat (48 + x) :: u32) = 48 + x" using assms by (intro unat_of_nat_u32) simp
  ultimately have "(ucast (0x30 + of_nat x :: u8) :: u32) = of_nat (48 + x)"
    by (intro unat_inj_u32) (simp only:)
  then have "(ucast (0x30 + of_nat x :: u8) :: u32) - 0x30 = of_nat x" by simp
  moreover have "(of_nat x :: u32) < 8" using assms by (simp add: word_less_nat_alt)
  ultimately show ?thesis using r by (simp add: push_or_digit)
qed

lemma oct_roundtrip:
  "n < 8 ^ k \<Longrightarrow> oct2int (oct_digits k n @ cs) v = oct2int cs (of_nat (8 ^ k) * v + of_nat n)"
proof (induction k arbitrary: n cs v)
  case (Suc k)
  have d: "n div 8 < 8 ^ k" using Suc.prems by simp
  have "oct2int (oct_digits (Suc k) n @ cs) v = oct2int ((0x30 + of_nat (n mod 8)) # cs) (of_nat (8 ^ k) * v + of_nat (n div 8))"
    using Suc.IH [OF d] by simp
  also have "\<dots> = oct2int cs (8 * (of_nat (8 ^ k) * v + of_nat (n div 8)) + of_nat (n mod 8))"
    by (rule oct_digit) simp
  also have "8 * (of_nat (8 ^ k) * v + of_nat (n div 8)) + of_nat (n mod 8)
      = of_nat (8 ^ Suc k) * v + (of_nat n :: u32)"
  proof -
    have "(of_nat n :: u32) = of_nat (8 * (n div 8) + n mod 8)" by (simp only: mult_div_mod_eq)
    also have "\<dots> = 8 * of_nat (n div 8) + of_nat (n mod 8)"
      by (simp only: of_nat_add of_nat_mult of_nat_numeral)
    finally show ?thesis by (simp add: algebra_simps)
  qed
  finally show ?case .
qed simp

lemma header_fields [tar_simps]:
  assumes "entry_ok (nm, tf, data)"
  shows "hdr_name (tar_header (nm, tf, data)) = nm @ replicate (100 - length nm) 0"
    and "hdr_size (tar_header (nm, tf, data)) = oct_digits 11 (length data) @ [0]"
    and "hdr_typeflag (tar_header (nm, tf, data)) = tf"
    and "take 5 (hdr_magic (tar_header (nm, tf, data))) = ustar"
    and "hd (hdr_prefix (tar_header (nm, tf, data))) = 0"
    and "cstr_of (take 255 (tar_header (nm, tf, data))) = nm"
proof -
  let ?od = "oct_digits 11 (length data)"
  define A :: "u8 list" where "A = nm @ replicate (100 - length nm) 0"
  have A: "length A = 100" using assms by (simp add: A_def entry_ok_def)
  have h: "tar_header (nm, tf, data) = A @ replicate 24 0 @ ?od @ [0] @ replicate 20 0 @ [tf]
      @ replicate 100 0 @ ustar @ [0] @ replicate 249 0"
    by (simp add: tar_header_def A_def)
  show "hdr_name (tar_header (nm, tf, data)) = nm @ replicate (100 - length nm) 0"
    by (simp add: h hdr_name_def A A_def [symmetric])
  show "hdr_size (tar_header (nm, tf, data)) = ?od @ [0]"
    by (simp add: h hdr_size_def A)
  show "hdr_typeflag (tar_header (nm, tf, data)) = tf"
    by (simp add: h hdr_typeflag_def nth_append A)
  show "take 5 (hdr_magic (tar_header (nm, tf, data))) = ustar"
    by (simp add: h hdr_magic_def A ustar_def)
  show "hd (hdr_prefix (tar_header (nm, tf, data))) = 0"
    by (simp add: h hdr_prefix_def A ustar_def hd_append)
  show "cstr_of (take 255 (tar_header (nm, tf, data))) = nm"
  proof -
    have n: "length nm \<le> 99" "0 \<notin> set nm" using assms by (simp_all add: entry_ok_def)
    then have "100 - length nm = Suc (99 - length nm)" by simp
    then have "replicate (100 - length nm) 0 = (0 :: u8) # replicate (99 - length nm) 0" by simp
    then have "\<exists>R. tar_header (nm, tf, data) = nm @ 0 # R" by (simp add: tar_header_def)
    then obtain R where R: "tar_header (nm, tf, data) = nm @ 0 # R" ..
    have "255 - length nm = Suc (254 - length nm)" using n(1) by simp
    then have "take 255 (tar_header (nm, tf, data)) = nm @ 0 # take (254 - length nm) R"
      using n(1) by (simp add: R)
    then show ?thesis using n(2) by (simp add: cstr_of_def takeWhile_append2 takeWhile_append)
  qed
qed

lemma fullpath_header [tar_simps]: "entry_ok e \<Longrightarrow> fullpath (tar_header e) = Inr (tar_path e)"
  by (cases e) (simp add: fullpath_def header_fields tar_path_def)

lemma header_not_end:
  assumes "entry_ok e"
  shows "hd (hdr_name (tar_header e)) \<noteq> 0" "take 5 (hdr_magic (tar_header e)) = ustar"
proof -
  obtain nm tf data where e: "e = (nm, tf, data)" by (cases e)
  have "nm \<noteq> []" "0 \<notin> set nm" using assms by (auto simp: entry_ok_def e)
  then show "hd (hdr_name (tar_header e)) \<noteq> 0" using assms by (cases nm) (auto simp: e header_fields)
  show "take 5 (hdr_magic (tar_header e)) = ustar" using assms by (simp add: e header_fields)
qed

lemma header_size:
  assumes "entry_ok e"
  shows "oct2int (hdr_size (tar_header e)) 0 = of_nat (length (snd (snd e)))"
proof -
  obtain nm tf data where e: "e = (nm, tf, data)" by (cases e)
  have "length data < 8 ^ 11" using assms by (simp add: entry_ok_def e)
  from oct_roundtrip [OF this, of "[0]" 0] show ?thesis using assms by (simp add: e header_fields)
qed

text \<open>The bytes an entry takes, and the walk over the list of entries.\<close>

definition entry_len :: "tar_entry \<Rightarrow> nat" where
  "entry_len e = 512 + (length (snd (snd e)) + 511) div 512 * 512"

lemma length_entry_bytes [simp]: "entry_ok e \<Longrightarrow> length (tar_entry_bytes e) = entry_len e"
proof -
  assume "entry_ok e"
  moreover have "n + (511 - (n + 511) mod 512) = (n + 511) div 512 * 512" for n :: nat
    using mult_div_mod_eq [of 512 "n + 511"] mod_less_divisor [of 512 "n + 511"] by linarith
  ultimately show ?thesis by (cases e) (simp add: tar_entry_bytes_def entry_len_def)
qed

primrec walk_list :: "(u8 list \<Rightarrow> u8 list \<Rightarrow> u32 \<Rightarrow> 'a \<Rightarrow> 'r + 'a) \<Rightarrow> u32 \<Rightarrow> tar_entry list \<Rightarrow> 'a \<Rightarrow> 'r option" where
  "walk_list visit ptr [] acc = None"
| "walk_list visit ptr (e # es) acc = (case visit (tar_path e) (tar_header e) ptr acc of
       Inl r \<Rightarrow> Some r
     | Inr acc' \<Rightarrow> walk_list visit (ptr + of_nat (entry_len e)) es acc')"

definition entries_bytes :: "tar_entry list \<Rightarrow> u8 list" where
  "entries_bytes es = concat (map tar_entry_bytes es)"

lemma entries_bytes_simps [simp]:
  "entries_bytes [] = []" "entries_bytes (e # es) = tar_entry_bytes e @ entries_bytes es"
  "entries_bytes (xs @ ys) = entries_bytes xs @ entries_bytes ys"
  by (simp_all add: entries_bytes_def)

lemma next_entry:
  assumes "entry_ok e"
  shows "ptr + 512 + ((oct2int (hdr_size (tar_header e)) 0 + 511) AND NOT 511) = ptr + of_nat (entry_len e)"
proof -
  let ?n = "length (snd (snd e))"
  have b: "?n < 2 ^ 31" using assms by (simp add: entry_ok_def)
  then have u: "unat (of_nat ?n :: u32) = ?n" by (intro unat_of_nat_u32) simp
  have "unat ((of_nat ?n + 511) AND NOT 511 :: u32) = (?n + 511) div 512 * 512"
    using round512 [of "of_nat ?n"] b by (simp add: u)
  then have "(of_nat ?n + 511) AND NOT 511 = (of_nat ((?n + 511) div 512 * 512) :: u32)"
    by (metis of_nat_unat ucast_id)
  then show ?thesis by (simp add: header_size [OF assms] entry_len_def)
qed

lemma at_offset:
  assumes "holds_archive i (pre @ es)"
  shows "unat (iaddr i + of_nat (length (entries_bytes pre)) - iaddr i) = length (entries_bytes pre)"
    and "drop (length (entries_bytes pre)) (image i) = entries_bytes es @ replicate 1024 0"
    and "unat (iaddr i + of_nat (length (entries_bytes pre))) = unat (iaddr i) + length (entries_bytes pre)"
    and "unat (iaddr i + isize i) = unat (iaddr i) + length (image i)"
    and "length (image i) = length (entries_bytes pre) + length (entries_bytes es) + 1024"
proof -
  have im: "image i = entries_bytes pre @ entries_bytes es @ replicate 1024 0"
    and sz: "unat (isize i) = length (image i)" "unat (iaddr i) + length (image i) < 4294967296"
    using assms by (auto simp: holds_archive_def tar_archive_def entries_bytes_def)
  have l: "length (entries_bytes pre) \<le> length (image i)" by (simp add: im)
  with sz have "unat (of_nat (length (entries_bytes pre)) :: u32) = length (entries_bytes pre)"
    by (intro unat_of_nat_u32) simp
  with l sz show "unat (iaddr i + of_nat (length (entries_bytes pre)) - iaddr i) = length (entries_bytes pre)"
    "unat (iaddr i + of_nat (length (entries_bytes pre))) = unat (iaddr i) + length (entries_bytes pre)"
    by (simp_all add: unat_add_u32)
  show "drop (length (entries_bytes pre)) (image i) = entries_bytes es @ replicate 1024 0"
    by (simp add: im)
  show "unat (iaddr i + isize i) = unat (iaddr i) + length (image i)" using sz by (simp add: unat_add_u32)
  show "length (image i) = length (entries_bytes pre) + length (entries_bytes es) + 1024" by (simp add: im)
qed

lemma header_in_image:
  assumes "holds_archive i (pre @ e # es)"
  shows "header_at i (iaddr i + of_nat (length (entries_bytes pre))) = Inr (tar_header e)"
proof -
  have ok: "entry_ok e" using assms by (simp add: holds_archive_def)
  note O = at_offset [OF assms]
  have "length (entries_bytes (e # es)) \<ge> 512" using ok by (simp add: entry_len_def)
  moreover have "take 512 (tar_entry_bytes e) = tar_header e" using ok by (cases e) (simp add: tar_entry_bytes_def)
  ultimately show ?thesis using O ok by (simp add: header_at_def Let_def entry_len_def)
qed

lemma end_in_image:
  assumes "holds_archive i pre"
  shows "header_at i (iaddr i + of_nat (length (entries_bytes pre))) = Inr (replicate 512 0)"
  using at_offset [of i pre "[]"] assms by (simp add: header_at_def Let_def)

theorem tar_walk_archive:
  "holds_archive i (pre @ es) \<Longrightarrow>
    tar_walk i visit (iaddr i + of_nat (length (entries_bytes pre))) acc =
      Some (Inr (walk_list visit (iaddr i + of_nat (length (entries_bytes pre))) es acc))"
proof (induction es arbitrary: pre acc)
  case Nil
  then have "unat (iaddr i + of_nat (length (entries_bytes pre)) + 512) \<le> unat (iaddr i + isize i)"
    using at_offset [OF Nil] by (simp add: holds_archive_def unat_add_u32)
  then show ?case using end_in_image [of i pre] Nil
    by (simp add: tar_walk.simps word_le_nat_alt hdr_name_def)
next
  case (Cons e es)
  let ?p = "iaddr i + of_nat (length (entries_bytes pre)) :: u32"
  have ok: "entry_ok e" using Cons.prems by (simp add: holds_archive_def)
  have "unat (?p + 512) \<le> unat (iaddr i + isize i)"
    using at_offset [OF Cons.prems] Cons.prems by (simp add: holds_archive_def unat_add_u32)
  moreover have "?p + of_nat (entry_len e) = iaddr i + of_nat (length (entries_bytes (pre @ [e])))"
    using ok by (simp add: add.assoc)
  moreover have "holds_archive i ((pre @ [e]) @ es)" using Cons.prems by simp
  note Cons.IH [OF this]
  moreover have "tar_walk i visit ?p acc = (case visit (tar_path e) (tar_header e) ?p acc of
      Inl r \<Rightarrow> Some (Inr (Some r))
    | Inr acc' \<Rightarrow> tar_walk i visit (?p + 512 + ((oct2int (hdr_size (tar_header e)) 0 + 511) AND NOT 511)) acc')"
    if "unat (?p + 512) \<le> unat (iaddr i + isize i)"
    using that header_in_image [OF Cons.prems] header_not_end [OF ok] ok
    by (subst tar_walk.simps) (simp add: word_le_nat_alt tar_simps)
  ultimately show ?case unfolding next_entry [OF ok] using ok by (simp add: add.assoc split: sum.split)
qed

lemma tar_walk_all:
  "holds_archive i es \<Longrightarrow> tar_walk i visit (iaddr i) acc = Some (Inr (walk_list visit (iaddr i) es acc))"
  using tar_walk_archive [of i "[]" es visit acc] by simp

text \<open>The first entry with a path, and where its contents lie.\<close>

primrec find_entry :: "u8 list \<Rightarrow> tar_entry list \<Rightarrow> nat \<Rightarrow> (nat \<times> tar_entry) option" where
  "find_entry path [] off = None"
| "find_entry path (e # es) off =
     (if tar_path e = path then Some (off, e) else find_entry path es (off + entry_len e))"

lemma find_entry_split:
  "find_entry path es off = Some (k, e) \<Longrightarrow> \<forall>e \<in> set es. entry_ok e \<Longrightarrow>
    \<exists>pre post. es = pre @ e # post \<and> k = off + length (entries_bytes pre) \<and> tar_path e = path
      \<and> path \<notin> tar_path ` set pre"
proof (induction es arbitrary: off)
  case (Cons x es)
  show ?case
  proof (cases "tar_path x = path")
    case True
    with Cons.prems show ?thesis by (intro exI [of _ "[]"] exI [of _ es]) simp
  next
    case False
    with Cons.prems have "find_entry path es (off + entry_len x) = Some (k, e)" by simp
    from Cons.IH [OF this] Cons.prems obtain pre post where
      "es = pre @ e # post" "k = off + entry_len x + length (entries_bytes pre)" "tar_path e = path"
      "path \<notin> tar_path ` set pre" by auto
    with False Cons.prems show ?thesis
      by (intro exI [of _ "x # pre"] exI [of _ post]) simp
  qed
qed simp

lemma find_entry_None: "find_entry path es off = None \<longleftrightarrow> path \<notin> tar_path ` set es"
  by (induction es arbitrary: off) auto

lemma tar_path_no_nul: "entry_ok e \<Longrightarrow> 0 \<notin> set (tar_path e)"
  by (auto simp: tar_path_def strip_slash_def entry_ok_def dest: in_set_butlastD)

lemma walk_find:
  "0 \<notin> set p \<Longrightarrow> \<forall>e \<in> set es. entry_ok e \<Longrightarrow>
    walk_list (\<lambda>path h ptr _. if strcmp_l path p = 0 then Inl (g path h ptr) else Inr ()) (base + of_nat off) es ()
      = map_option (\<lambda>(k, e). g (tar_path e) (tar_header e) (base + of_nat k)) (find_entry p es off)"
proof (induction es arbitrary: off)
  case (Cons e es)
  have "strcmp_l (tar_path e) p = 0 \<longleftrightarrow> tar_path e = p"
    using Cons.prems by (intro strcmp_l_0) (auto dest: tar_path_no_nul)
  with Cons.IH [of "off + entry_len e"] Cons.prems show ?case by (simp add: add.assoc)
qed simp

lemma lookup_entry:
  assumes "holds_archive i es" "0 \<notin> set path"
  shows "initrd_lookup i path = Inr (case find_entry path es 0 of
      None \<Rightarrow> no_initrd_file
    | Some (k, e) \<Rightarrow> \<lparr>fname = iaddr i + of_nat k, fdata = iaddr i + of_nat k + 512,
        fsize = of_nat (length (snd (snd e))), ftypeflag = fst (snd e)\<rparr>)"
proof -
  have ok: "\<forall>e \<in> set es. entry_ok e" using assms(1) by (simp add: holds_archive_def)
  have w: "walk_list (\<lambda>p h ptr _. if strcmp_l p path = 0
       then Inl \<lparr>fname = ptr, fdata = ptr + 512, fsize = oct2int (hdr_size h) 0, ftypeflag = hdr_typeflag h\<rparr>
       else Inr ()) (iaddr i) es () =
    map_option (\<lambda>(k, e). \<lparr>fname = iaddr i + of_nat k, fdata = iaddr i + of_nat k + 512,
        fsize = oct2int (hdr_size (tar_header e)) 0, ftypeflag = hdr_typeflag (tar_header e)\<rparr>) (find_entry path es 0)"
    using walk_find [OF assms(2) ok, of "\<lambda>p h ptr. \<lparr>fname = ptr, fdata = ptr + 512, fsize = oct2int (hdr_size h) 0,
      ftypeflag = hdr_typeflag h\<rparr>" "iaddr i" 0] by simp
  show ?thesis
  proof (cases "find_entry path es 0")
    case None
    then show ?thesis by (simp add: initrd_lookup_def tar_walk_all [OF assms(1)] w)
  next
    case (Some ke)
    then obtain k e where ke: "find_entry path es 0 = Some (k, e)" by (cases ke) simp
    have "entry_ok e" using find_entry_split [OF ke] ok by auto
    then have "hdr_typeflag (tar_header e) = fst (snd e)" by (cases e) (simp add: header_fields)
    with ke \<open>entry_ok e\<close> show ?thesis
      by (simp add: initrd_lookup_def tar_walk_all [OF assms(1)] w header_size)
  qed
qed

text \<open>The contents in the image.\<close>

lemma entry_data:
  assumes "holds_archive i (pre @ e # post)"
  defines "start \<equiv> unat (iaddr i + of_nat (length (entries_bytes pre)) + 512 - iaddr i)"
  shows "start = length (entries_bytes pre) + 512"
    and "start + length (snd (snd e)) \<le> length (image i)"
    and "take n (drop m (snd (snd e))) = take (min n (length (snd (snd e)) - m)) (drop (start + m) (image i))"
    and "iaddr i + of_nat (length (entries_bytes pre)) + 512 \<noteq> 0"
proof -
  let ?d = "snd (snd e)"
  note O = at_offset [OF assms(1)]
  have ok: "entry_ok e" and sz: "unat (iaddr i) + length (image i) < 2 ^ 32"
    using assms(1) by (auto simp: holds_archive_def)
  have u: "unat (iaddr i + of_nat (length (entries_bytes pre)) + 512) = unat (iaddr i) + length (entries_bytes pre) + 512"
    using O sz by (simp add: unat_add_u32)
  then show st: "start = length (entries_bytes pre) + 512" unfolding start_def unat_sub_if' u by simp
  show "iaddr i + of_nat (length (entries_bytes pre)) + 512 \<noteq> 0" using u by auto
  have t: "tar_entry_bytes e = tar_header e @ ?d @ replicate (511 - (length ?d + 511) mod 512) 0"
    by (cases e) (simp add: tar_entry_bytes_def)
  have "length (tar_entry_bytes e) \<ge> 512 + length ?d" using ok by (simp only: t) simp
  with O(5) st show "start + length ?d \<le> length (image i)" by simp
  have "drop start (image i) = drop 512 (drop (length (entries_bytes pre)) (image i))" by (simp add: st add.commute)
  then have "drop start (image i) = ?d @ replicate (511 - (length ?d + 511) mod 512) 0 @ entries_bytes post @ replicate 1024 0"
    using O(2) ok by (simp add: t)
  then have "drop (start + m) (image i) = drop m (?d @ replicate (511 - (length ?d + 511) mod 512) 0 @ entries_bytes post @ replicate 1024 0)"
    by (metis drop_drop add.commute)
  then show "take n (drop m ?d) = take (min n (length ?d - m)) (drop (start + m) (image i))"
    by (simp add: min_def)
qed

section \<open>The archive as a file system\<close>

text \<open>The contents of a vnode: those of the first entry with the path of the vnode.\<close>

definition initrd_contents :: "('d, initrd_fs) part \<Rightarrow> tar_entry list \<Rightarrow> u32 \<Rightarrow> 'd ksys \<Rightarrow> u8 list option" where
  "initrd_contents L es node s =
     (if \<not> holds_archive (dget L s) es then None
      else case vnode_path L node s of
          Inl _ \<Rightarrow> None
        | Inr p \<Rightarrow> if 0 \<in> set p then None else map_option (\<lambda>(k, e). snd (snd e)) (find_entry p es 0))"

lemma initrd_contents_Some:
  assumes "initrd_contents L es node s = Some c"
  obtains p k e where "holds_archive (dget L s) es" "vnode_path L node s = Inr p" "0 \<notin> set p"
    "find_entry p es 0 = Some (k, e)" "c = snd (snd e)"
  using assms by (auto simp: initrd_contents_def split: if_splits sum.splits)

lemma initrd_read_contents:
  assumes "initrd_contents L es node s = Some c"
  shows "initrd_file_read L node buf len off s =
      (let b = take (unat len) (drop (unat off) c)
       in bind_res (k_write b buf s) (\<lambda>s. Inr (of_nat (length b), s)))"
proof -
  let ?i = "dget L s"
  obtain p k e where h: "holds_archive ?i es" and p: "vnode_path L node s = Inr p" "0 \<notin> set p"
    and e: "find_entry p es 0 = Some (k, e)" and c: "c = snd (snd e)"
    using initrd_contents_Some [OF assms] .
  obtain pre post where es: "es = pre @ e # post" "k = length (entries_bytes pre)"
    using find_entry_split [OF e] h by (auto simp: holds_archive_def)
  note D = entry_data [OF h [unfolded es(1)]]
  have "length c < 2147483648" using h by (auto simp: holds_archive_def es(1) c entry_ok_def)
  then have u: "unat (of_nat (length c) :: u32) = length c" by (rule unat_small)
  have l: "initrd_lookup ?i p = Inr \<lparr>fname = iaddr ?i + of_nat k, fdata = iaddr ?i + of_nat k + 512,
      fsize = of_nat (length c), ftypeflag = fst (snd e)\<rparr>"
    using lookup_entry [OF h p(2)] e by (simp add: c)
  show ?thesis
  proof (cases "off \<ge> of_nat (length c)")
    case True
    then have "length c \<le> unat off" using u by (simp add: word_le_nat_alt)
    with True show ?thesis using D(4) l p(1) by (simp add: initrd_file_read_def es(2))
  next
    case False
    then have o: "unat off < length c" using u by (simp add: word_le_nat_alt)
    define av where "av = (of_nat (length c) :: u32) - off"
    have av: "unat av = length c - unat off" using False u
      by (simp add: av_def unat_sub word_le_nat_alt)
    let ?n = "if len < av then len else av"
    have n: "unat ?n = min (unat len) (length c - unat off)" by (auto simp: av word_less_nat_alt)
    define st where "st = length (entries_bytes pre) + 512"
    have s0: "unat (iaddr ?i + of_nat k + 512 - iaddr ?i) = st" using D(1) by (simp add: es(2) st_def)
    have bound: "st + length c \<le> length (image ?i)" using D(1,2) by (simp add: st_def c)
    moreover have "length (image ?i) < 4294967296" using h by (auto simp: holds_archive_def)
    ultimately have "st + length c < 4294967296" by linarith
    then have start: "unat (iaddr ?i + of_nat k + 512 + off - iaddr ?i) = st + unat off"
      using s0 o unat_add_u32 [of "iaddr ?i + of_nat k + 512 - iaddr ?i" off]
      by (simp add: algebra_simps)
    have t: "take (unat len) (drop (unat off) c) =
        take (min (unat len) (length c - unat off)) (drop (st + unat off) (image ?i))"
      using D(3) [of "unat len" "unat off"] D(1) by (simp add: c st_def)
    have b: "length (take (unat len) (drop (unat off) c)) = unat ?n" using n by (simp add: min.commute)
    have "(of_nat (unat ?n) :: u32) = ?n" by simp
    then show ?thesis using False D(4) l p(1) start bound n t b o
      by (simp add: initrd_file_read_def es(2) Let_def av_def [symmetric] cong: if_cong)
  qed
qed

lemma initrd_contents_len: "initrd_contents L es node s = Some c \<Longrightarrow> length c < 2147483648"
proof (elim initrd_contents_Some)
  fix p k e
  assume "holds_archive (dget L s) es" "find_entry p es 0 = Some (k, e)" "c = snd (snd e)"
  then show ?thesis using find_entry_split [of p es 0 k e] by (auto simp: holds_archive_def entry_ok_def)
qed

interpretation ramdisk: file_source "initrd_file_read L" "initrd_contents L es" for L es
proof unfold_locales
  show "initrd_contents L es node (s\<lparr>heap := h\<rparr>) = initrd_contents L es node s" for node s h
    by (simp add: initrd_contents_def dget_def vnode_path_def vnode_at_def)
  show "initrd_contents L es node (put_file p f s) = initrd_contents L es node s" for node p f s
    by (simp add: initrd_contents_def dget_def vnode_path_def vnode_at_def put_file_def)
qed (fact initrd_read_contents initrd_contents_len)+

text \<open>The names in a directory, in the order of the archive.\<close>

definition join_path :: "u8 list \<Rightarrow> u8 list \<Rightarrow> u8 list" where
  "join_path dir r = (if dir = [] then r else dir @ slash # r)"

definition dir_entries :: "u8 list \<Rightarrow> tar_entry list \<Rightarrow> u8 list list" where
  "dir_entries dir es = List.map_filter (\<lambda>e. entry_below dir (tar_path e)) es"

lemma dir_entries_simps [simp]:
  "dir_entries dir [] = []"
  "dir_entries dir (e # es) = (case entry_below dir (tar_path e) of None \<Rightarrow> [] | Some r \<Rightarrow> [r]) @ dir_entries dir es"
  by (simp_all add: dir_entries_def map_filter_simps split: option.split)

lemma entry_below_iff:
  assumes "0 \<notin> set dir" "0 \<notin> set path"
  shows "entry_below dir path = Some r \<longleftrightarrow> path = join_path dir r \<and> r \<noteq> [] \<and> slash \<notin> set r"
proof (cases "dir = []")
  case True
  then show ?thesis by (auto simp: entry_below_def join_path_def)
next
  case False
  have "strncmp_l (length dir) path dir = 0 \<longleftrightarrow> take (length dir) path = dir"
    using assms by (simp add: strncmp_l_0)
  moreover have "take (length dir) path = dir \<and> length path > length dir \<and> path ! length dir = slash
      \<longleftrightarrow> (\<exists>r. path = dir @ slash # r)"
    by (auto simp: Cons_nth_drop_Suc dest!: id_take_nth_drop)
  ultimately show ?thesis using False by (auto simp: entry_below_def join_path_def Let_def)
qed

lemma set_dir_entries:
  assumes "0 \<notin> set dir" "\<forall>e \<in> set es. entry_ok e"
  shows "r \<in> set (dir_entries dir es) \<longleftrightarrow>
    r \<noteq> [] \<and> slash \<notin> set r \<and> join_path dir r \<in> tar_path ` set es"
proof -
  have "entry_below dir (tar_path e) = Some r \<longleftrightarrow> tar_path e = join_path dir r \<and> r \<noteq> [] \<and> slash \<notin> set r"
    if "e \<in> set es" for e
    using entry_below_iff [OF assms(1), of "tar_path e" r] tar_path_no_nul assms(2) that by blast
  moreover have "r \<in> set (dir_entries dir es) \<longleftrightarrow> (\<exists>e \<in> set es. entry_below dir (tar_path e) = Some r)"
    by (induction es) (auto split: option.splits)
  ultimately have "r \<in> set (dir_entries dir es) \<longleftrightarrow>
      (\<exists>e \<in> set es. join_path dir r = tar_path e \<and> r \<noteq> [] \<and> slash \<notin> set r)" by (simp add: eq_commute cong: bex_cong)
  then show ?thesis unfolding image_iff by blast
qed

lemma walk_readdir:
  assumes "length es + unat (found :: u32) < 4294967296"
  shows "walk_list (\<lambda>path h ptr found. case entry_below dir path of
           None \<Rightarrow> Inr found
         | Some r \<Rightarrow> if found = index then Inl r else Inr (found + 1)) ptr es found
     = (if found \<le> index \<and> unat (index - found) < length (dir_entries dir es)
        then Some (dir_entries dir es ! unat (index - found)) else None)"
  using assms
proof (induction es arbitrary: found ptr)
  case (Cons e es)
  show ?case
  proof (cases "entry_below dir (tar_path e)")
    case None
    then show ?thesis using Cons by simp
  next
    case (Some r)
    show ?thesis
    proof (cases "found = index")
      case False
      have "unat found < 4294967295" using Cons.prems by simp
      note I = index_step_u32 [OF False this]
      show ?thesis using Some False Cons.IH [of "found + 1"] Cons.prems I by auto
    qed (simp add: Some)
  qed
qed simp

lemma archive_few:
  assumes "holds_archive i es"
  shows "length es < 4294967295"
proof -
  have "\<forall>e \<in> set es. entry_ok e \<Longrightarrow> 512 * length es \<le> length (entries_bytes es)" for es
    by (induction es) (auto simp: entry_len_def)
  with assms have "512 * length es \<le> length (entries_bytes es)" by (simp add: holds_archive_def)
  moreover have "length (image i) = length (entries_bytes es) + 1024" using at_offset(5) [of i "[]" es] assms by simp
  moreover have "length (image i) < 4294967296" using assms by (auto simp: holds_archive_def)
  ultimately show ?thesis by linarith
qed

section \<open>Properties\<close>

text \<open>An archive with the directory \<open>a/\<close> and the file \<open>a/f\<close>, loaded at 0x1000.\<close>

definition small_tar :: "tar_entry list" where
  "small_tar = [([0x61, slash], 0x35, []), ([0x61, slash, 0x66], 0x30, [1, 2, 3])]"

definition small_initrd :: initrd_fs where
  "small_initrd = \<lparr>iaddr = 0x1000, phys_addr = 0, isize = 2560, image = tar_archive small_tar,
     vdata = (\<lambda>_. None)(0x500 \<mapsto> [0x61], 0x600 \<mapsto> [0x61, slash, 0x66])\<rparr>"

lemma small_initrd_ok: "holds_archive small_initrd small_tar"
proof -
  have ok: "\<forall>e \<in> set small_tar. entry_ok e" by (simp add: small_tar_def entry_ok_def slash_def)
  then have "length (entries_bytes small_tar) = (\<Sum>e\<leftarrow>small_tar. entry_len e)"
    by (simp add: small_tar_def)
  then have "length (entries_bytes small_tar) = 1536" "length (tar_archive small_tar) = 2560"
    by (simp_all add: small_tar_def entry_len_def tar_archive_def entries_bytes_def)
  with ok show ?thesis by (simp add: holds_archive_def small_initrd_def)
qed




text \<open>\<open>readdir\<close> of a directory vnode with index \<open>k\<close> writes the name of the \<open>k\<close>-th entry directly
  in the directory, in the order of the archive and cut to the buffer, and fails when there are at
  most \<open>k\<close>; the names are exactly those that, joined to the path of the directory, are the path of an
  entry.\<close>

theorem initrd_readdir_enumerates:
  assumes "holds_archive (dget L s) es" "vnode_path L node s = Inr dir" "0 \<notin> set dir"
  shows "initrd_dir_readdir L node index name_out name_max s =
      (if unat index < length (dir_entries dir es)
       then bind_res (k_write (strncpy_l (unat (name_max - 1)) (dir_entries dir es ! unat index) @ [0]) name_out s)
              (\<lambda>s. Inr (0, s))
       else Inr (-1, s))
    \<and> (\<forall>r. r \<in> set (dir_entries dir es) \<longleftrightarrow>
          r \<noteq> [] \<and> slash \<notin> set r \<and> join_path dir r \<in> tar_path ` set es)"
proof
  have "length es + unat (0 :: u32) < 4294967296" using archive_few [OF assms(1)] by simp
  from walk_readdir [OF this] show "initrd_dir_readdir L node index name_out name_max s =
      (if unat index < length (dir_entries dir es)
       then bind_res (k_write (strncpy_l (unat (name_max - 1)) (dir_entries dir es ! unat index) @ [0]) name_out s)
              (\<lambda>s. Inr (0, s))
       else Inr (-1, s))"
    using assms by (simp add: initrd_dir_readdir_def tar_walk_all)
  show "\<forall>r. r \<in> set (dir_entries dir es) \<longleftrightarrow>
      r \<noteq> [] \<and> slash \<notin> set r \<and> join_path dir r \<in> tar_path ` set es"
    using set_dir_entries [OF assms(3)] assms(1) by (simp add: holds_archive_def)
qed

text \<open>A machine with \<open>a/f\<close> open as descriptor 0 of the kernel.\<close>

definition file_vnode :: vnode where
  "file_vnode = root_dir\<lparr>vflags := VFS_FILE, ops := 0x700, private_data := 0x600\<rparr>"

definition initrd_sys :: "initrd_fs ksys" where
  "initrd_sys = (vfs_sys small_initrd 0)
     \<lparr>vnodes := (\<lambda>_. None)(0x100 \<mapsto> root_dir\<lparr>private_data := 0x500\<rparr>, 0x110 \<mapsto> file_vnode),
      files := (\<lambda>_. None)(0x120 \<mapsto> \<lparr>fvnode = 0x110, offset = 0, fflags = 0, ref_count = 1\<rparr>),
      kernel_fd_table := 0x120 # replicate 255 0\<rparr>"

definition initrd_tables :: "initrd_fs tables" where
  "initrd_tables = \<lparr>vops = (\<lambda>_. None)(0x700 \<mapsto> initrd_file_ops whole), drivers = (\<lambda>_. None), mount_table_addr = 0\<rparr>"

lemma initrd_sys_file:
  "get_file 0 initrd_sys = Inr 0x120" "vnodes initrd_sys 0x110 = Some file_vnode"
  "files initrd_sys 0x120 = Some \<lparr>fvnode = 0x110, offset = 0, fflags = 0, ref_count = 1\<rparr>"
  "the_op initrd_tables op_read file_vnode = Inr (Some (initrd_file_read whole))"
  "initrd_contents whole small_tar 0x110 initrd_sys = Some [1, 2, 3]"
proof -
  have "dget whole initrd_sys = small_initrd" by (simp add: dget_def whole_def initrd_sys_def vfs_sys_def)
  moreover have "vnode_path whole 0x110 initrd_sys = Inr [0x61, slash, 0x66]"
    by (simp add: vnode_path_def vnode_at_def dget_def whole_def initrd_sys_def vfs_sys_def small_initrd_def file_vnode_def)
  moreover have "find_entry [0x61, slash, 0x66] small_tar 0 = Some (512, ([0x61, slash, 0x66], 0x30, [1, 2, 3]))"
    by (simp add: small_tar_def tar_path_def strip_slash_def slash_def entry_len_def)
  ultimately show "initrd_contents whole small_tar 0x110 initrd_sys = Some [1, 2, 3]"
    using small_initrd_ok by (simp add: initrd_contents_def slash_def)
qed (simp_all add: initrd_sys_def vfs_sys_def get_file_def MAX_FDS_def neg_def active_fd_table_def the_op_def
      initrd_tables_def file_vnode_def initrd_file_ops_def)


lemma initrd_readdir_enumerates_witness:
  "initrd_dir_readdir whole 0x100 0 0x8000 2 initrd_sys =
     bind_res (k_write [0x66, 0] 0x8000 initrd_sys) (\<lambda>s. Inr (0, s))"
proof -
  have "dget whole initrd_sys = small_initrd" by (simp add: dget_def whole_def initrd_sys_def vfs_sys_def)
  moreover have "vnode_path whole 0x100 initrd_sys = Inr [0x61]"
    by (simp add: vnode_path_def vnode_at_def dget_def whole_def initrd_sys_def vfs_sys_def small_initrd_def)
  moreover have "dir_entries [0x61] small_tar = [[0x66]]"
    by (simp add: small_tar_def tar_path_def strip_slash_def slash_def entry_below_def)
  ultimately show ?thesis
    using initrd_readdir_enumerates [of whole initrd_sys small_tar "0x100" "[0x61]" 0 "0x8000" 2] small_initrd_ok
    by (simp add: strncpy_l_def)
qed

end
