(* ===== verification/Framebuffer.thy ===== *)
theory Framebuffer
  imports Kstate CString
begin

text \<open>
  The framebuffer, \<open>src/framebuffer/framebuffer.c\<close> with the inline functions of
  \<open>framebuffer.h\<close> and the glyphs of \<open>font.h\<close>. Drawing goes to a back buffer at \<open>fb_addr\<close>, which
  \<open>fb_swap\<close> copies to the screen at \<open>fb_phys\<close>. The memory behind the two is the field \<open>fbmem\<close>:
  \<open>fb_init\<close> maps both ranges before anything is drawn, and a store past them is a change of
  \<open>fbmem\<close> outside of the buffer, which the lemmas bound.
\<close>

section \<open>State\<close>

record framebuffer =
  fb_addr :: u32
  fb_phys :: u32
  fb_width :: u32
  fb_height :: u32
  fb_bpp :: u32
  fb_pitch :: u32
  fb_size :: u32
  fb_initialized :: bool
  fbmem :: mem

definition FRAMEBUFFER_OFFSET :: u32 where "FRAMEBUFFER_OFFSET = 0xc0e00000"
definition PAGE_PCD :: u32 where "PAGE_PCD = 0x10"
definition PAGE_PWT :: u32 where "PAGE_PWT = 0x08"

definition font_table :: "(u8 \<times> u8 list) list" where
  "font_table =
    [(65, [0, 0, 0x18, 0x3c, 0x66, 0x66, 0x7e, 0x66, 0x66, 0x66, 0x66, 0, 0, 0, 0, 0]),
     (66, [0, 0, 0x7c, 0x66, 0x66, 0x66, 0x7c, 0x66, 0x66, 0x66, 0x7c, 0, 0, 0, 0, 0]),
     (67, [0, 0, 0x3c, 0x66, 0xc2, 0xc0, 0xc0, 0xc0, 0xc2, 0x66, 0x3c, 0, 0, 0, 0, 0]),
     (68, [0, 0, 0x78, 0x6c, 0x66, 0x66, 0x66, 0x66, 0x66, 0x6c, 0x78, 0, 0, 0, 0, 0]),
     (69, [0, 0, 0x7e, 0x60, 0x60, 0x60, 0x78, 0x60, 0x60, 0x60, 0x7e, 0, 0, 0, 0, 0]),
     (70, [0, 0, 0x7e, 0x60, 0x60, 0x60, 0x78, 0x60, 0x60, 0x60, 0x60, 0, 0, 0, 0, 0]),
     (71, [0, 0, 0x3c, 0x66, 0xc2, 0xc0, 0xc0, 0xce, 0xc6, 0x66, 0x3a, 0, 0, 0, 0, 0]),
     (72, [0, 0, 0x66, 0x66, 0x66, 0x66, 0x7e, 0x66, 0x66, 0x66, 0x66, 0, 0, 0, 0, 0]),
     (73, [0, 0, 0x3c, 0x18, 0x18, 0x18, 0x18, 0x18, 0x18, 0x18, 0x3c, 0, 0, 0, 0, 0]),
     (74, [0, 0, 0x1e, 0xc, 0xc, 0xc, 0xc, 0xc, 0xcc, 0xcc, 0x78, 0, 0, 0, 0, 0]),
     (75, [0, 0, 0x66, 0x66, 0x6c, 0x6c, 0x78, 0x6c, 0x6c, 0x66, 0x66, 0, 0, 0, 0, 0]),
     (76, [0, 0, 0x60, 0x60, 0x60, 0x60, 0x60, 0x60, 0x60, 0x60, 0x7e, 0, 0, 0, 0, 0]),
     (77, [0, 0, 0xc6, 0xee, 0xfe, 0xfe, 0xd6, 0xc6, 0xc6, 0xc6, 0xc6, 0, 0, 0, 0, 0]),
     (78, [0, 0, 0xc6, 0xe6, 0xf6, 0xfe, 0xde, 0xce, 0xc6, 0xc6, 0xc6, 0, 0, 0, 0, 0]),
     (79, [0, 0, 0x38, 0x6c, 0xc6, 0xc6, 0xc6, 0xc6, 0xc6, 0x6c, 0x38, 0, 0, 0, 0, 0]),
     (80, [0, 0, 0x7c, 0x66, 0x66, 0x66, 0x7c, 0x60, 0x60, 0x60, 0x60, 0, 0, 0, 0, 0]),
     (81, [0, 0, 0x38, 0x6c, 0xc6, 0xc6, 0xc6, 0xc6, 0xd6, 0xde, 0x7c, 6, 0, 0, 0, 0]),
     (82, [0, 0, 0x7c, 0x66, 0x66, 0x66, 0x7c, 0x6c, 0x66, 0x66, 0x66, 0, 0, 0, 0, 0]),
     (83, [0, 0, 0x3c, 0x66, 0x66, 0x60, 0x38, 0xc, 6, 0x66, 0x3c, 0, 0, 0, 0, 0]),
     (84, [0, 0, 0x7e, 0x18, 0x18, 0x18, 0x18, 0x18, 0x18, 0x18, 0x18, 0, 0, 0, 0, 0]),
     (85, [0, 0, 0x66, 0x66, 0x66, 0x66, 0x66, 0x66, 0x66, 0x66, 0x3c, 0, 0, 0, 0, 0]),
     (86, [0, 0, 0x66, 0x66, 0x66, 0x66, 0x66, 0x66, 0x3c, 0x3c, 0x18, 0, 0, 0, 0, 0]),
     (87, [0, 0, 0xc6, 0xc6, 0xc6, 0xc6, 0xd6, 0xd6, 0xfe, 0xee, 0xc6, 0, 0, 0, 0, 0]),
     (88, [0, 0, 0xc6, 0xc6, 0x6c, 0x6c, 0x38, 0x6c, 0x6c, 0xc6, 0xc6, 0, 0, 0, 0, 0]),
     (89, [0, 0, 0x66, 0x66, 0x66, 0x3c, 0x18, 0x18, 0x18, 0x18, 0x18, 0, 0, 0, 0, 0]),
     (90, [0, 0, 0x7e, 6, 6, 0xc, 0x18, 0x30, 0x60, 0x60, 0x7e, 0, 0, 0, 0, 0]),
     (97, [0, 0, 0, 0, 0, 0x3c, 6, 0x3e, 0x66, 0x66, 0x3e, 0, 0, 0, 0, 0]),
     (98, [0, 0, 0x60, 0x60, 0x60, 0x7c, 0x66, 0x66, 0x66, 0x66, 0x7c, 0, 0, 0, 0, 0]),
     (99, [0, 0, 0, 0, 0, 0x3c, 0x66, 0x60, 0x60, 0x66, 0x3c, 0, 0, 0, 0, 0]),
     (100, [0, 0, 6, 6, 6, 0x3e, 0x66, 0x66, 0x66, 0x66, 0x3e, 0, 0, 0, 0, 0]),
     (101, [0, 0, 0, 0, 0, 0x3c, 0x66, 0x7e, 0x60, 0x66, 0x3c, 0, 0, 0, 0, 0]),
     (102, [0, 0, 0x1c, 0x36, 0x30, 0x30, 0x7c, 0x30, 0x30, 0x30, 0x30, 0, 0, 0, 0, 0]),
     (103, [0, 0, 0, 0, 0, 0x3e, 0x66, 0x66, 0x66, 0x3e, 6, 0x66, 0x3c, 0, 0, 0]),
     (104, [0, 0, 0x60, 0x60, 0x60, 0x7c, 0x66, 0x66, 0x66, 0x66, 0x66, 0, 0, 0, 0, 0]),
     (105, [0, 0, 0x18, 0x18, 0, 0x38, 0x18, 0x18, 0x18, 0x18, 0x3c, 0, 0, 0, 0, 0]),
     (106, [0, 0, 6, 6, 0, 0xe, 6, 6, 6, 6, 0x66, 0x66, 0x3c, 0, 0, 0]),
     (107, [0, 0, 0x60, 0x60, 0x66, 0x6c, 0x78, 0x78, 0x6c, 0x66, 0x66, 0, 0, 0, 0, 0]),
     (108, [0, 0, 0x38, 0x18, 0x18, 0x18, 0x18, 0x18, 0x18, 0x18, 0x3c, 0, 0, 0, 0, 0]),
     (109, [0, 0, 0, 0, 0, 0xec, 0xfe, 0xd6, 0xd6, 0xd6, 0xc6, 0, 0, 0, 0, 0]),
     (110, [0, 0, 0, 0, 0, 0x7c, 0x66, 0x66, 0x66, 0x66, 0x66, 0, 0, 0, 0, 0]),
     (111, [0, 0, 0, 0, 0, 0x3c, 0x66, 0x66, 0x66, 0x66, 0x3c, 0, 0, 0, 0, 0]),
     (112, [0, 0, 0, 0, 0, 0x7c, 0x66, 0x66, 0x66, 0x7c, 0x60, 0x60, 0x60, 0, 0, 0]),
     (113, [0, 0, 0, 0, 0, 0x3e, 0x66, 0x66, 0x66, 0x3e, 6, 6, 6, 0, 0, 0]),
     (114, [0, 0, 0, 0, 0, 0x6c, 0x76, 0x60, 0x60, 0x60, 0x60, 0, 0, 0, 0, 0]),
     (115, [0, 0, 0, 0, 0, 0x3c, 0x66, 0x60, 0x3c, 6, 0x7c, 0, 0, 0, 0, 0]),
     (116, [0, 0, 0x30, 0x30, 0x30, 0x7c, 0x30, 0x30, 0x30, 0x36, 0x1c, 0, 0, 0, 0, 0]),
     (117, [0, 0, 0, 0, 0, 0x66, 0x66, 0x66, 0x66, 0x66, 0x3e, 0, 0, 0, 0, 0]),
     (118, [0, 0, 0, 0, 0, 0x66, 0x66, 0x66, 0x66, 0x3c, 0x18, 0, 0, 0, 0, 0]),
     (119, [0, 0, 0, 0, 0, 0xc6, 0xc6, 0xd6, 0xd6, 0xfe, 0x6c, 0, 0, 0, 0, 0]),
     (120, [0, 0, 0, 0, 0, 0x66, 0x66, 0x3c, 0x3c, 0x66, 0x66, 0, 0, 0, 0, 0]),
     (121, [0, 0, 0, 0, 0, 0x66, 0x66, 0x66, 0x66, 0x3e, 6, 0xc, 0x78, 0, 0, 0]),
     (122, [0, 0, 0, 0, 0, 0x7e, 0xc, 0x18, 0x30, 0x60, 0x7e, 0, 0, 0, 0, 0]),
     (48, [0, 0, 0x3c, 0x66, 0xc6, 0xce, 0xd6, 0xe6, 0xc6, 0x66, 0x3c, 0, 0, 0, 0, 0]),
     (49, [0, 0, 0x18, 0x38, 0x78, 0x18, 0x18, 0x18, 0x18, 0x18, 0x7e, 0, 0, 0, 0, 0]),
     (50, [0, 0, 0x7c, 0xc6, 6, 6, 0xc, 0x18, 0x30, 0x60, 0xfe, 0, 0, 0, 0, 0]),
     (51, [0, 0, 0x7c, 0xc6, 6, 6, 0x3c, 6, 6, 0xc6, 0x7c, 0, 0, 0, 0, 0]),
     (52, [0, 0, 0xc, 0x1c, 0x3c, 0x6c, 0xcc, 0xfe, 0xc, 0xc, 0xc, 0, 0, 0, 0, 0]),
     (53, [0, 0, 0xfe, 0xc0, 0xc0, 0xc0, 0xfc, 6, 6, 0xc6, 0x7c, 0, 0, 0, 0, 0]),
     (54, [0, 0, 0x3c, 0x66, 0xc0, 0xc0, 0xfc, 0xc6, 0xc6, 0x66, 0x3c, 0, 0, 0, 0, 0]),
     (55, [0, 0, 0xfe, 6, 6, 0xc, 0x18, 0x30, 0x30, 0x30, 0x30, 0, 0, 0, 0, 0]),
     (56, [0, 0, 0x7c, 0xc6, 0xc6, 0xc6, 0x7c, 0xc6, 0xc6, 0xc6, 0x7c, 0, 0, 0, 0, 0]),
     (57, [0, 0, 0x7c, 0xc6, 0xc6, 0xc6, 0x7e, 6, 6, 0x66, 0x3c, 0, 0, 0, 0, 0]),
     (32, [0, 0, 0, 0, 0, 0, 0, 0, 0, 0, 0, 0, 0, 0, 0, 0]),
     (33, [0, 0, 0x18, 0x3c, 0x3c, 0x3c, 0x18, 0x18, 0x18, 0, 0x18, 0, 0, 0, 0, 0]),
     (34, [0, 0, 0x66, 0x66, 0x66, 0x24, 0, 0, 0, 0, 0, 0, 0, 0, 0, 0]),
     (35, [0, 0, 0x6c, 0x6c, 0xfe, 0x6c, 0x6c, 0x6c, 0xfe, 0x6c, 0x6c, 0, 0, 0, 0, 0]),
     (36, [0, 0x18, 0x7e, 0xd8, 0xd8, 0xd8, 0x7e, 0x1b, 0x1b, 0x1b, 0x7e, 0x18, 0, 0, 0, 0]),
     (37, [0, 0, 0xe6, 0x66, 0x6c, 0x6c, 0x18, 0x36, 0x36, 0x66, 0xce, 0, 0, 0, 0, 0]),
     (38, [0, 0, 0x38, 0x6c, 0x6c, 0x38, 0x76, 0xdc, 0xcc, 0xcc, 0x76, 0, 0, 0, 0, 0]),
     (39, [0, 0, 0x18, 0x18, 0x18, 0x30, 0, 0, 0, 0, 0, 0, 0, 0, 0, 0]),
     (40, [0, 0, 0xc, 0x18, 0x30, 0x30, 0x30, 0x30, 0x30, 0x18, 0xc, 0, 0, 0, 0, 0]),
     (41, [0, 0, 0x30, 0x18, 0xc, 0xc, 0xc, 0xc, 0xc, 0x18, 0x30, 0, 0, 0, 0, 0]),
     (42, [0, 0, 0, 0, 0x66, 0x3c, 0xff, 0x3c, 0x66, 0, 0, 0, 0, 0, 0, 0]),
     (43, [0, 0, 0, 0, 0x18, 0x18, 0x7e, 0x18, 0x18, 0, 0, 0, 0, 0, 0, 0]),
     (44, [0, 0, 0, 0, 0, 0, 0, 0, 0x18, 0x18, 0x30, 0, 0, 0, 0, 0]),
     (45, [0, 0, 0, 0, 0, 0, 0x7e, 0, 0, 0, 0, 0, 0, 0, 0, 0]),
     (46, [0, 0, 0, 0, 0, 0, 0, 0, 0, 0x18, 0x18, 0, 0, 0, 0, 0]),
     (47, [0, 0, 6, 6, 0xc, 0xc, 0x18, 0x30, 0x30, 0x60, 0x60, 0, 0, 0, 0, 0]),
     (58, [0, 0, 0, 0, 0x18, 0x18, 0, 0, 0x18, 0x18, 0, 0, 0, 0, 0, 0]),
     (59, [0, 0, 0, 0, 0x18, 0x18, 0, 0, 0x18, 0x18, 0x30, 0, 0, 0, 0, 0]),
     (60, [0, 0, 0, 6, 0xc, 0x18, 0x30, 0x18, 0xc, 6, 0, 0, 0, 0, 0, 0]),
     (61, [0, 0, 0, 0, 0, 0x7e, 0, 0x7e, 0, 0, 0, 0, 0, 0, 0, 0]),
     (62, [0, 0, 0, 0x60, 0x30, 0x18, 0xc, 0x18, 0x30, 0x60, 0, 0, 0, 0, 0, 0]),
     (63, [0, 0, 0x7c, 0xc6, 0xc6, 0xc, 0x18, 0x18, 0x18, 0, 0x18, 0, 0, 0, 0, 0]),
     (64, [0, 0, 0x7c, 0xc6, 0xc6, 0xde, 0xde, 0xde, 0xdc, 0xc0, 0x7c, 0, 0, 0, 0, 0]),
     (91, [0, 0, 0x3c, 0x30, 0x30, 0x30, 0x30, 0x30, 0x30, 0x30, 0x3c, 0, 0, 0, 0, 0]),
     (92, [0, 0, 0x60, 0x60, 0x30, 0x30, 0x18, 0xc, 0xc, 6, 6, 0, 0, 0, 0, 0]),
     (93, [0, 0, 0x3c, 0xc, 0xc, 0xc, 0xc, 0xc, 0xc, 0xc, 0x3c, 0, 0, 0, 0, 0]),
     (94, [0, 0, 0x10, 0x38, 0x6c, 0xc6, 0, 0, 0, 0, 0, 0, 0, 0, 0, 0]),
     (95, [0, 0, 0, 0, 0, 0, 0, 0, 0, 0, 0, 0xff, 0, 0, 0, 0]),
     (96, [0, 0, 0x18, 0x18, 0xc, 0, 0, 0, 0, 0, 0, 0, 0, 0, 0, 0]),
     (123, [0, 0, 0xe, 0x18, 0x18, 0x18, 0x70, 0x18, 0x18, 0x18, 0xe, 0, 0, 0, 0, 0]),
     (124, [0, 0, 0x18, 0x18, 0x18, 0x18, 0x18, 0x18, 0x18, 0x18, 0x18, 0, 0, 0, 0, 0]),
     (125, [0, 0, 0x70, 0x18, 0x18, 0x18, 0xe, 0x18, 0x18, 0x18, 0x70, 0, 0, 0, 0, 0]),
     (126, [0, 0, 0x76, 0xdc, 0, 0, 0, 0, 0, 0, 0, 0, 0, 0, 0, 0])]"

definition font :: "u8 \<Rightarrow> u8 list" where
  "font c = (case map_of font_table c of None \<Rightarrow> replicate 16 0 | Some g \<Rightarrow> g)"

section \<open>Setting up\<close>

definition fb_parse_tag :: "mem \<Rightarrow> u32 \<Rightarrow> u32 res option" where
  "fb_parse_tag m mb2_info = Option.bind (find_tag m 8 (mb2_info + 8)) (\<lambda>tag.
     if tag = 0 then Some (Inl (Panic ''fb_parse_tag() -> no framebuffer tag found in multiboot2 info''))
     else Some (Inr tag))"

primrec fb_map :: "nat \<Rightarrow> u32 \<Rightarrow> u32 \<Rightarrow> vm \<Rightarrow> vm res" where
  "fb_map 0 phys virt s = Inr s"
| "fb_map (Suc n) phys virt s =
     bind_res (map_page phys virt (PAGE_PRESENT OR PAGE_RW OR PAGE_PCD OR PAGE_PWT) s)
       (fb_map n (phys + 0x1000) (virt + 0x1000))"

definition fb_init :: "mem \<Rightarrow> u32 \<Rightarrow> framebuffer \<Rightarrow> 'd ksys \<Rightarrow> (framebuffer \<times> 'd ksys) res" where
  "fb_init m tag f s =
     (let width = load32 m (tag + 20); height = load32 m (tag + 24); pitch = load32 m (tag + 16);
          bpp = ucast (m (tag + 28)); phys = load32 m (tag + 8);
          size = height * pitch; pages = (size + 0xfff) div 0x1000
      in bind_res (with_vm (fb_map (unat pages) phys FRAMEBUFFER_OFFSET) s) (\<lambda>s.
         let f = f\<lparr>fb_phys := FRAMEBUFFER_OFFSET, fb_width := width, fb_height := height,
                   fb_pitch := pitch, fb_bpp := bpp, fb_size := size\<rparr>
         in bind_res (k_alloc_pages ((fb_size f + PAGE_SIZE - 1) div PAGE_SIZE) s) (\<lambda>(a, s).
              if a = 0 then Inl (Panic ''fb_init() -> failed to allocate back buffer'')
              else Inr (f\<lparr>fb_addr := a, fb_initialized := True\<rparr>, s))))"

section \<open>Copying and filling\<close>

text \<open>\<open>rep movsl\<close> and \<open>rep stosl\<close>.\<close>

primrec movsl :: "nat \<Rightarrow> u32 \<Rightarrow> u32 \<Rightarrow> mem \<Rightarrow> mem" where
  "movsl 0 src dst m = m"
| "movsl (Suc n) src dst m = movsl n (src + 4) (dst + 4) (store32 m dst (load32 m src))"

primrec stosl :: "nat \<Rightarrow> u32 \<Rightarrow> u32 \<Rightarrow> mem \<Rightarrow> mem" where
  "stosl 0 dst x m = m"
| "stosl (Suc n) dst x m = stosl n (dst + 4) x (store32 m dst x)"

definition fb_swap :: "framebuffer \<Rightarrow> framebuffer" where
  "fb_swap f = (if \<not> fb_initialized f then f
     else f\<lparr>fbmem := movsl (unat (fb_size f div 4)) (fb_addr f) (fb_phys f) (fbmem f)\<rparr>)"

definition fb_swap_rect :: "u32 \<Rightarrow> u32 \<Rightarrow> u32 \<Rightarrow> u32 \<Rightarrow> framebuffer \<Rightarrow> framebuffer" where
  "fb_swap_rect x y w h f = fold (\<lambda>r f.
       let off = of_nat r * fb_pitch f + x * 4
       in f\<lparr>fbmem := movsl (unat w) (fb_addr f + off) (fb_phys f + off) (fbmem f)\<rparr>)
     [unat y ..< min (unat (y + h)) (unat (fb_height f))] f"

definition fb_clear :: "u32 \<Rightarrow> framebuffer \<Rightarrow> framebuffer" where
  "fb_clear color f =
     f\<lparr>fbmem := stosl (unat (fb_height f * (fb_pitch f div 4))) (fb_addr f) color (fbmem f)\<rparr>"

section \<open>Pixels\<close>

definition pixel_addr :: "framebuffer \<Rightarrow> u32 \<Rightarrow> u32 \<Rightarrow> u32" where
  "pixel_addr f x y = fb_addr f + y * fb_pitch f + x * (fb_bpp f div 8)"

definition fb_get_pixel :: "u32 \<Rightarrow> u32 \<Rightarrow> framebuffer \<Rightarrow> u32" where
  "fb_get_pixel x y f = load32 (fbmem f) (pixel_addr f x y)"

definition fb_put_pixel :: "u32 \<Rightarrow> u32 \<Rightarrow> u32 \<Rightarrow> framebuffer \<Rightarrow> framebuffer" where
  "fb_put_pixel x y color f = f\<lparr>fbmem := store32 (fbmem f) (pixel_addr f x y) color\<rparr>"

definition fb_draw_char :: "u32 \<Rightarrow> u32 \<Rightarrow> u8 \<Rightarrow> u32 \<Rightarrow> u32 \<Rightarrow> framebuffer \<Rightarrow> framebuffer" where
  "fb_draw_char x y c fg bg f = fold (\<lambda>row.
       fold (\<lambda>col. fb_put_pixel (x + of_nat col) (y + of_nat row)
               (if font c ! row AND drop_bit col 0x80 \<noteq> 0 then fg else bg)) [0..<8]) [0..<16] f"

text \<open>The loops run while the position is below \<open>y + h\<close> and \<open>x + w\<close> as 32-bit numbers.\<close>

definition fb_fill_rect :: "u32 \<Rightarrow> u32 \<Rightarrow> u32 \<Rightarrow> u32 \<Rightarrow> u32 \<Rightarrow> framebuffer \<Rightarrow> framebuffer" where
  "fb_fill_rect x y w h color f = fold (\<lambda>py.
       fold (\<lambda>px. fb_put_pixel (of_nat px) (of_nat py) color) [unat x ..< unat (x + w)])
     [unat y ..< unat (y + h)] f"

section \<open>What drawing touches\<close>

text \<open>A 32-bit mode whose rows fit the pitch and whose buffer does not wrap.\<close>

definition fb_ok :: "framebuffer \<Rightarrow> bool" where
  "fb_ok f \<longleftrightarrow> fb_bpp f = 32 \<and> 4 * unat (fb_width f) \<le> unat (fb_pitch f)
     \<and> unat (fb_size f) = unat (fb_height f) * unat (fb_pitch f)
     \<and> unat (fb_addr f) + unat (fb_size f) \<le> 4294967296"

definition in_buffer :: "framebuffer \<Rightarrow> u32 \<Rightarrow> bool" where
  "in_buffer f a \<longleftrightarrow> unat (a - fb_addr f) < unat (fb_size f)"

text \<open>Everything but bytes of the buffer is as before.\<close>

definition draws :: "framebuffer \<Rightarrow> framebuffer \<Rightarrow> bool" where
  "draws f g \<longleftrightarrow> g = f\<lparr>fbmem := fbmem g\<rparr> \<and> (\<forall>a. \<not> in_buffer f a \<longrightarrow> fbmem g a = fbmem f a)"

lemma draws_refl [simp]: "draws f f"
  by (simp add: draws_def)

lemma draws_fields:
  assumes "draws f g"
  shows "fb_addr g = fb_addr f" "fb_width g = fb_width f" "fb_height g = fb_height f" "fb_bpp g = fb_bpp f"
    "fb_pitch g = fb_pitch f" "fb_size g = fb_size f" "fb_phys g = fb_phys f"
    "fb_initialized g = fb_initialized f" "fb_ok g = fb_ok f" "in_buffer g = in_buffer f" "pixel_addr g = pixel_addr f"
proof -
  have "g = f\<lparr>fbmem := fbmem g\<rparr>" using assms by (simp add: draws_def)
  then obtain m where "g = f\<lparr>fbmem := m\<rparr>" ..
  then show "fb_addr g = fb_addr f" "fb_width g = fb_width f" "fb_height g = fb_height f" "fb_bpp g = fb_bpp f"
    "fb_pitch g = fb_pitch f" "fb_size g = fb_size f" "fb_phys g = fb_phys f"
    "fb_initialized g = fb_initialized f" "fb_ok g = fb_ok f" "in_buffer g = in_buffer f" "pixel_addr g = pixel_addr f"
    by (simp_all add: fb_ok_def in_buffer_def pixel_addr_def fun_eq_iff)
qed

lemma draws_trans:
  assumes "draws f g" "draws g h"
  shows "draws f h"
proof -
  obtain m where m: "g = f\<lparr>fbmem := m\<rparr>" using assms(1) by (auto simp: draws_def)
  obtain m' where "h = g\<lparr>fbmem := m'\<rparr>" using assms(2) by (auto simp: draws_def)
  with m show ?thesis using assms by (auto simp: draws_def in_buffer_def)
qed

lemma draws_fold:
  assumes "\<And>x g. x \<in> set xs \<Longrightarrow> draws f g \<Longrightarrow> draws g (step x g)"
  shows "draws f (fold step xs f)"
proof -
  have "draws f g \<Longrightarrow> (\<And>x g. x \<in> set xs \<Longrightarrow> draws f g \<Longrightarrow> draws g (step x g)) \<Longrightarrow> draws f (fold step xs g)" for g
  proof (induction xs arbitrary: g)
    case (Cons a xs)
    have "draws f (step a g)" using Cons.prems by (intro draws_trans [OF Cons.prems(1)]) simp
    with Cons show ?case by simp
  qed simp
  from this [of f] assms show ?thesis by simp
qed

lemma draws_mem: "\<forall>a. \<not> in_buffer f a \<longrightarrow> m a = fbmem f a \<Longrightarrow> draws f (f\<lparr>fbmem := m\<rparr>)"
  by (simp add: draws_def)

lemma pixel_offset:
  assumes "fb_ok f" "x < fb_width f" "y < fb_height f" "k < 4"
  shows "in_buffer f (pixel_addr f x y + of_nat k)"
    and "unat (pixel_addr f x y - fb_addr f) = unat y * unat (fb_pitch f) + 4 * unat x"
proof -
  let ?o = "unat y * unat (fb_pitch f) + 4 * unat x"
  have "Suc (unat y) * unat (fb_pitch f) \<le> unat (fb_height f) * unat (fb_pitch f)"
    using assms(3) by (intro mult_right_mono) (simp_all add: word_less_nat_alt Suc_le_eq)
  then have "unat y * unat (fb_pitch f) + unat (fb_pitch f) \<le> unat (fb_size f)"
    using assms(1) by (simp add: fb_ok_def)
  moreover have "4 * unat x + 4 \<le> unat (fb_pitch f)"
    using assms(1,2) by (simp add: fb_ok_def word_less_nat_alt)
  ultimately have le: "?o + 4 \<le> unat (fb_size f)" by linarith
  moreover have "unat (fb_size f) < 4294967296" by simp
  ultimately have "?o < 4294967296" by linarith
  moreover have "pixel_addr f x y = fb_addr f + of_nat ?o"
    using assms(1) by (simp add: pixel_addr_def fb_ok_def mult.commute)
  ultimately show o: "unat (pixel_addr f x y - fb_addr f) = ?o"
    using unat_of_nat_u32 [of ?o] by (simp only: add_diff_cancel_left')
  have "unat (pixel_addr f x y + of_nat k - fb_addr f) = ?o + k"
  proof -
    have "pixel_addr f x y + of_nat k - fb_addr f = (pixel_addr f x y - fb_addr f) + of_nat k" by simp
    moreover have "unat (pixel_addr f x y - fb_addr f) + unat (of_nat k :: u32) < 4294967296"
    proof -
      have "unat (of_nat k :: u32) = k" using assms(4) by simp
      then show ?thesis using o le assms(4) \<open>unat (fb_size f) < 4294967296\<close> by linarith
    qed
    ultimately have "unat (pixel_addr f x y + of_nat k - fb_addr f) =
        unat (pixel_addr f x y - fb_addr f) + unat (of_nat k :: u32)" using unat_add_u32 by metis
    then show ?thesis using o assms(4) by simp
  qed
  then show "in_buffer f (pixel_addr f x y + of_nat k)" using le assms(4) by (simp add: in_buffer_def)
qed

lemma put_pixel_draws:
  assumes "fb_ok f" "x < fb_width f" "y < fb_height f"
  shows "draws f (fb_put_pixel x y color f)"
proof -
  have "a \<noteq> pixel_addr f x y + of_nat k" if "\<not> in_buffer f a" "k < 4" for a k
    using pixel_offset(1) [OF assms, of k] that by auto
  from this [of _ 0] this [of _ 1] this [of _ 2] this [of _ 3] show ?thesis
    unfolding fb_put_pixel_def by (intro draws_mem) (simp add: store32_def)
qed

lemma draw_char_draws:
  assumes "fb_ok f" "unat x + 8 \<le> unat (fb_width f)" "unat y + 16 \<le> unat (fb_height f)"
  shows "draws f (fb_draw_char x y c fg bg f)"
  unfolding fb_draw_char_def
proof (intro draws_fold)
  fix row col g h
  assume row: "row \<in> set [0..<16]" "draws f g" and col: "col \<in> set [0..<8]" "draws g h"
  have w: "unat x + 8 \<le> 4294967296" "unat y + 16 \<le> 4294967296"
    using assms(2,3) unat_u32_bound [of "fb_width f"] unat_u32_bound [of "fb_height f"] by linarith+
  have "unat (x + of_nat col) = unat x + col" "unat (y + of_nat row) = unat y + row"
    using row(1) col(1) w by (simp_all add: unat_add_u32)
  then have "x + of_nat col < fb_width h" "y + of_nat row < fb_height h"
    using assms(2,3) row col draws_fields [OF row(2)] draws_fields [OF col(2)] by (simp_all add: word_less_nat_alt)
  then show "draws h (fb_put_pixel (x + of_nat col) (y + of_nat row)
      (if font c ! row AND drop_bit col 0x80 \<noteq> 0 then fg else bg) h)"
    using assms(1) draws_fields [OF row(2)] draws_fields [OF col(2)] by (intro put_pixel_draws) simp_all
qed

lemma fill_rect_draws:
  assumes "fb_ok f" "unat x + unat w \<le> unat (fb_width f)" "unat y + unat h \<le> unat (fb_height f)"
  shows "draws f (fb_fill_rect x y w h color f)"
  unfolding fb_fill_rect_def
proof (intro draws_fold)
  fix py px g k
  assume py: "py \<in> set [unat y..<unat (y + h)]" "draws f g" and px: "px \<in> set [unat x..<unat (x + w)]" "draws g k"
  have b: "unat x + unat w < 4294967296" "unat y + unat h < 4294967296"
    using assms(2,3) unat_u32_bound [of "fb_width f"] unat_u32_bound [of "fb_height f"] by linarith+
  then have "py < unat (fb_height f)" "px < unat (fb_width f)"
    using py(1) px(1) assms(2,3) by (simp_all add: unat_add_u32)
  moreover have "py < 4294967296" "px < 4294967296" using py(1) px(1) b by (simp_all add: unat_add_u32)
  ultimately have "of_nat px < fb_width k" "of_nat py < fb_height k"
    using draws_fields [OF py(2)] draws_fields [OF px(2)] by (simp_all add: word_less_nat_alt)
  then show "draws k (fb_put_pixel (of_nat px) (of_nat py) color k)"
    using assms(1) draws_fields [OF py(2)] draws_fields [OF px(2)] by (intro put_pixel_draws) simp_all
qed

end
