(* ===== verification/Devfs.thy ===== *)
theory Devfs
  imports Vfs Framebuffer
begin

text \<open>
  The device file system, \<open>src/devfs/devfs.c\<close>, and the devices that need nothing else:
  \<open>devices/null\<close>, \<open>devices/zero\<close> and \<open>devices/fb\<close>. The registry is the list of its first
  \<open>registry_count\<close> entries; an entry is never removed.
\<close>

section \<open>State\<close>

definition DEVFS_MAX_DEVICES :: nat where "DEVFS_MAX_DEVICES = 64"

record devfs_entry =
  dname :: "u8 list"
  dops :: u32
  dprivate :: u32
  dflags :: u32
  active :: bool

record devfs =
  registry :: "devfs_entry list"
  devfs_root :: u32
  devfs_root_ops :: u32

section \<open>devfs.c\<close>

definition devfs_register :: "u8 list \<Rightarrow> u32 \<Rightarrow> u32 \<Rightarrow> u32 \<Rightarrow> devfs \<Rightarrow> u32 \<times> devfs" where
  "devfs_register name oa priv flags d =
     (if length (registry d) \<ge> DEVFS_MAX_DEVICES then (-1, d)
      else (0, d\<lparr>registry := registry d @ [\<lparr>dname = take 63 name, dops = oa, dprivate = priv, dflags = flags,
                                                active = True\<rparr>]\<rparr>))"

text \<open>A fresh vnode: \<open>memset\<close> to zero, then the fields set.\<close>

definition zero_vnode :: vnode where
  "zero_vnode = \<lparr>inode = 0, vflags = 0, vuid = 0, vgid = 0, vsize = 0, permissions = 0, ops = 0, vmount = 0,
     mounted_here = 0, private_data = 0\<rparr>"

definition devfs_vnode_from_entry :: "devfs_entry \<Rightarrow> 'd ksys \<Rightarrow> (u32 \<times> 'd ksys) res" where
  "devfs_vnode_from_entry e s = bind_res (k_malloc sizeof_vnode s) (\<lambda>(node, s).
     if node = 0 then Inr (0, s)
     else Inr (node, put_vnode node (zero_vnode\<lparr>ops := dops e, vflags := dflags e, private_data := dprivate e\<rparr>) s))"

primrec find_device :: "u8 list \<Rightarrow> devfs_entry list \<Rightarrow> devfs_entry option" where
  "find_device name [] = None"
| "find_device name (e # es) = (if active e \<and> strcmp_l (dname e) name = 0 then Some e else find_device name es)"

definition devfs_root_finddir :: "('d, devfs) part \<Rightarrow> u32 \<Rightarrow> u8 list \<Rightarrow> 'd ksys \<Rightarrow> (u32 \<times> 'd ksys) res" where
  "devfs_root_finddir L node name s = (case find_device name (registry (dget L s)) of
       None \<Rightarrow> Inr (0, s)
     | Some e \<Rightarrow> devfs_vnode_from_entry e s)"

primrec nth_device :: "devfs_entry list \<Rightarrow> u32 \<Rightarrow> u32 \<Rightarrow> devfs_entry option" where
  "nth_device [] found index = None"
| "nth_device (e # es) found index =
     (if \<not> active e then nth_device es found index
      else if found = index then Some e else nth_device es (found + 1) index)"

definition devfs_root_readdir ::
  "('d, devfs) part \<Rightarrow> u32 \<Rightarrow> u32 \<Rightarrow> u32 \<Rightarrow> u32 \<Rightarrow> 'd ksys \<Rightarrow> (u32 \<times> 'd ksys) res" where
  "devfs_root_readdir L node index name_out name_max s =
     (case nth_device (registry (dget L s)) 0 index of
       None \<Rightarrow> Inr (-1, s)
     | Some e \<Rightarrow>
         bind_res (k_write (strncpy_l (unat (name_max - 1)) (dname e) @ [0]) name_out s) (\<lambda>s. Inr (0, s)))"

definition devfs_root_ops_table :: "('d, devfs) part \<Rightarrow> 'd vnode_ops" where
  "devfs_root_ops_table L = no_ops\<lparr>op_finddir := Some (devfs_root_finddir L),
     op_readdir := Some (devfs_root_readdir L)\<rparr>"

definition devfs_mount :: "('d, devfs) part \<Rightarrow> nat \<Rightarrow> u32 \<Rightarrow> 'd ksys \<Rightarrow> (u32 \<times> 'd ksys) res" where
  "devfs_mount L mnt device s = bind_res (k_malloc sizeof_vnode s) (\<lambda>(node, s).
     let s = dput L ((dget L s)\<lparr>devfs_root := node\<rparr>) s in
     if node = 0 then Inr (-1, s)
     else Inr (0, put_vnode node
            (zero_vnode\<lparr>vflags := VFS_DIRECTORY, ops := devfs_root_ops (dget L s)\<rparr>) s))"

definition devfs_unmount :: "('d, devfs) part \<Rightarrow> nat \<Rightarrow> 'd ksys \<Rightarrow> (u32 \<times> 'd ksys) res" where
  "devfs_unmount L mnt s = bind_res (k_free (devfs_root (dget L s)) s) (\<lambda>s.
     Inr (0, dput L ((dget L s)\<lparr>devfs_root := 0\<rparr>) s))"

definition devfs_get_root :: "('d, devfs) part \<Rightarrow> nat \<Rightarrow> 'd ksys \<Rightarrow> (u32 \<times> 'd ksys) res" where
  "devfs_get_root L mnt s = Inr (devfs_root (dget L s), s)"

definition devfs_driver :: "('d, devfs) part \<Rightarrow> 'd fs_driver" where
  "devfs_driver L = \<lparr>dr_mount = devfs_mount L, dr_unmount = Some (devfs_unmount L), dr_get_root = devfs_get_root L\<rparr>"

section \<open>null.c and zero.c\<close>

definition null_read :: "u32 \<Rightarrow> u32 \<Rightarrow> u32 \<Rightarrow> u32 \<Rightarrow> 'd ksys \<Rightarrow> (u32 \<times> 'd ksys) res" where
  "null_read node buf len off s = Inr (0, s)"

definition null_write :: "u32 \<Rightarrow> u32 \<Rightarrow> u32 \<Rightarrow> u32 \<Rightarrow> 'd ksys \<Rightarrow> (u32 \<times> 'd ksys) res" where
  "null_write node buf len off s = Inr (len, s)"

definition null_ops :: "'d vnode_ops" where
  "null_ops = no_ops\<lparr>op_read := Some null_read, op_write := Some null_write\<rparr>"

definition null_init :: "u32 \<Rightarrow> devfs \<Rightarrow> devfs" where
  "null_init oa d = snd (devfs_register [0x6e, 0x75, 0x6c, 0x6c] oa 0 VFS_CHARDEV d)"

definition zero_read :: "u32 \<Rightarrow> u32 \<Rightarrow> u32 \<Rightarrow> u32 \<Rightarrow> 'd ksys \<Rightarrow> (u32 \<times> 'd ksys) res" where
  "zero_read node buf len off s =
     bind_res (k_write (replicate (unat len) 0) buf s) (\<lambda>s. Inr (len, s))"

definition zero_write :: "u32 \<Rightarrow> u32 \<Rightarrow> u32 \<Rightarrow> u32 \<Rightarrow> 'd ksys \<Rightarrow> (u32 \<times> 'd ksys) res" where
  "zero_write node buf len off s = Inr (len, s)"

definition zero_ops :: "'d vnode_ops" where
  "zero_ops = no_ops\<lparr>op_read := Some zero_read, op_write := Some zero_write\<rparr>"

definition zero_init :: "u32 \<Rightarrow> devfs \<Rightarrow> devfs" where
  "zero_init oa d = snd (devfs_register [0x7a, 0x65, 0x72, 0x6f] oa 0 VFS_CHARDEV d)"

section \<open>fb.c\<close>

text \<open>The \<open>fb_info_t\<close> behind \<open>private_data\<close>.\<close>

record fb_info =
  fi_phys :: u32
  fi_virt :: u32
  fi_width :: u32
  fi_height :: u32
  fi_pitch :: u32
  fi_bpp :: u32

type_synonym fb_infos = "u32 \<Rightarrow> fb_info option"

definition FB_GET_INFO :: u32 where "FB_GET_INFO = 0x01"
definition sizeof_fb_info :: u32 where "sizeof_fb_info = 24"

definition fb_info_of :: "('d, fb_infos) part \<Rightarrow> u32 \<Rightarrow> 'd ksys \<Rightarrow> fb_info res" where
  "fb_info_of L node s = bind_res (vnode_at node s) (\<lambda>v.
     case dget L s (private_data v) of None \<Rightarrow> Inl (Fault ''no fb_info'') | Some i \<Rightarrow> Inr i)"

definition fb_read :: "('d, fb_infos) part \<Rightarrow> u32 \<Rightarrow> u32 \<Rightarrow> u32 \<Rightarrow> u32 \<Rightarrow> 'd ksys \<Rightarrow> (u32 \<times> 'd ksys) res" where
  "fb_read L node buf len off s = bind_res (fb_info_of L node s) (\<lambda>i.
     let size = fi_pitch i * fi_width i in
     if off \<ge> size then Inr (0, s)
     else let available = size - off; n = (if len < available then len else available) in
       bind_res (k_read (unat n) (fi_virt i + off) s) (\<lambda>bytes.
       bind_res (k_write bytes buf s) (\<lambda>s. Inr (n, s))))"

definition fb_write :: "('d, fb_infos) part \<Rightarrow> u32 \<Rightarrow> u32 \<Rightarrow> u32 \<Rightarrow> u32 \<Rightarrow> 'd ksys \<Rightarrow> (u32 \<times> 'd ksys) res" where
  "fb_write L node buf len off s = bind_res (fb_info_of L node s) (\<lambda>i.
     let size = fi_pitch i * fi_width i in
     if off \<ge> size then Inr (0, s)
     else let available = size - off; n = (if len < available then len else available) in
       bind_res (k_read (unat n) buf s) (\<lambda>bytes.
       bind_res (k_write bytes (fi_virt i + off) s) (\<lambda>s. Inr (n, s))))"

definition fb_info_bytes :: "fb_info \<Rightarrow> u8 list" where
  "fb_info_bytes i = concat (map word_bytes [fi_phys i, fi_virt i, fi_width i, fi_height i, fi_pitch i, fi_bpp i])"

definition fb_ioctl :: "('d, fb_infos) part \<Rightarrow> u32 \<Rightarrow> u32 \<Rightarrow> u32 \<Rightarrow> 'd ksys \<Rightarrow> (u32 \<times> 'd ksys) res" where
  "fb_ioctl L node request arg s = bind_res (fb_info_of L node s) (\<lambda>i.
     if request = FB_GET_INFO then bind_res (k_write (fb_info_bytes i) arg s) (\<lambda>s. Inr (0, s))
     else Inr (-1, s))"

definition fb_ops :: "('d, fb_infos) part \<Rightarrow> 'd vnode_ops" where
  "fb_ops L = no_ops\<lparr>op_read := Some (fb_read L), op_write := Some (fb_write L), op_ioctl := Some (fb_ioctl L)\<rparr>"

definition fb_register ::
  "('d, fb_infos) part \<Rightarrow> ('d, devfs) part \<Rightarrow> u32 \<Rightarrow> fb_info \<Rightarrow> 'd ksys \<Rightarrow> 'd ksys res" where
  "fb_register L D oa i s = bind_res (k_malloc sizeof_fb_info s) (\<lambda>(p, s).
     let s = dput L ((dget L s)(p \<mapsto> i)) s
     in Inr (dput D (snd (devfs_register [0x66, 0x62, 0x30] oa p VFS_CHARDEV (dget D s))) s))"

section \<open>Properties\<close>

text \<open>Registrations in a row.\<close>

definition register_all :: "(u8 list \<times> u32 \<times> u32 \<times> u32) list \<Rightarrow> devfs \<Rightarrow> devfs" where
  "register_all rs d = fold (\<lambda>(name, oa, priv, flags) d. snd (devfs_register name oa priv flags d)) rs d"

definition entry_of :: "u8 list \<times> u32 \<times> u32 \<times> u32 \<Rightarrow> devfs_entry" where
  "entry_of = (\<lambda>(name, oa, priv, flags). \<lparr>dname = take 63 name, dops = oa, dprivate = priv, dflags = flags, active = True\<rparr>)"

lemma register_all_registry:
  "length (registry d) \<le> DEVFS_MAX_DEVICES \<Longrightarrow>
    registry (register_all rs d) = take DEVFS_MAX_DEVICES (registry d @ map entry_of rs)"
proof (induction rs arbitrary: d)
  case Nil
  then show ?case by (simp add: register_all_def)
next
  case (Cons r rs)
  obtain name oa priv flags where r: "r = (name, oa, priv, flags)" by (cases r)
  let ?d = "snd (devfs_register name oa priv flags d)"
  have "registry (register_all rs ?d) = take DEVFS_MAX_DEVICES (registry ?d @ map entry_of rs)"
    using Cons.prems by (intro Cons.IH) (simp add: devfs_register_def)
  moreover have "register_all (r # rs) d = register_all rs ?d" by (simp add: register_all_def r)
  moreover have "registry ?d = (if length (registry d) = DEVFS_MAX_DEVICES then registry d else registry d @ [entry_of r])"
    using Cons.prems by (simp add: devfs_register_def entry_of_def r)
  ultimately show ?case using Cons.prems by (auto simp: Suc_diff_Suc take_Cons')
qed

lemma find_device_spec:
  assumes "\<forall>e \<in> set es. active e \<and> 0 \<notin> set (dname e)" "0 \<notin> set name"
  shows "find_device name es = List.find (\<lambda>e. dname e = name) es"
  using assms by (induction es) (auto simp: strcmp_l_0)

lemma nth_device_spec:
  assumes "\<forall>e \<in> set es. active e" "length es + unat (found :: u32) < 4294967296"
  shows "nth_device es found index =
    (if found \<le> index \<and> unat (index - found) < length es then Some (es ! unat (index - found)) else None)"
  using assms
proof (induction es arbitrary: found)
  case (Cons e es)
  show ?case
  proof (cases "found = index")
    case False
    have "unat found < 4294967295" using Cons.prems by simp
    note I = index_step_u32 [OF False this]
    show ?thesis using False Cons.IH [of "found + 1"] Cons.prems I by auto
  qed (use Cons.prems in simp)
qed simp

lemma find_map_comp: "List.find P (map f xs) = map_option f (List.find (P \<circ> f) xs)"
  by (induction xs) auto

text \<open>C19: the devices of any series of registrations from the empty registry are served, the first 64 of
  them, under the first 63 bytes of their names: \<open>finddir\<close> gives a new vnode with the operations, the
  private data and the flags of the first device with the name, or nothing; \<open>readdir\<close> lists the names
  in the order of registration.\<close>

theorem devfs_serves_registered:
  assumes "dget L s = register_all rs d" "registry d = []" "\<forall>r \<in> set rs. 0 \<notin> set (fst r)" "0 \<notin> set name"
  shows "devfs_root_finddir L node name s =
      (case List.find (\<lambda>r. take 63 (fst r) = name) (take 64 rs) of
         None \<Rightarrow> Inr (0, s)
       | Some (nm, oa, priv, flags) \<Rightarrow> bind_res (k_malloc sizeof_vnode s) (\<lambda>(v, s).
           if v = 0 then Inr (0, s)
           else Inr (v, put_vnode v (zero_vnode\<lparr>ops := oa, vflags := flags, private_data := priv\<rparr>) s)))
    \<and> devfs_root_readdir L node index name_out name_max s =
      (if unat index < min 64 (length rs)
       then bind_res (k_write (strncpy_l (unat (name_max - 1)) (take 63 (fst (rs ! unat index))) @ [0]) name_out s)
              (\<lambda>s. Inr (0, s))
       else Inr (-1, s))"
proof
  let ?es = "map entry_of (take 64 rs)"
  have reg: "registry (dget L s) = ?es"
    using register_all_registry [of d rs] assms(1,2) by (simp add: DEVFS_MAX_DEVICES_def take_map)
  have act: "\<forall>e \<in> set ?es. active e \<and> 0 \<notin> set (dname e)"
    using assms(3) by (fastforce simp: entry_of_def dest: in_set_takeD)
  have name: "(\<lambda>e. dname e = name) \<circ> entry_of = (\<lambda>r. take 63 (fst r) = name)"
    by (auto simp: fun_eq_iff entry_of_def)
  show "devfs_root_finddir L node name s = (case List.find (\<lambda>r. take 63 (fst r) = name) (take 64 rs) of
         None \<Rightarrow> Inr (0, s)
       | Some (nm, oa, priv, flags) \<Rightarrow> bind_res (k_malloc sizeof_vnode s) (\<lambda>(v, s).
           if v = 0 then Inr (0, s)
           else Inr (v, put_vnode v (zero_vnode\<lparr>ops := oa, vflags := flags, private_data := priv\<rparr>) s)))"
  proof -
    have "find_device name ?es = map_option entry_of (List.find (\<lambda>r. take 63 (fst r) = name) (take 64 rs))"
      using find_device_spec [OF act assms(4)] by (simp only: find_map_comp name)
    then show ?thesis
      by (cases "List.find (\<lambda>r. take 63 (fst r) = name) (take 64 rs)")
        (auto simp: devfs_root_finddir_def reg devfs_vnode_from_entry_def entry_of_def cong: if_cong)
  qed
  have "length ?es + unat (0 :: u32) < 4294967296" by simp
  from nth_device_spec [OF _ this, of index] act have "nth_device ?es 0 index =
      (if unat index < length ?es then Some (?es ! unat index) else None)" by simp
  moreover have "dname (?es ! i) = take 63 (fst (rs ! i))" if "i < length ?es" for i
    using that by (simp add: entry_of_def split: prod.split)
  ultimately show "devfs_root_readdir L node index name_out name_max s =
      (if unat index < min 64 (length rs)
       then bind_res (k_write (strncpy_l (unat (name_max - 1)) (take 63 (fst (rs ! unat index))) @ [0]) name_out s)
              (\<lambda>s. Inr (0, s))
       else Inr (-1, s))"
    by (simp add: devfs_root_readdir_def reg min.commute)
qed

definition two_devices :: "(u8 list \<times> u32 \<times> u32 \<times> u32) list" where
  "two_devices = [([0x6e, 0x75, 0x6c, 0x6c], 0x700, 0, VFS_CHARDEV), ([0x7a, 0x65, 0x72, 0x6f], 0x720, 0, VFS_CHARDEV)]"

definition no_devices :: devfs where
  "no_devices = \<lparr>registry = [], devfs_root = 0, devfs_root_ops = 0x680\<rparr>"

lemma devfs_serves_registered_witness:
  "devfs_root_finddir whole 0x100 [0x6e, 0x6f] (vfs_sys (register_all two_devices no_devices) 0) =
     Inr (0, vfs_sys (register_all two_devices no_devices) 0) \<and>
   devfs_root_readdir whole 0x100 2 0x8000 32 (vfs_sys (register_all two_devices no_devices) 0) =
     Inr (-1, vfs_sys (register_all two_devices no_devices) 0)"
  using devfs_serves_registered [of whole "vfs_sys (register_all two_devices no_devices) 0" two_devices no_devices
      "[0x6e, 0x6f]" "0x100" 2 "0x8000" 32]
  by (simp add: dget_def whole_def vfs_sys_def two_devices_def no_devices_def)

end
