(* ===== verification/Console.thy ===== *)
theory Console
  imports Framebuffer
begin

text \<open>
  The text console, \<open>src/framebuffer/console.c\<close>: 8 by 16 pixel cells on the back buffer, a cursor,
  scrolling by a line. \<open>cursor_x\<close> and \<open>cursor_y\<close> are C \<open>int\<close>s kept as words; the code compares
  them with the unsigned \<open>console_cols\<close> and \<open>console_rows\<close>.
\<close>

section \<open>State and operations\<close>

record console =
  fb :: framebuffer
  console_cols :: u32
  console_rows :: u32
  console_bg :: u32
  console_fg :: u32
  cursor_x :: u32
  cursor_y :: u32
  cursor_visible :: bool

definition on_fb :: "(framebuffer \<Rightarrow> framebuffer) \<Rightarrow> console \<Rightarrow> console" where
  "on_fb d c = c\<lparr>fb := d (fb c)\<rparr>"

definition console_init :: "console \<Rightarrow> console" where
  "console_init c = (let c = c\<lparr>console_cols := fb_width (fb c) div 8, console_rows := fb_height (fb c) div 16,
       console_bg := 0xff233c67, console_fg := 0xffededed, cursor_x := 0, cursor_y := 0\<rparr>
     in on_fb (fb_clear (console_bg c)) c)"

definition scroll_up :: "framebuffer \<Rightarrow> framebuffer" where
  "scroll_up f = (let row_bytes = fb_pitch f * 16; total_bytes = fb_pitch f * fb_height f
     in f\<lparr>fbmem := memmove (fbmem f) (fb_addr f) (fb_addr f + row_bytes) (total_bytes - row_bytes)\<rparr>)"

definition console_scroll :: "console \<Rightarrow> console" where
  "console_scroll c = on_fb (\<lambda>f. fb_fill_rect 0 (fb_height f - 16) (fb_width f) 16 (console_bg c) (scroll_up f)) c"

definition console_draw_cursor :: "console \<Rightarrow> console" where
  "console_draw_cursor c = on_fb (fb_fill_rect (cursor_x c * 8) (cursor_y c * 16) 8 16 (console_fg c)) c"

definition console_clear_cursor :: "console \<Rightarrow> console" where
  "console_clear_cursor c = on_fb (fb_fill_rect (cursor_x c * 8) (cursor_y c * 16) 8 16 (console_bg c)) c"

definition console_update_cursor :: "console \<Rightarrow> console" where
  "console_update_cursor c = (if cursor_visible c then console_draw_cursor c else console_clear_cursor c)"

definition console_toggle_cursor :: "console \<Rightarrow> console" where
  "console_toggle_cursor c = console_update_cursor (c\<lparr>cursor_visible := \<not> cursor_visible c\<rparr>)"

definition draw_at_cursor :: "u8 \<Rightarrow> console \<Rightarrow> console" where
  "draw_at_cursor ch c =
     on_fb (fb_draw_char (cursor_x c * 8) (cursor_y c * 16) ch (console_fg c) (console_bg c)) c"

text \<open>The cases of \<open>console_putchar\<close>.\<close>

definition console_cell :: "u8 \<Rightarrow> console \<Rightarrow> console" where
  "console_cell ch c =
     (if ch = 0x0a then c\<lparr>cursor_x := 0, cursor_y := cursor_y c + 1\<rparr>
      else if ch = 0x0d then c\<lparr>cursor_x := 0\<rparr>
      else if ch = 0x08
      then draw_at_cursor 0x20
             (if sint (cursor_x c) > 0 then c\<lparr>cursor_x := cursor_x c - 1\<rparr>
              else if sint (cursor_y c) > 0
              then c\<lparr>cursor_y := cursor_y c - 1, cursor_x := console_cols c - 1\<rparr> else c)
      else let c = (if cursor_x c \<ge> console_cols c - 1 then c\<lparr>cursor_x := 0, cursor_y := cursor_y c + 1\<rparr> else c);
               c = draw_at_cursor ch c
           in c\<lparr>cursor_x := cursor_x c + 1\<rparr>)"

definition console_putchar :: "u8 \<Rightarrow> console \<Rightarrow> console" where
  "console_putchar ch c =
     (let c = console_cell ch (console_clear_cursor c);
          c = (if cursor_y c \<ge> console_rows c
               then (console_scroll c)\<lparr>cursor_y := console_rows c - 1\<rparr> else c)
      in (console_draw_cursor c)\<lparr>cursor_visible := True\<rparr>)"

section \<open>The cursor stays on the screen\<close>

definition console_ok :: "console \<Rightarrow> bool" where
  "console_ok c \<longleftrightarrow> fb_ok (fb c) \<and> console_cols c = fb_width (fb c) div 8
     \<and> console_rows c = fb_height (fb c) div 16 \<and> 2 \<le> unat (console_cols c) \<and> 1 \<le> unat (console_rows c)
     \<and> unat (cursor_x c) < unat (console_cols c) \<and> unat (cursor_y c) < unat (console_rows c)"

text \<open>The character that does not fit on the bottom line.\<close>

definition wraps_at_bottom :: "u8 \<Rightarrow> console \<Rightarrow> bool" where
  "wraps_at_bottom ch c \<longleftrightarrow> ch \<notin> {0x08, 0x0a, 0x0d} \<and> cursor_x c = console_cols c - 1
     \<and> cursor_y c = console_rows c - 1"

text \<open>The same console but for the cursor and what is drawn.\<close>

definition redraws :: "console \<Rightarrow> console \<Rightarrow> bool" where
  "redraws c d \<longleftrightarrow> draws (fb c) (fb d) \<and> console_cols d = console_cols c \<and> console_rows d = console_rows c
     \<and> console_bg d = console_bg c \<and> console_fg d = console_fg c"

lemma redraws_refl [simp]: "redraws c c"
  by (simp add: redraws_def)

lemma redraws_trans: "redraws c d \<Longrightarrow> redraws d e \<Longrightarrow> redraws c e"
  by (auto simp: redraws_def intro: draws_trans)

lemma redraws_cursor [simp]:
  "redraws c (d\<lparr>cursor_x := x\<rparr>) = redraws c d" "redraws c (d\<lparr>cursor_y := y\<rparr>) = redraws c d"
  "redraws c (d\<lparr>cursor_visible := v\<rparr>) = redraws c d"
  "redraws (c\<lparr>cursor_x := x\<rparr>) d = redraws c d" "redraws (c\<lparr>cursor_y := y\<rparr>) d = redraws c d"
  by (simp_all add: redraws_def)

definition cell_on_screen :: "console \<Rightarrow> bool" where
  "cell_on_screen c \<longleftrightarrow> fb_ok (fb c) \<and> console_cols c = fb_width (fb c) div 8
     \<and> console_rows c = fb_height (fb c) div 16
     \<and> unat (cursor_x c) < unat (console_cols c) \<and> unat (cursor_y c) < unat (console_rows c)"

lemma cell_bounds:
  assumes "cell_on_screen c"
  shows "unat (cursor_x c * 8) + 8 \<le> unat (fb_width (fb c))" "unat (cursor_y c * 16) + 16 \<le> unat (fb_height (fb c))"
proof -
  have x: "unat (cursor_x c) < unat (fb_width (fb c)) div 8" "unat (cursor_y c) < unat (fb_height (fb c)) div 16"
    using assms by (auto simp: cell_on_screen_def unat_div)
  then have b: "unat (cursor_x c) * 8 + 8 \<le> unat (fb_width (fb c))" "unat (cursor_y c) * 16 + 16 \<le> unat (fb_height (fb c))"
    by linarith+
  then have "unat (cursor_x c) * 8 < 4294967296" "unat (cursor_y c) * 16 < 4294967296"
    using unat_u32_bound [of "fb_width (fb c)"] unat_u32_bound [of "fb_height (fb c)"] by linarith+
  then have "unat (cursor_x c * 8) = unat (cursor_x c) * 8" "unat (cursor_y c * 16) = unat (cursor_y c) * 16"
    using unat_mult_u32 [of "cursor_x c" 8] unat_mult_u32 [of "cursor_y c" 16] by simp_all
  with b show "unat (cursor_x c * 8) + 8 \<le> unat (fb_width (fb c))"
    "unat (cursor_y c * 16) + 16 \<le> unat (fb_height (fb c))" by simp_all
qed

lemma cursor_redraws:
  assumes "cell_on_screen c"
  shows "redraws c (console_draw_cursor c)" "redraws c (console_clear_cursor c)" "redraws c (draw_at_cursor ch c)"
  using cell_bounds [OF assms] assms
  by (auto simp: redraws_def console_draw_cursor_def console_clear_cursor_def draw_at_cursor_def on_fb_def
      cell_on_screen_def intro!: fill_rect_draws draw_char_draws)

lemma scroll_up_draws:
  assumes "fb_ok f" "16 \<le> unat (fb_height f)"
  shows "draws f (scroll_up f)"
    and "fbmem (scroll_up f) b = (if unat (b - fb_addr f) < unat (fb_size f) - 16 * unat (fb_pitch f)
       then fbmem f (fb_addr f + fb_pitch f * 16 + (b - fb_addr f)) else fbmem f b)"
    and "unat a + 16 * unat (fb_pitch f) < unat (fb_size f) \<Longrightarrow>
      fbmem (scroll_up f) (fb_addr f + a) = fbmem f (fb_addr f + a + 16 * fb_pitch f)"
proof -
  have le: "16 * unat (fb_pitch f) \<le> unat (fb_size f)"
    using assms by (simp add: fb_ok_def)
  have "unat (fb_pitch f) * 16 < 4294967296" using le unat_u32_bound [of "fb_size f"] by linarith
  then have rb: "unat (fb_pitch f * 16) = 16 * unat (fb_pitch f)"
    using unat_mult_u32 [of "fb_pitch f" 16] by simp
  have tot: "fb_pitch f * fb_height f = fb_size f"
    using assms(1) unat_u32_bound [of "fb_size f"]
    by (intro unat_inj_u32) (simp add: fb_ok_def unat_mult_u32 mult.commute)
  have n: "unat (fb_size f - fb_pitch f * 16) = unat (fb_size f) - 16 * unat (fb_pitch f)"
    using le rb by (simp add: unat_sub_u32)
  have ad: "unat (fb_addr f) + unat (fb_size f) \<le> 4294967296" using assms(1) by (simp add: fb_ok_def)
  have at: "memmove (fbmem f) (fb_addr f) (fb_addr f + fb_pitch f * 16) (fb_size f - fb_pitch f * 16) a =
      (if unat (a - fb_addr f) < unat (fb_size f) - 16 * unat (fb_pitch f)
       then fbmem f (fb_addr f + fb_pitch f * 16 + (a - fb_addr f)) else fbmem f a)" for a
  proof (cases "unat (fb_size f) = 16 * unat (fb_pitch f)")
    case True
    then have "fb_size f - fb_pitch f * 16 = 0" using n by (simp add: unat_eq_0)
    then show ?thesis using True by (simp add: memmove_def)
  next
    case False
    then have "unat (fb_addr f) + unat (fb_pitch f * 16) < 4294967296" using ad le rb by linarith
    then have "unat (fb_addr f + fb_pitch f * 16) = unat (fb_addr f) + 16 * unat (fb_pitch f)"
      using rb by (simp add: unat_add_u32)
    then show ?thesis using memmove_at [of "fb_addr f" "fb_size f - fb_pitch f * 16" "fb_addr f + fb_pitch f * 16" "fbmem f" a] ad le n
      by simp
  qed
  show "draws f (scroll_up f)"
    unfolding scroll_up_def Let_def tot by (intro draws_mem) (auto simp: at in_buffer_def)
  show "fbmem (scroll_up f) b = (if unat (b - fb_addr f) < unat (fb_size f) - 16 * unat (fb_pitch f)
       then fbmem f (fb_addr f + fb_pitch f * 16 + (b - fb_addr f)) else fbmem f b)"
    by (simp only: scroll_up_def Let_def tot) (simp add: at)
  show "fbmem (scroll_up f) (fb_addr f + a) = fbmem f (fb_addr f + a + 16 * fb_pitch f)"
    if "unat a + 16 * unat (fb_pitch f) < unat (fb_size f)"
  proof -
    have "unat a < unat (fb_size f) - 16 * unat (fb_pitch f)" using that by linarith
    then show ?thesis by (simp only: scroll_up_def Let_def tot) (simp add: at ac_simps)
  qed
qed


lemma console_scroll_redraws:
  assumes "fb_ok (fb c)" "16 \<le> unat (fb_height (fb c))"
  shows "redraws c (console_scroll c)"
proof -
  note S = scroll_up_draws(1) [OF assms] and F = draws_fields [OF scroll_up_draws(1) [OF assms]]
  have "unat (fb_height (fb c) - 16) + 16 = unat (fb_height (fb c))" using assms(2) by (simp add: unat_sub_u32)
  then have "draws (scroll_up (fb c)) (fb_fill_rect 0 (fb_height (fb c) - 16) (fb_width (fb c)) 16 (console_bg c) (scroll_up (fb c)))"
    using assms(1) F by (intro fill_rect_draws) simp_all
  with S show ?thesis by (auto simp: redraws_def console_scroll_def on_fb_def intro: draws_trans)
qed

lemma console_scroll_cursor [simp]: "cursor_x (console_scroll c) = cursor_x c" "console_rows (console_scroll c) = console_rows c"
  by (simp_all add: console_scroll_def on_fb_def)

lemma draw_cursor_fields [simp]:
  "cursor_x (console_draw_cursor c) = cursor_x c" "cursor_y (console_draw_cursor c) = cursor_y c"
  "cursor_x (console_clear_cursor c) = cursor_x c" "cursor_y (console_clear_cursor c) = cursor_y c"
  "cursor_x (draw_at_cursor ch c) = cursor_x c" "cursor_y (draw_at_cursor ch c) = cursor_y c"
  by (simp_all add: console_draw_cursor_def console_clear_cursor_def draw_at_cursor_def on_fb_def)

lemma redraws_screen: "redraws c d \<Longrightarrow> cell_on_screen d \<longleftrightarrow> fb_ok (fb c) \<and> console_cols c = fb_width (fb c) div 8
     \<and> console_rows c = fb_height (fb c) div 16
     \<and> unat (cursor_x d) < unat (console_cols c) \<and> unat (cursor_y d) < unat (console_rows c)"
  using draws_fields [of "fb c" "fb d"] by (auto simp: cell_on_screen_def redraws_def)

lemma console_ok_screen: "console_ok c \<longleftrightarrow> cell_on_screen c \<and> 2 \<le> unat (console_cols c) \<and> 1 \<le> unat (console_rows c)"
  by (auto simp: console_ok_def cell_on_screen_def)

text \<open>The same console but for the cursor and the pixels, in the buffer or not.\<close>

definition same_screen :: "console \<Rightarrow> console \<Rightarrow> bool" where
  "same_screen c d \<longleftrightarrow> (\<exists>m. fb d = (fb c)\<lparr>fbmem := m\<rparr>) \<and> console_cols d = console_cols c
     \<and> console_rows d = console_rows c \<and> console_bg d = console_bg c \<and> console_fg d = console_fg c"

lemma redraws_same: "redraws c d \<Longrightarrow> same_screen c d"
  by (auto simp: redraws_def draws_def same_screen_def)

lemma same_screen_trans: "same_screen c d \<Longrightarrow> same_screen d e \<Longrightarrow> same_screen c e"
  by (auto simp: same_screen_def)

lemma fold_pixels:
  assumes "\<And>x g. \<exists>m. step x g = g\<lparr>fbmem := m\<rparr>"
  shows "\<exists>m. fold step xs f = f\<lparr>fbmem := m\<rparr>"
proof (induction xs arbitrary: f)
  case Nil
  then show ?case by (intro exI [of _ "fbmem f"]) simp
next
  case (Cons x xs)
  from assms [of x f] obtain m where "step x f = f\<lparr>fbmem := m\<rparr>" ..
  with Cons.IH [of "step x f"] show ?case by auto
qed

lemma draw_at_cursor_same: "same_screen c (draw_at_cursor ch c)"
proof -
  have "\<exists>m. fb_draw_char x y ch fg bg f = f\<lparr>fbmem := m\<rparr>" for x y fg bg f
    unfolding fb_draw_char_def by (intro fold_pixels) (auto simp: fb_put_pixel_def)
  then show ?thesis by (simp add: same_screen_def draw_at_cursor_def on_fb_def)
qed

lemma cell_on_screen_cursor:
  "console_ok c \<Longrightarrow> unat x < unat (console_cols c) \<Longrightarrow> unat y < unat (console_rows c) \<Longrightarrow>
    cell_on_screen (c\<lparr>cursor_x := x, cursor_y := y\<rparr>)"
  by (simp add: console_ok_def cell_on_screen_def)

lemma last_column:
  assumes "console_ok c"
  shows "cursor_x c \<ge> console_cols c - 1 \<longleftrightarrow> cursor_x c = console_cols c - 1"
    and "cursor_x c \<noteq> console_cols c - 1 \<Longrightarrow> unat (cursor_x c + 1) < unat (console_cols c)"
    and "unat (cursor_y c + 1) \<le> unat (console_rows c)"
    and "cursor_y c \<noteq> console_rows c - 1 \<Longrightarrow> unat (cursor_y c + 1) < unat (console_rows c)"
proof -
  have b: "unat (cursor_x c) < unat (console_cols c)" "unat (cursor_y c) < unat (console_rows c)"
    and p: "2 \<le> unat (console_cols c)" "1 \<le> unat (console_rows c)"
    using assms by (auto simp: console_ok_def)
  have l: "unat (console_cols c - 1) = unat (console_cols c) - 1" "unat (console_rows c - 1) = unat (console_rows c) - 1"
    using p unat_dec_u32 [of "console_cols c"] unat_dec_u32 [of "console_rows c"] by fastforce+
  show "cursor_x c \<ge> console_cols c - 1 \<longleftrightarrow> cursor_x c = console_cols c - 1"
    using l b p by (auto simp: word_le_nat_alt intro: unat_inj_u32)
  have s: "unat (cursor_x c + 1) = Suc (unat (cursor_x c))" "unat (cursor_y c + 1) = Suc (unat (cursor_y c))"
    using b by (simp_all add: unat_inc_u32 word_less_nat_alt)
  then show "unat (cursor_y c + 1) \<le> unat (console_rows c)" using b by simp
  show "unat (cursor_x c + 1) < unat (console_cols c)" if "cursor_x c \<noteq> console_cols c - 1"
  proof -
    have "unat (cursor_x c) \<noteq> unat (console_cols c) - 1" using that l unat_inj_u32 by metis
    then show ?thesis using s b by linarith
  qed
  show "unat (cursor_y c + 1) < unat (console_rows c)" if "cursor_y c \<noteq> console_rows c - 1"
  proof -
    have "unat (cursor_y c) \<noteq> unat (console_rows c) - 1" using that l unat_inj_u32 by metis
    then show ?thesis using s b by linarith
  qed
qed

lemma backspace_spec:
  assumes "console_ok c"
  defines "d \<equiv> (if sint (cursor_x c) > 0 then c\<lparr>cursor_x := cursor_x c - 1\<rparr>
              else if sint (cursor_y c) > 0
              then c\<lparr>cursor_y := cursor_y c - 1, cursor_x := console_cols c - 1\<rparr> else c)"
  shows "cell_on_screen d \<and> redraws c d"
proof -
  have b: "unat (cursor_x c) < unat (console_cols c)" "unat (cursor_y c) < unat (console_rows c)"
    and p: "2 \<le> unat (console_cols c)" "1 \<le> unat (console_rows c)"
    using assms by (auto simp: console_ok_def)
  have "unat (console_cols c) \<le> unat (fb_width (fb c)) div 8" "unat (console_rows c) \<le> unat (fb_height (fb c)) div 16"
    using assms(1) by (auto simp: console_ok_def unat_div)
  then have "unat (cursor_x c) < 2147483648" "unat (cursor_y c) < 2147483648"
    using b unat_u32_bound [of "fb_width (fb c)"] unat_u32_bound [of "fb_height (fb c)"] by linarith+
  then have nz: "sint (cursor_x c) > 0 \<longleftrightarrow> cursor_x c \<noteq> 0" "sint (cursor_y c) > 0 \<longleftrightarrow> cursor_y c \<noteq> 0"
    by (simp_all only: sint_pos)
  have "unat (cursor_x c - 1) < unat (console_cols c)" if "cursor_x c \<noteq> 0"
    using that b by (simp add: unat_dec_u32)
  moreover have "unat (cursor_y c - 1) < unat (console_rows c)" if "cursor_y c \<noteq> 0"
    using that b by (simp add: unat_dec_u32)
  moreover have "unat (console_cols c - 1) < unat (console_cols c)"
    using p unat_dec_u32 [of "console_cols c"] by fastforce
  ultimately show ?thesis using assms(1) b by (auto simp: d_def nz console_ok_def cell_on_screen_def)
qed

lemma cell_spec:
  assumes "console_ok c"
  shows "same_screen c (console_cell ch c) \<and> unat (cursor_x (console_cell ch c)) < unat (console_cols c)
    \<and> unat (cursor_y (console_cell ch c)) \<le> unat (console_rows c)
    \<and> (\<not> wraps_at_bottom ch c \<longrightarrow> redraws c (console_cell ch c))"
proof -
  note L = last_column [OF assms]
  have b: "unat (cursor_x c) < unat (console_cols c)" "unat (cursor_y c) < unat (console_rows c)"
    "2 \<le> unat (console_cols c)" using assms by (auto simp: console_ok_def)
  consider "ch = 0x0a" | "ch = 0x0d" | "ch = 0x08" | "ch \<notin> {0x08, 0x0a, 0x0d}" by blast
  then show ?thesis
  proof cases
    case 1
    then have "redraws c (console_cell ch c)" by (simp add: console_cell_def)
    with 1 L(3) b show ?thesis by (simp add: redraws_same console_cell_def)
  next
    case 2
    then have "redraws c (console_cell ch c)" by (simp add: console_cell_def)
    with 2 b show ?thesis by (simp add: redraws_same console_cell_def)
  next
    case 3
    define d where "d = (if sint (cursor_x c) > 0 then c\<lparr>cursor_x := cursor_x c - 1\<rparr>
              else if sint (cursor_y c) > 0
              then c\<lparr>cursor_y := cursor_y c - 1, cursor_x := console_cols c - 1\<rparr> else c)"
    have d: "cell_on_screen d" "redraws c d" using backspace_spec [OF assms] by (auto simp: d_def)
    have "console_cell ch c = draw_at_cursor 0x20 d" using 3 by (simp add: console_cell_def d_def)
    moreover have "redraws c (draw_at_cursor 0x20 d)" using redraws_trans [OF d(2) cursor_redraws(3) [OF d(1)]] .
    ultimately show ?thesis using d redraws_same by (auto simp: cell_on_screen_def redraws_def)
  next
    case 4
    define d where "d = (if cursor_x c \<ge> console_cols c - 1 then c\<lparr>cursor_x := 0, cursor_y := cursor_y c + 1\<rparr> else c)"
    have cell: "console_cell ch c = (draw_at_cursor ch d)\<lparr>cursor_x := cursor_x d + 1\<rparr>"
      using 4 by (simp add: console_cell_def d_def Let_def)
    have rd: "redraws c d" by (simp add: d_def)
    have "unat (cursor_x d + 1) < unat (console_cols c)" "unat (cursor_y d) \<le> unat (console_rows c)"
      using L b by (auto simp: d_def)
    moreover have "same_screen c (draw_at_cursor ch d)"
      using same_screen_trans [OF redraws_same [OF rd] draw_at_cursor_same] .
    moreover have "redraws c (draw_at_cursor ch d)" if "\<not> wraps_at_bottom ch c"
    proof -
      have "cursor_x c = console_cols c - 1 \<Longrightarrow> cursor_y c \<noteq> console_rows c - 1"
        using that 4 by (auto simp: wraps_at_bottom_def)
      then have "cell_on_screen d" using assms b L by (auto simp: d_def console_ok_def cell_on_screen_def)
      from redraws_trans [OF rd cursor_redraws(3) [OF this]] show ?thesis .
    qed
    ultimately show ?thesis unfolding cell by (simp add: same_screen_def)
  qed
qed

lemma same_screen_ok:
  "same_screen c d \<Longrightarrow> console_ok c \<Longrightarrow> unat (cursor_x d) < unat (console_cols c) \<Longrightarrow>
    unat (cursor_y d) < unat (console_rows c) \<Longrightarrow> console_ok d"
  by (auto simp: same_screen_def console_ok_def fb_ok_def)

lemma console_ok_cursor:
  "console_ok c \<Longrightarrow> unat (cursor_x c) < unat (console_cols c)" "console_ok c \<Longrightarrow> unat (cursor_y c) < unat (console_rows c)"
  unfolding console_ok_def by blast+

lemma console_ok_visible [simp]: "console_ok (c\<lparr>cursor_visible := v\<rparr>) = console_ok c"
  by (simp add: console_ok_def)

lemma redraws_ok: "redraws c d \<Longrightarrow> console_ok c \<Longrightarrow> cursor_x d = cursor_x c \<Longrightarrow> cursor_y d = cursor_y c \<Longrightarrow> console_ok d"
  using same_screen_ok [OF redraws_same, of c d] console_ok_cursor [of c] by simp

lemma console_ok_height: "console_ok c \<Longrightarrow> fb_ok (fb c) \<and> 16 \<le> unat (fb_height (fb c))"
  by (auto simp: console_ok_def unat_div)

definition scroll_if_needed :: "console \<Rightarrow> console" where
  "scroll_if_needed c = (if cursor_y c \<ge> console_rows c
               then (console_scroll c)\<lparr>cursor_y := console_rows c - 1\<rparr> else c)"

lemma putchar_steps:
  "console_putchar ch c = (console_draw_cursor (scroll_if_needed (console_cell ch (console_clear_cursor c))))\<lparr>cursor_visible := True\<rparr>"
  by (simp add: console_putchar_def scroll_if_needed_def Let_def)

lemma scroll_if_needed_spec:
  assumes "console_ok c" "same_screen c d" "unat (cursor_x d) < unat (console_cols c)"
    "unat (cursor_y d) \<le> unat (console_rows c)"
  shows "redraws d (scroll_if_needed d) \<and> console_ok (scroll_if_needed d)"
proof (cases "cursor_y d \<ge> console_rows d")
  case True
  have "fb_ok (fb d)" "16 \<le> unat (fb_height (fb d))" "console_rows d = console_rows c"
    using console_ok_height [OF assms(1)] assms(2) by (auto simp: same_screen_def fb_ok_def)
  then have r: "redraws d (console_scroll d)" by (intro console_scroll_redraws)
  have p: "1 \<le> unat (console_rows c)" using assms(1) unfolding console_ok_def by blast
  then have "unat (console_rows c - 1) < unat (console_rows c)"
    using unat_dec_u32 [of "console_rows c"] by fastforce
  moreover have "same_screen c ((console_scroll d)\<lparr>cursor_y := console_rows c - 1\<rparr>)"
    using same_screen_trans [OF assms(2) redraws_same [OF r]] by (simp add: same_screen_def)
  ultimately show ?thesis using True r assms same_screen_ok [OF _ assms(1)] \<open>console_rows d = console_rows c\<close>
    by (simp add: scroll_if_needed_def)
next
  case False
  then have "unat (cursor_y d) < unat (console_rows c)"
    using assms(2) by (auto simp: same_screen_def word_le_nat_alt)
  with False show ?thesis using same_screen_ok [OF assms(2,1,3)] by (simp add: scroll_if_needed_def)
qed

lemma putchar_spec:
  assumes "console_ok c"
  shows "console_ok (console_putchar ch c)"
    and "\<not> wraps_at_bottom ch c \<Longrightarrow> draws (fb c) (fb (console_putchar ch c))"
proof -
  let ?c = "console_clear_cursor c" and ?d = "console_cell ch (console_clear_cursor c)"
  have screen: "cell_on_screen c" using assms by (simp add: console_ok_screen)
  have rc: "redraws c ?c" using cursor_redraws(2) [OF screen] .
  have okc: "console_ok ?c" using redraws_ok [OF rc assms] by simp
  note D = cell_spec [OF okc, of ch]
  have S: "redraws ?d (scroll_if_needed ?d)" "console_ok (scroll_if_needed ?d)"
    using scroll_if_needed_spec [OF okc] D by blast+
  have dr: "redraws (scroll_if_needed ?d) (console_draw_cursor (scroll_if_needed ?d))"
    using cursor_redraws(1) S(2) by (simp add: console_ok_screen)
  have "console_ok (console_draw_cursor (scroll_if_needed ?d))"
    using redraws_ok [OF dr S(2)] by simp
  then show "console_ok (console_putchar ch c)" by (simp add: putchar_steps)
  show "draws (fb c) (fb (console_putchar ch c))" if "\<not> wraps_at_bottom ch c"
  proof -
    have "wraps_at_bottom ch ?c = wraps_at_bottom ch c"
      using rc by (simp add: wraps_at_bottom_def redraws_def)
    then have "redraws c (console_draw_cursor (scroll_if_needed ?d))"
      using that D rc S(1) dr redraws_trans by blast
    then show ?thesis by (simp add: putchar_steps redraws_def)
  qed
qed

section \<open>The character that falls off the bottom line\<close>

text \<open>Equal inside the buffer.\<close>

definition agree :: "framebuffer \<Rightarrow> framebuffer \<Rightarrow> bool" where
  "agree f g \<longleftrightarrow> (\<exists>m. g = f\<lparr>fbmem := m\<rparr>) \<and> (\<forall>a. in_buffer f a \<longrightarrow> fbmem g a = fbmem f a)"

lemma agree_pixel: "agree f g \<Longrightarrow> agree (fb_put_pixel x y col f) (fb_put_pixel x y col g)"
proof -
  assume "agree f g"
  then obtain m where g: "g = f\<lparr>fbmem := m\<rparr>" and eq: "\<forall>a. in_buffer f a \<longrightarrow> m a = fbmem f a"
    by (auto simp: agree_def)
  have "store32 m p col a = store32 (fbmem f) p col a" if "in_buffer f a" for p a
    using eq that by (simp add: store32_def)
  then have "\<forall>a. in_buffer f a \<longrightarrow> fbmem (fb_put_pixel x y col g) a = fbmem (fb_put_pixel x y col f) a"
    by (simp add: g fb_put_pixel_def pixel_addr_def)
  moreover have "in_buffer (fb_put_pixel x y col f) = in_buffer f" by (simp add: fb_put_pixel_def in_buffer_def fun_eq_iff)
  moreover have "fb_put_pixel x y col g = (fb_put_pixel x y col f)\<lparr>fbmem := fbmem (fb_put_pixel x y col g)\<rparr>"
    by (simp add: g fb_put_pixel_def)
  ultimately show ?thesis unfolding agree_def by (intro conjI exI) simp_all
qed

lemma agree_fold:
  "(\<And>x f g. agree f g \<Longrightarrow> agree (step x f) (step x g)) \<Longrightarrow> agree f g \<Longrightarrow> agree (fold step xs f) (fold step xs g)"
  by (induction xs arbitrary: f g) auto

lemma agree_fill_rect: "agree f g \<Longrightarrow> agree (fb_fill_rect x y w h col f) (fb_fill_rect x y w h col g)"
  unfolding fb_fill_rect_def by (intro agree_fold agree_pixel)

lemma scroll_up_last:
  assumes "fb_ok f" "16 \<le> unat (fb_height f)"
    and "\<not> unat (a - fb_addr f) + 16 * unat (fb_pitch f) < unat (fb_size f)"
  shows "fbmem (scroll_up f) a = fbmem f a"
proof -
  have "\<not> unat (a - fb_addr f) < unat (fb_size f) - 16 * unat (fb_pitch f)" using assms(3) by linarith
  then show ?thesis using scroll_up_draws(2) [OF assms(1,2), of a] by (simp only: if_False)
qed

lemma agree_scroll_up:
  assumes "agree f g" "fb_ok f" "16 \<le> unat (fb_height f)"
  shows "agree (scroll_up f) (scroll_up g)"
proof -
  obtain m where g: "g = f\<lparr>fbmem := m\<rparr>" and eq: "\<And>a. in_buffer f a \<Longrightarrow> m a = fbmem f a"
    using assms(1) by (auto simp: agree_def)
  have ok: "fb_ok g" using assms(2) by (simp add: g fb_ok_def)
  have le: "16 * unat (fb_pitch f) \<le> unat (fb_size f)" using assms(2,3) by (simp add: fb_ok_def)
  have "fbmem (scroll_up g) a = fbmem (scroll_up f) a" if a: "in_buffer f a" for a
  proof (cases "unat (a - fb_addr f) + 16 * unat (fb_pitch f) < unat (fb_size f)")
    case True
    have "unat (fb_pitch f) * 16 < 4294967296" using le unat_u32_bound [of "fb_size f"] by linarith
    then have p: "unat (16 * fb_pitch f) = 16 * unat (fb_pitch f)" using unat_mult_u32 [of 16 "fb_pitch f"] by simp
    have "unat (a - fb_addr f) + unat (16 * fb_pitch f) < 4294967296"
      using True p unat_u32_bound [of "fb_size f"] by linarith
    then have "in_buffer f (a + 16 * fb_pitch f)"
      using True p unat_add_u32 [of "a - fb_addr f" "16 * fb_pitch f"] by (simp add: in_buffer_def algebra_simps)
    then show ?thesis
      using scroll_up_draws(3) [OF assms(2,3), of "a - fb_addr f"] scroll_up_draws(3) [OF ok, of "a - fb_addr f"] True eq assms(3)
      by (simp add: g)
  next
    case False
    have "fbmem (scroll_up h) a = fbmem h a"
      if "fb_ok h" "fb_addr h = fb_addr f" "fb_size h = fb_size f" "fb_pitch h = fb_pitch f" "fb_height h = fb_height f" for h
      using that False scroll_up_last [of h a] assms(3) by simp
    from this [of f] this [of g] show ?thesis using assms(2) ok eq a by (simp add: g)
  qed
  then show ?thesis by (auto simp: agree_def g scroll_up_def Let_def in_buffer_def)
qed

lemma agree_trans: "agree f g \<Longrightarrow> agree g h \<Longrightarrow> agree f h"
  by (auto simp: agree_def in_buffer_def)

lemma agree_sym: "agree f g \<Longrightarrow> agree g f"
  by (auto simp: agree_def in_buffer_def intro!: exI [of _ "fbmem f"])

text \<open>A glyph at the row below the buffer: nothing in the buffer changes, its first pixel is the first
  word behind the buffer.\<close>

lemma below_offset:
  assumes "fb_ok f" "unat (fb_size f) + 16 * unat (fb_pitch f) < 4294967296" "8 \<le> unat (fb_width f)"
    and "row < 16" "col < 8" "k < 4"
  shows "unat (pixel_addr f (of_nat col) (fb_height f + of_nat row) + of_nat k - fb_addr f) =
    unat (fb_size f) + row * unat (fb_pitch f) + 4 * col + k"
proof -
  let ?o = "unat (fb_size f) + row * unat (fb_pitch f) + 4 * col + k"
  have p: "32 \<le> unat (fb_pitch f)" using assms(1,3) by (simp add: fb_ok_def)
  have "Suc row * unat (fb_pitch f) \<le> 16 * unat (fb_pitch f)" using assms(4) by (intro mult_right_mono) simp_all
  then have "unat (fb_pitch f) + row * unat (fb_pitch f) \<le> 16 * unat (fb_pitch f)" by simp
  then have "?o < 4294967296" using assms(2,5,6) p by linarith
  have "fb_height f * fb_pitch f = of_nat (unat (fb_size f))"
    using assms(1) by (simp add: fb_ok_def)
  moreover have "fb_bpp f div 8 = 4" using assms(1) by (simp add: fb_ok_def)
  ultimately have "pixel_addr f (of_nat col) (fb_height f + of_nat row) + of_nat k - fb_addr f = of_nat ?o"
    by (simp add: pixel_addr_def algebra_simps)
  then show ?thesis using unat_of_nat_u32 [of ?o] \<open>?o < 4294967296\<close> by (simp only:)
qed

lemma draw_below_agree:
  assumes "fb_ok f" "unat (fb_size f) + 16 * unat (fb_pitch f) < 4294967296" "8 \<le> unat (fb_width f)"
  shows "agree f (fb_draw_char 0 (fb_height f) ch fg bg f)"
proof -
  have px: "agree f (fb_put_pixel (of_nat col) (fb_height f + of_nat row) color g)"
    if ag: "agree f g" "row < 16" "col < 8" for g row col color
  proof -
    obtain m where g: "g = f\<lparr>fbmem := m\<rparr>" using ag(1) unfolding agree_def by blast
    have ne: "a \<noteq> pixel_addr f (of_nat col) (fb_height f + of_nat row) + of_nat k" if "in_buffer f a" "k < 4" for a k
      using below_offset [OF assms \<open>row < 16\<close> \<open>col < 8\<close> that(2)] that(1) by (auto simp: in_buffer_def)
    have "store32 m (pixel_addr f (of_nat col) (fb_height f + of_nat row)) color a = m a" if "in_buffer f a" for a
      using ne [OF that, of 0] ne [OF that, of 1] ne [OF that, of 2] ne [OF that, of 3] by (simp add: store32_def)
    with ag(1) show ?thesis by (auto simp: agree_def g fb_put_pixel_def pixel_addr_def)
  qed
  have rowstep: "agree f (fold (\<lambda>col. fb_put_pixel (0 + of_nat col) (fb_height f + of_nat row) (c col)) cols g)"
    if "agree f g" "row < 16" "set cols \<subseteq> {0..<8}" for g row cols c
    using that
  proof (induction cols arbitrary: g)
    case (Cons col cols)
    have "agree f (fb_put_pixel (of_nat col) (fb_height f + of_nat row) (c col) g)"
      using Cons.prems by (intro px) auto
    from Cons.IH [OF this] Cons.prems show ?case by simp
  qed simp
  have "agree f (fold (\<lambda>row. fold (\<lambda>col. fb_put_pixel (0 + of_nat col) (fb_height f + of_nat row)
               (if font ch ! row AND drop_bit col 0x80 \<noteq> 0 then fg else bg)) [0..<8]) rows g)"
    if "agree f g" "set rows \<subseteq> {0..<16}" for rows g
    using that
  proof (induction rows arbitrary: g)
    case (Cons row rows)
    have "agree f (fold (\<lambda>col. fb_put_pixel (0 + of_nat col) (fb_height f + of_nat row)
               (if font ch ! row AND drop_bit col 0x80 \<noteq> 0 then fg else bg)) [0..<8] g)"
      using Cons.prems by (intro rowstep) auto
    from Cons.IH [OF this] Cons.prems show ?case by simp
  qed simp
  moreover have "agree f f" unfolding agree_def by (intro conjI exI [of _ "fbmem f"]) simp_all
  ultimately have "agree f (fold (\<lambda>row. fold (\<lambda>col. fb_put_pixel (0 + of_nat col) (fb_height f + of_nat row)
      (if font ch ! row AND drop_bit col 0x80 \<noteq> 0 then fg else bg)) [0..<8]) [0..<16] f)" by simp
  then show ?thesis by (simp only: fb_draw_char_def)
qed

text \<open>The first pixel of the glyph survives the others.\<close>

lemma load32_store32_apart:
  assumes "4 \<le> unat (b - a)" "unat (b - a) \<le> 4294967292"
  shows "load32 (store32 m b v) a = load32 m a"
proof -
  have ne: "a + of_nat j \<noteq> b + of_nat k" if "j < 4" "k < 4" for j k
  proof
    assume e: "a + of_nat j = b + of_nat k"
    then have "b - a = of_nat j - of_nat k" by (simp add: algebra_simps)
    then have "unat (b - a) = unat (of_nat j - of_nat k :: u32)" by simp
    moreover have "unat (of_nat j - of_nat k :: u32) < 4 \<or> unat (of_nat j - of_nat k :: u32) > 4294967292"
    proof (cases "k \<le> j")
      case True
      then have "of_nat j - of_nat k = (of_nat (j - k) :: u32)" by simp
      moreover have "unat (of_nat (j - k) :: u32) = j - k" using that by simp
      ultimately have "unat (of_nat j - of_nat k :: u32) = j - k" by simp
      then show ?thesis using that by linarith
    next
      case False
      then have "(of_nat j :: u32) < of_nat k" using that by (simp add: word_less_nat_alt)
      from unat_sub_wrap_u32 [OF this] have "unat (of_nat j - of_nat k :: u32) = 4294967296 - (k - j)" using that by simp
      then show ?thesis using that False by linarith
    qed
    ultimately show False using assms by linarith
  qed
  from ne [of 0 0] ne [of 0 1] ne [of 0 2] ne [of 0 3] ne [of 1 0] ne [of 1 1] ne [of 1 2] ne [of 1 3]
    ne [of 2 0] ne [of 2 1] ne [of 2 2] ne [of 2 3] ne [of 3 0] ne [of 3 1] ne [of 3 2] ne [of 3 3]
  show ?thesis by (simp add: load32_def store32_def)
qed

lemma draw_below_first:
  assumes "fb_ok f" "unat (fb_size f) + 16 * unat (fb_pitch f) < 4294967296" "8 \<le> unat (fb_width f)"
  shows "load32 (fbmem (fb_draw_char 0 (fb_height f) ch fg bg f)) (fb_addr f + fb_size f) =
    (if font ch ! 0 AND 0x80 \<noteq> 0 then fg else bg)"
proof -
  let ?a = "fb_addr f + fb_size f"
  define v where "v = (if font ch ! 0 AND 0x80 \<noteq> 0 then fg else bg)"
  define inv where "inv g \<longleftrightarrow> (\<exists>m. g = f\<lparr>fbmem := m\<rparr>) \<and> load32 (fbmem g) ?a = v" for g
  have sz: "unat (pixel_addr f (of_nat col) (fb_height f + of_nat row) - ?a) = row * unat (fb_pitch f) + 4 * col"
    if "row < 16" "col < 8" for row col
  proof -
    have "pixel_addr f (of_nat col) (fb_height f + of_nat row) - ?a =
        (pixel_addr f (of_nat col) (fb_height f + of_nat row) + of_nat 0 - fb_addr f) - fb_size f" by simp
    moreover have "unat (pixel_addr f (of_nat col) (fb_height f + of_nat row) + of_nat 0 - fb_addr f) =
        unat (fb_size f) + row * unat (fb_pitch f) + 4 * col" using below_offset [OF assms that, of 0] by simp
    ultimately show ?thesis using unat_sub_u32 [of "fb_size f" "pixel_addr f (of_nat col) (fb_height f + of_nat row) + of_nat 0 - fb_addr f"]
      by (simp only:)
  qed
  have px: "inv (fb_put_pixel (of_nat col) (fb_height f + of_nat row) color g)"
    if iv: "inv g" "row < 16" "col < 8" "0 < row \<or> 0 < col" for g row col color
  proof -
    obtain m where g: "g = f\<lparr>fbmem := m\<rparr>" using iv(1) unfolding inv_def by blast
    have p: "32 \<le> unat (fb_pitch f)" using assms(1,3) by (simp add: fb_ok_def)
    have "row * unat (fb_pitch f) \<le> 15 * unat (fb_pitch f)" using iv(2) by (intro mult_right_mono) simp_all
    moreover have "0 < row \<Longrightarrow> unat (fb_pitch f) \<le> row * unat (fb_pitch f)" by simp
    ultimately have "4 \<le> row * unat (fb_pitch f) + 4 * col" "row * unat (fb_pitch f) + 4 * col \<le> 4294967292"
      using iv(3,4) p assms(2) by linarith+
    then have "load32 (store32 m (pixel_addr f (of_nat col) (fb_height f + of_nat row)) color) ?a = load32 m ?a"
      using sz [OF iv(2,3)] by (intro load32_store32_apart) simp_all
    with iv(1) show ?thesis by (auto simp: inv_def g fb_put_pixel_def pixel_addr_def)
  qed
  have cols: "inv (fold (\<lambda>col. fb_put_pixel (0 + of_nat col) (fb_height f + of_nat row) (c col)) cs g)"
    if "inv g" "row < 16" "set cs \<subseteq> {0..<8}" "0 < row \<or> 0 \<notin> set cs" for g row cs c
    using that
  proof (induction cs arbitrary: g)
    case (Cons col cs)
    have "inv (fb_put_pixel (of_nat col) (fb_height f + of_nat row) (c col) g)"
      using Cons.prems by (intro px) auto
    from Cons.IH [OF this] Cons.prems show ?case by auto
  qed simp
  have rows: "inv (fold (\<lambda>row. fold (\<lambda>col. fb_put_pixel (0 + of_nat col) (fb_height f + of_nat row)
               (if font ch ! row AND drop_bit col 0x80 \<noteq> 0 then fg else bg)) [0..<8]) rs g)"
    if "inv g" "set rs \<subseteq> {1..<16}" for rs g
    using that
  proof (induction rs arbitrary: g)
    case (Cons row rs)
    have "inv (fold (\<lambda>col. fb_put_pixel (0 + of_nat col) (fb_height f + of_nat row)
               (if font ch ! row AND drop_bit col 0x80 \<noteq> 0 then fg else bg)) [0..<8] g)"
      using Cons.prems by (intro cols) auto
    from Cons.IH [OF this] Cons.prems show ?case by simp
  qed simp
  have "pixel_addr f 0 (fb_height f) = ?a"
  proof -
    have "fb_height f * fb_pitch f = of_nat (unat (fb_height f) * unat (fb_pitch f))" by simp
    also have "\<dots> = of_nat (unat (fb_size f))" using assms(1) by (simp add: fb_ok_def)
    finally show ?thesis by (simp add: pixel_addr_def)
  qed
  then have "load32 (fbmem (fb_put_pixel 0 (fb_height f) v f)) ?a = v" by (simp add: fb_put_pixel_def)
  then have "inv (fb_put_pixel 0 (fb_height f) v f)" unfolding inv_def fb_put_pixel_def by blast
  from cols [OF this, of 0 "[1..<8]" "\<lambda>col. if font ch ! 0 AND drop_bit col 0x80 \<noteq> 0 then fg else bg"]
  have "inv (fold (\<lambda>col. fb_put_pixel (0 + of_nat col) (fb_height f + of_nat 0)
      (if font ch ! 0 AND drop_bit col 0x80 \<noteq> 0 then fg else bg)) [0..<8] f)"
    by (simp add: upt_conv_Cons v_def)
  from rows [OF this, of "[1..<16]"] have "inv (fb_draw_char 0 (fb_height f) ch fg bg f)"
    by (simp add: fb_draw_char_def upt_conv_Cons)
  then show ?thesis by (simp add: inv_def v_def)
qed

lemma wrap_cell:
  assumes "console_ok c" "wraps_at_bottom ch c" "unat (fb_height (fb c)) = 16 * unat (console_rows c)"
  shows "console_cell ch (console_clear_cursor c) = (let d = console_clear_cursor c in
      d\<lparr>fb := fb_draw_char 0 (fb_height (fb d)) ch (console_fg d) (console_bg d) (fb d),
        cursor_x := 1, cursor_y := console_rows d\<rparr>)"
proof -
  have rc: "redraws c (console_clear_cursor c)" using cursor_redraws(2) assms(1) by (simp add: console_ok_screen)
  define d where "d = console_clear_cursor c"
  have d: "console_ok d" "wraps_at_bottom ch d" "unat (fb_height (fb d)) = 16 * unat (console_rows d)"
    using redraws_ok [OF rc assms(1)] rc assms draws_fields [of "fb c" "fb d"]
    by (auto simp: d_def redraws_def wraps_at_bottom_def)
  have "fb_height (fb d) = console_rows d * 16"
    using d(3) unat_mult_u32 [of "console_rows d" 16] unat_u32_bound [of "fb_height (fb d)"]
    by (intro unat_inj_u32) (simp add: mult.commute)
  moreover have "cursor_y d + 1 = console_rows d" using d(2) by (simp add: wraps_at_bottom_def)
  moreover have "console_cell ch d = d\<lparr>fb := fb_draw_char 0 ((cursor_y d + 1) * 16) ch (console_fg d) (console_bg d) (fb d),
      cursor_x := 1, cursor_y := cursor_y d + 1\<rparr>"
    using d(2) by (simp add: wraps_at_bottom_def console_cell_def draw_at_cursor_def on_fb_def Let_def)
  ultimately show ?thesis by (simp add: d_def [symmetric] Let_def)
qed

lemma wrap_putchar:
  assumes "console_ok c" "wraps_at_bottom ch c" "unat (fb_height (fb c)) = 16 * unat (console_rows c)"
    and "unat (fb_size (fb c)) + 16 * unat (fb_pitch (fb c)) < 4294967296"
  shows "agree (fb (console_putchar ch c))
      (fb ((console_draw_cursor (scroll_if_needed ((console_clear_cursor c)\<lparr>cursor_x := 1, cursor_y := console_rows c\<rparr>)))
        \<lparr>cursor_visible := True\<rparr>))"
    and "load32 (fbmem (fb (console_putchar ch c))) (fb_addr (fb c) + fb_size (fb c)) =
      (if font ch ! 0 AND 0x80 \<noteq> 0 then console_fg c else console_bg c)"
proof -
  define d where "d = console_clear_cursor c"
  have rc: "redraws c d" unfolding d_def using cursor_redraws(2) assms(1) by (simp add: console_ok_screen)
  have okd: "console_ok d" using redraws_ok [OF rc assms(1)] by (simp add: d_def)
  note F = draws_fields [of "fb c" "fb d"]
  have fields: "fb_ok (fb d)" "16 \<le> unat (fb_height (fb d))" "console_rows d = console_rows c"
    "fb_size (fb d) = fb_size (fb c)" "fb_pitch (fb d) = fb_pitch (fb c)" "fb_addr (fb d) = fb_addr (fb c)"
    "console_fg d = console_fg c" "console_bg d = console_bg c"
    using console_ok_height [OF okd] rc F by (auto simp: redraws_def)
  have "2 \<le> unat (console_cols d)" "console_cols d = fb_width (fb d) div 8"
    using okd unfolding console_ok_def by blast+
  then have w: "8 \<le> unat (fb_width (fb d))" by (auto simp: unat_div)
  define e where "e = fb_draw_char 0 (fb_height (fb d)) ch (console_fg d) (console_bg d) (fb d)"
  have size: "unat (fb_size (fb d)) + 16 * unat (fb_pitch (fb d)) < 4294967296" using assms(4) fields by simp
  have ag: "agree (fb d) e" unfolding e_def by (rule draw_below_agree [OF fields(1) size w])
  then obtain m where e: "e = (fb d)\<lparr>fbmem := m\<rparr>" unfolding agree_def by blast
  have cell: "console_cell ch d = d\<lparr>fb := e, cursor_x := 1, cursor_y := console_rows d\<rparr>"
    using wrap_cell [OF assms(1-3)] by (simp add: d_def [symmetric] e_def Let_def)
  let ?x = "d\<lparr>fb := e, cursor_x := 1, cursor_y := console_rows d\<rparr>"
    and ?y = "d\<lparr>cursor_x := 1, cursor_y := console_rows d\<rparr>"
  have "agree (fb (scroll_if_needed ?y)) (fb (scroll_if_needed ?x))"
  proof -
    have "agree (scroll_up (fb d)) (scroll_up e)" using agree_scroll_up [OF ag fields(1,2)] .
    then show ?thesis by (simp add: scroll_if_needed_def console_scroll_def on_fb_def agree_fill_rect e)
  qed
  moreover have "cursor_x (scroll_if_needed ?y) = cursor_x (scroll_if_needed ?x)"
    "cursor_y (scroll_if_needed ?y) = cursor_y (scroll_if_needed ?x)"
    "console_fg (scroll_if_needed ?y) = console_fg (scroll_if_needed ?x)"
    by (simp_all add: scroll_if_needed_def console_scroll_def on_fb_def)
  ultimately have "agree (fb (console_draw_cursor (scroll_if_needed ?y))) (fb (console_draw_cursor (scroll_if_needed ?x)))"
    by (simp add: console_draw_cursor_def on_fb_def agree_fill_rect)
  then show "agree (fb (console_putchar ch c))
      (fb ((console_draw_cursor (scroll_if_needed ((console_clear_cursor c)\<lparr>cursor_x := 1, cursor_y := console_rows c\<rparr>)))
        \<lparr>cursor_visible := True\<rparr>))"
    using agree_sym by (simp add: putchar_steps d_def [symmetric] cell fields(3))
  have same: "same_screen d ?x" by (auto simp: same_screen_def e)
  have b: "unat (cursor_x ?x) < unat (console_cols d)" "unat (cursor_y ?x) \<le> unat (console_rows d)"
    using \<open>2 \<le> unat (console_cols d)\<close> by simp_all
  note S = scroll_if_needed_spec [OF okd same b]
  have "redraws ?x (console_draw_cursor (scroll_if_needed ?x))"
    using S cursor_redraws(1) redraws_trans by (auto simp: console_ok_screen)
  then have dr: "draws e (fb (console_putchar ch c))"
    by (simp add: putchar_steps d_def [symmetric] cell redraws_def)
  have "fbmem (fb (console_putchar ch c)) (fb_addr e + fb_size e + of_nat k) = fbmem e (fb_addr e + fb_size e + of_nat k)"
    if "k < 4" for k
  proof -
    have "32 \<le> unat (fb_pitch (fb d))" using fields(1) w by (simp add: fb_ok_def)
    then have "unat (fb_size e) + k < 4294967296" using size that by (simp add: e)
    then have "unat (fb_size e + of_nat k) = unat (fb_size e) + k" using that by (simp add: unat_add_u32)
    then have "\<not> in_buffer e (fb_addr e + fb_size e + of_nat k)" by (simp add: in_buffer_def add.assoc)
    then show ?thesis using dr by (simp add: draws_def)
  qed
  from this [of 0] this [of 1] this [of 2] this [of 3]
  have "load32 (fbmem (fb (console_putchar ch c))) (fb_addr e + fb_size e) = load32 (fbmem e) (fb_addr e + fb_size e)"
    by (simp add: load32_def)
  moreover have "load32 (fbmem e) (fb_addr (fb d) + fb_size (fb d)) =
      (if font ch ! 0 AND 0x80 \<noteq> 0 then console_fg d else console_bg d)"
    unfolding e_def by (rule draw_below_first [OF fields(1) size w])
  ultimately show "load32 (fbmem (fb (console_putchar ch c))) (fb_addr (fb c) + fb_size (fb c)) =
      (if font ch ! 0 AND 0x80 \<noteq> 0 then console_fg c else console_bg c)"
    using fields by (simp add: e)
qed

section \<open>Properties\<close>

text \<open>A screen of two cells, the cursor in the second.\<close>

definition tiny_console :: console where
  "tiny_console = \<lparr>fb = \<lparr>fb_addr = 0x1000, fb_phys = 0x4000, fb_width = 16, fb_height = 16, fb_bpp = 32,
       fb_pitch = 64, fb_size = 1024, fb_initialized = True, fbmem = (\<lambda>_. 0)\<rparr>,
     console_cols = 2, console_rows = 1, console_bg = 0xff233c67, console_fg = 0xffededed,
     cursor_x = 1, cursor_y = 0, cursor_visible = False\<rparr>"

lemma tiny_console_ok: "console_ok tiny_console"
  by (simp add: console_ok_def fb_ok_def tiny_console_def)

text \<open>C18: \<open>console_putchar\<close> keeps the cursor on the screen and the screen geometry, whatever the
  character; and it writes inside the back buffer only, unless the character wraps from the last
  column of the bottom line.\<close>

theorem console_putchar_on_screen:
  assumes "console_ok c"
  shows "console_ok (console_putchar ch c)
    \<and> (wraps_at_bottom ch c \<or> (\<forall>a. \<not> in_buffer (fb c) a \<longrightarrow>
          fbmem (fb (console_putchar ch c)) a = fbmem (fb c) a))"
  using putchar_spec [OF assms, of ch] by (auto simp: draws_def)

lemma console_putchar_on_screen_witness:
  "console_ok (console_putchar 0x41 tiny_console) \<and> console_ok (console_putchar 0x0a tiny_console)"
  using console_putchar_on_screen [OF tiny_console_ok] by blast

text \<open>The character that wraps on the bottom line is drawn below the screen before the scroll: when
  the height is a whole number of lines, its first pixel overwrites the word behind the back buffer,
  and the screen does not show it, being the same for every such character.\<close>

theorem console_wrap_past_buffer:
  assumes "console_ok c" "wraps_at_bottom ch c" "unat (fb_height (fb c)) = 16 * unat (console_rows c)"
    and "unat (fb_size (fb c)) + 16 * unat (fb_pitch (fb c)) < 4294967296"
    and "ch' \<notin> {0x08, 0x0a, 0x0d}" "in_buffer (fb c) a"
  shows "load32 (fbmem (fb (console_putchar ch c))) (fb_addr (fb c) + fb_size (fb c)) =
      (if font ch ! 0 AND 0x80 \<noteq> 0 then console_fg c else console_bg c)
    \<and> \<not> in_buffer (fb c) (fb_addr (fb c) + fb_size (fb c))
    \<and> fbmem (fb (console_putchar ch c)) a = fbmem (fb (console_putchar ch' c)) a"
proof (intro conjI)
  have w: "wraps_at_bottom ch' c" using assms(2,5) by (simp add: wraps_at_bottom_def)
  note A = wrap_putchar(1) [OF assms(1,2,3,4)] and B = wrap_putchar(1) [OF assms(1) w assms(3,4)]
  have "agree (fb (console_putchar ch c)) (fb (console_putchar ch' c))"
    using agree_trans [OF A agree_sym [OF B]] .
  moreover have "in_buffer (fb (console_putchar ch c)) a"
  proof -
    have "redraws c (console_clear_cursor c)" using cursor_redraws(2) assms(1) by (simp add: console_ok_screen)
    then have "redraws c ((console_clear_cursor c)\<lparr>cursor_x := 1, cursor_y := console_rows c\<rparr>)" by simp
    note R = scroll_if_needed_spec [OF assms(1) redraws_same [OF this]]
    have "2 \<le> unat (console_cols c)" using assms(1) unfolding console_ok_def by blast
    then have "redraws c (console_draw_cursor (scroll_if_needed ((console_clear_cursor c)\<lparr>cursor_x := 1, cursor_y := console_rows c\<rparr>)))"
      using R \<open>redraws c ((console_clear_cursor c)\<lparr>cursor_x := 1, cursor_y := console_rows c\<rparr>)\<close>
        cursor_redraws(1) redraws_trans by (auto simp: console_ok_screen)
    then have "in_buffer (fb (console_draw_cursor (scroll_if_needed ((console_clear_cursor c)\<lparr>cursor_x := 1, cursor_y := console_rows c\<rparr>)))) a"
      using draws_fields(10) assms(6) by (auto simp: redraws_def)
    then show ?thesis using A by (auto simp: agree_def in_buffer_def)
  qed
  ultimately show "fbmem (fb (console_putchar ch c)) a = fbmem (fb (console_putchar ch' c)) a"
    by (simp add: agree_def)
qed (use wrap_putchar(2) [OF assms(1-4)] in \<open>simp_all add: in_buffer_def\<close>)

lemma console_wrap_past_buffer_witness:
  "load32 (fbmem (fb (console_putchar 0x41 tiny_console))) 0x1400 = 0xff233c67 \<and>
   fbmem (fb (console_putchar 0x41 tiny_console)) 0x1000 = fbmem (fb (console_putchar 0x42 tiny_console)) 0x1000"
  using console_wrap_past_buffer [OF tiny_console_ok, of "0x41" "0x42" "0x1000"]
  by (simp add: wraps_at_bottom_def tiny_console_def in_buffer_def font_def font_table_def)

end
