(* ===== verification/Tty.thy ===== *)
theory Tty
  imports Console Devfs
begin

text \<open>
  The terminal and the keyboard, \<open>devices/tty/tty.c\<close> and \<open>devices/keyboard/keyboard.c\<close>: scan codes
  become characters, characters go to a ring of 256 with a one-line editor, a reader waits for a
  whole line. \<open>hlt\<close> waits for an interrupt: the reader takes the list of what happens between its
  waits, one state transformer for each (the handler, and whatever else runs before the reader is
  scheduled again), and is still waiting when the list ends.

  The locale \<open>terminal\<close> states what the two drivers need of the driver state: a part for the terminal
  and an independent one for the console.
\<close>

section \<open>State\<close>

definition TTY_RING_SIZE :: u32 where "TTY_RING_SIZE = 256"
definition TTY_GET_INFO :: u32 where "TTY_GET_INFO = 0x01"

record tty_info =
  info_cols :: u32
  info_rows :: u32
  info_bg_color :: u32
  info_fg_color :: u32
  info_cursor_x :: u32
  info_cursor_y :: u32

record tty =
  ring :: "u8 list"
  ring_read :: u32
  ring_write :: u32
  ring_count :: u32
  line_len :: u32
  info :: tty_info

section \<open>tty.c\<close>

text \<open>The ring's part of \<open>tty_input_push\<close>; \<open>None\<close> when the character is dropped without echo.\<close>

definition tty_key :: "u8 \<Rightarrow> tty \<Rightarrow> tty option" where
  "tty_key c t =
     (if c = 0x08
      then if line_len t = 0 then None
           else Some (if ring_count t > 0
             then t\<lparr>ring_write := (ring_write t + TTY_RING_SIZE - 1) mod TTY_RING_SIZE,
                    ring_count := ring_count t - 1, line_len := line_len t - 1\<rparr>
             else t)
      else if ring_count t \<ge> TTY_RING_SIZE then None
      else Some (t\<lparr>ring := (ring t)[unat (ring_write t) := c],
                   ring_write := (ring_write t + 1) mod TTY_RING_SIZE, ring_count := ring_count t + 1,
                   line_len := (if c = 0x0a then 0 else line_len t + 1)\<rparr>))"

definition tty_input_push :: "('d, tty) part \<Rightarrow> ('d, console) part \<Rightarrow> u8 \<Rightarrow> 'd ksys \<Rightarrow> 'd ksys res" where
  "tty_input_push T C c s = (case tty_key c (dget T s) of
       None \<Rightarrow> Inr s
     | Some t \<Rightarrow>
         let s = dput T t s; s = dput C (console_putchar c (dget C s)) s in
         if c = 0x08 then Inr s
         else bind_res (thread_at (curr_thread s) s) (\<lambda>th.
           if tstate th = THREAD_BLOCKED
           then bind_res (set_thread_state (curr_thread s) THREAD_READY s) (\<lambda>s. Inr (s\<lparr>schedule_pending := True\<rparr>))
           else Inr s))"

definition has_newline :: "tty \<Rightarrow> bool" where
  "has_newline t \<longleftrightarrow> list_ex (\<lambda>i. ring t ! unat ((ring_read t + of_nat i) mod TTY_RING_SIZE) = 0x0a)
     [0..<unat (ring_count t)]"

text \<open>One wait: block, let an interrupt come, run again.\<close>

definition tty_sleep :: "('d ksys \<Rightarrow> 'd ksys res) \<Rightarrow> 'd ksys \<Rightarrow> 'd ksys res" where
  "tty_sleep irq s =
     bind_res (set_thread_state (curr_thread s) THREAD_BLOCKED s) (\<lambda>s.
     bind_res (irq (s\<lparr>schedule_pending := True\<rparr>)) (\<lambda>s.
     set_thread_state (curr_thread s) THREAD_RUNNING s))"

primrec tty_wait :: "('d, tty) part \<Rightarrow> ('d ksys \<Rightarrow> 'd ksys res) list \<Rightarrow> 'd ksys \<Rightarrow> 'd ksys res option" where
  "tty_wait T [] s = (if has_newline (dget T s) then Some (Inr s) else None)"
| "tty_wait T (irq # irqs) s =
     (if has_newline (dget T s) then Some (Inr s)
      else case tty_sleep irq s of Inl e \<Rightarrow> Some (Inl e) | Inr s \<Rightarrow> tty_wait T irqs s)"

primrec tty_drain :: "nat \<Rightarrow> tty \<Rightarrow> u8 list \<times> tty" where
  "tty_drain 0 t = ([], t)"
| "tty_drain (Suc n) t =
     (if ring_count t = 0 then ([], t)
      else let c = ring t ! unat (ring_read t);
               t = t\<lparr>ring_read := (ring_read t + 1) mod TTY_RING_SIZE, ring_count := ring_count t - 1\<rparr>
           in if c = 0x0a then ([c], t) else let (cs, t) = tty_drain n t in (c # cs, t))"

definition tty_read :: "('d, tty) part \<Rightarrow> ('d ksys \<Rightarrow> 'd ksys res) list \<Rightarrow>
    u32 \<Rightarrow> u32 \<Rightarrow> u32 \<Rightarrow> u32 \<Rightarrow> 'd ksys \<Rightarrow> (u32 \<times> 'd ksys) res option" where
  "tty_read T irqs node buf len off s = map_option (\<lambda>r. bind_res r (\<lambda>s.
     let (cs, t) = tty_drain (unat len) (dget T s) in
     bind_res (k_write cs buf (dput T t s)) (\<lambda>s. Inr (of_nat (length cs), s)))) (tty_wait T irqs s)"

definition copy_cursor :: "('d, tty) part \<Rightarrow> ('d, console) part \<Rightarrow> 'd ksys \<Rightarrow> 'd ksys" where
  "copy_cursor T C s = (let t = dget T s in
     dput T (t\<lparr>info := (info t)\<lparr>info_cursor_x := cursor_x (dget C s), info_cursor_y := cursor_y (dget C s)\<rparr>\<rparr>) s)"

definition tty_write ::
  "('d, tty) part \<Rightarrow> ('d, console) part \<Rightarrow> u32 \<Rightarrow> u32 \<Rightarrow> u32 \<Rightarrow> u32 \<Rightarrow> 'd ksys \<Rightarrow> (u32 \<times> 'd ksys) res" where
  "tty_write T C node buf len off s = bind_res (k_read (unat len) buf s) (\<lambda>str.
     Inr (len, copy_cursor T C (dput C (fold console_putchar str (dget C s)) s)))"

definition tty_info_bytes :: "tty_info \<Rightarrow> u8 list" where
  "tty_info_bytes i = concat (map word_bytes
     [info_cols i, info_rows i, info_bg_color i, info_fg_color i, info_cursor_x i, info_cursor_y i])"

definition tty_ioctl ::
  "('d, tty) part \<Rightarrow> ('d, console) part \<Rightarrow> u32 \<Rightarrow> u32 \<Rightarrow> u32 \<Rightarrow> 'd ksys \<Rightarrow> (u32 \<times> 'd ksys) res" where
  "tty_ioctl T C node request arg s =
     (if request = TTY_GET_INFO
      then let s = copy_cursor T C s
           in bind_res (k_write (tty_info_bytes (info (dget T s))) arg s) (\<lambda>s. Inr (0, s))
      else Inr (-1, s))"

text \<open>\<open>tty_addr\<close> is the address of the static \<open>tty\<close>, \<open>oa\<close> that of \<open>tty_ops\<close>.\<close>

definition tty_register :: "('d, tty) part \<Rightarrow> ('d, devfs) part \<Rightarrow> u32 \<Rightarrow> u32 \<Rightarrow>
    u32 \<Rightarrow> u32 \<Rightarrow> u32 \<Rightarrow> u32 \<Rightarrow> 'd ksys \<Rightarrow> 'd ksys" where
  "tty_register T D tty_addr oa cols rows bg fg s =
     (let s = dput T ((dget T s)\<lparr>info := \<lparr>info_cols = cols, info_rows = rows, info_bg_color = bg,
                info_fg_color = fg, info_cursor_x = 0, info_cursor_y = 0\<rparr>\<rparr>) s
      in dput D (snd (devfs_register [0x74, 0x74, 0x79, 0x30] oa tty_addr VFS_CHARDEV (dget D s))) s)"

definition tty_ops :: "('d, tty) part \<Rightarrow> ('d, console) part \<Rightarrow> ('d ksys \<Rightarrow> 'd ksys res) list \<Rightarrow> 'd vnode_ops" where
  "tty_ops T C irqs = no_ops\<lparr>op_read := Some (\<lambda>node buf len off s. ret (tty_read T irqs node buf len off s)),
     op_write := Some (tty_write T C), op_ioctl := Some (tty_ioctl T C)\<rparr>"

section \<open>keyboard.c\<close>

definition KEYBOARD_BUF_SIZE :: u32 where "KEYBOARD_BUF_SIZE = 64"
definition KEY_RELEASED :: u8 where "KEY_RELEASED = 0x80"
definition L_SHIFT :: u32 where "L_SHIFT = 1"
definition R_SHIFT :: u32 where "R_SHIFT = 2"
definition L_CTRL :: u32 where "L_CTRL = 4"
definition R_CTRL :: u32 where "R_CTRL = 8"
definition L_ALT :: u32 where "L_ALT = 16"
definition R_ALT :: u32 where "R_ALT = 32"

record keyboard =
  kbuf :: "u8 list"
  khead :: u32
  ktail :: u32
  mods :: u32
  extended :: bool
  keyboard_dirty :: bool

definition scancode_map :: "u8 list" where
  "scancode_map =
    [0, 0, 0x31, 0x32, 0x33, 0x34, 0x35, 0x36, 0x37, 0x38, 0x39, 0x30, 0x2d, 0x3d, 0x08,
     0x09, 0x71, 0x77, 0x65, 0x72, 0x74, 0x79, 0x75, 0x69, 0x6f, 0x70, 0x5b, 0x5d, 0x0a,
     0, 0x61, 0x73, 0x64, 0x66, 0x67, 0x68, 0x6a, 0x6b, 0x6c, 0x3b, 0x27, 0x60,
     0, 0x5c, 0x7a, 0x78, 0x63, 0x76, 0x62, 0x6e, 0x6d, 0x2c, 0x2e, 0x2f, 0,
     0x2a, 0, 0x20]"

definition scancode_map_shift :: "u8 list" where
  "scancode_map_shift =
    [0, 0, 0x21, 0x40, 0x23, 0x24, 0x25, 0x5e, 0x26, 0x2a, 0x28, 0x29, 0x5f, 0x2b, 0x08,
     0x09, 0x51, 0x57, 0x45, 0x52, 0x54, 0x59, 0x55, 0x49, 0x4f, 0x50, 0x7b, 0x7d, 0x0a,
     0, 0x41, 0x53, 0x44, 0x46, 0x47, 0x48, 0x4a, 0x4b, 0x4c, 0x3a, 0x22, 0x7e,
     0, 0x7c, 0x5a, 0x58, 0x43, 0x56, 0x42, 0x4e, 0x4d, 0x3c, 0x3e, 0x3f, 0,
     0x2a, 0, 0x20]"

definition buf_push :: "u8 \<Rightarrow> bool \<Rightarrow> keyboard \<Rightarrow> keyboard" where
  "buf_push c released k =
     (let next = (khead k + 1) mod KEYBOARD_BUF_SIZE in
      if next = ktail k then k
      else k\<lparr>kbuf := (kbuf k)[unat (khead k) := (if released then c OR KEY_RELEASED else c)], khead := next\<rparr>)"

definition buf_pop :: "keyboard \<Rightarrow> (u8 \<times> keyboard) option" where
  "buf_pop k = (if khead k = ktail k then None
     else Some (kbuf k ! unat (ktail k), k\<lparr>ktail := (ktail k + 1) mod KEYBOARD_BUF_SIZE\<rparr>))"

primrec keyboard_read_wrap :: "nat \<Rightarrow> keyboard \<Rightarrow> u8 list \<times> keyboard" where
  "keyboard_read_wrap 0 k = ([], k)"
| "keyboard_read_wrap (Suc n) k = (case buf_pop k of
       None \<Rightarrow> ([], k)
     | Some (c, k) \<Rightarrow> let (cs, k) = keyboard_read_wrap n k in (c # cs, k))"

definition set_mod :: "bool \<Rightarrow> u32 \<Rightarrow> keyboard \<Rightarrow> keyboard" where
  "set_mod released m k = k\<lparr>mods := (if released then mods k AND NOT m else mods k OR m)\<rparr>"

text \<open>The callback up to the character; the second component is what goes to the terminal.\<close>

definition keyboard_step :: "u8 \<Rightarrow> keyboard \<Rightarrow> keyboard \<times> u8 option" where
  "keyboard_step data k =
     (if data = 0xe0 then (k\<lparr>extended := True\<rparr>, None)
      else let released = (data AND KEY_RELEASED \<noteq> 0); sc = data AND NOT KEY_RELEASED in
        if extended k
        then let k = k\<lparr>extended := False\<rparr> in
          (if sc = 0x1d then set_mod released R_CTRL k
           else if sc = 0x38 then set_mod released R_ALT k else k, None)
        else if sc = 0x2a then (set_mod released L_SHIFT k, None)
        else if sc = 0x36 then (set_mod released R_SHIFT k, None)
        else if sc = 0x1d then (set_mod released L_CTRL k, None)
        else if sc = 0x38 then (set_mod released L_ALT k, None)
        else if unat sc \<ge> length scancode_map then (k, None)
        else let c = (if mods k AND (L_SHIFT OR R_SHIFT) \<noteq> 0 then scancode_map_shift ! unat sc
                      else scancode_map ! unat sc) in
          if c = 0 then (k, None)
          else ((buf_push c released k)\<lparr>keyboard_dirty := True\<rparr>, if released then None else Some c))"

definition keyboard_callback ::
  "('d, keyboard) part \<Rightarrow> ('d, tty) part \<Rightarrow> ('d, console) part \<Rightarrow> u8 \<Rightarrow> 'd ksys \<Rightarrow> 'd ksys res" where
  "keyboard_callback K T C data s =
     (let (k, c) = keyboard_step data (dget K s); s = dput K k s in
      case c of None \<Rightarrow> Inr s | Some c \<Rightarrow> tty_input_push T C c s)"

section \<open>The line editor\<close>

text \<open>The characters in the ring, oldest first, and those of the unfinished line.\<close>

definition tty_chars :: "tty \<Rightarrow> u8 list" where
  "tty_chars t = map (\<lambda>i. ring t ! ((unat (ring_read t) + i) mod 256)) [0..<unat (ring_count t)]"

definition open_line :: "u8 list \<Rightarrow> u8 list" where
  "open_line q = takeWhile (\<lambda>c. c \<noteq> 0x0a) (rev q)"

definition tty_ok :: "tty \<Rightarrow> bool" where
  "tty_ok t \<longleftrightarrow> length (ring t) = 256 \<and> unat (ring_read t) < 256 \<and> unat (ring_count t) \<le> 256
     \<and> unat (ring_write t) = (unat (ring_read t) + unat (ring_count t)) mod 256
     \<and> unat (line_len t) = length (open_line (tty_chars t))"

text \<open>What a key does to the characters.\<close>

definition edit :: "u8 \<Rightarrow> u8 list \<Rightarrow> u8 list" where
  "edit c q = (if c = 0x08 then if open_line q = [] then q else butlast q
     else if length q = 256 then q else q @ [c])"

lemma length_tty_chars [simp]: "length (tty_chars t) = unat (ring_count t)"
  by (simp add: tty_chars_def)

lemma open_line_snoc [simp]: "open_line (q @ [c]) = (if c = 0x0a then [] else c # open_line q)"
  by (simp add: open_line_def)

lemma open_line_Nil [simp]: "open_line [] = []"
  by (simp add: open_line_def)

lemma unat_mod_256: "unat (x mod TTY_RING_SIZE) = unat x mod 256"
  by (simp add: TTY_RING_SIZE_def unat_mod)

lemma ring_slots_differ:
  assumes "i < n" "n - i < (m :: nat)"
  shows "(r + n) mod m \<noteq> (r + i) mod m"
proof
  assume "(r + n) mod m = (r + i) mod m"
  then have "m dvd (r + n) - (r + i)" using assms(1) by (subst mod_eq_dvd_iff_nat [symmetric]) simp_all
  then show False using assms nat_dvd_not_less [of "n - i" m] by simp
qed

lemma tty_key_push:
  assumes "tty_ok t" "unat (ring_count t) < 256" "c \<noteq> 0x08"
  shows "\<exists>t'. tty_key c t = Some t' \<and> tty_ok t' \<and> tty_chars t' = tty_chars t @ [c]"
proof -
  let ?r = "unat (ring_read t)" and ?n = "unat (ring_count t)"
  define t' where "t' = t\<lparr>ring := (ring t)[unat (ring_write t) := c],
                   ring_write := (ring_write t + 1) mod TTY_RING_SIZE, ring_count := ring_count t + 1,
                   line_len := (if c = 0x0a then 0 else line_len t + 1)\<rparr>"
  have k: "tty_key c t = Some t'"
    using assms(2,3) by (simp add: tty_key_def t'_def TTY_RING_SIZE_def word_le_nat_alt)
  have n: "unat (ring_count t + 1) = Suc ?n" using assms(2) unat_add_u32 [of "ring_count t" 1] by simp
  have w: "unat (ring_write t) = (?r + ?n) mod 256" using assms(1) by (simp add: tty_ok_def)
  have ne: "(?r + ?n) mod 256 \<noteq> (?r + i) mod 256" if "i < ?n" for i
    using that assms(2) by (intro ring_slots_differ) simp_all
  have ch: "tty_chars t' = tty_chars t @ [c]"
  proof -
    have "map (\<lambda>i. (ring t)[(?r + ?n) mod 256 := c] ! ((?r + i) mod 256)) [0..<?n] =
        map (\<lambda>i. ring t ! ((?r + i) mod 256)) [0..<?n]"
      using ne by (intro map_cong) simp_all
    moreover have "length (ring t) = 256" using assms(1) by (simp add: tty_ok_def)
    ultimately show ?thesis by (simp add: tty_chars_def t'_def n w)
  qed
  have "unat (ring_write t + 1) = Suc ((?r + ?n) mod 256)"
    using w unat_add_u32 [of "ring_write t" 1] by simp
  then have "unat ((ring_write t + 1) mod TTY_RING_SIZE) = (?r + Suc ?n) mod 256"
    by (simp only: unat_mod_256) (simp add: mod_Suc_eq)
  moreover have "length (open_line (tty_chars t)) \<le> ?n"
    using length_takeWhile_le [of "\<lambda>c. c \<noteq> 0x0a" "rev (tty_chars t)"] by (simp add: open_line_def)
  then have "unat (line_len t + 1) = Suc (unat (line_len t))"
    using assms(1,2) unat_add_u32 [of "line_len t" 1] by (simp add: tty_ok_def)
  ultimately have "tty_ok t'" using assms(1,2) ch n by (simp add: tty_ok_def) (simp add: t'_def tty_ok_def n)
  with k ch show ?thesis by blast
qed

lemma tty_key_backspace:
  assumes "tty_ok t" "open_line (tty_chars t) \<noteq> []"
  shows "\<exists>t'. tty_key 0x08 t = Some t' \<and> tty_ok t' \<and> tty_chars t' = butlast (tty_chars t)"
proof -
  let ?r = "unat (ring_read t)" and ?n = "unat (ring_count t)"
  have q: "tty_chars t \<noteq> []" using assms(2) by auto
  then have n0: "ring_count t \<noteq> 0" by (auto simp: tty_chars_def)
  have l0: "line_len t \<noteq> 0" using assms by (auto simp: tty_ok_def)
  define t' where "t' = t\<lparr>ring_write := (ring_write t + TTY_RING_SIZE - 1) mod TTY_RING_SIZE,
                    ring_count := ring_count t - 1, line_len := line_len t - 1\<rparr>"
  have k: "tty_key 0x08 t = Some t'" using n0 l0 by (simp add: tty_key_def t'_def word_gt_0)
  have n: "unat (ring_count t - 1) = ?n - 1" "0 < ?n" using n0 by (simp_all add: unat_dec_u32 unat_gt_0)
  have ch: "tty_chars t' = butlast (tty_chars t)"
  proof -
    have "[0..<?n] = [0..<?n - 1] @ [?n - 1]" using n(2) by (cases ?n) simp_all
    then show ?thesis using n(1) by (simp add: tty_chars_def t'_def)
  qed
  have w: "unat (ring_write t) = (?r + ?n) mod 256" using assms(1) by (simp add: tty_ok_def)
  then have "unat (ring_write t + 255) = (?r + ?n) mod 256 + 255" using unat_add_u32 [of "ring_write t" 255] by simp
  moreover have "ring_write t + TTY_RING_SIZE - 1 = ring_write t + 255" by (simp add: TTY_RING_SIZE_def)
  ultimately have "unat ((ring_write t + TTY_RING_SIZE - 1) mod TTY_RING_SIZE) = ((?r + ?n) mod 256 + 255) mod 256"
    by (simp only: unat_mod_256)
  also have "\<dots> = (?r + ?n + 255) mod 256" by (rule mod_add_left_eq)
  also have "?r + ?n + 255 = ?r + (?n - 1) + 256" using n(2) by simp
  also have "(?r + (?n - 1) + 256) mod 256 = (?r + (?n - 1)) mod 256" by simp
  finally have w': "unat ((ring_write t + TTY_RING_SIZE - 1) mod TTY_RING_SIZE) = (?r + (?n - 1)) mod 256" .
  obtain q' c where qc: "tty_chars t = q' @ [c]" using q by (cases "tty_chars t" rule: rev_cases) auto
  with assms(2) have "open_line (tty_chars t) = c # open_line q'" by (auto split: if_splits)
  then have "unat (line_len t - 1) = length (open_line q')"
    using assms(1) l0 by (simp add: unat_dec_u32 tty_ok_def)
  then have "tty_ok t'" using assms(1) ch n w' qc by (simp add: tty_ok_def) (auto simp: t'_def)
  with k ch show ?thesis by blast
qed

lemma tty_key_spec:
  assumes "tty_ok t"
  shows "case tty_key c t of None \<Rightarrow> edit c (tty_chars t) = tty_chars t
    | Some t' \<Rightarrow> tty_ok t' \<and> tty_chars t' = edit c (tty_chars t)"
proof (cases "c = 0x08")
  case True
  show ?thesis
  proof (cases "open_line (tty_chars t) = []")
    case True
    then have "line_len t = 0" using assms by (simp add: tty_ok_def unat_eq_0)
    then show ?thesis using True \<open>c = 0x08\<close> by (simp add: tty_key_def edit_def)
  qed (use tty_key_backspace [OF assms] True in \<open>auto simp: edit_def\<close>)
next
  case False
  show ?thesis
  proof (cases "unat (ring_count t) < 256")
    case True
    then show ?thesis using tty_key_push [OF assms True False] False by (auto simp: edit_def)
  next
    case full: False
    then have "unat (ring_count t) = 256" using assms by (simp add: tty_ok_def)
    then show ?thesis using False by (simp add: tty_key_def edit_def TTY_RING_SIZE_def word_le_nat_alt)
  qed
qed

section \<open>Reading a line\<close>

text \<open>What a read of at most \<open>n\<close> characters takes: up to the first newline and with it.\<close>

primrec first_line :: "nat \<Rightarrow> u8 list \<Rightarrow> u8 list" where
  "first_line n [] = []"
| "first_line n (c # q) = (case n of 0 \<Rightarrow> [] | Suc m \<Rightarrow> if c = 0x0a then [c] else c # first_line m q)"

lemma first_line_prefix: "take (length (first_line n q)) q = first_line n q"
  by (induction q arbitrary: n) (auto split: nat.split)

lemma open_line_drop:
  assumes "0x0a \<in> set q"
  shows "open_line (drop (length (first_line n q)) q) = open_line q"
  using assms
proof (induction q arbitrary: n)
  case (Cons c q)
  show ?case
  proof (cases n)
    case (Suc m)
    show ?thesis
    proof (cases "c = 0x0a")
      case True
      then show ?thesis by (simp add: Suc open_line_def takeWhile_append)
    next
      case False
      then have "0x0a \<in> set q" using Cons.prems by simp
      then show ?thesis using False Cons.IH [of m] by (auto simp: Suc open_line_def takeWhile_append)
    qed
  qed simp
qed simp

lemma tty_chars_Cons:
  assumes "ring_count t \<noteq> 0" "unat (ring_read t) < 256"
  shows "tty_chars t = ring t ! unat (ring_read t)
    # tty_chars (t\<lparr>ring_read := (ring_read t + 1) mod TTY_RING_SIZE, ring_count := ring_count t - 1\<rparr>)"
proof -
  let ?r = "unat (ring_read t)"
  obtain n where n: "unat (ring_count t) = Suc n" using assms(1) by (cases "unat (ring_count t)") (auto simp: unat_eq_0)
  have "unat ((ring_read t + 1) mod TTY_RING_SIZE) = Suc ?r mod 256"
    using unat_mod_256 [of "ring_read t + 1"] unat_add_u32 [of "ring_read t" 1] assms(2) by simp
  moreover have "(Suc ?r mod 256 + i) mod 256 = (?r + Suc i) mod 256" for i by (simp add: mod_add_left_eq)
  moreover have "[0..<Suc n] = 0 # map Suc [0..<n]" by (simp add: upt_conv_Cons map_Suc_upt)
  moreover have "unat (ring_count t - 1) = n" using n assms(1) by (simp add: unat_dec_u32)
  ultimately show ?thesis using assms(2) by (simp add: tty_chars_def n del: upt_Suc)
qed

lemma tty_drain_spec:
  assumes "unat (ring_read t) < 256" "tty_drain n t = (cs, t')"
  shows "cs = first_line n (tty_chars t) \<and> tty_chars t' = drop (length cs) (tty_chars t)
    \<and> unat (ring_read t') < 256 \<and> ring t' = ring t \<and> ring_write t' = ring_write t \<and> line_len t' = line_len t
    \<and> unat (ring_count t') + length cs = unat (ring_count t)
    \<and> (unat (ring_read t') + unat (ring_count t')) mod 256 = (unat (ring_read t) + unat (ring_count t)) mod 256"
  using assms
proof (induction n arbitrary: t cs)
  case 0
  then show ?case by (cases "tty_chars t") auto
next
  case (Suc n)
  show ?case
  proof (cases "ring_count t = 0")
    case True
    then show ?thesis using Suc.prems by (simp add: tty_chars_def)
  next
    case False
    let ?c = "ring t ! unat (ring_read t)"
      and ?t = "t\<lparr>ring_read := (ring_read t + 1) mod TTY_RING_SIZE, ring_count := ring_count t - 1\<rparr>"
    have C: "tty_chars t = ?c # tty_chars ?t" using tty_chars_Cons False Suc.prems(1) by simp
    have r: "unat ((ring_read t + 1) mod TTY_RING_SIZE) = Suc (unat (ring_read t)) mod 256"
      using unat_mod_256 [of "ring_read t + 1"] unat_add_u32 [of "ring_read t" 1] Suc.prems(1) by simp
    have k: "unat (ring_count t) = Suc (unat (ring_count t - 1))" using False by (simp add: unat_dec_u32 unat_gt_0)
    have m: "(Suc (unat (ring_read t)) mod 256 + unat (ring_count t - 1)) mod 256 =
        (unat (ring_read t) + unat (ring_count t)) mod 256" by (simp add: k mod_add_left_eq)
    show ?thesis
    proof (cases "?c = 0x0a")
      case True
      then have "cs = [?c]" "t' = ?t" using Suc.prems(2) False by (auto simp: Let_def)
      then show ?thesis using C True r k m by simp
    next
      case nl: False
      obtain cs1 where cs1: "tty_drain n ?t = (cs1, t')" "cs = ?c # cs1"
        using Suc.prems(2) False nl by (auto simp: Let_def split: prod.splits)
      have "unat (ring_read ?t) < 256" using r by simp
      note I = Suc.IH [OF this cs1(1)]
      then have "cs1 = first_line n (tty_chars ?t)" "tty_chars t' = drop (length cs1) (tty_chars ?t)"
        "unat (ring_count t') + length cs1 = unat (ring_count ?t)" by blast+
      then show ?thesis unfolding C cs1(2) using I nl m k r by simp
    qed
  qed
qed

lemma tty_drain_ok:
  assumes "tty_ok t" "0x0a \<in> set (tty_chars t)" "tty_drain n t = (cs, t')"
  shows "tty_ok t' \<and> cs = first_line n (tty_chars t) \<and> tty_chars t = cs @ tty_chars t'"
proof -
  have r: "unat (ring_read t) < 256" using assms(1) by (simp add: tty_ok_def)
  note D = tty_drain_spec [OF r assms(3)]
  have "open_line (tty_chars t') = open_line (tty_chars t)" using open_line_drop [OF assms(2), of n] D by simp
  then have "tty_ok t'" using D assms(1) by (auto simp: tty_ok_def)
  moreover have "tty_chars t = cs @ tty_chars t'"
    using first_line_prefix [of n "tty_chars t"] D append_take_drop_id [of "length cs" "tty_chars t"] by simp
  ultimately show ?thesis using D by blast
qed

lemma has_newline_iff:
  assumes "unat (ring_read t) < 256" "unat (ring_count t) \<le> 256"
  shows "has_newline t \<longleftrightarrow> 0x0a \<in> set (tty_chars t)"
proof -
  have "unat ((ring_read t + of_nat i) mod TTY_RING_SIZE) = (unat (ring_read t) + i) mod 256" if "i < unat (ring_count t)" for i
    using that assms unat_mod_256 [of "ring_read t + of_nat i"] unat_add_u32 [of "ring_read t" "of_nat i"] by simp
  then show ?thesis by (auto simp: has_newline_def tty_chars_def list_ex_iff)
qed

section \<open>Terminal and console together\<close>

locale terminal = T: driver_part T + C: driver_part C
  for T :: "('d, tty) part" and C :: "('d, console) part" +
  assumes apart [simp]: "get_part T (put_part C x d) = get_part T d" "get_part C (put_part T y d) = get_part C d"
begin

definition ready :: "'d ksys \<Rightarrow> bool" where
  "ready s \<longleftrightarrow> tty_ok (dget T s) \<and> threads s (curr_thread s) \<noteq> None"

lemma dget_apart [simp]: "dget T (dput C x s) = dget T s" "dget C (dput T y s) = dget C s"
  by (simp_all add: dget_def dput_def)

lemma dget_sched [simp]:
  "dget T (put_thread p t s) = dget T s" "dget T (s\<lparr>schedule_pending := b\<rparr>) = dget T s"
  by (simp_all add: dget_def put_thread_def)

lemma sched_dput [simp]:
  "curr_thread (dput T x s) = curr_thread s" "threads (dput T x s) = threads s"
  "curr_thread (dput C y s) = curr_thread s" "threads (dput C y s) = threads s"
  by (simp_all add: dput_def)

lemma push_spec:
  assumes "ready s"
  shows "\<exists>s'. tty_input_push T C c s = Inr s' \<and> ready s' \<and> curr_thread s' = curr_thread s
    \<and> tty_chars (dget T s') = edit c (tty_chars (dget T s))"
proof -
  have K: "case tty_key c (dget T s) of None \<Rightarrow> edit c (tty_chars (dget T s)) = tty_chars (dget T s)
    | Some t' \<Rightarrow> tty_ok t' \<and> tty_chars t' = edit c (tty_chars (dget T s))"
    using assms by (intro tty_key_spec) (simp add: ready_def)
  obtain th where th: "threads s (curr_thread s) = Some th" using assms by (auto simp: ready_def)
  show ?thesis
  proof (cases "tty_key c (dget T s)")
    case None
    with K assms show ?thesis by (simp add: tty_input_push_def)
  next
    case (Some t')
    with K th show ?thesis
      by (auto simp: tty_input_push_def ready_def Let_def thread_at_def set_thread_state_def put_thread_def)
        (auto simp: dget_def dput_def)
  qed
qed

lemma sleep_spec:
  assumes "ready s"
  shows "\<exists>s'. tty_sleep (tty_input_push T C c) s = Inr s' \<and> ready s'
    \<and> tty_chars (dget T s') = edit c (tty_chars (dget T s))"
proof -
  obtain th where th: "threads s (curr_thread s) = Some th" using assms by (auto simp: ready_def)
  define s1 where "s1 = (put_thread (curr_thread s) (th\<lparr>tstate := THREAD_BLOCKED\<rparr>) s)\<lparr>schedule_pending := True\<rparr>"
  have s1: "dget T s1 = dget T s" by (simp add: s1_def)
  have "ready s1" using assms by (simp add: ready_def s1) (simp add: s1_def put_thread_def)
  from push_spec [OF this, of c] obtain s2 where s2: "tty_input_push T C c s1 = Inr s2" "ready s2"
    "tty_chars (dget T s2) = edit c (tty_chars (dget T s))" by (auto simp: s1)
  then obtain th2 where th2: "threads s2 (curr_thread s2) = Some th2" by (auto simp: ready_def)
  let ?s3 = "put_thread (curr_thread s2) (th2\<lparr>tstate := THREAD_RUNNING\<rparr>) s2"
  have "tty_sleep (tty_input_push T C c) s = Inr ?s3"
    using th th2 s2(1) by (simp add: tty_sleep_def set_thread_state_def thread_at_def s1_def)
  moreover have "ready ?s3" using s2(2) by (simp add: ready_def) (simp add: put_thread_def)
  ultimately show ?thesis using s2(3) by simp
qed

lemma newline_iff: "ready s \<Longrightarrow> has_newline (dget T s) \<longleftrightarrow> 0x0a \<in> set (tty_chars (dget T s))"
  by (simp add: ready_def tty_ok_def has_newline_iff)

lemma edit_no_newline: "c \<noteq> 0x0a \<Longrightarrow> 0x0a \<notin> set q \<Longrightarrow> 0x0a \<notin> set (edit c q)"
  by (auto simp: edit_def dest: in_set_butlastD)

lemma wait_line:
  "ready s \<Longrightarrow> 0x0a \<notin> set (tty_chars (dget T s)) \<Longrightarrow> 0x0a \<notin> set ks \<Longrightarrow>
    length (fold edit ks (tty_chars (dget T s))) < 256 \<Longrightarrow>
    \<exists>s'. tty_wait T (map (tty_input_push T C) ks @ tty_input_push T C 0x0a # irqs) s = Some (Inr s') \<and> ready s'
      \<and> tty_chars (dget T s') = fold edit ks (tty_chars (dget T s)) @ [0x0a]"
proof (induction ks arbitrary: s)
  case Nil
  then obtain s' where s': "tty_sleep (tty_input_push T C 0x0a) s = Inr s'" "ready s'"
    "tty_chars (dget T s') = tty_chars (dget T s) @ [0x0a]"
    using sleep_spec [of s "0x0a"] by (auto simp: edit_def)
  then have "has_newline (dget T s')" by (simp add: newline_iff)
  then have "tty_wait T irqs s' = Some (Inr s')" by (cases irqs) simp_all
  with Nil s' show ?case by (simp add: newline_iff)
next
  case (Cons c ks)
  obtain s1 where s1: "tty_sleep (tty_input_push T C c) s = Inr s1" "ready s1"
    "tty_chars (dget T s1) = edit c (tty_chars (dget T s))"
    using sleep_spec [OF Cons.prems(1)] by blast
  have "0x0a \<notin> set (tty_chars (dget T s1))" using Cons.prems(2,3) s1(3) edit_no_newline by simp
  from Cons.IH [OF s1(2) this] Cons.prems s1 show ?case by (simp add: newline_iff)
qed

lemma wait_full:
  "ready s \<Longrightarrow> 0x0a \<notin> set (tty_chars (dget T s)) \<Longrightarrow> length (tty_chars (dget T s)) = 256 \<Longrightarrow> 0x08 \<notin> set ks \<Longrightarrow>
    tty_wait T (map (tty_input_push T C) ks) s = None"
proof (induction ks arbitrary: s)
  case Nil
  then show ?case by (simp add: newline_iff)
next
  case (Cons c ks)
  obtain s1 where s1: "tty_sleep (tty_input_push T C c) s = Inr s1" "ready s1"
    "tty_chars (dget T s1) = edit c (tty_chars (dget T s))"
    using sleep_spec [OF Cons.prems(1)] by blast
  moreover have "edit c (tty_chars (dget T s)) = tty_chars (dget T s)"
    using Cons.prems(3,4) by (simp add: edit_def)
  ultimately have q: "tty_chars (dget T s1) = tty_chars (dget T s)" by simp
  have "tty_wait T (map (tty_input_push T C) ks) s1 = None"
  proof (rule Cons.IH [OF s1(2)])
    show "length (tty_chars (dget T s1)) = 256" using Cons.prems(3) by (simp only: q)
  qed (use Cons.prems q in auto)
  with Cons.prems s1 show ?case by (simp add: newline_iff)
qed

end

interpretation tty_console: terminal part_fst part_snd
  by unfold_locales (simp_all add: part_fst_def part_snd_def)

section \<open>Properties\<close>

text \<open>A machine whose thread 0x20 runs, with an empty terminal.\<close>

definition empty_tty :: tty where
  "empty_tty = \<lparr>ring = replicate 256 0, ring_read = 0, ring_write = 0, ring_count = 0, line_len = 0,
     info = \<lparr>info_cols = 2, info_rows = 1, info_bg_color = 0, info_fg_color = 0, info_cursor_x = 0, info_cursor_y = 0\<rparr>\<rparr>"

definition full_tty :: tty where
  "full_tty = empty_tty\<lparr>ring := replicate 256 0x61, ring_count := 256, line_len := 256\<rparr>"

definition tty_sys :: "tty \<Rightarrow> (tty \<times> console) ksys" where
  "tty_sys t = (vfs_sys (t, tiny_console) 0)\<lparr>curr_thread := 0x20,
     threads := (\<lambda>_. None)(0x20 \<mapsto> \<lparr>esp = 0, stack_base = 0, stack_size = 0, tstate = THREAD_RUNNING,
       tprocess = 0, tnext = 0x20\<rparr>)\<rparr>"

lemma tty_sys_facts [simp]:
  "dget part_fst (tty_sys t) = t" "threads (tty_sys t) (curr_thread (tty_sys t)) \<noteq> None"
  by (simp_all add: dget_def part_fst_def tty_sys_def vfs_sys_def)

lemma empty_tty_ok: "tty_ok empty_tty" "tty_chars empty_tty = []"
  by (simp_all add: tty_ok_def empty_tty_def tty_chars_def)

lemma full_tty_ok: "tty_ok full_tty" "tty_chars full_tty = replicate 256 0x61"
proof -
  have "map (\<lambda>i. replicate 256 0x61 ! (i mod 256)) [0..<256] = replicate 256 (0x61 :: u8)"
    by (intro nth_equalityI) simp_all
  then show q: "tty_chars full_tty = replicate 256 0x61"
    by (simp add: full_tty_def empty_tty_def tty_chars_def del: upt_Suc)
  have "takeWhile (\<lambda>c. c \<noteq> 0x0a) (replicate 256 (0x61 :: u8)) = replicate 256 0x61"
    by (intro takeWhile_eq_all_conv [THEN iffD2]) simp
  then have "length (open_line (tty_chars full_tty)) = 256" by (simp add: q open_line_def)
  then show "tty_ok full_tty" by (simp add: tty_ok_def) (simp add: full_tty_def empty_tty_def)
qed

text \<open>C20: \<open>tty_input_push\<close> implements the line editor: from a well-formed ring it succeeds, leaves the
  ring well formed (the indices agree with the count, \<open>line_len\<close> is the length of the unfinished line),
  and changes the sequence of waiting characters as the key says: backspace takes the last character
  of the unfinished line, any other key is appended unless 256 characters wait.\<close>

theorem tty_push_edits:
  assumes "tty_ok (dget part_fst s)" "threads s (curr_thread s) \<noteq> None"
  shows "\<exists>s'. tty_input_push part_fst part_snd c s = Inr s' \<and> tty_ok (dget part_fst s')
    \<and> tty_chars (dget part_fst s') =
        (if c = 0x08 then if open_line (tty_chars (dget part_fst s)) = [] then tty_chars (dget part_fst s)
            else butlast (tty_chars (dget part_fst s))
         else if length (tty_chars (dget part_fst s)) = 256 then tty_chars (dget part_fst s)
         else tty_chars (dget part_fst s) @ [c])"
  using tty_console.push_spec [of s c] assms by (auto simp: tty_console.ready_def edit_def)

lemma tty_push_edits_witness:
  "\<exists>s'. tty_input_push part_fst part_snd 0x61 (tty_sys empty_tty) = Inr s' \<and> tty_chars (dget part_fst s') = [0x61]"
  using tty_push_edits [of "tty_sys empty_tty" "0x61"] empty_tty_ok by auto

text \<open>C21: a reader that finds no complete line waits through the keys of one until the newline comes, and
  then gets the line as edited, with its newline, cut to the length of its buffer; what it does not
  take stays. The line must leave room for the newline in the ring.\<close>

theorem tty_read_gets_line:
  assumes "tty_ok (dget part_fst s)" "threads s (curr_thread s) \<noteq> None"
    and "0x0a \<notin> set (tty_chars (dget part_fst s))" "0x0a \<notin> set ks"
    and "line = fold edit ks (tty_chars (dget part_fst s))" "length line < 256"
  shows "\<exists>s' t. tty_read part_fst (map (tty_input_push part_fst part_snd) (ks @ [0x0a]) @ irqs) node buf len off s =
      Some (bind_res (k_write (take (unat len) (line @ [0x0a])) buf s')
        (\<lambda>s. Inr (of_nat (min (unat len) (Suc (length line))), s)))
    \<and> tty_ok (dget part_fst s') \<and> tty_chars (dget part_fst s') = drop (unat len) (line @ [0x0a])"
proof -
  obtain s1 where s1: "tty_wait part_fst (map (tty_input_push part_fst part_snd) ks @ tty_input_push part_fst part_snd 0x0a # irqs) s
      = Some (Inr s1)" "tty_ok (dget part_fst s1)" "tty_chars (dget part_fst s1) = line @ [0x0a]"
    using tty_console.wait_line [of s ks irqs] assms by (auto simp: tty_console.ready_def)
  obtain cs t where d: "tty_drain (unat len) (dget part_fst s1) = (cs, t)" by force
  have nl: "0x0a \<notin> set line"
  proof -
    have "0x0a \<notin> set q \<Longrightarrow> 0x0a \<notin> set ks \<Longrightarrow> 0x0a \<notin> set (fold edit ks q)" for q
      by (induction ks arbitrary: q) (simp_all add: tty_console.edit_no_newline)
    then show ?thesis using assms(3-5) by simp
  qed
  have fl: "0x0a \<notin> set q \<Longrightarrow> first_line n (q @ [0x0a]) = take n (q @ [0x0a])" for n q
    by (induction q arbitrary: n) (auto split: nat.split)
  have D: "tty_ok t" "cs = take (unat len) (line @ [0x0a])" "line @ [0x0a] = cs @ tty_chars t"
  proof -
    have "0x0a \<in> set (tty_chars (dget part_fst s1))" by (simp add: s1(3))
    note dd = tty_drain_ok [OF s1(2) this d]
    show "tty_ok t" "cs = take (unat len) (line @ [0x0a])" "line @ [0x0a] = cs @ tty_chars t"
      using dd s1(3) fl [OF nl, of "unat len"] by metis+
  qed
  have "line @ [0x0a] = take (unat len) (line @ [0x0a]) @ drop (unat len) (line @ [0x0a])" by (simp only: append_take_drop_id)
  with D(2,3) have tt: "tty_chars t = drop (unat len) (line @ [0x0a])" by (metis same_append_eq)
  have "length cs = min (unat len) (Suc (length line))" using D(2) by (simp add: min.commute)
  then show ?thesis using s1(1) d D(1,2) tt
    by (intro exI [of _ "dput part_fst t s1"]) (simp add: tty_read_def)
qed

lemma tty_read_gets_line_witness:
  "\<exists>s'. tty_read part_fst (map (tty_input_push part_fst part_snd) ([0x61, 0x62, 0x08] @ [0x0a]) @ []) 0x100 0x8000 8 0
      (tty_sys empty_tty) = Some (bind_res (k_write [0x61, 0x0a] 0x8000 s') (\<lambda>s. Inr (2, s)))"
proof -
  have "[0x61] = fold edit [0x61, 0x62, 0x08] (tty_chars (dget part_fst (tty_sys empty_tty)))"
    by (simp add: empty_tty_ok edit_def open_line_def)
  from tty_read_gets_line [of "tty_sys empty_tty" "[0x61, 0x62, 0x08]" "[0x61]" "[]" "0x100" "0x8000" 8 0, OF _ _ _ _ this]
  show ?thesis by (auto simp: empty_tty_ok)
qed

text \<open>When 256 characters of an unfinished line wait, the newline is dropped like any other key: the
  reader keeps waiting whatever is typed, as long as it is not a backspace.\<close>

theorem tty_full_line_blocks:
  assumes "tty_ok (dget part_fst s)" "threads s (curr_thread s) \<noteq> None"
    and "length (tty_chars (dget part_fst s)) = 256" "0x0a \<notin> set (tty_chars (dget part_fst s))"
    and "0x08 \<notin> set ks"
  shows "tty_read part_fst (map (tty_input_push part_fst part_snd) ks) node buf len off s = None"
  using tty_console.wait_full [of s ks] assms by (simp add: tty_console.ready_def tty_read_def)

lemma tty_full_line_blocks_witness:
  "tty_read part_fst (map (tty_input_push part_fst part_snd) [0x0a, 0x0a]) 0x100 0x8000 8 0 (tty_sys full_tty) = None"
proof -
  have "length (tty_chars full_tty) = 256" by (simp only: full_tty_ok length_replicate)
  then show ?thesis using full_tty_ok
    by (intro tty_full_line_blocks) simp_all
qed

end
