(* ===== verification/Clock.thy ===== *)
theory Clock
  imports Vfs Console
begin

text \<open>
  The clock: the timer interrupt of \<open>devices/pit/pit.c\<close>, which keeps the date, blinks the cursor,
  refreshes the screen and asks for a thread switch, and the CMOS clock of \<open>devices/rtc/rtc.c\<close>.
  The CMOS registers are a parameter: \<open>cmos n reg\<close> is the value of register \<open>reg\<close> at the \<open>n\<close>-th
  read of the device.
\<close>

section \<open>State\<close>

record rtc_time =
  seconds :: u8
  minutes :: u8
  hours :: u8
  day :: u8
  month :: u8
  year :: u16

record clock =
  ticks :: u32
  boot_time :: rtc_time
  curr_time :: rtc_time

definition PIT_HZ :: u32 where "PIT_HZ = 1000"
definition PIT_MS_PER_TICK :: u32 where "PIT_MS_PER_TICK = 1000 div PIT_HZ"

section \<open>pit.c\<close>

definition days_in_month :: "u8 list" where
  "days_in_month = [0, 31, 28, 31, 30, 31, 30, 31, 31, 30, 31, 30, 31]"

definition leap_year :: "u32 \<Rightarrow> bool" where
  "leap_year y \<longleftrightarrow> (y mod 4 = 0 \<and> y mod 100 \<noteq> 0) \<or> y mod 400 = 0"

definition get_days_in_month :: "u8 \<Rightarrow> u32 \<Rightarrow> u8" where
  "get_days_in_month m y = (if m = 2 \<and> leap_year y then 29 else days_in_month ! unat m)"

definition pit_init :: "(u16 \<times> u8) list" where
  "pit_init = (let divisor = 1193180 div PIT_HZ in
     [(0x43, 0x36), (0x40, ucast (divisor AND 0xff)), (0x40, ucast (drop_bit 8 divisor AND 0xff))])"

text \<open>The calendar part of \<open>pit_callback\<close>: \<open>sec\<close> says that a second is full.\<close>

definition tick_time :: "bool \<Rightarrow> rtc_time \<Rightarrow> rtc_time" where
  "tick_time sec t =
     (let t = (if sec then t\<lparr>seconds := seconds t + 1\<rparr> else t);
          t = (if seconds t \<ge> 60 then t\<lparr>minutes := minutes t + 1, seconds := 0\<rparr> else t);
          t = (if minutes t \<ge> 60 then t\<lparr>hours := hours t + 1, minutes := 0\<rparr> else t);
          t = (if hours t \<ge> 24 then t\<lparr>day := day t + 1, hours := 0\<rparr> else t)
      in if day t > get_days_in_month (month t) (ucast (year t))
         then let t = t\<lparr>month := month t + 1, day := 1\<rparr>
              in if month t > 12 then t\<lparr>year := year t + 1, month := 1\<rparr> else t
         else t)"

definition pit_callback :: "('d, clock) part \<Rightarrow> ('d, console) part \<Rightarrow> 'd ksys \<Rightarrow> 'd ksys" where
  "pit_callback K C s =
     (let k = (dget K s)\<lparr>ticks := ticks (dget K s) + 1\<rparr>; n = ticks k;
          s = dput K (k\<lparr>curr_time := tick_time (n mod PIT_HZ = 0) (curr_time k)\<rparr>) s;
          s = (if n mod 500 = 0 then dput C (console_toggle_cursor (dget C s)) s else s);
          s = (if n mod 16 = 0 then dput C (on_fb fb_swap (dget C s)) s else s)
      in if curr_thread s \<noteq> 0 \<and> n mod 10 = 0 then s\<lparr>schedule_pending := True\<rparr> else s)"

definition pit_get_ticks :: "clock \<Rightarrow> u32" where
  "pit_get_ticks k = ticks k"

definition pit_ticks_to_ms :: "u32 \<Rightarrow> u32" where
  "pit_ticks_to_ms n = n * PIT_MS_PER_TICK"

definition pit_ms_to_ticks :: "u32 \<Rightarrow> u32" where
  "pit_ms_to_ticks ms = ms div PIT_MS_PER_TICK"

definition pit_get_ms :: "clock \<Rightarrow> u32" where
  "pit_get_ms k = pit_get_ticks k * PIT_MS_PER_TICK"

section \<open>rtc.c\<close>

definition RTC_SECONDS :: u8 where "RTC_SECONDS = 0x00"
definition RTC_MINUTES :: u8 where "RTC_MINUTES = 0x02"
definition RTC_HOURS :: u8 where "RTC_HOURS = 0x04"
definition RTC_DAY :: u8 where "RTC_DAY = 0x07"
definition RTC_MONTH :: u8 where "RTC_MONTH = 0x08"
definition RTC_YEAR :: u8 where "RTC_YEAR = 0x09"
definition RTC_REG_A :: u8 where "RTC_REG_A = 0x0a"
definition RTC_REG_B :: u8 where "RTC_REG_B = 0x0b"
definition RTC_UIP_FLAG :: u8 where "RTC_UIP_FLAG = 0x80"
definition RTC_BINARY_MODE :: u8 where "RTC_BINARY_MODE = 0x04"
definition RTC_24HR_MODE :: u8 where "RTC_24HR_MODE = 0x02"

definition cmos_read :: "(nat \<Rightarrow> u8 \<Rightarrow> u8) \<Rightarrow> nat \<Rightarrow> u8 \<Rightarrow> u8" where
  "cmos_read cmos n reg = cmos n (reg AND 0x7f)"

definition bcd_to_binary :: "u8 \<Rightarrow> u8" where
  "bcd_to_binary b = drop_bit 4 b * 10 + (b AND 0x0f)"

text \<open>The number of the read after the update in progress ends.\<close>

partial_function (option) rtc_wait :: "(nat \<Rightarrow> u8 \<Rightarrow> u8) \<Rightarrow> nat \<Rightarrow> nat option" where
  "rtc_wait cmos n = (if cmos_read cmos n RTC_REG_A AND RTC_UIP_FLAG \<noteq> 0 then rtc_wait cmos (Suc n)
     else Some (Suc n))"

definition rtc_decode :: "u8 \<Rightarrow> rtc_time \<Rightarrow> rtc_time" where
  "rtc_decode regB t =
     (let t = (if regB AND RTC_BINARY_MODE = 0
               then \<lparr>seconds = bcd_to_binary (seconds t), minutes = bcd_to_binary (minutes t),
                     hours = bcd_to_binary (hours t), day = bcd_to_binary (day t),
                     month = bcd_to_binary (month t), year = ucast (bcd_to_binary (ucast (year t)))\<rparr> else t);
          t = (if regB AND RTC_24HR_MODE = 0 \<and> hours t AND 0x80 \<noteq> 0
               then t\<lparr>hours := ((hours t AND 0x7f) + 12) mod 24\<rparr> else t)
      in t\<lparr>year := year t + 2000\<rparr>)"

definition rtc_read_time :: "(nat \<Rightarrow> u8 \<Rightarrow> u8) \<Rightarrow> nat \<Rightarrow> rtc_time option" where
  "rtc_read_time cmos n = map_option (\<lambda>n. rtc_decode (cmos_read cmos (n + 6) RTC_REG_B)
     \<lparr>seconds = cmos_read cmos n RTC_SECONDS, minutes = cmos_read cmos (n + 1) RTC_MINUTES,
      hours = cmos_read cmos (n + 2) RTC_HOURS, day = cmos_read cmos (n + 3) RTC_DAY,
      month = cmos_read cmos (n + 4) RTC_MONTH, year = ucast (cmos_read cmos (n + 5) RTC_YEAR)\<rparr>) (rtc_wait cmos n)"

definition rtc_init :: "(nat \<Rightarrow> u8 \<Rightarrow> u8) \<Rightarrow> nat \<Rightarrow> clock \<Rightarrow> clock option" where
  "rtc_init cmos n k = map_option (\<lambda>t. k\<lparr>boot_time := t\<rparr>) (rtc_read_time cmos n)"

section \<open>The calendar counts seconds\<close>

text \<open>A date of the Gregorian calendar and the seconds since the start of year 0.\<close>

definition leap :: "nat \<Rightarrow> bool" where
  "leap y \<longleftrightarrow> (y mod 4 = 0 \<and> y mod 100 \<noteq> 0) \<or> y mod 400 = 0"

definition month_days :: "nat \<Rightarrow> nat \<Rightarrow> nat" where
  "month_days y m = (if m = 2 then if leap y then 29 else 28 else if m \<in> {4, 6, 9, 11} then 30 else 31)"

definition days_before :: "nat \<Rightarrow> nat \<Rightarrow> nat \<Rightarrow> nat" where
  "days_before y m d = (\<Sum>k<y. if leap k then 366 else 365) + (\<Sum>k=1..<m. month_days y k) + d"

definition time_ok :: "rtc_time \<Rightarrow> bool" where
  "time_ok t \<longleftrightarrow> unat (seconds t) < 60 \<and> unat (minutes t) < 60 \<and> unat (hours t) < 24
     \<and> 1 \<le> unat (month t) \<and> unat (month t) \<le> 12
     \<and> 1 \<le> unat (day t) \<and> unat (day t) \<le> month_days (unat (year t)) (unat (month t)) \<and> unat (year t) < 65535"

definition secs :: "rtc_time \<Rightarrow> nat" where
  "secs t = ((days_before (unat (year t)) (unat (month t)) (unat (day t)) * 24 + unat (hours t)) * 60
     + unat (minutes t)) * 60 + unat (seconds t)"

lemma leap_year_iff: "leap_year (ucast (y :: u16)) \<longleftrightarrow> leap (unat y)"
proof -
  have "(ucast y :: u32) mod n = 0 \<longleftrightarrow> unat y mod unat n = 0" for n
    by (simp add: unat_eq_0 [symmetric] unat_mod unat_ucast_u8)
  from this [of 4] this [of 100] this [of 400] show ?thesis by (simp add: leap_year_def leap_def)
qed

lemma get_days_in_month_iff:
  assumes "1 \<le> unat m" "unat m \<le> 12"
  shows "unat (get_days_in_month m (ucast (y :: u16))) = month_days (unat y) (unat m)"
proof -
  have "unat m \<in> {1, 2, 3, 4, 5, 6, 7, 8, 9, 10, 11, 12}"
    using assms unfolding insert_iff empty_iff by presburger
  then have "m \<in> {1, 2, 3, 4, 5, 6, 7, 8, 9, 10, 11, 12}" by (simp add: word_unat_eq_iff)
  then show ?thesis by (auto simp: get_days_in_month_def month_days_def leap_year_iff days_in_month_def)
qed

lemma year_length: "(\<Sum>k=1..<13. month_days y k) = (if leap y then 366 else 365)"
  by (simp add: month_days_def sum.atLeast_Suc_lessThan numeral_eq_Suc)

lemma month_days_bounds: "28 \<le> month_days y m" "month_days y m \<le> 31"
  by (simp_all add: month_days_def)

lemma next_month: "1 \<le> m \<Longrightarrow> days_before y (Suc m) d = days_before y m (month_days y m + d)"
  by (simp add: days_before_def)

lemma next_year: "days_before (Suc y) 1 d = days_before y 13 d"
  by (simp only: days_before_def year_length) simp

lemma ucast_year [simp]: "unat (y + 1 :: u16) = Suc (unat y)" if "unat y < 65535"
  using that by (simp add: unat_word_ariths)

lemma unat_inc_u8: "unat (x :: u8) < 255 \<Longrightarrow> unat (x + 1) = Suc (unat x)"
  by (simp add: unat_word_ariths)

text \<open>The carries, one by one: each keeps the count of seconds.\<close>

definition carry_min :: "rtc_time \<Rightarrow> rtc_time" where
  "carry_min t = (if seconds t \<ge> 60 then t\<lparr>minutes := minutes t + 1, seconds := 0\<rparr> else t)"

definition carry_hour :: "rtc_time \<Rightarrow> rtc_time" where
  "carry_hour t = (if minutes t \<ge> 60 then t\<lparr>hours := hours t + 1, minutes := 0\<rparr> else t)"

definition carry_day :: "rtc_time \<Rightarrow> rtc_time" where
  "carry_day t = (if hours t \<ge> 24 then t\<lparr>day := day t + 1, hours := 0\<rparr> else t)"

definition carry_month :: "rtc_time \<Rightarrow> rtc_time" where
  "carry_month t = (if day t > get_days_in_month (month t) (ucast (year t))
         then let t = t\<lparr>month := month t + 1, day := 1\<rparr>
              in if month t > 12 then t\<lparr>year := year t + 1, month := 1\<rparr> else t
         else t)"

lemma tick_time_carries:
  "tick_time sec t = carry_month (carry_day (carry_hour (carry_min
     (if sec then t\<lparr>seconds := seconds t + 1\<rparr> else t))))"
  by (simp add: tick_time_def carry_min_def carry_hour_def carry_day_def carry_month_def Let_def)

text \<open>Valid up to an overflow of the seconds, the minutes, the hours, the day.\<close>

definition almost :: "nat \<Rightarrow> nat \<Rightarrow> nat \<Rightarrow> nat \<Rightarrow> rtc_time \<Rightarrow> bool" where
  "almost s m h d t \<longleftrightarrow> unat (seconds t) < 60 + s \<and> unat (minutes t) < 60 + m \<and> unat (hours t) < 24 + h
     \<and> 1 \<le> unat (month t) \<and> unat (month t) \<le> 12 \<and> unat (year t) < 65535
     \<and> 1 \<le> unat (day t) \<and> unat (day t) \<le> month_days (unat (year t)) (unat (month t)) + d"

lemma carry_min_ok: "almost 1 0 0 0 t \<Longrightarrow> almost 0 1 0 0 (carry_min t) \<and> secs (carry_min t) = secs t"
  by (auto simp: almost_def carry_min_def secs_def word_le_nat_alt unat_inc_u8)

lemma carry_hour_ok: "almost 0 1 0 0 t \<Longrightarrow> almost 0 0 1 0 (carry_hour t) \<and> secs (carry_hour t) = secs t"
  by (auto simp: almost_def carry_hour_def secs_def word_le_nat_alt unat_inc_u8)

lemma carry_day_ok: "almost 0 0 1 0 t \<Longrightarrow> almost 0 0 0 1 (carry_day t) \<and> secs (carry_day t) = secs t"
proof -
  assume a: "almost 0 0 1 0 t"
  have "unat (day t) \<le> 31" using a month_days_bounds(2) le_trans by (fastforce simp: almost_def)
  then have "unat (day t + 1) = Suc (unat (day t))" by (simp add: unat_inc_u8)
  with a show ?thesis by (auto simp: almost_def carry_day_def secs_def word_le_nat_alt days_before_def)
qed

lemma carry_month_ok:
  assumes a: "almost 0 0 0 1 t"
  shows "(time_ok (carry_month t) \<or> unat (year (carry_month t)) = 65535) \<and> secs (carry_month t) = secs t"
proof (cases "day t > get_days_in_month (month t) (ucast (year t))")
  case False
  then have "unat (day t) \<le> month_days (unat (year t)) (unat (month t))"
    using a by (simp add: almost_def word_less_nat_alt get_days_in_month_iff)
  with False a show ?thesis by (simp add: carry_month_def time_ok_def almost_def)
next
  case True
  then have d: "unat (day t) = month_days (unat (year t)) (unat (month t)) + 1"
    using a by (simp add: almost_def word_less_nat_alt get_days_in_month_iff)
  have m: "unat (month t + 1) = Suc (unat (month t))" using a by (simp add: almost_def unat_inc_u8)
  have y: "unat (year t + 1) = Suc (unat (year t))" using a by (simp add: almost_def)
  have b: "days_before (unat (year t)) (Suc (unat (month t))) 1 = days_before (unat (year t)) (unat (month t)) (unat (day t))"
    using a next_month [of "unat (month t)"] by (simp add: almost_def d)
  show ?thesis
  proof (cases "unat (month t) = 12")
    case True
    then have "days_before (Suc (unat (year t))) 1 1 = days_before (unat (year t)) (unat (month t)) (unat (day t))"
      using b next_year by (simp add: numeral_eq_Suc)
    then show ?thesis using \<open>day t > _\<close> True a m y month_days_bounds(1) [of "Suc (unat (year t))" 1]
      by (auto simp: carry_month_def Let_def word_less_nat_alt time_ok_def almost_def secs_def)
  next
    case False
    then have "unat (month t) < 12" using a by (simp add: almost_def)
    then show ?thesis using \<open>day t > _\<close> a m b month_days_bounds(1) [of "unat (year t)" "Suc (unat (month t))"]
      by (auto simp: carry_month_def Let_def word_less_nat_alt time_ok_def almost_def secs_def)
  qed
qed

lemma tick_time_spec:
  assumes "time_ok t"
  shows "(time_ok (tick_time sec t) \<or> unat (year (tick_time sec t)) = 65535)
    \<and> secs (tick_time sec t) = secs t + (if sec then 1 else 0)"
proof -
  let ?t = "if sec then t\<lparr>seconds := seconds t + 1\<rparr> else t"
  have "almost 1 0 0 0 ?t" "secs ?t = secs t + (if sec then 1 else 0)"
    using assms by (auto simp: time_ok_def almost_def secs_def unat_inc_u8)
  then show ?thesis unfolding tick_time_carries
    using carry_min_ok [of ?t] carry_hour_ok [of "carry_min ?t"] carry_day_ok [of "carry_hour (carry_min ?t)"]
      carry_month_ok [of "carry_day (carry_hour (carry_min ?t))"] by simp
qed


definition year_start :: "nat \<Rightarrow> nat" where
  "year_start y = (\<Sum>k<y. if leap k then 366 else 365)"

lemma year_start_apart: "year_start y + 365 * k \<le> year_start (y + k)"
  by (induction k) (simp_all add: year_start_def)

lemma secs_ge: "year_start (unat (year t)) * 86400 \<le> secs t"
  by (simp add: secs_def days_before_def year_start_def)

lemma secs_less:
  assumes "time_ok t"
  shows "secs t < (year_start (unat (year t)) + 373) * 86400"
proof -
  have "(\<Sum>k=1..<unat (month t). month_days (unat (year t)) k) \<le> (\<Sum>k=1..<unat (month t). 31)"
    by (intro sum_mono month_days_bounds)
  also have "\<dots> \<le> 341" using assms by (auto simp: time_ok_def)
  finally have "days_before (unat (year t)) (unat (month t)) (unat (day t)) \<le> year_start (unat (year t)) + 372"
    using assms month_days_bounds(2) [of "unat (year t)" "unat (month t)"]
    by (simp add: time_ok_def days_before_def year_start_def)
  then show ?thesis using assms by (simp add: secs_def time_ok_def)
qed

text \<open>A year before 65000 leaves room for the seconds of a whole run of the tick counter.\<close>

lemma room_for_run:
  assumes "time_ok t" "unat (year t) < 65000" "secs t' \<le> secs t + 4294967"
  shows "unat (year t') \<noteq> 65535"
proof
  assume y: "unat (year t') = 65535"
  have "year_start (unat (year t)) + 365 * 535 \<le> year_start (unat (year t) + 535)" by (rule year_start_apart)
  also have "\<dots> \<le> year_start (unat (year t) + 535) + 365 * (65000 - unat (year t))" by simp
  also have "\<dots> \<le> year_start 65535"
    using year_start_apart [of "unat (year t) + 535" "65000 - unat (year t)"] assms(2) by simp
  finally show False using secs_ge [of t'] secs_less [OF assms(1)] assms(3) by (simp add: y)
qed

lemma pit_callback_clock:
  "dget part_fst (pit_callback part_fst part_snd s) = (dget part_fst s)
     \<lparr>ticks := ticks (dget part_fst s) + 1,
      curr_time := tick_time ((ticks (dget part_fst s) + 1) mod PIT_HZ = 0) (curr_time (dget part_fst s))\<rparr>"
  by (simp add: pit_callback_def Let_def dget_def dput_def part_fst_def part_snd_def)

lemma full_second:
  assumes "unat (n :: u32) + 1 < 4294967296"
  shows "(n + 1) mod PIT_HZ = 0 \<longleftrightarrow> (unat n + 1) mod 1000 = 0"
  using assms by (simp add: unat_eq_0 [symmetric] unat_mod unat_word_ariths PIT_HZ_def)

lemma div_Suc_1000: "Suc a div 1000 = a div 1000 + (if Suc a mod 1000 = 0 then 1 else 0)"
  by (simp add: div_Suc)

section \<open>Properties\<close>

text \<open>C22: the timer keeps the calendar: after \<open>n\<close> interrupts the date is valid and stands exactly as
  many seconds later as the tick counter crossed multiples of 1000, through every carry from
  the seconds to the year, leap years included. The counter must not wrap and the year is
  below 65000, far enough from the end of its 16 bits.\<close>

theorem pit_keeps_calendar:
  assumes "time_ok (curr_time (dget part_fst s))" "unat (year (curr_time (dget part_fst s))) < 65000"
    and "unat (ticks (dget part_fst s)) + n < 4294967296"
    and "k = dget part_fst ((pit_callback part_fst part_snd ^^ n) s)"
  shows "time_ok (curr_time k) \<and> unat (ticks k) = unat (ticks (dget part_fst s)) + n
    \<and> secs (curr_time k) + unat (ticks (dget part_fst s)) div 1000
      = secs (curr_time (dget part_fst s)) + unat (ticks k) div 1000"
  using assms(3,4)
proof (induction n arbitrary: k)
  case 0
  then show ?case using assms(1) by simp
next
  case (Suc n)
  define t where "t = curr_time (dget part_fst s)"
  define a where "a = unat (ticks (dget part_fst s))"
  define j where "j = dget part_fst ((pit_callback part_fst part_snd ^^ n) s)"
  have j: "time_ok (curr_time j)" "unat (ticks j) = a + n" "secs (curr_time j) + a div 1000 = secs t + (a + n) div 1000"
    using Suc.IH [OF _ j_def] Suc.prems(1) by (auto simp: a_def t_def)
  have k: "k = j\<lparr>ticks := ticks j + 1, curr_time := tick_time (Suc (a + n) mod 1000 = 0) (curr_time j)\<rparr>"
    using Suc.prems j(2) full_second [of "ticks j"] by (simp add: pit_callback_clock j_def a_def)
  have tk: "unat (ticks k) = a + Suc n" using j(2) Suc.prems(1) k by (simp add: unat_word_ariths a_def)
  have spec: "time_ok (curr_time k) \<or> unat (year (curr_time k)) = 65535"
      "secs (curr_time k) = secs (curr_time j) + (if Suc (a + n) mod 1000 = 0 then 1 else 0)"
    using tick_time_spec [OF j(1), of "Suc (a + n) mod 1000 = 0"] k by simp_all
  have sk: "secs (curr_time k) + a div 1000 = secs t + (a + Suc n) div 1000"
    using spec(2) j(3) div_Suc_1000 [of "a + n"] by simp
  have "secs (curr_time k) \<le> secs t + 4294967" using sk Suc.prems(1) by (simp add: a_def)
  then have "unat (year (curr_time k)) \<noteq> 65535" using room_for_run assms(1,2) by (simp add: t_def)
  with spec(1) sk tk show ?case by (simp add: a_def t_def)
qed

definition new_year_eve :: rtc_time where
  "new_year_eve = \<lparr>seconds = 59, minutes = 59, hours = 23, day = 31, month = 12, year = 2023\<rparr>"

definition clock_sys :: "rtc_time \<Rightarrow> (clock \<times> console) ksys" where
  "clock_sys t = vfs_sys (\<lparr>ticks = 999, boot_time = t, curr_time = t\<rparr>, tiny_console) 0"

lemma clock_sys_dget [simp]:
  "dget part_fst (clock_sys t) = \<lparr>ticks = 999, boot_time = t, curr_time = t\<rparr>"
  by (simp add: clock_sys_def dget_def part_fst_def vfs_sys_def)

lemma pit_keeps_calendar_witness:
  "time_ok (curr_time (dget part_fst ((pit_callback part_fst part_snd ^^ 1001) (clock_sys new_year_eve))))
   \<and> secs (curr_time (dget part_fst ((pit_callback part_fst part_snd ^^ 1001) (clock_sys new_year_eve)))) = secs new_year_eve + 2"
  using pit_keeps_calendar [of "clock_sys new_year_eve" 1001, OF _ _ _ refl]
  by (simp add: time_ok_def new_year_eve_def month_days_def)


text \<open>A byte below 100 in binary coded decimal.\<close>

definition to_bcd :: "u8 \<Rightarrow> u8" where
  "to_bcd b = push_bit 4 (b div 10) + b mod 10"

lemma bcd_unat: "unat (bcd_to_binary b) = (unat b div 16) * 10 + unat b mod 16"
proof -
  have "unat b < 2 ^ LENGTH(8)" by (rule unsigned_less)
  then have "unat b div 16 < 16" by (simp add: div_less_iff_less_mult)
  moreover have "b AND 0x0f = take_bit 4 b" by (simp add: take_bit_eq_mask mask_eq_exp_minus_1)
  then have "unat (b AND 0x0f) = unat b mod 16" by (simp add: take_bit_eq_mod unat_mod)
  moreover have "unat (drop_bit 4 b) = unat b div 16" by (simp add: drop_bit_eq_div unat_div)
  ultimately show ?thesis by (simp add: bcd_to_binary_def unat_word_ariths)
qed

lemma to_bcd_unat: "unat b < 100 \<Longrightarrow> unat (to_bcd b) = (unat b div 10) * 16 + unat b mod 10"
  by (simp add: to_bcd_def unat_word_ariths push_bit_eq_mult unat_div unat_mod)

lemma bcd_to_bcd: "unat b < 100 \<Longrightarrow> bcd_to_binary (to_bcd b) = b"
  by (simp add: word_unat_eq_iff bcd_unat to_bcd_unat)

text \<open>C23: the CMOS clock in its usual mode, binary coded decimal and 24 hours: whatever date of
  2000 to 2099 the registers hold encoded, the kernel reads that date.\<close>

theorem rtc_reads_bcd:
  assumes "unat (seconds t) < 100" "unat (minutes t) < 100" "unat (hours t) < 100" "unat (day t) < 100"
    "unat (month t) < 100" "2000 \<le> unat (year t)" "unat (year t) < 2100"
    and "cmos n (RTC_REG_A AND 0x7f) AND RTC_UIP_FLAG = 0" "regB AND RTC_BINARY_MODE = 0" "regB AND RTC_24HR_MODE \<noteq> 0"
    and "\<And>i. cmos (n + i + 1) RTC_SECONDS = to_bcd (seconds t)" "\<And>i. cmos (n + i + 1) RTC_MINUTES = to_bcd (minutes t)"
      "\<And>i. cmos (n + i + 1) RTC_HOURS = to_bcd (hours t)" "\<And>i. cmos (n + i + 1) RTC_DAY = to_bcd (day t)"
      "\<And>i. cmos (n + i + 1) RTC_MONTH = to_bcd (month t)"
      "\<And>i. cmos (n + i + 1) RTC_YEAR = to_bcd (ucast (year t - 2000))" "\<And>i. cmos (n + i + 1) RTC_REG_B = regB"
  shows "rtc_read_time cmos n = Some t"
proof -
  have w: "rtc_wait cmos n = Some (Suc n)" using assms(8) by (subst rtc_wait.simps) (simp add: cmos_read_def)
  have c: "cmos_read cmos (Suc n) RTC_SECONDS = to_bcd (seconds t)"
    "cmos_read cmos (Suc n + 1) RTC_MINUTES = to_bcd (minutes t)"
    "cmos_read cmos (Suc n + 2) RTC_HOURS = to_bcd (hours t)" "cmos_read cmos (Suc n + 3) RTC_DAY = to_bcd (day t)"
    "cmos_read cmos (Suc n + 4) RTC_MONTH = to_bcd (month t)"
    "cmos_read cmos (Suc n + 5) RTC_YEAR = to_bcd (ucast (year t - 2000))" "cmos_read cmos (Suc n + 6) RTC_REG_B = regB"
    using assms(11) [of 0] assms(12) [of 1] assms(13) [of 2] assms(14) [of 3] assms(15) [of 4] assms(16) [of 5] assms(17) [of 6]
    by (simp_all add: cmos_read_def RTC_SECONDS_def RTC_MINUTES_def RTC_HOURS_def RTC_DAY_def RTC_MONTH_def
        RTC_YEAR_def RTC_REG_B_def)
  have y: "unat (year t - 2000) = unat (year t) - 2000" using assms(6) by (simp add: unat_sub word_le_nat_alt)
  then have u: "unat (ucast (year t - 2000) :: u8) = unat (year t) - 2000"
    using assms(7) by (simp add: unsigned_ucast_eq unsigned_take_bit_eq take_bit_nat_eq_self)
  have "(ucast (ucast (year t - 2000) :: u8) :: u16) = year t - 2000"
    using assms(7) y u by (simp add: word_unat_eq_iff unsigned_ucast_eq unsigned_take_bit_eq take_bit_nat_eq_self)
  moreover have "bcd_to_binary (to_bcd (ucast (year t - 2000))) = ucast (year t - 2000)"
    using assms(6,7) u by (intro bcd_to_bcd) simp
  ultimately show ?thesis unfolding rtc_read_time_def w option.map c
    using assms(1-5,9,10) by (simp add: rtc_decode_def bcd_to_bcd ucast_back)
qed

definition cmos_clock :: "rtc_time \<Rightarrow> nat \<Rightarrow> u8 \<Rightarrow> u8" where
  "cmos_clock t n reg = (if reg = RTC_SECONDS then to_bcd (seconds t) else if reg = RTC_MINUTES then to_bcd (minutes t)
     else if reg = RTC_HOURS then to_bcd (hours t) else if reg = RTC_DAY then to_bcd (day t)
     else if reg = RTC_MONTH then to_bcd (month t) else if reg = RTC_YEAR then to_bcd (ucast (year t - 2000))
     else if reg = RTC_REG_B then 0x02 else 0)"

lemma rtc_reads_bcd_witness: "rtc_read_time (cmos_clock new_year_eve) 0 = Some new_year_eve"
  by (rule rtc_reads_bcd [where regB = 2])
    (simp_all add: new_year_eve_def cmos_clock_def RTC_SECONDS_def RTC_MINUTES_def RTC_HOURS_def RTC_DAY_def
      RTC_MONTH_def RTC_YEAR_def RTC_REG_A_def RTC_REG_B_def RTC_UIP_FLAG_def RTC_BINARY_MODE_def RTC_24HR_MODE_def)


text \<open>In the 12-hour mode of a decimal clock the afternoon flag is decoded as a digit: the hour of a time
  after noon is read as 80 and more.\<close>

lemma rtc_afternoon_lost:
  assumes "regB AND RTC_BINARY_MODE = 0" "h \<in> {1, 2, 3, 4, 5, 6, 7, 8, 9, 10, 11, 12}"
    and "hours t = to_bcd h OR 0x80"
  shows "hours (rtc_decode regB t) = h + 80"
proof -
  have "bcd_to_binary (to_bcd h OR 0x80) = h + 80 \<and> (h + 80) AND 0x80 = 0"
    using assms(2) by (auto simp: to_bcd_def bcd_to_binary_def)
  then show ?thesis using assms(1,3) by (simp add: rtc_decode_def Let_def)
qed

end
