(* ===== verification/Ports.thy ===== *)
theory Ports
  imports Prelude
begin

text \<open>
  The I/O ports, \<open>inb\<close> and \<open>outb\<close> of \<open>src/misc/util.h\<close>, and the serial line, \<open>src/serial/serial.c\<close>.
  The devices are a parameter: \<open>inp n p\<close> is the byte that the \<open>n\<close>-th read finds at port \<open>p\<close>; what the
  code writes is the trace \<open>outs\<close>. A wait for a device that never answers has the value \<open>None\<close>.
\<close>

section \<open>Ports\<close>

record ports =
  reads :: nat
  outs :: "(u16 \<times> u8) list"

type_synonym inputs = "nat \<Rightarrow> u16 \<Rightarrow> u8"

definition inb :: "inputs \<Rightarrow> u16 \<Rightarrow> ports \<Rightarrow> u8 \<times> ports" where
  "inb inp p io = (inp (reads io) p, io\<lparr>reads := Suc (reads io)\<rparr>)"

definition outb :: "u16 \<Rightarrow> u8 \<Rightarrow> ports \<Rightarrow> ports" where
  "outb p x io = io\<lparr>outs := outs io @ [(p, x)]\<rparr>"

section \<open>The serial line\<close>

definition COM1 :: u16 where "COM1 = 0x3f8"

definition serial_init :: "ports \<Rightarrow> ports" where
  "serial_init io = outb (COM1 + 4) 0x0b (outb (COM1 + 2) 0xc7 (outb (COM1 + 3) 0x03
     (outb (COM1 + 1) 0x00 (outb COM1 0x03 (outb (COM1 + 3) 0x80 (outb (COM1 + 1) 0x00 io))))))"

definition serial_ready :: "inputs \<Rightarrow> ports \<Rightarrow> bool \<times> ports" where
  "serial_ready inp io = (let (st, io) = inb inp (COM1 + 5) io in (st AND 0x20 \<noteq> 0, io))"

partial_function (option) serial_wait :: "inputs \<Rightarrow> ports \<Rightarrow> ports option" where
  "serial_wait inp io = (let (ready, io) = serial_ready inp io
     in if ready then Some io else serial_wait inp io)"

definition serial_putchar :: "inputs \<Rightarrow> u8 \<Rightarrow> ports \<Rightarrow> ports option" where
  "serial_putchar inp c io = map_option (outb COM1 c) (serial_wait inp io)"

text \<open>The string without its NUL.\<close>

primrec serial_write :: "inputs \<Rightarrow> u8 list \<Rightarrow> ports \<Rightarrow> ports option" where
  "serial_write inp [] io = Some io"
| "serial_write inp (c # cs) io = Option.bind (serial_putchar inp c io) (serial_write inp cs)"

text \<open>A line that gets ready again and again transmits the string, byte by byte, in order.\<close>

lemma serial_wait_ready:
  "inp (reads io + k) (COM1 + 5) AND 0x20 \<noteq> 0 \<Longrightarrow>
    \<exists>n. serial_wait inp io = Some (io\<lparr>reads := n\<rparr>) \<and> reads io < n"
proof (induction k arbitrary: io)
  case 0
  then show ?case by (intro exI [of _ "Suc (reads io)"], subst serial_wait.simps) (simp add: serial_ready_def inb_def)
next
  case (Suc k)
  show ?case
  proof (cases "inp (reads io) (COM1 + 5) AND 0x20 = 0")
    case True
    let ?io = "io\<lparr>reads := Suc (reads io)\<rparr>"
    obtain n where "serial_wait inp ?io = Some (?io\<lparr>reads := n\<rparr>)" "Suc (reads io) < n"
      using Suc.IH [of ?io] Suc.prems by auto
    then show ?thesis using True
      by (intro exI [of _ n], subst serial_wait.simps) (simp add: serial_ready_def inb_def)
  next
    case False
    then show ?thesis
      by (intro exI [of _ "Suc (reads io)"], subst serial_wait.simps) (simp add: serial_ready_def inb_def)
  qed
qed

lemma serial_write_sends:
  assumes "\<And>n. \<exists>k. inp (n + k) (COM1 + 5) AND 0x20 \<noteq> 0"
  shows "\<exists>n. serial_write inp cs io = Some \<lparr>reads = n, outs = outs io @ map (Pair COM1) cs\<rparr>"
proof (induction cs arbitrary: io)
  case Nil
  then show ?case by (intro exI [of _ "reads io"]) simp
next
  case (Cons c cs)
  obtain k where "inp (reads io + k) (COM1 + 5) AND 0x20 \<noteq> 0" using assms by blast
  then obtain n where "serial_wait inp io = Some (io\<lparr>reads := n\<rparr>)"
    using serial_wait_ready [of inp io k] by blast
  then show ?case using Cons [of "outb COM1 c (io\<lparr>reads := n\<rparr>)"] by (simp add: serial_putchar_def outb_def)
qed

end
