(* ===== verification/Mouse.thy ===== *)
theory Mouse
  imports Framebuffer Ports
begin

text \<open>
  The PS/2 mouse, \<open>devices/mouse/mouse.c\<close>: the handshake that turns it on, and the interrupt that
  collects the three bytes of a packet and moves the pointer. The device side of the I/O ports is
  the parameter \<open>inp\<close>: \<open>inp n p\<close> is the byte that the \<open>n\<close>-th read of the sequence finds at
  port \<open>p\<close>; what the code writes is the trace \<open>outs\<close>.
\<close>

section \<open>State and operations\<close>

record mouse_state =
  mx :: u32
  my :: u32
  left :: bool
  right :: bool
  middle :: bool
  left_clicked :: bool
  right_clicked :: bool
  middle_clicked :: bool

record mouse =
  mouse :: mouse_state
  mouse_x :: u32
  mouse_y :: u32
  mouse_packet :: "u8 list"
  mouse_cycle :: u8

partial_function (option) ps2_wait_write :: "inputs \<Rightarrow> ports \<Rightarrow> ports option" where
  "ps2_wait_write inp io = (let (st, io) = inb inp 0x64 io
     in if st AND 0x02 \<noteq> 0 then ps2_wait_write inp io else Some io)"

partial_function (option) ps2_wait_read :: "inputs \<Rightarrow> ports \<Rightarrow> ports option" where
  "ps2_wait_read inp io = (let (st, io) = inb inp 0x64 io
     in if st AND 0x01 = 0 then ps2_wait_read inp io else Some io)"

definition ps2_send :: "inputs \<Rightarrow> u16 \<Rightarrow> u8 \<Rightarrow> ports \<Rightarrow> ports option" where
  "ps2_send inp p x io = map_option (outb p x) (ps2_wait_write inp io)"

definition mouse_write :: "inputs \<Rightarrow> u8 \<Rightarrow> ports \<Rightarrow> ports option" where
  "mouse_write inp x io = Option.bind (ps2_send inp 0x64 0xd4 io) (ps2_send inp 0x60 x)"

definition mouse_read :: "inputs \<Rightarrow> ports \<Rightarrow> (u8 \<times> ports) option" where
  "mouse_read inp io = map_option (inb inp 0x60) (ps2_wait_read inp io)"

definition mouse_set_pos :: "u32 \<Rightarrow> u32 \<Rightarrow> mouse \<Rightarrow> mouse" where
  "mouse_set_pos x y m = m\<lparr>mouse_x := x, mouse_y := y\<rparr>"

text \<open>The registration of the interrupt, \<open>irq_register(12, mouse_callback)\<close>, is part of the boot.\<close>

definition mouse_init :: "inputs \<Rightarrow> framebuffer \<Rightarrow> mouse \<times> ports \<Rightarrow> (mouse \<times> ports) option" where
  "mouse_init inp f = (\<lambda>(m, io).
     Option.bind (ps2_send inp 0x64 0xa8 io) (\<lambda>io.
     Option.bind (ps2_send inp 0x64 0x20 io) (\<lambda>io.
     Option.bind (ps2_wait_read inp io) (\<lambda>io.
     let (cfg, io) = inb inp 0x60 io; cfg = (cfg OR 0x02) AND NOT 0x20
     in Option.bind (ps2_send inp 0x64 0x60 io) (\<lambda>io.
     Option.bind (ps2_send inp 0x60 cfg io) (\<lambda>io.
     Option.bind (mouse_write inp 0xf6 io) (\<lambda>io.
     Option.bind (mouse_read inp io) (\<lambda>(_, io).
     Option.bind (mouse_write inp 0xf4 io) (\<lambda>io.
     Option.bind (mouse_read inp io) (\<lambda>(_, io).
     Some (mouse_set_pos (fb_width f div 2) (fb_height f div 2) m, io)))))))))))"

text \<open>One coordinate: the movement is added and the result kept on the screen. The tests against 0 are
  signed, the ones against the size of the screen unsigned.\<close>

definition clamp :: "u32 \<Rightarrow> u32 \<Rightarrow> u32" where
  "clamp n x = (let x = (if sint x < 0 then 0 else x) in if x \<ge> n then n - 1 else x)"

definition mouse_move :: "framebuffer \<Rightarrow> mouse \<Rightarrow> mouse" where
  "mouse_move f m =
     (let p0 = ucast (mouse_packet m ! 0) :: u32;
          dx = ucast (mouse_packet m ! 1) - (push_bit 4 p0 AND 0x100);
          dy = ucast (mouse_packet m ! 2) - (push_bit 3 p0 AND 0x100);
          x = clamp (fb_width f) (mouse_x m + dx);
          y = clamp (fb_height f) (mouse_y m - dy);
          l = (mouse_packet m ! 0 AND 0x01 \<noteq> 0);
          r = (mouse_packet m ! 0 AND 0x02 \<noteq> 0);
          c = (mouse_packet m ! 0 AND 0x04 \<noteq> 0);
          b = mouse m
      in m\<lparr>mouse_x := x, mouse_y := y,
           mouse := \<lparr>mx = x, my = y, left = l, right = r, middle = c,
             left_clicked = l \<and> \<not> left b, right_clicked = r \<and> \<not> right b, middle_clicked = c \<and> \<not> middle b\<rparr>\<rparr>)"

text \<open>The interrupt, on the byte that port 0x60 holds.\<close>

definition mouse_callback :: "framebuffer \<Rightarrow> u8 \<Rightarrow> mouse \<Rightarrow> mouse" where
  "mouse_callback f byte m =
     (if mouse_cycle m = 0 then
        let m = m\<lparr>mouse_packet := (mouse_packet m)[0 := byte]\<rparr>
        in if byte AND 0x08 \<noteq> 0 then m\<lparr>mouse_cycle := mouse_cycle m + 1\<rparr> else m
      else if mouse_cycle m = 1 then
        m\<lparr>mouse_packet := (mouse_packet m)[1 := byte], mouse_cycle := mouse_cycle m + 1\<rparr>
      else if mouse_cycle m = 2 then
        mouse_move f (m\<lparr>mouse_packet := (mouse_packet m)[2 := byte], mouse_cycle := 0\<rparr>)
      else m)"


section \<open>The pointer stays on the screen\<close>

definition on_screen :: "framebuffer \<Rightarrow> mouse \<Rightarrow> bool" where
  "on_screen f m \<longleftrightarrow> mouse_x m < fb_width f \<and> mouse_y m < fb_height f"

definition mouse_ok :: "framebuffer \<Rightarrow> mouse \<Rightarrow> bool" where
  "mouse_ok f m \<longleftrightarrow> on_screen f m \<and> length (mouse_packet m) = 3 \<and> mouse_cycle m \<in> {0, 1, 2}"

definition screen_ok :: "framebuffer \<Rightarrow> bool" where
  "screen_ok f \<longleftrightarrow> 0 < uint (fb_width f) \<and> uint (fb_width f) \<le> 1073741824
     \<and> 0 < uint (fb_height f) \<and> uint (fb_height f) \<le> 1073741824"

lemma clamp_less: "n \<noteq> 0 \<Longrightarrow> clamp n x < n"
  by (auto simp: clamp_def Let_def word_less_nat_alt word_le_nat_alt unat_minus_one unat_gt_0)

lemma clamp_of_int:
  assumes "0 < uint n" "uint n \<le> 1073741824" "- 2147483648 \<le> i" "i < 2147483648"
  shows "uint (clamp n (word_of_int i)) = max 0 (min (uint n - 1) i)"
proof -
  have s: "sint (word_of_int i :: u32) = i"
    using assms(3,4) signed_take_bit_int_eq_self [of 31 i] by (simp add: signed_of_int)
  have n1: "uint (n - 1) = uint n - 1"
    using assms(1) uint_sub_if' [of n 1] by simp
  show ?thesis
  proof (cases "i < 0")
    case True
    then show ?thesis using assms(1) by (simp add: clamp_def s word_le_def)
  next
    case False
    then have "uint (word_of_int i :: u32) = i"
      using assms(4) by (simp add: unsigned_of_int take_bit_int_eq_self)
    then show ?thesis using False assms(1) n1 by (simp add: clamp_def s word_le_def Let_def)
  qed
qed

text \<open>A movement is a 9-bit two's complement number: its sign is a bit of the first byte.\<close>

definition delta :: "nat \<Rightarrow> u8 \<Rightarrow> u8 \<Rightarrow> int" where
  "delta k b0 b = uint b - (if bit b0 k then 256 else 0)"

lemma and_bit_8: "x AND 0x100 = (if bit x 8 then 0x100 else 0 :: u32)"
proof -
  have p: "bit (2 ^ 8 :: u32) k \<longleftrightarrow> k = 8" for k
    by (simp only: bit_exp_iff possible_bit_word) auto
  have "x AND 2 ^ 8 = (if bit x 8 then 2 ^ 8 else 0 :: u32)"
    by (rule bit_eqI) (auto simp only: bit_and_iff p bit_0_eq split: if_splits)
  then show ?thesis by simp
qed

lemma sign_bit:
  "push_bit 4 (ucast (b :: u8)) AND 0x100 = (if bit b 4 then 0x100 else 0 :: u32)"
  "push_bit 3 (ucast (b :: u8)) AND 0x100 = (if bit b 5 then 0x100 else 0 :: u32)"
  by (simp_all add: and_bit_8 bit_push_bit_iff bit_ucast_iff)

lemma delta_word:
  "ucast b - (push_bit 4 (ucast b0) AND 0x100) = (word_of_int (delta 4 b0 b) :: u32)"
  "ucast b - (push_bit 3 (ucast b0) AND 0x100) = (word_of_int (delta 5 b0 b) :: u32)"
  by (simp_all add: sign_bit delta_def)

lemma delta_bounds: "- 256 \<le> delta k b0 b" "delta k b0 b < 256"
proof -
  have "0 \<le> uint b" "uint b < 2 ^ LENGTH(8)" by (rule unsigned_greater_eq, rule unsigned_less)
  then have "0 \<le> uint b" "uint b < 256" by simp_all
  then show "- 256 \<le> delta k b0 b" "delta k b0 b < 256" unfolding delta_def by (cases "bit b0 k"; simp only: if_True if_False; linarith)+
qed


lemma mouse_step_ok:
  assumes "mouse_ok f m" "screen_ok f"
  shows "mouse_ok f (mouse_callback f b m)"
proof -
  have "fb_width f \<noteq> 0" "fb_height f \<noteq> 0" using assms(2) by (auto simp: screen_ok_def)
  then show ?thesis using assms(1)
    by (auto simp: mouse_ok_def on_screen_def mouse_callback_def mouse_move_def Let_def clamp_less)
qed

lemma mouse_bytes_ok: "mouse_ok f m \<Longrightarrow> screen_ok f \<Longrightarrow> mouse_ok f (fold (mouse_callback f) bs m)"
  by (induction bs arbitrary: m) (simp_all add: mouse_step_ok)

lemma mouse_packet_steps:
  assumes "mouse_ok f m" "mouse_cycle m = 0" "b0 AND 0x08 \<noteq> 0"
  shows "fold (mouse_callback f) [b0, b1, b2] m = mouse_move f (m\<lparr>mouse_packet := [b0, b1, b2], mouse_cycle := 0\<rparr>)"
proof -
  obtain a b c where "mouse_packet m = [a, b, c]"
    using assms(1) by (auto simp: mouse_ok_def length_Suc_conv numeral_3_eq_3)
  then show ?thesis using assms(2,3) by (simp add: mouse_callback_def Let_def)
qed

lemma mouse_move_coords:
  assumes "on_screen f m" "screen_ok f" "mouse_packet m = [b0, b1, b2]"
  shows "uint (mouse_x (mouse_move f m)) = max 0 (min (uint (fb_width f) - 1) (uint (mouse_x m) + delta 4 b0 b1))"
    and "uint (mouse_y (mouse_move f m)) = max 0 (min (uint (fb_height f) - 1) (uint (mouse_y m) - delta 5 b0 b2))"
proof -
  have b: "0 < uint (fb_width f)" "uint (fb_width f) \<le> 1073741824" "0 < uint (fb_height f)" "uint (fb_height f) \<le> 1073741824"
    using assms(2) by (simp_all add: screen_ok_def)
  have p: "uint (mouse_x m) < uint (fb_width f)" "uint (mouse_y m) < uint (fb_height f)"
    using assms(1) by (simp_all add: on_screen_def word_less_def)
  have x: "mouse_x m + word_of_int d = word_of_int (uint (mouse_x m) + d)"
    "mouse_y m - word_of_int d = word_of_int (uint (mouse_y m) - d)" for d
    by simp_all
  have r: "0 \<le> uint (mouse_x m)" "0 \<le> uint (mouse_y m)" by simp_all
  show "uint (mouse_x (mouse_move f m)) = max 0 (min (uint (fb_width f) - 1) (uint (mouse_x m) + delta 4 b0 b1))"
    unfolding mouse_move_def Let_def assms(3)
    by (simp add: delta_word) (subst x, rule clamp_of_int; use b p r delta_bounds [of 4 b0 b1] in linarith)
  show "uint (mouse_y (mouse_move f m)) = max 0 (min (uint (fb_height f) - 1) (uint (mouse_y m) - delta 5 b0 b2))"
    unfolding mouse_move_def Let_def assms(3)
    by (simp add: delta_word) (subst x, rule clamp_of_int; use b p r delta_bounds [of 5 b0 b2] in linarith)
qed

section \<open>Properties\<close>

text \<open>C24: whatever bytes the mouse sends, in step with its packets or not, the pointer stays on the
  screen and the packet buffer is never left. When the interrupt waits for a first byte and gets one
  with bit 3 set, the three bytes move the pointer by the two 9-bit numbers they hold, the vertical
  one upwards, and stop it at the border.\<close>

theorem mouse_stays_on_screen:
  assumes "mouse_ok f m" "screen_ok f" "n = fold (mouse_callback f) bs m" "n' = fold (mouse_callback f) [b0, b1, b2] n"
  shows "mouse_x n < fb_width f \<and> mouse_y n < fb_height f \<and> length (mouse_packet n) = 3 \<and> mouse_cycle n \<in> {0, 1, 2}
    \<and> (mouse_cycle n = 0 \<and> b0 AND 0x08 \<noteq> 0 \<longrightarrow>
        uint (mouse_x n') = max 0 (min (uint (fb_width f) - 1) (uint (mouse_x n) + (uint b1 - (if bit b0 4 then 256 else 0))))
      \<and> uint (mouse_y n') = max 0 (min (uint (fb_height f) - 1) (uint (mouse_y n) - (uint b2 - (if bit b0 5 then 256 else 0))))
      \<and> mouse_cycle n' = 0)"
proof -
  have n: "mouse_ok f n" using assms(1-3) mouse_bytes_ok by blast
  have "uint (mouse_x n') = max 0 (min (uint (fb_width f) - 1) (uint (mouse_x n) + delta 4 b0 b1))
      \<and> uint (mouse_y n') = max 0 (min (uint (fb_height f) - 1) (uint (mouse_y n) - delta 5 b0 b2)) \<and> mouse_cycle n' = 0"
    if "mouse_cycle n = 0" "b0 AND 0x08 \<noteq> 0"
  proof -
    define k where "k = n\<lparr>mouse_packet := [b0, b1, b2], mouse_cycle := 0\<rparr>"
    have "on_screen f k" "mouse_packet k = [b0, b1, b2]" "mouse_x k = mouse_x n" "mouse_y k = mouse_y n" "mouse_cycle k = 0"
      using n by (simp_all add: k_def mouse_ok_def on_screen_def)
    moreover have "n' = mouse_move f k" using mouse_packet_steps [OF n that] assms(4) by (simp add: k_def)
    ultimately show ?thesis using mouse_move_coords [of f k b0 b1 b2] assms(2) by (simp add: mouse_move_def Let_def)
  qed
  then show ?thesis using n unfolding mouse_ok_def on_screen_def delta_def by blast
qed

definition small_screen :: framebuffer where
  "small_screen = \<lparr>fb_addr = 0xd0000000, fb_phys = 0xe0000000, fb_width = 640, fb_height = 480, fb_bpp = 32,
     fb_pitch = 2560, fb_size = 1228800, fb_initialized = True, fbmem = (\<lambda>_. 0)\<rparr>"

definition idle_mouse :: mouse where
  "idle_mouse = \<lparr>mouse = \<lparr>mx = 0, my = 0, left = False, right = False, middle = False,
     left_clicked = False, right_clicked = False, middle_clicked = False\<rparr>,
     mouse_x = 320, mouse_y = 240, mouse_packet = [0, 0, 0], mouse_cycle = 0\<rparr>"

text \<open>A stray byte is skipped, then the pointer goes left by 3 and up by 5.\<close>

lemma mouse_stays_on_screen_witness:
  "uint (mouse_x (fold (mouse_callback small_screen) [0x18, 0xfd, 0x05] (fold (mouse_callback small_screen) [0x01] idle_mouse))) = 317"
  using mouse_stays_on_screen [of small_screen idle_mouse, OF _ _ refl refl, of "[0x01]" "0x18" "0xfd" "0x05"]
  by (simp add: mouse_ok_def on_screen_def screen_ok_def small_screen_def idle_mouse_def mouse_callback_def)

end
