(* ===== verification/Idt.thy ===== *)
theory Idt
  imports Mouse
begin

text \<open>
  Interrupts: the descriptor table and the interrupt controllers of \<open>idt/idt.c\<close>, and the dispatch of
  interrupts, system calls and exceptions of \<open>idt/isr.c\<close>. The entry points are assembly
  (\<open>isr_stubs.s\<close>), so their addresses are parameters: \<open>isr n\<close> and \<open>irq n\<close>. A handler is a function
  on the saved registers and the state of the machine. What \<open>exception_handler\<close> prints is in the
  theories \<open>Ksym\<close> and \<open>Traps\<close>.
\<close>

section \<open>The descriptor table\<close>

record idt_entry =
  base_low :: u16
  selector :: u16
  reserved :: u8
  eflags8 :: u8
  base_high :: u16

record idt_ptr =
  limit :: u16
  base :: u32

definition IDT_ENTRIES :: nat where "IDT_ENTRIES = 256"
definition PIC1_CMD :: u16 where "PIC1_CMD = 0x20"
definition PIC1_DATA :: u16 where "PIC1_DATA = 0x21"
definition PIC2_CMD :: u16 where "PIC2_CMD = 0xa0"
definition PIC2_DATA :: u16 where "PIC2_DATA = 0xa1"

definition idt_set_entry :: "u8 \<Rightarrow> u32 \<Rightarrow> u16 \<Rightarrow> u8 \<Rightarrow> idt_entry list \<Rightarrow> idt_entry list" where
  "idt_set_entry num entry sel flags idt = idt[unat num :=
     \<lparr>base_low = ucast (entry AND 0xffff), selector = sel, reserved = 0, eflags8 = flags,
      base_high = ucast (drop_bit 16 entry AND 0xffff)\<rparr>]"

definition pic_remap :: "ports \<Rightarrow> ports" where
  "pic_remap io = outb PIC2_DATA 0x00 (outb PIC1_DATA 0x00
     (outb PIC2_DATA 0x01 (outb PIC1_DATA 0x01
     (outb PIC2_DATA 0x02 (outb PIC1_DATA 0x04
     (outb PIC2_DATA 0x28 (outb PIC1_DATA 0x20
     (outb PIC2_CMD 0x11 (outb PIC1_CMD 0x11 io)))))))))"

definition idt_clear :: "idt_entry list" where
  "idt_clear = replicate IDT_ENTRIES \<lparr>base_low = 0, selector = 0, reserved = 0, eflags8 = 0, base_high = 0\<rparr>"

definition idt_init :: "u32 \<Rightarrow> (nat \<Rightarrow> u32) \<Rightarrow> (nat \<Rightarrow> u32) \<Rightarrow> ports \<Rightarrow> idt_entry list \<times> idt_ptr \<times> ports" where
  "idt_init idt_addr isr irq io =
     (let idt = fold (\<lambda>n. idt_set_entry (of_nat n) (isr n) 0x08 0x8e) [0..<20] idt_clear;
          io = pic_remap io;
          idt = fold (\<lambda>n. idt_set_entry (of_nat (n + 32)) (irq n) 0x08 0x8e) [0..<16] idt;
          idt = idt_set_entry 0x80 (isr 128) 0x08 0xee idt
      in (idt, \<lparr>limit = of_nat (8 * IDT_ENTRIES) - 1, base = idt_addr\<rparr>, io))"

section \<open>Dispatch\<close>

record registers =
  r_gs :: u32
  r_fs :: u32
  r_es :: u32
  r_ds :: u32
  r_edi :: u32
  r_esi :: u32
  r_ebp :: u32
  r_esp :: u32
  r_ebx :: u32
  r_edx :: u32
  r_ecx :: u32
  r_eax :: u32
  r_int_num :: u32
  r_err_code :: u32
  r_eip :: u32
  r_cs :: u32
  r_eflags :: u32

type_synonym 's handler = "registers \<Rightarrow> 's \<Rightarrow> (registers \<times> 's) res"

text \<open>The two tables: 16 interrupt handlers, 256 system calls.\<close>

record 's isr_tables =
  irq_handlers :: "'s handler option list"
  syscall_handlers :: "'s handler option list"

definition no_handlers :: "'s isr_tables" where
  "no_handlers = \<lparr>irq_handlers = replicate 16 None, syscall_handlers = replicate 256 None\<rparr>"

definition irq_register :: "u8 \<Rightarrow> 's handler \<Rightarrow> 's isr_tables \<Rightarrow> 's isr_tables res" where
  "irq_register n h T = (if unat n < length (irq_handlers T)
     then Inr (T\<lparr>irq_handlers := (irq_handlers T)[unat n := Some h]\<rparr>)
     else Inl (Fault ''irq_handlers''))"

definition syscall_register :: "u8 \<Rightarrow> 's handler \<Rightarrow> 's isr_tables \<Rightarrow> 's isr_tables" where
  "syscall_register num h T = T\<lparr>syscall_handlers := (syscall_handlers T)[unat num := Some h]\<rparr>"

text \<open>The dispatch of \<open>exception_handler\<close>; what it prints for a call without a handler and for an exception is in \<open>Traps\<close>.\<close>

definition exception_handler :: "'s isr_tables \<Rightarrow> 's handler" where
  "exception_handler T regs s =
     (if r_int_num regs = 0x80 then
        (case syscall_handlers T ! unat (ucast (r_eax regs AND 0xff) :: u8) of
           Some h \<Rightarrow> h regs s
         | None \<Rightarrow> Inr (regs, s))
      else Inl (Panic ''exception_handler() -> an exception occurred''))"

text \<open>\<open>irq_handler\<close> also acknowledges the interrupt: the last value is the trace of its port writes.\<close>

definition irq_handler :: "'s isr_tables \<Rightarrow> registers \<Rightarrow> 's \<Rightarrow> ports \<Rightarrow> (registers \<times> 's \<times> ports) res" where
  "irq_handler T regs s io =
     (let irq = ucast (r_int_num regs - 32) :: u8
      in if unat irq < length (irq_handlers T)
         then bind_res (case irq_handlers T ! unat irq of Some h \<Rightarrow> h regs s | None \<Rightarrow> Inr (regs, s))
           (\<lambda>(regs, s). Inr (regs, s,
              outb 0x20 0x20 (if r_int_num regs \<ge> 40 then outb 0xa0 0x20 io else io)))
         else Inl (Fault ''irq_handlers''))"


section \<open>The gates\<close>

definition gate :: "u32 \<Rightarrow> u16 \<Rightarrow> u8 \<Rightarrow> idt_entry" where
  "gate a sel flags = \<lparr>base_low = ucast (a AND 0xffff), selector = sel, reserved = 0, eflags8 = flags,
     base_high = ucast (drop_bit 16 a AND 0xffff)\<rparr>"

text \<open>The address that the processor reads in a gate, and whether the gate is present and open to ring 3.\<close>

definition gate_address :: "idt_entry \<Rightarrow> u32" where
  "gate_address e = push_bit 16 (ucast (base_high e)) OR ucast (base_low e)"

definition gate_present :: "idt_entry \<Rightarrow> bool" where
  "gate_present e = bit (eflags8 e) 7"

definition gate_user :: "idt_entry \<Rightarrow> bool" where
  "gate_user e \<longleftrightarrow> gate_present e \<and> bit (eflags8 e) 5 \<and> bit (eflags8 e) 6"

lemma gate_address_gate: "gate_address (gate a sel flags) = a"
  unfolding gate_address_def gate_def idt_entry.select_convs mask_and
  by (rule bit_eqI) (auto simp: bit_or_iff bit_push_bit_iff bit_ucast_iff bit_take_bit_iff bit_drop_bit_eq)

lemma idt_set_entry_eq: "idt_set_entry v a sel flags idt = idt[unat v := gate a sel flags]"
  by (simp add: idt_set_entry_def gate_def)

lemma set_run:
  assumes "k + m \<le> 256" "length idt = 256" "v < 256"
  shows "length (fold (\<lambda>n. idt_set_entry (of_nat (n + k)) (f n) sel flags) [0..<m] idt) = 256
    \<and> fold (\<lambda>n. idt_set_entry (of_nat (n + k)) (f n) sel flags) [0..<m] idt ! v
      = (if k \<le> v \<and> v < k + m then gate (f (v - k)) sel flags else idt ! v)"
  using assms(1)
proof (induction m)
  case 0
  then show ?case using assms(2) by auto
next
  case (Suc m)
  have "unat (of_nat (m + k) :: u8) = m + k" using Suc.prems by (simp add: unat_of_nat take_bit_nat_eq_self del: of_nat_add)
  then show ?case using Suc assms(3) by (auto simp: idt_set_entry_eq nth_list_update)
qed

lemma idt_init_nth:
  assumes "v < 256" "idt_init idt_addr isr irq io = (idt, p, io')"
  shows "length idt = 256 \<and> idt ! v = (if v < 20 then gate (isr v) 0x08 0x8e
    else if 32 \<le> v \<and> v < 48 then gate (irq (v - 32)) 0x08 0x8e
    else if v = 128 then gate (isr 128) 0x08 0xee else gate 0 0 0)"
proof -
  define a where "a = fold (\<lambda>n. idt_set_entry (of_nat (n + 0)) (isr n) 0x08 0x8e) [0..<20] idt_clear"
  define b where "b = fold (\<lambda>n. idt_set_entry (of_nat (n + 32)) (irq n) 0x08 0x8e) [0..<16] a"
  have a: "length a = 256" "a ! v = (if v < 20 then gate (isr v) 0x08 0x8e else gate 0 0 0)"
    using set_run [of 0 20 idt_clear v isr "0x08" "0x8e"] assms(1)
    by (simp_all add: a_def idt_clear_def IDT_ENTRIES_def gate_def)
  have b: "length b = 256" "b ! v = (if 32 \<le> v \<and> v < 48 then gate (irq (v - 32)) 0x08 0x8e else a ! v)"
    using set_run [of 32 16 a v irq "0x08" "0x8e"] assms(1) a(1) by (simp_all add: b_def)
  have "idt = b[128 := gate (isr 128) 0x08 0xee]"
    using assms(2) by (simp add: idt_init_def Let_def a_def b_def idt_set_entry_eq [of 128])
  then show ?thesis using a b by (auto simp: nth_list_update)
qed

section \<open>Properties\<close>

text \<open>C25: the interrupt table after \<open>idt_init\<close>: exactly the vectors 0 to 19, 32 to 47 and 0x80 are
  present, each enters its own stub in the kernel's code segment, and a user program can raise
  only 0x80, the system call; the register holds the last byte of the 256 gates, and the
  two controllers deliver their lines from the vectors 32 and 40 on.\<close>

theorem idt_init_gates:
  assumes "v < 256"
  shows "case idt_init idt_addr isr irq io of (idt, p, io') \<Rightarrow>
    length idt = 256 \<and> unat (limit p) = 256 * 8 - 1 \<and> base p = idt_addr
    \<and> gate_present (idt ! v) = (v < 20 \<or> 32 \<le> v \<and> v < 48 \<or> v = 128)
    \<and> (gate_present (idt ! v) \<longrightarrow> selector (idt ! v) = 0x08
        \<and> gate_address (idt ! v) = (if 32 \<le> v \<and> v < 48 then irq (v - 32) else isr v))
    \<and> gate_user (idt ! v) = (v = 128)
    \<and> [x. (p, x) \<leftarrow> drop (length (outs io)) (outs io'), p = PIC1_DATA] ! 0 = 32
    \<and> [x. (p, x) \<leftarrow> drop (length (outs io)) (outs io'), p = PIC2_DATA] ! 0 = 40"
proof -
  obtain idt p io' where i: "idt_init idt_addr isr irq io = (idt, p, io')" by (metis prod_cases3)
  have "p = \<lparr>limit = 2047, base = idt_addr\<rparr>" "io' = pic_remap io"
    using i by (auto simp: idt_init_def Let_def IDT_ENTRIES_def)
  moreover have "\<not> bit (0x8e :: u8) 6" "bit (0x8e :: u8) 7" "bit (0xee :: u8) 5 \<and> bit (0xee :: u8) 6" "bit (0xee :: u8) 7"
    by simp_all
  moreover have "selector (gate a sel fl) = sel" "eflags8 (gate a sel fl) = fl" for a sel fl by (simp_all add: gate_def)
  ultimately show ?thesis using idt_init_nth [OF assms i]
    by (simp add: i gate_address_gate gate_present_def gate_user_def pic_remap_def outb_def
        PIC1_DATA_def PIC2_DATA_def PIC1_CMD_def PIC2_CMD_def)
qed

lemma idt_init_gates_witness:
  "gate_user (fst (idt_init 0xc0100000 (\<lambda>n. 0xc0102000) (\<lambda>n. 0xc0101000 + of_nat n) \<lparr>reads = 0, outs = []\<rparr>) ! 128)"
  using idt_init_gates [of 128 "0xc0100000" "\<lambda>n. 0xc0101000 + of_nat n" "\<lambda>n. 0xc0102000" "\<lparr>reads = 0, outs = []\<rparr>"]
  by (simp add: split_beta)


text \<open>Which handler the registrations of a run leave behind: the last one of the line.\<close>

fun last_registered :: "'k \<Rightarrow> ('k \<times> 'h) list \<Rightarrow> 'h option" where
  "last_registered k [] = None"
| "last_registered k ((n, h) # rs) = (case last_registered k rs of None \<Rightarrow> (if n = k then Some h else None) | Some g \<Rightarrow> Some g)"

fun register_all :: "(u8 \<times> 's handler) list \<Rightarrow> 's isr_tables \<Rightarrow> 's isr_tables res" where
  "register_all [] T = Inr T"
| "register_all ((n, h) # rs) T = bind_res (irq_register n h T) (register_all rs)"

lemma register_all_handlers:
  assumes "list_all (\<lambda>(n, h). unat n < 16) rs" "length (irq_handlers T) = 16" "unat k < 16"
  shows "\<exists>T'. register_all rs T = Inr T' \<and> length (irq_handlers T') = 16
    \<and> irq_handlers T' ! unat k = (case last_registered k rs of None \<Rightarrow> irq_handlers T ! unat k | h \<Rightarrow> h)"
  using assms
proof (induction rs arbitrary: T)
  case Nil
  then show ?case by simp
next
  case (Cons r rs)
  obtain n h where r: "r = (n, h)" by force
  define T1 where "T1 = T\<lparr>irq_handlers := (irq_handlers T)[unat n := Some h]\<rparr>"
  have "irq_register n h T = Inr T1" using Cons.prems by (simp add: irq_register_def T1_def r)
  moreover have "irq_handlers T1 ! unat k = (if n = k then Some h else irq_handlers T ! unat k)"
    using Cons.prems by (auto simp: T1_def nth_list_update word_unat_eq_iff)
  moreover have "length (irq_handlers T1) = 16" using Cons.prems by (simp add: T1_def)
  ultimately show ?case using Cons.IH [of T1] Cons.prems by (auto simp: r split: option.splits if_splits)
qed

text \<open>C26: dispatch of a hardware interrupt. After any sequence of registrations, the interrupt of a line
  runs the handler registered last for that line, on the saved registers, or none; then it
  acknowledges the first controller, and the second one before it for the lines from 8. If the
  handler fails to return, nothing is acknowledged.\<close>

theorem irq_dispatch:
  assumes "list_all (\<lambda>(n, h). unat n < 16) rs" "register_all rs no_handlers = Inr T"
    and "unat line < 16" "r_int_num regs = 32 + ucast line"
  shows "irq_handler T regs s io =
    (case last_registered line rs of
       None \<Rightarrow> Inr (regs, s, io\<lparr>outs := outs io @ (if 8 \<le> unat line then [(0xa0, 0x20)] else []) @ [(0x20, 0x20)]\<rparr>)
     | Some h \<Rightarrow> (case h regs s of
           Inl e \<Rightarrow> Inl e
         | Inr (regs', s') \<Rightarrow> Inr (regs', s', io\<lparr>outs := outs io
               @ (if 40 \<le> unat (r_int_num regs') then [(0xa0, 0x20)] else []) @ [(0x20, 0x20)]\<rparr>)))"
proof -
  have T: "length (irq_handlers T) = 16" "irq_handlers T ! unat line = last_registered line rs"
    using register_all_handlers [OF assms(1) _ assms(3), of no_handlers] assms(2,3)
    by (auto simp: no_handlers_def split: option.splits)
  have l: "(ucast (r_int_num regs - 32) :: u8) = line" by (simp add: assms(4) ucast_back)
  have "unat (32 + ucast line :: u32) = 32 + unat line" using assms(3) by (simp add: unat_word_ariths unat_ucast_u8)
  then have "(r_int_num regs \<ge> 40) = (8 \<le> unat line)" by (simp add: assms(4) word_le_nat_alt)
  then show ?thesis using assms(3) T l
    by (auto simp: irq_handler_def Let_def outb_def word_le_nat_alt bind_res_def split: option.splits sum.splits)
qed


definition stopped_regs :: "u32 \<Rightarrow> registers" where
  "stopped_regs n = \<lparr>r_gs = 0x10, r_fs = 0x10, r_es = 0x10, r_ds = 0x10, r_edi = 0, r_esi = 0, r_ebp = 0, r_esp = 0,
     r_ebx = 0, r_edx = 0, r_ecx = 0, r_eax = 0, r_int_num = n, r_err_code = 0, r_eip = 0xc0100000, r_cs = 0x08, r_eflags = 0x202\<rparr>"

lemma irq_dispatch_witness:
  "\<exists>T. register_all [(12, \<lambda>r n. Inr (r, n + 1)), (0, \<lambda>r n. Inr (r, 0)), (12, \<lambda>r n. Inr (r, n + 2))] no_handlers = Inr T
    \<and> irq_handler T (stopped_regs 44) (5 :: nat) \<lparr>reads = 0, outs = []\<rparr>
      = Inr (stopped_regs 44, 7, \<lparr>reads = 0, outs = [(0xa0, 0x20), (0x20, 0x20)]\<rparr>)"
proof -
  define rs :: "(u8 \<times> nat handler) list"
    where "rs = [(12, \<lambda>r n. Inr (r, n + 1)), (0, \<lambda>r n. Inr (r, 0)), (12, \<lambda>r n. Inr (r, n + 2))]"
  have ok: "list_all (\<lambda>(n, h). unat n < 16) rs" by (simp add: rs_def)
  obtain T where T: "register_all rs no_handlers = Inr T"
    by (simp add: rs_def irq_register_def no_handlers_def)
  have "irq_handler T (stopped_regs 44) 5 \<lparr>reads = 0, outs = []\<rparr>
      = Inr (stopped_regs 44, 7, \<lparr>reads = 0, outs = [(0xa0, 0x20), (0x20, 0x20)]\<rparr>)"
    using irq_dispatch [OF ok T, of 12 "stopped_regs 44"] by (simp add: stopped_regs_def rs_def)
  with T show ?thesis unfolding rs_def by blast
qed

end
