(* ===== verification/Uargs.thy ===== *)
theory Uargs
  imports Kstate
begin

text \<open>
  The arguments that \<open>uprocess_load\<close> (\<open>src/userspace/uprocess.c\<close>) leaves on the user stack: the strings at
  the top of the page, below them the array of their addresses, its address and their number. The
  buffer \<open>page_buf\<close> on the kernel stack, in which the page is built, is a list of 4096 bytes; a store
  outside of it is a \<open>Fault\<close>. The arguments are the strings \<open>argv\<close> without their NULs, so \<open>argc\<close> is their number.
\<close>

section \<open>Definitions\<close>

definition USER_STACK_TOP :: u32 where "USER_STACK_TOP = 0xb0000000"

text \<open>A little-endian number.\<close>

definition le :: "u8 list \<Rightarrow> u32" where
  "le bs = foldr (\<lambda>b x. ucast b OR push_bit 8 x) bs 0"

definition buf_put :: "u32 \<Rightarrow> u8 list \<Rightarrow> u8 list \<Rightarrow> u8 list res" where
  "buf_put off bytes buf = (if unat off + length bytes \<le> length buf
     then Inr (take (unat off) buf @ bytes @ drop (unat off + length bytes) buf)
     else Inl (Fault ''page_buf''))"

text \<open>The strings, from the last to the first, and their addresses in the program.\<close>

primrec put_strings :: "u8 list list \<Rightarrow> u32 \<times> u8 list \<times> u32 list \<Rightarrow> (u32 \<times> u8 list \<times> u32 list) res" where
  "put_strings [] st = Inr st"
| "put_strings (a # as) st = bind_res (put_strings as st) (\<lambda>(buf_offset, buf, vaddrs).
     let len = of_nat (length a) + 1; buf_offset = buf_offset - len
     in bind_res (buf_put buf_offset (a @ [0]) buf) (\<lambda>buf.
          Inr (buf_offset, buf, (USER_STACK_TOP - PAGE_SIZE + buf_offset) # vaddrs)))"

definition put_word :: "u32 \<Rightarrow> u32 \<times> u8 list \<Rightarrow> (u32 \<times> u8 list) res" where
  "put_word x = (\<lambda>(buf_offset, buf). let buf_offset = buf_offset - 4 in
     bind_res (buf_put buf_offset (word_bytes x) buf) (\<lambda>buf. Inr (buf_offset, buf)))"

primrec put_words :: "u32 list \<Rightarrow> u32 \<times> u8 list \<Rightarrow> (u32 \<times> u8 list) res" where
  "put_words [] st = Inr st"
| "put_words (x # xs) st = bind_res (put_words xs st) (put_word x)"

definition stack_page :: "u8 list list \<Rightarrow> (u32 \<times> u8 list) res" where
  "stack_page argv =
     bind_res (put_strings argv (PAGE_SIZE, replicate 4096 0, [])) (\<lambda>(buf_offset, buf, vaddrs).
     bind_res (put_word 0 (buf_offset AND NOT 3, buf)) (\<lambda>st.
     bind_res (put_words vaddrs st) (\<lambda>(buf_offset, buf).
     bind_res (put_word (USER_STACK_TOP - PAGE_SIZE + buf_offset) (buf_offset, buf)) (\<lambda>st.
       put_word (of_nat (length argv)) st))))"

section \<open>The layout\<close>

text \<open>The strings with their NULs, and their addresses.\<close>

definition strs :: "u8 list list \<Rightarrow> u8 list" where
  "strs argv = concat (map (\<lambda>a. a @ [0]) argv)"

primrec addrs :: "u8 list list \<Rightarrow> u32 list" where
  "addrs [] = []"
| "addrs (a # as) = (USER_STACK_TOP - PAGE_SIZE + of_nat (4096 - length (strs (a # as)))) # addrs as"

lemma strs_simps [simp]: "strs [] = []" "strs (a # as) = a @ 0 # strs as"
  by (simp_all add: strs_def)

lemma length_addrs [simp]: "length (addrs argv) = length argv"
  by (induction argv) simp_all

lemma le_word_bytes [simp]: "le (word_bytes x) = x"
proof (rule bit_word_eqI)
  fix n assume n: "n < LENGTH(32)"
  consider "n < 8" | "8 \<le> n" "n < 16" | "16 \<le> n" "n < 24" | "24 \<le> n" "n < 32"
    using n by fastforce
  then show "bit (le (word_bytes x)) n \<longleftrightarrow> bit x n"
    by cases (auto simp: le_def word_bytes_def bit_simps)
qed

lemma length_word_bytes [simp]: "length (word_bytes x) = 4"
  by (simp add: word_bytes_def)

lemma of_nat_minus_u32: "m \<le> n \<Longrightarrow> (of_nat n :: u32) - of_nat m = of_nat (n - m)"
  by (simp add: of_nat_diff)

text \<open>A store right below what is already there.\<close>

lemma buf_put_below:
  assumes "n + length b \<le> 4096" "length rest + n + length b = 4096"
  shows "buf_put (of_nat n) b (replicate (n + length b) 0 @ rest) = Inr (replicate n 0 @ b @ rest)"
  using assms by (simp add: buf_put_def unat_of_nat_u32 replicate_add)

lemma put_strings_fit:
  assumes "length (strs argv) \<le> 4096"
  shows "put_strings argv (PAGE_SIZE, replicate 4096 0, []) =
    Inr (of_nat (4096 - length (strs argv)), replicate (4096 - length (strs argv)) 0 @ strs argv, addrs argv)"
  using assms
proof (induction argv)
  case Nil
  then show ?case by (simp add: PAGE_SIZE_def)
next
  case (Cons a as)
  define n where "n = 4096 - length (strs (a # as))"
  have n: "4096 - length (strs as) = n + length (a @ [0])" "n + Suc (length a) \<le> 4096"
    using Cons.prems by (simp_all add: n_def)
  have o: "of_nat (n + length (a @ [0])) - (of_nat (length a) + 1) = (of_nat n :: u32)" by simp
  have "buf_put (of_nat n) (a @ [0]) (replicate (n + length (a @ [0])) 0 @ strs as) = Inr (replicate n 0 @ (a @ [0]) @ strs as)"
    using Cons.prems by (intro buf_put_below) (simp_all add: n_def)
  then have "put_strings (a # as) (PAGE_SIZE, replicate 4096 0, []) =
      Inr (of_nat n, replicate n 0 @ (a @ [0]) @ strs as, (USER_STACK_TOP - PAGE_SIZE + of_nat n) # addrs as)"
    using Cons n o by (simp add: Let_def del: of_nat_add of_nat_Suc replicate_add replicate_Suc)
  moreover have "addrs (a # as) = (USER_STACK_TOP - PAGE_SIZE + of_nat n) # addrs as" by (simp only: addrs.simps n_def)
  ultimately show ?case unfolding n_def [symmetric] by simp
qed

lemma put_strings_overflow:
  assumes "4096 < length (strs argv)" "length (strs argv) < 2147483648"
  shows "put_strings argv (PAGE_SIZE, replicate 4096 0, []) = Inl (Fault ''page_buf'')"
  using assms
proof (induction argv)
  case Nil
  then show ?case by simp
next
  case (Cons a as)
  show ?case
  proof (cases "4096 < length (strs as)")
    case True
    then show ?thesis using Cons by simp
  next
    case False
    define k where "k = length (strs (a # as)) - 4096"
    have k: "0 < k" "k < 2147483648" "4096 - length (strs as) + k = Suc (length a)"
      using False Cons.prems by (simp_all add: k_def)
    have "of_nat (4096 - length (strs as)) - (of_nat (length a) + 1) = (of_nat (4096 - length (strs as)) - of_nat (Suc (length a)) :: u32)"
      by simp
    also have "\<dots> = - of_nat k" unfolding k(3) [symmetric] by simp
    finally have "of_nat (4096 - length (strs as)) - (of_nat (length a) + 1) = (- of_nat k :: u32)" .
    moreover have "unat (- of_nat k :: u32) = 4294967296 - k"
      using k(1,2) unat_sub_wrap_u32 [of 0 "of_nat k"] by (simp add: word_less_nat_alt)
    ultimately show ?thesis using put_strings_fit [of as] False k(2)
      by (simp add: Let_def buf_put_def)
  qed
qed

lemma put_words_below:
  "n + 4 * length xs \<le> 4096 \<Longrightarrow> length rest + n + 4 * length xs = 4096 \<Longrightarrow>
    put_words xs (of_nat (n + 4 * length xs), replicate (n + 4 * length xs) 0 @ rest) =
    Inr (of_nat n, replicate n 0 @ concat (map word_bytes xs) @ rest)"
proof (induction xs arbitrary: n)
  case Nil
  then show ?case by simp
next
  case (Cons x xs)
  have "put_words xs (of_nat (n + 4 + 4 * length xs), replicate (n + 4 + 4 * length xs) 0 @ rest) =
      Inr (of_nat (n + 4), replicate (n + 4) 0 @ concat (map word_bytes xs) @ rest)"
    using Cons.prems by (intro Cons.IH) simp_all
  moreover have "buf_put (of_nat n) (word_bytes x) (replicate (n + length (word_bytes x)) 0 @ concat (map word_bytes xs) @ rest)
      = Inr (replicate n 0 @ word_bytes x @ concat (map word_bytes xs) @ rest)"
    using Cons.prems by (intro buf_put_below) (simp_all add: length_concat comp_def sum_list_triv)
  moreover have "n + 4 + 4 * length xs = n + 4 * length (x # xs)" by simp
  moreover have "(of_nat (n + 4) :: u32) - 4 = of_nat n" by simp
  ultimately show ?case
    by (simp add: put_word_def Let_def del: of_nat_add replicate_add replicate_Suc)
qed


lemma put_words_snoc: "bind_res (put_word x st) (put_words xs) = put_words (xs @ [x]) st"
proof (induction xs)
  case (Cons y xs)
  show ?case by (cases "put_word x st") (simp_all add: Cons [symmetric])
qed (cases "put_word x st"; simp)

lemma and_not_mask_2: "(x :: u32) AND NOT (mask 2) = push_bit 2 (drop_bit 2 x)"
proof (rule bit_word_eqI)
  fix n
  have "2 \<le> n \<Longrightarrow> Suc (Suc (n - 2)) = n" by simp
  then show "n < LENGTH(32) \<Longrightarrow> bit (x AND NOT (mask 2)) n = bit (push_bit 2 (drop_bit 2 x)) n"
    by (cases "n < 2") (auto simp: bit_simps)
qed

lemma and_not_3:
  assumes "n \<le> 4096"
  shows "(of_nat n :: u32) AND NOT 3 = of_nat (n div 4 * 4)"
proof -
  have "(3 :: u32) = mask 2" by (simp add: mask_eq_exp_minus_1)
  then have "(of_nat n :: u32) AND NOT 3 = push_bit 2 (drop_bit 2 (of_nat n))"
    by (simp only: and_not_mask_2)
  also have "\<dots> = of_nat n div of_nat 4 * 4" by (simp add: push_bit_eq_mult drop_bit_eq_div)
  also have "(of_nat n :: u32) div of_nat 4 = of_nat (n div 4)"
    using assms by (intro unat_inj_u32) (simp add: unat_div)
  finally show ?thesis by simp
qed

text \<open>The whole page: zeros, the number of arguments, the address of the array, the array with its final
  NULL, padding, the strings.\<close>

definition arg_words :: "nat \<Rightarrow> u8 list list \<Rightarrow> u32 list" where
  "arg_words n argv = of_nat (length argv) # (USER_STACK_TOP - PAGE_SIZE + of_nat (n + 8)) # addrs argv @ [0]"

definition arg_start :: "u8 list list \<Rightarrow> nat" where
  "arg_start argv = (4096 - length (strs argv)) div 4 * 4 - 4 * (length argv + 3)"

lemma stack_page_fit:
  assumes "length (strs argv) + 4 * length argv + 15 \<le> 4096"
  defines "n \<equiv> arg_start argv" and "r \<equiv> (4096 - length (strs argv)) mod 4"
  shows "stack_page argv = Inr (of_nat n, replicate n 0 @ concat (map word_bytes (arg_words n argv)) @ replicate r 0 @ strs argv)"
    and "n mod 4 = 0" "n + 4 * (length argv + 3) + r + length (strs argv) = 4096"
proof -
  define m where "m = 4096 - length (strs argv)"
  define z where "z = n + 4 * (length argv + 3)"
  have z: "z = m div 4 * 4" "z + r = m" "z \<le> 4096"
    using assms(1) by (simp_all add: z_def n_def r_def m_def arg_start_def)
  then show "n + 4 * (length argv + 3) + r + length (strs argv) = 4096"
    using assms(1) by (simp add: z_def m_def)
  show "n mod 4 = 0" unfolding n_def arg_start_def
    by (metis diff_mult_distrib mod_mult_self2_is_0 mult.commute)
  let ?S = "replicate r 0 @ strs argv"
  have len: "length ?S + z = 4096" using z assms(1) by (simp add: m_def)
  have s: "put_strings argv (PAGE_SIZE, replicate 4096 0, []) = Inr (of_nat m, replicate z 0 @ ?S, addrs argv)"
    using put_strings_fit [of argv] assms(1) by (simp add: m_def [symmetric] z(2) [symmetric] replicate_add del: of_nat_add)
  have a: "(of_nat m :: u32) AND NOT 3 = of_nat z" using and_not_3 [of m] z(1) by (simp add: m_def)
  define k where "k = n + 8"
  have k: "z = k + 4 * length (addrs argv @ [0])" "k + 4 * length (addrs argv @ [0]) \<le> 4096"
    using z(3) by (simp_all add: z_def k_def)
  define A where "A = concat (map word_bytes (addrs argv @ [0])) @ ?S"
  have w: "bind_res (put_word 0 (of_nat z, replicate z 0 @ ?S)) (put_words (addrs argv)) = Inr (of_nat k, replicate k 0 @ A)"
    unfolding put_words_snoc k(1) A_def using k len by (intro put_words_below) simp_all
  have lenA: "length A + n + 8 = 4096"
    using k len by (simp add: A_def k_def length_concat comp_def sum_list_triv)
  have one: "put_word x (of_nat (q + 4), replicate (q + 4) 0 @ rest) = Inr (of_nat q, replicate q 0 @ word_bytes x @ rest)"
    if "length rest + q + 4 = 4096" for x q rest
    using put_words_below [of q "[x]" rest] that by simp
  have p: "put_word x (of_nat k, replicate k 0 @ A) = Inr (of_nat (n + 4), replicate (n + 4) 0 @ word_bytes x @ A)" for x
    using one [of A "n + 4" x] lenA by (simp add: k_def add.assoc del: of_nat_add replicate_add)
  have q: "put_word y (of_nat (n + 4), replicate (n + 4) 0 @ word_bytes x @ A)
      = Inr (of_nat n, replicate n 0 @ word_bytes y @ word_bytes x @ A)" for x y
    using lenA by (intro one) simp
  obtain st where st: "put_word 0 (of_nat z, replicate z 0 @ ?S) = Inr st" "put_words (addrs argv) st = Inr (of_nat k, replicate k 0 @ A)"
    using w by auto
  have "stack_page argv = Inr (of_nat n, replicate n 0 @ word_bytes (of_nat (length argv)) @
      word_bytes (USER_STACK_TOP - PAGE_SIZE + of_nat k) @ A)"
    by (simp only: stack_page_def s bind_res_simps prod.case a st p q)
  then show "stack_page argv = Inr (of_nat n, replicate n 0 @ concat (map word_bytes (arg_words n argv)) @ ?S)"
    by (simp add: A_def arg_words_def k_def)
qed


section \<open>What the program reads\<close>

definition arg_word :: "u8 list \<Rightarrow> nat \<Rightarrow> u32" where
  "arg_word buf k = le (take 4 (drop k buf))"

definition arg_str :: "u8 list \<Rightarrow> nat \<Rightarrow> u8 list" where
  "arg_str buf k = takeWhile (\<lambda>c. c \<noteq> 0) (drop k buf)"

lemma drop_words:
  "i \<le> length ws \<Longrightarrow> drop (4 * i) (concat (map word_bytes ws) @ rest) = concat (map word_bytes (drop i ws)) @ rest"
proof (induction i arbitrary: ws)
  case (Suc i)
  then obtain w vs where ws: "ws = w # vs" by (cases ws) auto
  have "drop (4 * Suc i) (word_bytes w @ concat (map word_bytes vs) @ rest) = drop (4 * i) (concat (map word_bytes vs) @ rest)"
    by simp
  then show ?case using Suc by (simp add: ws)
qed simp

lemma arg_word_nth:
  assumes "i < length ws"
  shows "arg_word (replicate n 0 @ concat (map word_bytes ws) @ rest) (n + 4 * i) = ws ! i"
proof -
  have "drop (n + 4 * i) (replicate n 0 @ concat (map word_bytes ws) @ rest)
      = concat (map word_bytes (drop i ws)) @ rest"
    using drop_words [of i ws rest] assms by simp
  also have "\<dots> = word_bytes (ws ! i) @ concat (map word_bytes (drop (Suc i) ws)) @ rest"
    using assms by (simp flip: Cons_nth_drop_Suc)
  finally show ?thesis by (simp add: arg_word_def)
qed

lemma addrs_nth:
  "i < length argv \<Longrightarrow> addrs argv ! i = USER_STACK_TOP - PAGE_SIZE + of_nat (4096 - length (strs (drop i argv)))"
proof (induction argv arbitrary: i)
  case (Cons a as)
  show ?case
  proof (cases i)
    case 0
    then show ?thesis by (simp only: addrs.simps nth_Cons_0 drop_0)
  next
    case (Suc j)
    then have "j < length as" using Cons.prems by simp
    from Cons.IH [OF this] show ?thesis by (simp only: Suc addrs.simps nth_Cons_Suc drop_Suc_Cons)
  qed
qed simp

lemma strs_append: "strs (xs @ ys) = strs xs @ strs ys"
  by (simp add: strs_def)

lemma arg_str_nth:
  assumes "length pre + length (strs argv) = 4096" "i < length argv" "0 \<notin> set (argv ! i)"
  shows "arg_str (pre @ strs argv) (4096 - length (strs (drop i argv))) = argv ! i"
proof -
  have s: "strs argv = strs (take i argv) @ strs (drop i argv)" by (simp flip: strs_append)
  then have "length (strs argv) = length (strs (take i argv)) + length (strs (drop i argv))" by simp
  then have "4096 - length (strs (drop i argv)) = length pre + length (strs (take i argv))"
    using assms(1) by simp
  then have "drop (4096 - length (strs (drop i argv))) (pre @ strs argv) = strs (drop i argv)" by (simp add: s)
  also have "\<dots> = argv ! i @ 0 # strs (drop (Suc i) argv)" using assms(2) by (simp flip: Cons_nth_drop_Suc)
  finally show ?thesis using assms(3) by (simp add: arg_str_def takeWhile_append)
qed

section \<open>Properties\<close>

text \<open>C30: the program finds its arguments: when they fit in the page, its stack pointer (a multiple of 4)
  points to their number, the next word to the array behind it, whose words point to the strings in order
  and whose last word is NULL. When the strings take more than a page, the loader writes below its
  buffer on the kernel stack.\<close>

theorem stack_page_layout:
  assumes "length (strs argv) + 4 * length argv + 15 \<le> 4096" "list_all (\<lambda>a. 0 \<notin> set a) argv"
    and "4096 < length (strs argv')" "length (strs argv') < 2147483648"
  shows "(\<exists>n buf. stack_page argv = Inr (of_nat n, buf) \<and> length buf = 4096 \<and> n mod 4 = 0 \<and> n < 4096
    \<and> arg_word buf n = of_nat (length argv)
    \<and> arg_word buf (n + 4) = USER_STACK_TOP - PAGE_SIZE + of_nat (n + 8)
    \<and> (\<forall>i < length argv. \<exists>p < 4096. arg_word buf (n + 8 + 4 * i) = USER_STACK_TOP - PAGE_SIZE + of_nat p
        \<and> arg_str buf p = argv ! i)
    \<and> arg_word buf (n + 8 + 4 * length argv) = 0)
   \<and> stack_page argv' = Inl (Fault ''page_buf'')"
proof (intro conjI)
  define n where "n = arg_start argv"
  define r where "r = (4096 - length (strs argv)) mod 4"
  define buf where "buf = replicate n 0 @ concat (map word_bytes (arg_words n argv)) @ replicate r 0 @ strs argv"
  note fit = stack_page_fit [OF assms(1), folded n_def r_def]
  have words: "arg_word buf (n + 4 * i) = arg_words n argv ! i" if "i < length argv + 3" for i
    unfolding buf_def using that by (intro arg_word_nth) (simp add: arg_words_def)
  have len: "length (concat (map word_bytes (arg_words n argv))) = 4 * (length argv + 3)"
    by (simp add: length_concat comp_def sum_list_triv arg_words_def)
  then have lb: "length buf = 4096" using fit(3) by (simp add: buf_def)
  have str: "arg_str buf (4096 - length (strs (drop i argv))) = argv ! i" if "i < length argv" for i
    using arg_str_nth [of "replicate n 0 @ concat (map word_bytes (arg_words n argv)) @ replicate r 0" argv i]
      that assms(2) fit(3) len by (simp add: buf_def list_all_length)
  have "\<exists>p < 4096. arg_word buf (n + 8 + 4 * i) = USER_STACK_TOP - PAGE_SIZE + of_nat p \<and> arg_str buf p = argv ! i"
    if i: "i < length argv" for i
  proof (intro exI [of _ "4096 - length (strs (drop i argv))"] conjI)
    show "arg_word buf (n + 8 + 4 * i) = USER_STACK_TOP - PAGE_SIZE + of_nat (4096 - length (strs (drop i argv)))"
      using words [of "i + 2"] i addrs_nth [OF i] by (simp add: arg_words_def nth_append algebra_simps)
    show "arg_str buf (4096 - length (strs (drop i argv))) = argv ! i" by (rule str [OF i])
    have "strs (drop i argv) \<noteq> []" using i by (simp flip: Cons_nth_drop_Suc)
    then show "4096 - length (strs (drop i argv)) < 4096" by simp
  qed
  moreover have "arg_word buf (n + 8 + 4 * length argv) = 0"
    using words [of "length argv + 2"] by (simp add: arg_words_def nth_append algebra_simps)
  moreover have "n < 4096" using fit(3) by simp
  ultimately show "\<exists>n buf. stack_page argv = Inr (of_nat n, buf) \<and> length buf = 4096 \<and> n mod 4 = 0 \<and> n < 4096
    \<and> arg_word buf n = of_nat (length argv)
    \<and> arg_word buf (n + 4) = USER_STACK_TOP - PAGE_SIZE + of_nat (n + 8)
    \<and> (\<forall>i < length argv. \<exists>p < 4096. arg_word buf (n + 8 + 4 * i) = USER_STACK_TOP - PAGE_SIZE + of_nat p
        \<and> arg_str buf p = argv ! i)
    \<and> arg_word buf (n + 8 + 4 * length argv) = 0"
    using fit(1,2) lb words [of 0] words [of 1] by (intro exI [of _ n] exI [of _ buf]) (simp add: buf_def arg_words_def)
  show "stack_page argv' = Inl (Fault ''page_buf'')"
    using put_strings_overflow [OF assms(3,4)] by (simp add: stack_page_def)
qed

lemma stack_page_layout_witness:
  "(\<exists>n buf. stack_page [[0x69, 0x6e], [0x2d]] = Inr (of_nat n, buf) \<and> arg_word buf n = 2 \<and> n < 4096)
   \<and> stack_page (replicate 32 (replicate 200 0x61)) = Inl (Fault ''page_buf'')"
proof -
  have "length (strs (replicate 32 (replicate 200 0x61))) = 6432" by (simp add: strs_def length_concat sum_list_replicate)
  then show ?thesis
    using stack_page_layout [of "[[0x69, 0x6e], [0x2d]]" "replicate 32 (replicate 200 0x61)"] by auto
qed

end
