(* ===== verification/Uprocess.thy ===== *)
theory Uprocess
  imports Kthread Uargs
begin

text \<open>
  Processes, \<open>src/userspace/uprocess.c\<close>: the list of processes, page directories for user
  programs, which the kernel edits through the temporary slots 1020 to 1022 of its own directory,
  the ELF loader with the arguments it leaves on the user stack, and the creation of a process.

  The loader reads the program through the kernel's page tables, at the address \<open>data\<close>. Its arguments
  are the strings \<open>argv\<close> without their NULs (so \<open>argc\<close> is their number). The page of arguments is \<open>stack_page\<close>
  of the theory \<open>Uargs\<close>.
\<close>

section \<open>The list of processes\<close>

definition set_pnext :: "u32 \<Rightarrow> u32 \<Rightarrow> 'd ksys \<Rightarrow> 'd ksys res" where
  "set_pnext p x s = bind_res (process_at p s) (\<lambda>q. Inr (put_process p (q\<lparr>pnext := x\<rparr>) s))"

definition process_list_add :: "u32 \<Rightarrow> 'd ksys \<Rightarrow> 'd ksys res" where
  "process_list_add p s = bind_res (set_pnext p (process_list s) s) (\<lambda>s. Inr (s\<lparr>process_list := p\<rparr>))"

partial_function (option) find_from :: "u32 \<Rightarrow> 'd ksys \<Rightarrow> u32 \<Rightarrow> u32 res option" where
  "find_from n s p = (if p = 0 then Some (Inr 0)
     else case processes s p of
         None \<Rightarrow> Some (Inl (Fault ''no process''))
       | Some q \<Rightarrow> if pid q = n then Some (Inr p) else find_from n s (pnext q))"

definition uprocess_find :: "u32 \<Rightarrow> 'd ksys \<Rightarrow> u32 res" where
  "uprocess_find n s = ret (find_from n s (process_list s))"

text \<open>The loop of \<open>uprocess_remove\<close>: \<open>par\<close> is the process whose \<open>next\<close> field the cursor points to, 0 at
  the head of the list.\<close>

definition set_link :: "u32 \<Rightarrow> u32 \<Rightarrow> 'd ksys \<Rightarrow> 'd ksys res" where
  "set_link par x s = (if par = 0 then Inr (s\<lparr>process_list := x\<rparr>) else set_pnext par x s)"

partial_function (option) remove_from :: "u32 \<Rightarrow> u32 \<Rightarrow> u32 \<Rightarrow> 'd ksys \<Rightarrow> 'd ksys res option" where
  "remove_from n par p s = (if p = 0 then Some (Inr s)
     else case processes s p of
         None \<Rightarrow> Some (Inl (Fault ''no process''))
       | Some q \<Rightarrow> if pid q = n then Some (set_link par (pnext q) s) else remove_from n p (pnext q) s)"

definition uprocess_remove :: "u32 \<Rightarrow> 'd ksys \<Rightarrow> 'd ksys res" where
  "uprocess_remove n s = ret (remove_from n 0 (process_list s) s)"

section \<open>Foreign page tables\<close>

definition KERNEL_VIRT_BASE :: u32 where "KERNEL_VIRT_BASE = 0xc0000000"
definition TEMP_PD_SLOT :: u32 where "TEMP_PD_SLOT = 1020"
definition TEMP_PD_VIRT :: u32 where "TEMP_PD_VIRT = RECURSIVE_BASE + TEMP_PD_SLOT * 0x1000"
definition TEMP_FRAME_SLOT :: u32 where "TEMP_FRAME_SLOT = 1021"
definition TEMP_FRAME_VIRT :: u32 where "TEMP_FRAME_VIRT = RECURSIVE_BASE + TEMP_FRAME_SLOT * 0x1000"
definition TEMP_PT_SLOT :: u32 where "TEMP_PT_SLOT = 1022"
definition TEMP_PT_VIRT :: u32 where "TEMP_PT_VIRT = RECURSIVE_BASE + TEMP_PT_SLOT * 0x1000"

text \<open>\<open>kern_pd[slot] = ...\<close>: a temporary slot of the current directory set to a frame, and cleared.\<close>

definition temp_map :: "u32 \<Rightarrow> u32 \<Rightarrow> vm \<Rightarrow> vm res" where
  "temp_map slot phys = vstore32 (PAGE_DIR_VIRT + 4 * slot) (phys OR PAGE_PRESENT OR PAGE_RW)"

definition temp_unmap :: "u32 \<Rightarrow> vm \<Rightarrow> vm res" where
  "temp_unmap slot = vstore32 (PAGE_DIR_VIRT + 4 * slot) 0"

text \<open>The source of the copy is given by its bytes.\<close>

definition copy_to_phys :: "u32 \<Rightarrow> u32 \<Rightarrow> u8 list \<Rightarrow> vm \<Rightarrow> vm res" where
  "copy_to_phys phys off bytes s =
     bind_res (temp_map TEMP_FRAME_SLOT phys s) (\<lambda>s.
     bind_res (vwrite bytes (TEMP_FRAME_VIRT + off) s)
       (temp_unmap TEMP_FRAME_SLOT))"

definition zero_phys :: "u32 \<Rightarrow> u32 \<Rightarrow> u32 \<Rightarrow> vm \<Rightarrow> vm res" where
  "zero_phys phys off len s =
     bind_res (temp_map TEMP_FRAME_SLOT phys s) (\<lambda>s.
     bind_res (vwrite (replicate (unat len) 0) (TEMP_FRAME_VIRT + off) s)
       (temp_unmap TEMP_FRAME_SLOT))"

definition foreign_map_page :: "u32 \<Rightarrow> u32 \<Rightarrow> u32 \<Rightarrow> u32 \<Rightarrow> vm \<Rightarrow> vm res" where
  "foreign_map_page pd_phys phys virt flags s =
     (let pdi = drop_bit 22 virt; pti = drop_bit 12 virt AND 0x3ff in
      bind_res (temp_map TEMP_PD_SLOT pd_phys s) (\<lambda>s.
      bind_res (vload32 (TEMP_PD_VIRT + 4 * pdi) s) (\<lambda>d.
      bind_res
        (if d AND PAGE_PRESENT = 0
         then bind_res (alloc_frame s) (\<lambda>(pt_phys, s).
              let pd_flags = PAGE_PRESENT OR PAGE_RW;
                  pd_flags = (if flags AND PAGE_USER \<noteq> 0 then pd_flags OR PAGE_USER else pd_flags) in
              bind_res (vstore32 (TEMP_PD_VIRT + 4 * pdi) (pt_phys OR pd_flags) s) (\<lambda>s.
              bind_res (temp_map TEMP_PT_SLOT pt_phys s) (\<lambda>s.
              bind_res (vmemset_page TEMP_PT_VIRT 0 s)
                (temp_unmap TEMP_PT_SLOT))))
         else Inr s) (\<lambda>s.
      bind_res (vload32 (TEMP_PD_VIRT + 4 * pdi) s) (\<lambda>d.
      let pt_phys = d AND NOT 0xfff in
      bind_res (temp_map TEMP_PT_SLOT pt_phys s) (\<lambda>s.
      bind_res (vstore32 (TEMP_PT_VIRT + 4 * pti) ((phys AND NOT 0xfff) OR (flags AND 0xfff) OR PAGE_PRESENT) s) (\<lambda>s.
      bind_res (temp_unmap TEMP_PD_SLOT s)
        (temp_unmap TEMP_PT_SLOT))))))))"

text \<open>The loop that copies the kernel's half of the directory.\<close>

primrec copy_kernel_half :: "nat \<Rightarrow> u32 \<Rightarrow> vm \<Rightarrow> vm res" where
  "copy_kernel_half 0 i s = Inr s"
| "copy_kernel_half (Suc n) i s =
     bind_res (vload32 (PAGE_DIR_VIRT + 4 * i) s) (\<lambda>d.
     bind_res (vstore32 (TEMP_PD_VIRT + 4 * i) d s) (copy_kernel_half n (i + 1)))"

definition uprocess_create_pagedir :: "vm \<Rightarrow> (u32 \<times> vm) res" where
  "uprocess_create_pagedir s =
     bind_res (alloc_frame s) (\<lambda>(pd_phys, s).
     bind_res (temp_map TEMP_PD_SLOT pd_phys s) (\<lambda>s.
     bind_res (vwrite (replicate (4 * 768) 0) TEMP_PD_VIRT s) (\<lambda>s.
     bind_res (copy_kernel_half 256 768 s) (\<lambda>s.
     bind_res (vstore32 (TEMP_PD_VIRT + 4 * RECURSIVE_SLOT) (pd_phys OR PAGE_PRESENT OR PAGE_RW) s) (\<lambda>s.
     bind_res (vstore32 (TEMP_PD_VIRT + 4 * TEMP_PD_SLOT) 0 s) (\<lambda>s.
     bind_res (temp_unmap TEMP_PD_SLOT s) (\<lambda>s. Inr (pd_phys, s))))))))"

section \<open>The ELF loader\<close>

definition ELF_MAGIC :: u32 where "ELF_MAGIC = 0x464c457f"
definition ET_EXEC :: u32 where "ET_EXEC = 2"
definition PT_LOAD :: u32 where "PT_LOAD = 1"
definition PF_W :: u32 where "PF_W = 2"

text \<open>A field of a header at an offset.\<close>

definition field :: "nat \<Rightarrow> u32 \<Rightarrow> u32 \<Rightarrow> vm \<Rightarrow> u32 res" where
  "field n p off s = bind_res (vread n (p + off) s) (\<lambda>bs. Inr (le bs))"

text \<open>The fields of the headers that the loader uses.\<close>

record elf_ehdr =
  e_ident :: u32
  e_type :: u32
  e_entry :: u32
  e_phoff :: u32
  e_phentsize :: u32
  e_phnum :: u32

record elf_phdr =
  p_type :: u32
  p_offset :: u32
  p_vaddr :: u32
  p_filesz :: u32
  p_memsz :: u32
  p_flags :: u32

definition read_ehdr :: "u32 \<Rightarrow> vm \<Rightarrow> elf_ehdr res" where
  "read_ehdr p s =
     bind_res (field 4 p 0 s) (\<lambda>magic. bind_res (field 2 p 16 s) (\<lambda>ty. bind_res (field 4 p 24 s) (\<lambda>ent.
     bind_res (field 4 p 28 s) (\<lambda>off. bind_res (field 2 p 42 s) (\<lambda>esz. bind_res (field 2 p 44 s) (\<lambda>n.
       Inr \<lparr>e_ident = magic, e_type = ty, e_entry = ent, e_phoff = off, e_phentsize = esz, e_phnum = n\<rparr>))))))"

definition read_phdr :: "u32 \<Rightarrow> vm \<Rightarrow> elf_phdr res" where
  "read_phdr p s =
     bind_res (field 4 p 0 s) (\<lambda>ty. bind_res (field 4 p 4 s) (\<lambda>off. bind_res (field 4 p 8 s) (\<lambda>va.
     bind_res (field 4 p 16 s) (\<lambda>fsz. bind_res (field 4 p 20 s) (\<lambda>msz. bind_res (field 4 p 24 s) (\<lambda>fl.
       Inr \<lparr>p_type = ty, p_offset = off, p_vaddr = va, p_filesz = fsz, p_memsz = msz, p_flags = fl\<rparr>))))))"

text \<open>What one page of a segment receives: the offset in the page and the part of the file that goes there,
  or nothing.\<close>

definition page_part :: "elf_phdr \<Rightarrow> u32 \<Rightarrow> (u32 \<times> u32 \<times> u32) option" where
  "page_part ph virt =
     (let page_start = virt; page_end = virt + PAGE_SIZE;
          file_start = p_vaddr ph; file_end = p_vaddr ph + p_filesz ph
      in if page_end \<le> file_start \<or> page_start \<ge> file_end then None
         else let copy_start = (if page_start < file_start then file_start else page_start);
                  copy_end = (if page_end > file_end then file_end else page_end)
              in Some (copy_start - page_start, p_offset ph + (copy_start - file_start), copy_end - copy_start))"

definition load_page :: "u32 \<Rightarrow> u32 \<Rightarrow> elf_phdr \<Rightarrow> u32 \<Rightarrow> u32 \<Rightarrow> vm \<Rightarrow> vm res" where
  "load_page pd data ph flags virt s =
     bind_res (alloc_frame s) (\<lambda>(phys, s).
     bind_res (foreign_map_page pd phys virt flags s) (\<lambda>s.
     bind_res (zero_phys phys 0 PAGE_SIZE s) (\<lambda>s.
       case page_part ph virt of
         None \<Rightarrow> Inr s
       | Some (offset_in_page, offset_in_file, copy_len) \<Rightarrow>
           bind_res (vread (unat copy_len) (data + offset_in_file) s) (\<lambda>bytes.
             copy_to_phys phys offset_in_page bytes s))))"

partial_function (option) load_pages :: "u32 \<Rightarrow> u32 \<Rightarrow> elf_phdr \<Rightarrow> u32 \<Rightarrow> u32 \<Rightarrow> u32 \<Rightarrow> vm \<Rightarrow> vm res option" where
  "load_pages pd data ph flags virt virt_end s =
     (if virt < virt_end
      then (case load_page pd data ph flags virt s of
              Inl e \<Rightarrow> Some (Inl e)
            | Inr s \<Rightarrow> load_pages pd data ph flags (virt + PAGE_SIZE) virt_end s)
      else Some (Inr s))"

definition load_segment :: "u32 \<Rightarrow> u32 \<Rightarrow> elf_phdr \<Rightarrow> u32 \<Rightarrow> vm \<Rightarrow> (u32 \<times> vm) res" where
  "load_segment pd data ph highest s =
     (if p_type ph \<noteq> PT_LOAD then Inr (highest, s)
      else let seg_end = p_vaddr ph + p_memsz ph;
               highest = (if seg_end > highest then seg_end else highest)
           in if p_vaddr ph \<ge> KERNEL_VIRT_BASE then Inl (Panic ''uprocess_load() -> segment overlaps kernel'')
              else if p_vaddr ph + p_memsz ph > USER_STACK_TOP then Inl (Panic ''uprocess_load() -> segment overlaps stack'')
              else let flags = (if p_flags ph AND PF_W \<noteq> 0 then PAGE_USER OR PAGE_RW else PAGE_USER);
                       virt_start = p_vaddr ph AND NOT 0xfff; virt_end = p_vaddr ph + p_memsz ph
                   in bind_res (ret (load_pages pd data ph flags virt_start virt_end s))
                        (\<lambda>s. Inr (highest, s)))"

text \<open>The program headers from the \<open>i\<close>-th on, \<open>n\<close> of them.\<close>

primrec load_segments :: "nat \<Rightarrow> u32 \<Rightarrow> u32 \<Rightarrow> u32 \<Rightarrow> elf_ehdr \<Rightarrow> u32 \<Rightarrow> vm \<Rightarrow> (u32 \<times> vm) res" where
  "load_segments 0 i pd data eh highest s = Inr (highest, s)"
| "load_segments (Suc n) i pd data eh highest s =
     bind_res (read_phdr (data + e_phoff eh + i * e_phentsize eh) s) (\<lambda>ph.
     bind_res (load_segment pd data ph highest s) (\<lambda>(highest, s).
       load_segments n (i + 1) pd data eh highest s))"

text \<open>The entry point, the start of the heap and the initial stack pointer.\<close>

definition uprocess_load :: "u32 \<Rightarrow> u32 \<Rightarrow> u8 list list \<Rightarrow> vm \<Rightarrow> (u32 \<times> u32 \<times> u32 \<times> vm) res" where
  "uprocess_load pd data argv s =
     bind_res (read_ehdr data s) (\<lambda>eh.
     if e_ident eh \<noteq> ELF_MAGIC then Inl (Panic ''uprocess_load() -> not a valid ELF binary'')
     else if e_type eh \<noteq> ET_EXEC then Inl (Panic ''uprocess_load() -> not an executable ELF'')
     else
       bind_res (load_segments (unat (e_phnum eh)) 0 pd data eh 0 s) (\<lambda>(highest, s).
       bind_res (alloc_frame s) (\<lambda>(stack_phys0, s).
       bind_res (alloc_frame s) (\<lambda>(stack_phys1, s).
       bind_res (foreign_map_page pd stack_phys0 (USER_STACK_TOP - PAGE_SIZE * 2) (PAGE_PRESENT OR PAGE_RW OR PAGE_USER) s) (\<lambda>s.
       bind_res (foreign_map_page pd stack_phys1 (USER_STACK_TOP - PAGE_SIZE) (PAGE_PRESENT OR PAGE_RW OR PAGE_USER) s) (\<lambda>s.
       bind_res (zero_phys stack_phys0 0 PAGE_SIZE s) (\<lambda>s.
       bind_res (zero_phys stack_phys1 0 PAGE_SIZE s) (\<lambda>s.
       bind_res (stack_page argv) (\<lambda>(buf_offset, page_buf).
       bind_res (copy_to_phys stack_phys1 0 page_buf s) (\<lambda>s.
         Inr (e_entry eh, (highest + PAGE_SIZE - 1) AND NOT (PAGE_SIZE - 1), USER_STACK_TOP - PAGE_SIZE + buf_offset, s)))))))))))"

section \<open>uprocess_create\<close>

text \<open>The words pushed on the kernel stack, in order: what \<open>iret\<close> pops to enter ring 3, the vector and
  error code, the eight registers of \<open>popa\<close>, the four segment registers.\<close>

definition uprocess_frame :: "u32 \<Rightarrow> u32 \<Rightarrow> u32 list" where
  "uprocess_frame ent user_esp =
     [SEG_UDATA, user_esp, 0x202, SEG_UCODE, ent, 0, 32, 0, 0, 0, 0, 0, 0, 0, 0,
      SEG_UDATA, SEG_UDATA, SEG_UDATA, SEG_UDATA]"

definition uprocess_create :: "u32 \<Rightarrow> u32 \<Rightarrow> u32 \<Rightarrow> u32 \<Rightarrow> 'd ksys \<Rightarrow> (u32 \<times> 'd ksys) res" where
  "uprocess_create ent pd hstart user_esp s =
     bind_res (k_malloc sizeof_process s) (\<lambda>(p, s).
     let n = next_pid s; s = s\<lparr>next_pid := n + 1\<rparr> in
     bind_res (k_malloc sizeof_thread s) (\<lambda>(t, s).
     bind_res (k_alloc_pages (KSTACK_SIZE div PAGE_SIZE) s) (\<lambda>(base, s).
     bind_res (push_all (uprocess_frame ent user_esp) (base + KSTACK_SIZE, s)) (\<lambda>(sp, s).
     let s = put_thread t \<lparr>esp = sp, stack_base = base, stack_size = KSTACK_SIZE, tstate = THREAD_READY,
               tprocess = p, tnext = 0\<rparr> s;
         s = put_process p \<lparr>pid = n, page_dir = pd, pentry = ent, pthread = t, pstate = PROCESS_RUNNING, parent = 0,
               pnext = 0, exit_code = 0, fds = replicate MAX_FDS 0, heap_start = hstart, heap_end = hstart\<rparr> s in
     bind_res (process_list_add p s) (\<lambda>s. Inr (p, s))))))"


section \<open>The process list as a list\<close>

inductive plist :: "(u32 \<Rightarrow> process option) \<Rightarrow> u32 \<Rightarrow> u32 list \<Rightarrow> bool" for m where
  plist_Nil: "plist m 0 []"
| plist_Cons: "p \<noteq> 0 \<Longrightarrow> m p = Some q \<Longrightarrow> plist m (pnext q) ps \<Longrightarrow> plist m p (p # ps)"

inductive_simps plist_0 [simp]: "plist m 0 ps"
inductive_simps plist_empty [simp]: "plist m p []"
inductive_simps plist_cons_iff: "plist m p (r # ps)"
inductive_cases plist_consE: "plist m p (r # ps)"

lemma plist_unique: "plist m p ps \<Longrightarrow> plist m p qs \<Longrightarrow> qs = ps"
proof (induction arbitrary: qs rule: plist.induct)
  case (plist_Cons p q ps)
  from plist_Cons.prems plist_Cons.hyps show ?case
    by (cases qs) (auto simp: plist_cons_iff dest: plist_Cons.IH)
qed simp

lemma plist_defined: "plist m p ps \<Longrightarrow> r \<in> set ps \<Longrightarrow> r \<noteq> 0 \<and> m r \<noteq> None"
  by (induction rule: plist.induct) auto

text \<open>A list is not changed by a change of a process outside of it, nor of other fields than \<open>next\<close>.\<close>

lemma plist_cong:
  "plist m p ps \<Longrightarrow> (\<And>r. r \<in> set ps \<Longrightarrow> map_option pnext (m' r) = map_option pnext (m r)) \<Longrightarrow> plist m' p ps"
proof (induction rule: plist.induct)
  case (plist_Cons p q ps)
  have "map_option pnext (m' p) = Some (pnext q)" using plist_Cons.prems [of p] plist_Cons.hyps by simp
  then obtain q' where "m' p = Some q'" "pnext q' = pnext q" by auto
  with plist_Cons show ?case by (auto intro!: plist.plist_Cons)
qed (rule plist.plist_Nil)

lemma plist_upd: "plist m p ps \<Longrightarrow> r \<notin> set ps \<Longrightarrow> plist (m(r \<mapsto> q)) p ps"
  by (erule plist_cong) auto

lemma plist_distinct: "plist m p ps \<Longrightarrow> distinct ps"
proof -
  have suffix: "plist m p ps \<Longrightarrow> r \<in> set ps \<Longrightarrow> \<exists>rs. plist m r rs \<and> length rs \<le> length ps" for p r ps
  proof (induction rule: plist.induct)
    case (plist_Cons p q ps)
    then show ?case by (cases "r = p") (force intro: plist.plist_Cons)+
  qed simp
  show "plist m p ps \<Longrightarrow> distinct ps"
  proof (induction rule: plist.induct)
    case (plist_Cons p q ps)
    have "p \<notin> set ps"
    proof
      assume "p \<in> set ps"
      from suffix [OF plist_Cons.hyps(3) this] obtain rs where rs: "plist m p rs" "length rs \<le> length ps" by blast
      have "plist m p (p # ps)" using plist_Cons.hyps by (rule plist.plist_Cons)
      from plist_unique [OF this rs(1)] rs(2) show False by simp
    qed
    with plist_Cons.IH show ?case by simp
  qed simp
qed

definition pid_at :: "(u32 \<Rightarrow> process option) \<Rightarrow> u32 \<Rightarrow> u32 \<Rightarrow> bool" where
  "pid_at m n p \<longleftrightarrow> (\<exists>q. m p = Some q \<and> pid q = n)"

lemma find_from_plist:
  "plist (processes s) p ps \<Longrightarrow>
     find_from n s p = Some (Inr (case find (pid_at (processes s) n) ps of None \<Rightarrow> 0 | Some r \<Rightarrow> r))"
proof (induction rule: plist.induct)
  case plist_Nil
  then show ?case by (simp add: find_from.simps)
next
  case (plist_Cons p q ps)
  then show ?case by (subst find_from.simps) (simp add: pid_at_def [abs_def])
qed

text \<open>What the unlinking leaves, behind the process \<open>par\<close>.\<close>

fun remove_first :: "('a \<Rightarrow> bool) \<Rightarrow> 'a list \<Rightarrow> 'a list" where
  "remove_first P [] = []"
| "remove_first P (x # xs) = (if P x then xs else x # remove_first P xs)"

lemma remove_from_plist:
  assumes "plist (processes s) p ps" "par \<noteq> 0" "processes s par = Some q" "pnext q = p" "par \<notin> set ps"
  shows "\<exists>m. remove_from n par p s = Some (Inr (s\<lparr>processes := m\<rparr>))
    \<and> plist m par (par # remove_first (pid_at (processes s) n) ps)
    \<and> (\<forall>r. map_option (\<lambda>x. x\<lparr>pnext := 0\<rparr>) (m r) = map_option (\<lambda>x. x\<lparr>pnext := 0\<rparr>) (processes s r))
    \<and> (\<forall>r. r \<notin> set (par # ps) \<longrightarrow> m r = processes s r)"
  using assms
proof (induction ps arbitrary: p par q rule: list.induct)
  case Nil
  then show ?case
    by (intro exI [of _ "processes s"]) (auto simp: remove_from.simps intro: plist.intros)
next
  case (Cons r ps)
  from Cons.prems(1) obtain q' where r: "r = p" "p \<noteq> 0" "processes s p = Some q'" "plist (processes s) (pnext q') ps"
    by (auto elim: plist_consE)
  have "r \<notin> set ps" using plist_distinct [OF Cons.prems(1)] by simp
  show ?case
  proof (cases "pid q' = n")
    case True
    define m where "m = (processes s)(par \<mapsto> q\<lparr>pnext := pnext q'\<rparr>)"
    have "remove_from n par p s = Some (Inr (s\<lparr>processes := m\<rparr>))"
      using r True Cons.prems(2,3)
      by (subst remove_from.simps) (simp add: set_link_def set_pnext_def process_at_def put_process_def m_def)
    moreover have "plist m par (par # ps)"
      using plist_upd [OF r(4)] Cons.prems(2,5) by (auto simp: m_def intro!: plist.plist_Cons)
    moreover have "map_option (\<lambda>x. x\<lparr>pnext := 0\<rparr>) (m r) = map_option (\<lambda>x. x\<lparr>pnext := 0\<rparr>) (processes s r)"
      "r \<noteq> par \<Longrightarrow> m r = processes s r" for r
      using Cons.prems(3) by (simp_all add: m_def)
    ultimately show ?thesis
      using True r(1,3) by (intro exI [of _ m]) (simp add: pid_at_def)
  next
    case False
    from Cons.IH [OF r(4) r(2) r(3) refl] \<open>r \<notin> set ps\<close> r(1) obtain m where
      m: "remove_from n p (pnext q') s = Some (Inr (s\<lparr>processes := m\<rparr>))"
        "plist m p (p # remove_first (pid_at (processes s) n) ps)"
        "\<forall>r. map_option (\<lambda>x. x\<lparr>pnext := 0\<rparr>) (m r) = map_option (\<lambda>x. x\<lparr>pnext := 0\<rparr>) (processes s r)"
        "\<forall>r. r \<notin> set (p # ps) \<longrightarrow> m r = processes s r"
      by blast
    have "m par = Some q" using m(4) Cons.prems(3,5) r(1) by auto
    then have "plist m par (par # p # remove_first (pid_at (processes s) n) ps)"
      using m(2) Cons.prems(2,4) by (auto intro!: plist.plist_Cons)
    moreover have "remove_from n par p s = Some (Inr (s\<lparr>processes := m\<rparr>))"
      using m(1) r False by (subst remove_from.simps) simp
    moreover have "\<not> pid_at (processes s) n p" using r False by (simp add: pid_at_def)
    ultimately show ?thesis using m(3,4) r(1) by (intro exI [of _ m]) simp
  qed
qed


lemma uprocess_remove_plist:
  assumes "plist (processes s) (process_list s) ps"
  shows "\<exists>m l. uprocess_remove n s = Inr (s\<lparr>processes := m, process_list := l\<rparr>)
    \<and> plist m l (remove_first (pid_at (processes s) n) ps)
    \<and> (\<forall>r. map_option (\<lambda>x. x\<lparr>pnext := 0\<rparr>) (m r) = map_option (\<lambda>x. x\<lparr>pnext := 0\<rparr>) (processes s r))"
proof (cases "process_list s = 0")
  case True
  then have "uprocess_remove n s = Inr s" by (simp add: uprocess_remove_def remove_from.simps)
  then show ?thesis using assms True by (intro exI [of _ "processes s"] exI [of _ 0]) simp
next
  case False
  then obtain q rs where q: "processes s (process_list s) = Some q" "ps = process_list s # rs" "plist (processes s) (pnext q) rs"
    using assms by (auto elim: plist.cases)
  have d: "process_list s \<notin> set rs" using plist_distinct [OF assms] q(2) by simp
  show ?thesis
  proof (cases "pid q = n")
    case True
    then have "uprocess_remove n s = Inr (s\<lparr>process_list := pnext q\<rparr>)"
      using False q(1) by (simp add: uprocess_remove_def remove_from.simps set_link_def)
    then show ?thesis using q True
      by (intro exI [of _ "processes s"] exI [of _ "pnext q"]) (simp add: pid_at_def)
  next
    case F: False
    from remove_from_plist [OF q(3) False q(1) refl d, of n] obtain m where
      m: "remove_from n (process_list s) (pnext q) s = Some (Inr (s\<lparr>processes := m\<rparr>))"
        "plist m (process_list s) (process_list s # remove_first (pid_at (processes s) n) rs)"
        "\<And>r. map_option (\<lambda>x. x\<lparr>pnext := 0\<rparr>) (m r) = map_option (\<lambda>x. x\<lparr>pnext := 0\<rparr>) (processes s r)"
      by blast
    have "uprocess_remove n s = Inr (s\<lparr>processes := m\<rparr>)"
      using m(1) False F q(1) by (simp add: uprocess_remove_def) (subst remove_from.simps, simp)
    then show ?thesis using m(2,3) q F
      by (intro exI [of _ m] exI [of _ "process_list s"]) (simp add: pid_at_def)
  qed
qed

lemma uprocess_find_plist:
  "plist (processes s) (process_list s) ps \<Longrightarrow>
     uprocess_find n s = Inr (case find (pid_at (processes s) n) ps of None \<Rightarrow> 0 | Some r \<Rightarrow> r)"
  by (simp add: uprocess_find_def find_from_plist)

lemma process_list_add_plist:
  assumes "plist (processes s) (process_list s) ps" "processes s p = Some q" "p \<noteq> 0" "p \<notin> set ps"
  shows "\<exists>s'. process_list_add p s = Inr s' \<and> plist (processes s') (process_list s') (p # ps)
    \<and> s' = s\<lparr>processes := (processes s)(p \<mapsto> q\<lparr>pnext := process_list s\<rparr>), process_list := p\<rparr>"
  using assms plist_upd [OF assms(1,4), of "q\<lparr>pnext := process_list s\<rparr>"]
  by (auto simp: process_list_add_def set_pnext_def process_at_def put_process_def intro!: plist.plist_Cons)


section \<open>Properties\<close>

text \<open>C27: the process list under creation, search and removal: a process added is found first under its
  number and precedes the others, a search returns the first process of the list with the number or NULL,
  and a removal unlinks exactly that process and changes no field but \<open>next\<close> of any process.\<close>

theorem process_list_refines:
  assumes "plist (processes s) (process_list s) ps" "processes s p = Some q" "p \<noteq> 0" "p \<notin> set ps"
  shows "\<exists>s'. process_list_add p s = Inr s' \<and> plist (processes s') (process_list s') (p # ps)
    \<and> uprocess_find n s' = Inr (if pid q = n then p
         else case find (\<lambda>r. \<exists>x. processes s' r = Some x \<and> pid x = n) ps of None \<Rightarrow> 0 | Some r \<Rightarrow> r)
    \<and> (\<exists>s''. uprocess_remove n s' = Inr s''
         \<and> plist (processes s'') (process_list s'')
             (remove_first (\<lambda>r. \<exists>x. processes s' r = Some x \<and> pid x = n) (p # ps))
         \<and> (\<forall>r. map_option (\<lambda>x. x\<lparr>pnext := 0\<rparr>) (processes s'' r) = map_option (\<lambda>x. x\<lparr>pnext := 0\<rparr>) (processes s' r))
         \<and> s'' = s'\<lparr>processes := processes s'', process_list := process_list s''\<rparr>)"
proof -
  obtain s' where s': "process_list_add p s = Inr s'" "plist (processes s') (process_list s') (p # ps)"
    "s' = s\<lparr>processes := (processes s)(p \<mapsto> q\<lparr>pnext := process_list s\<rparr>), process_list := p\<rparr>"
    using process_list_add_plist [OF assms] by blast
  have "pid_at (processes s') n p \<longleftrightarrow> pid q = n" by (simp add: s'(3) pid_at_def)
  then show ?thesis
    using s'(1,2) uprocess_find_plist [OF s'(2), of n] uprocess_remove_plist [OF s'(2), of n]
    by (auto simp: pid_at_def [abs_def])
qed


definition some_process :: "u32 \<Rightarrow> process" where
  "some_process n = \<lparr>pid = n, page_dir = 0x5000, pentry = 0x400000, pthread = 0x20, pstate = PROCESS_RUNNING, parent = 0,
     pnext = 0, exit_code = 0, fds = replicate MAX_FDS 0, heap_start = 0x500000, heap_end = 0x500000\<rparr>"

definition two_processes :: "unit ksys" where
  "two_processes = (small_sys THREAD_RUNNING)
     \<lparr>processes := (\<lambda>_. None)(0x200 \<mapsto> some_process 1, 0x100 \<mapsto> some_process 2), process_list := 0x200\<rparr>"

lemma process_list_refines_witness:
  "\<exists>s'. process_list_add 0x100 two_processes = Inr s' \<and> uprocess_find 2 s' = Inr 0x100
     \<and> (\<exists>s''. uprocess_remove 2 s' = Inr s'' \<and> plist (processes s'') (process_list s'') [0x200])"
proof -
  have p: "plist (processes two_processes) (process_list two_processes) [0x200]"
    by (simp add: two_processes_def plist_cons_iff some_process_def)
  have q: "processes two_processes 0x100 = Some (some_process 2)" by (simp add: two_processes_def)
  obtain s' where s': "process_list_add 0x100 two_processes = Inr s'" "uprocess_find 2 s' = Inr 0x100"
    and r: "\<exists>s''. uprocess_remove 2 s' = Inr s'' \<and> plist (processes s'') (process_list s'')
      (remove_first (\<lambda>r. \<exists>x. processes s' r = Some x \<and> pid x = 2) [0x100, 0x200])"
    using process_list_refines [OF p q, of 2] by (auto simp: some_process_def)
  have "processes s' 0x100 = Some (some_process 2\<lparr>pnext := 0x200\<rparr>)"
    using s'(1) by (auto simp: process_list_add_def set_pnext_def process_at_def put_process_def q)
      (simp add: two_processes_def)
  with s' r show ?thesis by (auto simp: some_process_def)
qed

end
