(* ===== verification/Uload.thy ===== *)
theory Uload
  imports Uprocess
begin

text \<open>
  The loader of \<open>src/userspace/uprocess.c\<close> at work: what a temporary window of the kernel's directory
  shows, what \<open>zero_phys\<close>, \<open>copy_to_phys\<close> and \<open>foreign_map_page\<close> do to physical memory and to the
  directory of the new program, and that the pages of a segment hold the file's bytes.
\<close>

section \<open>Pages of physical memory\<close>

lemma page_base_off:
  assumes "page_aligned t" "unat x < 4096"
  shows "page_base (t + x) = t" "(t + x) AND 0xfff = x"
    "pd_index (t + x) = pd_index t" "pt_index (t + x) = pt_index t"
proof -
  note d = page_add_div [OF assms]
  show "page_base (t + x) = t"
    using d(1) page_aligned_div [OF assms(1)] by (intro unat_inj_u32) (simp add: page_base_unat mult.commute)
  show "(t + x) AND 0xfff = x" by (intro unat_inj_u32) (simp add: page_off_unat d(2))
  have div: "unat x div 4194304 = unat x div 4096 div 1024" for x :: u32 by (simp add: div_mult2_eq [symmetric])
  show "pd_index (t + x) = pd_index t" by (intro unat_inj_u32) (simp add: pd_index_unat div d(1))
  show "pt_index (t + x) = pt_index t" by (intro unat_inj_u32) (simp add: pt_index_unat d(1))
qed

lemma load32_page:
  assumes "page_aligned t" "unat i < 1024" "\<And>a. page_base a = t \<Longrightarrow> p a = q a"
  shows "load32 p (t + 4 * i) = load32 q (t + 4 * i)"
proof -
  have "p (t + 4 * i + of_nat k) = q (t + 4 * i + of_nat k)" if "k < 4" for k
  proof -
    have "unat (4 * i + of_nat k) = 4 * unat i + k"
      using assms(2) that four_times_unat [OF assms(2)] by (subst unat_add_u32) auto
    then have "unat (4 * i + of_nat k) < 4096" using assms(2) that by simp
    from page_base_off(1) [OF assms(1) this] assms(3) show ?thesis by (simp add: add.assoc)
  qed
  from this [of 0] this [of 1] this [of 2] this [of 3] show ?thesis by (simp add: load32_def)
qed

text \<open>Machines that differ only in the frames of \<open>F\<close>, in the allocator and in the page of the directory, whose
  entries agree.\<close>

definition same_but :: "u32 set \<Rightarrow> vm \<Rightarrow> vm \<Rightarrow> bool" where
  "same_but F m m' \<longleftrightarrow> cr3 m' = cr3 m \<and> (\<forall>j. unat j < 1024 \<longrightarrow> pde m' j = pde m j)
     \<and> (\<forall>a. page_base a \<notin> F \<longrightarrow> page_base a \<noteq> cr3 m \<longrightarrow> pmem m' a = pmem m a)"

lemma same_but_refl [simp]: "same_but F m m"
  by (simp add: same_but_def)

lemma same_but_trans: "same_but F m m1 \<Longrightarrow> same_but G m1 m2 \<Longrightarrow> F \<subseteq> H \<Longrightarrow> G \<subseteq> H \<Longrightarrow> same_but H m m2"
  unfolding same_but_def by (simp, metis subsetD)

lemma same_but_mono: "same_but F m m' \<Longrightarrow> F \<subseteq> H \<Longrightarrow> same_but H m m'"
  by (auto simp: same_but_def)

lemma same_but_pte:
  assumes "same_but F m m'" "page_aligned t" "t \<notin> F" "unat i < 1024"
  shows "pte m' t i = pte m t i"
proof (cases "t = cr3 m")
  case True
  then show ?thesis using assms(1,4) by (simp add: same_but_def flip: pde_pte) (metis pde_pte)
next
  case False
  then show ?thesis unfolding pte_def
    using assms by (intro load32_page) (auto simp: same_but_def)
qed

lemma same_but_data_frame: "same_but F m m' \<Longrightarrow> data_frame m' f = data_frame m f"
  by (simp add: same_but_def data_frame_def)

lemma same_but_inv: "same_but F m m' \<Longrightarrow> frames m' = frames m \<Longrightarrow> paging_inv m \<Longrightarrow> paging_inv m'"
  by (auto simp: same_but_def paging_inv_def RECURSIVE_SLOT_def)

lemma same_but_frames: "same_but F m m' \<Longrightarrow> same_but F m (m'\<lparr>frames := p\<rparr>)"
  by (simp add: same_but_def)

text \<open>Frames of the tables in use are outside \<open>F\<close> when \<open>F\<close> holds data frames: then no translation of the
  current directory changes.\<close>

lemma same_but_translate:
  assumes "same_but F m m'" "pd_index v \<noteq> RECURSIVE_SLOT" "\<And>f. f \<in> F \<Longrightarrow> data_frame m f"
  shows "translate m' v = translate m v"
proof (rule translate_cong)
  show "pde m' (pd_index v) = pde m (pd_index v)" using assms(1) by (simp add: same_but_def)
  assume p: "pde m (pd_index v) AND PAGE_PRESENT \<noteq> 0"
  have "page_base (pde m (pd_index v)) \<notin> F"
    using assms(3) p below_slot [OF pd_index_bound assms(2)] by (auto simp: data_frame_def)
  then show "pte m' (page_base (pde m (pd_index v))) (pt_index v) = pte m (page_base (pde m (pd_index v))) (pt_index v)"
    by (intro same_but_pte [OF assms(1)]) simp_all
qed

section \<open>A window of the directory\<close>

definition window :: "u32 \<Rightarrow> bool" where
  "window slot \<longleftrightarrow> unat slot < 1023"

lemma windows [simp]: "window TEMP_PD_SLOT" "window TEMP_FRAME_SLOT" "window TEMP_PT_SLOT"
  by (simp_all add: window_def TEMP_PD_SLOT_def TEMP_FRAME_SLOT_def TEMP_PT_SLOT_def)

text \<open>A frame that may be shown: in use, and no part of the current page tables.\<close>

definition shown :: "vm \<Rightarrow> u32 \<Rightarrow> bool" where
  "shown m f \<longleftrightarrow> data_frame m f \<and> f \<notin> free_frames (frames m)"

definition opened :: "u32 \<Rightarrow> u32 \<Rightarrow> vm \<Rightarrow> vm" where
  "opened slot f m = set_entry (cr3 m) slot (f OR dir_flags 0) m"

definition closed :: "u32 \<Rightarrow> vm \<Rightarrow> vm" where
  "closed slot m = set_entry (cr3 m) slot 0 m"

lemma temp_map_ok:
  assumes "paging_inv m" "page_aligned f" "f \<noteq> cr3 m" "f \<notin> free_frames (frames m)" "window slot"
  shows "temp_map slot f m = Inr (opened slot f m)" "paging_inv (opened slot f m)"
    "unat j < 1024 \<Longrightarrow> pde (opened slot f m) j = (if j = slot then f OR dir_flags 0 else pde m j)"
    "cr3 (opened slot f m) = cr3 m" "frames (opened slot f m) = frames m"
proof -
  have s: "unat slot < 1023" using assms(5) by (simp add: window_def)
  have e: "f OR PAGE_PRESENT OR PAGE_RW = f OR dir_flags 0"
    by (simp add: dir_flags_def PAGE_PRESENT_def PAGE_RW_def)
  show "temp_map slot f m = Inr (opened slot f m)"
    using vstore32_dir [OF assms(1), of slot] s by (simp add: temp_map_def e opened_def)
  have "page_base (f OR dir_flags 0) = f" using assms(2) by simp
  note P = paging_inv_set_pde [OF assms(1) s, of "f OR dir_flags 0"]
  show "paging_inv (opened slot f m)" unfolding opened_def using assms by (intro P(1)) simp
  show "pde (opened slot f m) j = (if j = slot then f OR dir_flags 0 else pde m j)" if "unat j < 1024"
    unfolding opened_def using assms that by (intro P(2)) simp_all
qed (simp_all add: opened_def)

lemma temp_unmap_ok:
  assumes "paging_inv m" "window slot"
  shows "temp_unmap slot m = Inr (closed slot m)" "paging_inv (closed slot m)"
    "unat j < 1024 \<Longrightarrow> pde (closed slot m) j = (if j = slot then 0 else pde m j)"
    "cr3 (closed slot m) = cr3 m" "frames (closed slot m) = frames m"
proof -
  have s: "unat slot < 1023" using assms(2) by (simp add: window_def)
  show "temp_unmap slot m = Inr (closed slot m)"
    using vstore32_dir [OF assms(1), of slot 0] s by (simp add: temp_unmap_def closed_def)
  note P = paging_inv_set_pde [OF assms(1) s, of 0]
  show "paging_inv (closed slot m)" unfolding closed_def by (intro P(1)) simp
  show "pde (closed slot m) j = (if j = slot then 0 else pde m j)" if "unat j < 1024"
    unfolding closed_def using that by (intro P(2)) simp_all
qed (simp_all add: closed_def)

lemma set_entry_other:
  assumes "page_aligned t" "unat i < 1024" "page_base a \<noteq> t"
  shows "pmem (set_entry t i x m) a = pmem m a"
proof -
  have "a \<noteq> t + 4 * i + of_nat k" if "k < 4" for k
  proof
    assume a: "a = t + 4 * i + of_nat k"
    have "unat (4 * i + of_nat k) = 4 * unat i + k"
      using assms(2) that four_times_unat [OF assms(2)] by (subst unat_add_u32) auto
    then have "unat (4 * i + of_nat k) < 4096" using assms(2) that by simp
    from page_base_off(1) [OF assms(1) this] a assms(3) show False by (simp add: add.assoc)
  qed
  from this [of 0] this [of 1] this [of 2] this [of 3] show ?thesis by (simp add: set_entry_def store32_def)
qed

lemma window_mem:
  assumes "paging_inv m" "window slot" "page_base a \<noteq> cr3 m"
  shows "pmem (opened slot f m) a = pmem m a" "pmem (closed slot m) a = pmem m a"
  using assms by (auto simp: opened_def closed_def window_def paging_inv_def intro!: set_entry_other)

text \<open>What an address in the window means.\<close>

lemma window_translate:
  assumes "paging_inv m" "window slot" "page_aligned f" "pde m slot = f OR dir_flags 0" "unat x < 4096"
  shows "translate m (RECURSIVE_BASE + slot * 0x1000 + x) = Some (f + x)"
proof -
  define w where "w = RECURSIVE_BASE + slot * 0x1000"
  have s: "unat slot < 1024" using assms(2) by (simp add: window_def)
  have t: "translate m w = Some f"
    using translate_recursive [OF assms(1) s, of 0] assms(3,4) by (simp add: w_def)
  have "w AND 0xfff = 0" using recursive_indices(3) [OF s, of 0] by (simp add: w_def)
  then have al: "page_aligned w" using page_aligned_iff by simp
  note o = page_base_off [OF al assms(5)]
  have "translate m (w + x) = Some (f + x)"
    using t \<open>w AND 0xfff = 0\<close> by (auto simp: translate_def Let_def o split: if_splits)
  then show ?thesis by (simp add: w_def)
qed


section \<open>Bytes through the window\<close>

definition patch :: "mem \<Rightarrow> u32 \<Rightarrow> u8 list \<Rightarrow> mem" where
  "patch p a bs = (\<lambda>x. if unat (x - a) < length bs then bs ! unat (x - a) else p x)"

lemma patch_Nil [simp]: "patch p a [] = p"
  by (simp add: patch_def)

lemma patch_Cons:
  assumes "length bs < 4294967295"
  shows "patch (p(a := b)) (a + 1) bs = patch p a (b # bs)"
proof
  fix x
  show "patch (p(a := b)) (a + 1) bs x = patch p a (b # bs) x"
  proof (cases "x = a")
    case True
    then have "unat (x - (a + 1)) = 4294967295" using unat_minus_one_u32 by simp
    then show ?thesis using True assms by (simp add: patch_def)
  next
    case False
    from offset_step_u32 [OF this] show ?thesis using False by (simp add: patch_def)
  qed
qed

lemma in_page:
  assumes "page_aligned f" "unat o1 + n \<le> 4096" "unat (a - (f + o1)) < n"
  shows "page_base a = f"
proof -
  have "unat (o1 + (a - (f + o1))) = unat o1 + unat (a - (f + o1))"
    using assms(2,3) by (intro unat_add_u32) linarith
  then have "unat (o1 + (a - (f + o1))) < 4096" using assms(2,3) by linarith
  from page_base_off(1) [OF assms(1) this] show ?thesis by simp
qed

lemma same_but_patch:
  assumes "page_aligned f" "f \<noteq> cr3 m" "page_aligned (cr3 m)" "unat x + length bs \<le> 4096"
  shows "same_but {f} m (m\<lparr>pmem := patch (pmem m) (f + x) bs\<rparr>)"
proof -
  have out: "patch (pmem m) (f + x) bs a = pmem m a" if "page_base a \<noteq> f" for a
    using that in_page [OF assms(1,4), of a] by (auto simp: patch_def)
  have "pde (m\<lparr>pmem := patch (pmem m) (f + x) bs\<rparr>) j = pde m j" if "unat j < 1024" for j
    unfolding pde_def using assms(2,3) that out by (auto intro!: load32_page)
  then show ?thesis using out by (simp add: same_but_def)
qed

lemma window_write:
  assumes "paging_inv m" "window slot" "page_aligned f" "f \<noteq> cr3 m" "pde m slot = f OR dir_flags 0"
    and "unat x + length bs \<le> 4096"
  shows "vwrite bs (RECURSIVE_BASE + slot * 0x1000 + x) m = Inr (m\<lparr>pmem := patch (pmem m) (f + x) bs\<rparr>)"
  using assms
proof (induction bs arbitrary: m x)
  case (Cons b bs)
  let ?m = "m\<lparr>pmem := (pmem m)(f + x := b)\<rparr>"
  have x: "unat x < 4096" "unat (x + 1) = Suc (unat x)" using Cons.prems(6) by (auto simp: unat_add_u32)
  have st: "vstore8 (RECURSIVE_BASE + slot * 0x1000 + x) b m = Inr ?m"
    using window_translate [OF Cons.prems(1,2,3,5) x(1)] by (simp add: vstore8_def)
  have "patch (pmem m) (f + x) [b] = (pmem m)(f + x := b)"
    using patch_Cons [of "[]" "pmem m" "f + x" b] by simp
  then have sb: "same_but {f} m ?m"
    using same_but_patch [OF Cons.prems(3,4), of x "[b]"] Cons.prems(1,6) by (simp add: paging_inv_def)
  have inv: "paging_inv ?m" by (rule same_but_inv [OF sb _ Cons.prems(1)]) simp
  have "pde ?m slot = f OR dir_flags 0" using sb Cons.prems(2,5) by (simp add: same_but_def window_def)
  then have "vwrite bs (RECURSIVE_BASE + slot * 0x1000 + (x + 1)) ?m = Inr (?m\<lparr>pmem := patch (pmem ?m) (f + (x + 1)) bs\<rparr>)"
    using Cons.prems x by (intro Cons.IH [OF inv]) simp_all
  moreover have "patch ((pmem m)(f + x := b)) (f + x + 1) bs = patch (pmem m) (f + x) (b # bs)"
    using Cons.prems(6) by (intro patch_Cons) simp
  ultimately show ?case using st by (simp add: add.assoc)
qed simp

text \<open>Open, write, close: the temporary slot was empty before and is so after.\<close>

lemma write_to_frame:
  assumes "paging_inv m" "shown m f" "window slot" "pde m slot = 0" "unat x + length bs \<le> 4096"
  defines "m1 \<equiv> opened slot f m"
  defines "m2 \<equiv> closed slot (m1\<lparr>pmem := patch (pmem m1) (f + x) bs\<rparr>)"
  shows "bind_res (temp_map slot f m) (\<lambda>m. bind_res (vwrite bs (RECURSIVE_BASE + slot * 0x1000 + x) m) (temp_unmap slot)) = Inr m2"
    and "paging_inv m2" "frames m2 = frames m" "same_but {f} m m2"
    and "page_base a = f \<Longrightarrow> pmem m2 a = patch (pmem m) (f + x) bs a"
proof -
  have f: "page_aligned f" "f \<noteq> cr3 m" "f \<notin> free_frames (frames m)"
    using assms(2) by (simp_all add: shown_def data_frame_def)
  note O = temp_map_ok [OF assms(1) f assms(3), folded m1_def]
  have slot: "unat slot < 1024" using assms(3) by (simp add: window_def)
  let ?w = "m1\<lparr>pmem := patch (pmem m1) (f + x) bs\<rparr>"
  have W: "vwrite bs (RECURSIVE_BASE + slot * 0x1000 + x) m1 = Inr ?w"
    using O(2-4) slot f assms(5) by (intro window_write assms(3)) simp_all
  have sb: "same_but {f} m1 ?w"
    using O(2,4) f assms(5) by (intro same_but_patch) (simp_all add: paging_inv_def)
  have invw: "paging_inv ?w" by (rule same_but_inv [OF sb _ O(2)]) simp
  note C = temp_unmap_ok [OF invw assms(3), folded m2_def]
  show "bind_res (temp_map slot f m) (\<lambda>m. bind_res (vwrite bs (RECURSIVE_BASE + slot * 0x1000 + x) m) (temp_unmap slot)) = Inr m2"
    using O(1) W C(1) by simp
  show "paging_inv m2" by (rule C(2))
  show "frames m2 = frames m" using C(5) O(5) by simp
  have mem: "pmem m2 a = patch (pmem m1) (f + x) bs a" if "page_base a \<noteq> cr3 m" for a
    using window_mem(2) [OF invw assms(3), of a] that O(4) by (simp add: m2_def)
  have mem1: "pmem m1 a = pmem m a" if "page_base a \<noteq> cr3 m" for a
    using window_mem(1) [OF assms(1,3) that] by (simp add: m1_def)
  show "pmem m2 a = patch (pmem m) (f + x) bs a" if "page_base a = f"
    using mem [of a] mem1 [of a] f(2) that by (simp add: patch_def)
  show "same_but {f} m m2"
    unfolding same_but_def
  proof (intro conjI allI impI)
    show "cr3 m2 = cr3 m" using C(4) O(4) by simp
    show "pde m2 j = pde m j" if j: "unat j < 1024" for j
      using C(3) [OF j] O(3) [OF j] sb j assms(4) by (simp add: same_but_def)
    show "pmem m2 a = pmem m a" if "page_base a \<notin> {f}" "page_base a \<noteq> cr3 m" for a
      using mem [of a] mem1 [of a] sb that O(4) by (simp add: same_but_def)
  qed
qed


section \<open>Entries through the window\<close>

lemma window_entry:
  assumes "paging_inv m" "window slot" "page_aligned f" "pde m slot = f OR dir_flags 0" "unat j < 1024"
  shows "vload32 (RECURSIVE_BASE + slot * 0x1000 + 4 * j) m = Inr (pte m f j)"
    "vstore32 (RECURSIVE_BASE + slot * 0x1000 + 4 * j) x m = Inr (set_entry f j x m)"
  using window_translate [OF assms(1-4) entry_off [OF assms(5)]]
  by (simp_all add: vload32_def vstore32_def pte_def set_entry_def)

lemma window_clear:
  assumes "paging_inv m" "window slot" "page_aligned f" "pde m slot = f OR dir_flags 0"
  shows "vmemset_page (RECURSIVE_BASE + slot * 0x1000) 0 m = Inr (zero_page f m)"
  using window_translate [OF assms, of 0] by (simp add: vmemset_page_def zero_page_def)

lemma zero_page_other:
  assumes "page_aligned t" "page_base a \<noteq> t"
  shows "pmem (zero_page t m) a = pmem m a"
proof -
  have "\<not> unat (a - (t + 0)) < 4096" using in_page [OF assms(1), of 0 4096 a] assms(2) by auto
  then show ?thesis by (simp add: zero_page_def memset_at PAGE_SIZE_def)
qed

lemma same_but_entry:
  assumes "page_aligned t" "t \<noteq> cr3 m" "unat i < 1024" "paging_inv m"
  shows "same_but {t} m (set_entry t i x m)" "same_but {t} m (zero_page t m)"
    "paging_inv (set_entry t i x m)" "paging_inv (zero_page t m)"
  using paging_inv_set_pte [OF assms(4,1,2,3)] paging_inv_zero_page [OF assms(4,1,2)] assms
  by (simp_all add: same_but_def set_entry_other zero_page_other)

lemma opened_pte:
  assumes "paging_inv m" "window slot" "page_aligned t" "t \<noteq> cr3 m" "unat j < 1024"
  shows "pte (opened slot f m) t j = pte m t j" "pte (closed slot m) t j = pte m t j"
  using assms by (simp_all add: opened_def closed_def pte_set_entry paging_inv_def window_def)

text \<open>The directory of a program, seen from the kernel: the entry of a page, 0 without a table.\<close>

definition user_entry :: "vm \<Rightarrow> u32 \<Rightarrow> u32 \<Rightarrow> u32 \<Rightarrow> u32" where
  "user_entry m pd i j =
     (let d = pte m pd i in if d AND PAGE_PRESENT = 0 then 0 else pte m (page_base d) j)"

definition user_tables :: "vm \<Rightarrow> u32 \<Rightarrow> u32 set" where
  "user_tables m pd = {page_base (pte m pd i) | i. unat i < 768 \<and> pte m pd i AND PAGE_PRESENT \<noteq> 0}"

definition temps_clear :: "vm \<Rightarrow> bool" where
  "temps_clear m \<longleftrightarrow> pde m TEMP_PD_SLOT = 0 \<and> pde m TEMP_FRAME_SLOT = 0 \<and> pde m TEMP_PT_SLOT = 0"

definition dir_ok :: "vm \<Rightarrow> u32 \<Rightarrow> bool" where
  "dir_ok m pd \<longleftrightarrow> paging_inv m \<and> shown m pd \<and> temps_clear m
     \<and> (\<forall>t \<in> user_tables m pd. shown m t \<and> t \<noteq> pd)
     \<and> (\<forall>i j. unat i < 768 \<longrightarrow> unat j < 768 \<longrightarrow> i \<noteq> j \<longrightarrow> pte m pd i AND PAGE_PRESENT \<noteq> 0 \<longrightarrow> pte m pd j AND PAGE_PRESENT \<noteq> 0
          \<longrightarrow> page_base (pte m pd i) \<noteq> page_base (pte m pd j))
     \<and> (\<forall>i j. unat i < 768 \<longrightarrow> unat j < 1024 \<longrightarrow> user_entry m pd i j AND PAGE_PRESENT \<noteq> 0
          \<longrightarrow> shown m (page_base (user_entry m pd i j)) \<and> page_base (user_entry m pd i j) \<notin> insert pd (user_tables m pd))"

text \<open>What the program's own walk finds.\<close>

lemma user_translate:
  "translate (m\<lparr>cr3 := pd\<rparr>) v = (let e = user_entry m pd (pd_index v) (pt_index v)
     in if e AND PAGE_PRESENT = 0 then None else Some (page_base e + (v AND 0xfff)))"
  by (simp add: translate_def user_entry_def Let_def pde_def pte_def)

section \<open>foreign_map_page\<close>

lemma slots_apart [simp]: "TEMP_PD_SLOT \<noteq> TEMP_PT_SLOT" "TEMP_PT_SLOT \<noteq> TEMP_PD_SLOT"
  "TEMP_FRAME_SLOT \<noteq> TEMP_PT_SLOT" "TEMP_FRAME_SLOT \<noteq> TEMP_PD_SLOT"
  by (simp_all add: TEMP_PD_SLOT_def TEMP_PT_SLOT_def TEMP_FRAME_SLOT_def)

lemma slots_small [simp]: "unat TEMP_PD_SLOT < 1024" "unat TEMP_PT_SLOT < 1024" "unat TEMP_FRAME_SLOT < 1024"
  by (simp_all add: TEMP_PD_SLOT_def TEMP_PT_SLOT_def TEMP_FRAME_SLOT_def)

text \<open>The first half: the directory is open in its window, and the table of the page is made when missing.\<close>

definition need_table :: "u32 \<Rightarrow> u32 \<Rightarrow> vm \<Rightarrow> vm res" where
  "need_table pdi flags s =
     bind_res (vload32 (TEMP_PD_VIRT + 4 * pdi) s) (\<lambda>d.
        if d AND PAGE_PRESENT = 0
         then bind_res (alloc_frame s) (\<lambda>(pt_phys, s).
              let pd_flags = PAGE_PRESENT OR PAGE_RW;
                  pd_flags = (if flags AND PAGE_USER \<noteq> 0 then pd_flags OR PAGE_USER else pd_flags) in
              bind_res (vstore32 (TEMP_PD_VIRT + 4 * pdi) (pt_phys OR pd_flags) s) (\<lambda>s.
              bind_res (temp_map TEMP_PT_SLOT pt_phys s) (\<lambda>s.
              bind_res (vmemset_page TEMP_PT_VIRT 0 s)
                (temp_unmap TEMP_PT_SLOT))))
         else Inr s)"

definition enter_page :: "u32 \<Rightarrow> u32 \<Rightarrow> u32 \<Rightarrow> u32 \<Rightarrow> vm \<Rightarrow> vm res" where
  "enter_page pdi pti phys flags s =
      bind_res (vload32 (TEMP_PD_VIRT + 4 * pdi) s) (\<lambda>d.
      let pt_phys = d AND NOT 0xfff in
      bind_res (temp_map TEMP_PT_SLOT pt_phys s) (\<lambda>s.
      bind_res (vstore32 (TEMP_PT_VIRT + 4 * pti) ((phys AND NOT 0xfff) OR (flags AND 0xfff) OR PAGE_PRESENT) s) (\<lambda>s.
      bind_res (temp_unmap TEMP_PD_SLOT s)
        (temp_unmap TEMP_PT_SLOT))))"

lemma bind_res_assoc: "bind_res (bind_res r f) g = bind_res r (\<lambda>x. bind_res (f x) g)"
  by (cases r) simp_all

lemma foreign_map_page_halves:
  "foreign_map_page pd phys virt flags s =
     bind_res (temp_map TEMP_PD_SLOT pd s) (\<lambda>s.
     bind_res (need_table (pd_index virt) flags s) (enter_page (pd_index virt) (pt_index virt) phys flags))"
  by (simp add: foreign_map_page_def need_table_def enter_page_def [abs_def] pd_index_def pt_index_def Let_def bind_res_assoc)


lemma need_table_ok:
  assumes inv: "paging_inv m" and pd: "page_aligned pd" "pd \<noteq> cr3 m" "pde m TEMP_PD_SLOT = pd OR dir_flags 0"
    and clear: "pde m TEMP_PT_SLOT = 0" and i: "unat i < 1024"
  shows "need_table i flags m = Inl oom \<or> (\<exists>m' F. need_table i flags m = Inr m' \<and> paging_inv m'
    \<and> same_but (insert pd F) m m' \<and> free_frames (frames m') \<subseteq> free_frames (frames m) - F \<and> F \<subseteq> free_frames (frames m)
    \<and> (F = {} \<and> pte m pd i AND PAGE_PRESENT \<noteq> 0 \<and> m' = m
       \<or> (\<exists>f. F = {f} \<and> pte m pd i AND PAGE_PRESENT = 0 \<and> page_aligned f \<and> f \<noteq> cr3 m \<and> f \<noteq> pd
            \<and> (\<forall>t j. page_aligned t \<longrightarrow> t \<noteq> cr3 m \<longrightarrow> unat j < 1024 \<longrightarrow>
                 pte m' t j = (if t = f then 0 else if t = pd \<and> j = i then f OR dir_flags flags else pte m t j)))))"
proof -
  have ld: "vload32 (TEMP_PD_VIRT + 4 * i) m = Inr (pte m pd i)"
    unfolding TEMP_PD_VIRT_def using pd i by (intro window_entry inv windows) simp_all
  show ?thesis
  proof (cases "pte m pd i AND PAGE_PRESENT = 0")
    case False
    then show ?thesis by (intro disjI2 exI [of _ m] exI [of _ "{}"]) (simp add: need_table_def ld inv)
  next
    case True
    show ?thesis
    proof (cases "alloc_frame m")
      case (Inl e)
      then show ?thesis using alloc_frame_Inl [OF Inl] True by (simp add: need_table_def ld)
    next
      case (Inr r)
      obtain f m2 where a: "alloc_frame m = Inr (f, m2)" using Inr by (cases r) simp
      note A = paging_inv_alloc [OF inv a]
      have pdb: "page_base (pde m TEMP_PD_SLOT) = pd" "pde m TEMP_PD_SLOT AND PAGE_PRESENT \<noteq> 0"
        using pd(1,3) by simp_all
      have "unat TEMP_PD_SLOT < 1023" by (simp add: TEMP_PD_SLOT_def)
      with A pdb have fpd: "f \<noteq> pd" by metis
      have m2: "cr3 m2 = cr3 m" "pmem m2 = pmem m" using A by (metis vm.select_convs vm.surjective vm.update_convs(3))+
      then have p2: "pte m2 t j = pte m t j" "pde m2 j = pde m j" for t j by (simp_all add: pte_def pde_def)
      have sb2: "same_but {} m m2" by (simp add: same_but_def m2 p2)
      let ?x = "f OR dir_flags flags"
      define m3 where "m3 = set_entry pd i ?x m2"
      have pd2: "pd \<noteq> cr3 m2" "paging_inv m2" using pd(2) m2 A by simp_all
      have st: "vstore32 (TEMP_PD_VIRT + 4 * i) ?x m2 = Inr m3"
        unfolding TEMP_PD_VIRT_def m3_def using pd i A p2 by (intro window_entry windows) simp_all
      note E3 = same_but_entry(1,3) [OF pd(1) pd2(1) i pd2(2), where x = ?x, folded m3_def]
      have sb3: "same_but {pd} m m3" by (rule same_but_trans [OF sb2 E3(1)]) simp_all
      have fr3: "frames m3 = frames m2" by (simp add: m3_def)
      have f3: "page_aligned f" "f \<noteq> cr3 m3" "f \<notin> free_frames (frames m3)" using A fr3 sb3 by (simp_all add: same_but_def)
      define m4 where "m4 = opened TEMP_PT_SLOT f m3"
      note O = temp_map_ok [OF E3(2) f3 windows(3), folded m4_def]
      define m5 where "m5 = zero_page f m4"
      have f4: "f \<noteq> cr3 m4" using f3(2) O(4) by simp
      have z: "vmemset_page TEMP_PT_VIRT 0 m4 = Inr m5"
        unfolding TEMP_PT_VIRT_def m5_def using O(3) [OF slots_small(2)] by (intro window_clear O(2) f3(1) windows) simp
      note E5 = same_but_entry(2,4) [OF f3(1) f4 slots_small(1) O(2), folded m5_def]
      define m6 where "m6 = closed TEMP_PT_SLOT m5"
      note C = temp_unmap_ok [OF E5(2) windows(3), folded m6_def]
      have fl: "(if flags AND PAGE_USER \<noteq> 0 then PAGE_PRESENT OR PAGE_RW OR PAGE_USER else PAGE_PRESENT OR PAGE_RW) = dir_flags flags"
        by (simp add: dir_flags_def PAGE_PRESENT_def PAGE_RW_def PAGE_USER_def)
      have run: "need_table i flags m = Inr m6"
        using True a st O(1) z C(1)
        by (simp add: need_table_def ld Let_def fl [unfolded or.assoc [symmetric]] or.assoc [symmetric])
      have cr: "cr3 m6 = cr3 m" "cr3 m5 = cr3 m" "cr3 m4 = cr3 m" "cr3 m3 = cr3 m"
        using C(4) O(4) sb3 by (simp_all add: same_but_def m5_def)
      have pte6: "pte m6 t j = (if t = f then 0 else if t = pd \<and> j = i then ?x else pte m t j)"
        if t: "page_aligned t" "t \<noteq> cr3 m" "unat j < 1024" for t j
      proof -
        have "pte m6 t j = pte m5 t j" unfolding m6_def using t cr by (intro opened_pte E5(2) windows) simp_all
        also have "\<dots> = (if t = f then 0 else pte m4 t j)"
          unfolding m5_def by (rule pte_zero_page [OF f3(1) t(1,3)])
        also have "pte m4 t j = pte m3 t j" unfolding m4_def using t cr by (intro opened_pte E3(2) windows) simp_all
        also have "pte m3 t j = (if t = pd \<and> j = i then ?x else pte m t j)"
          unfolding m3_def using pte_set_entry [OF pd(1) t(1) i t(3), of ?x m2] p2 by simp
        finally show ?thesis .
      qed
      have sb: "same_but (insert pd {f}) m m6"
        unfolding same_but_def
      proof (intro conjI allI impI)
        show "cr3 m6 = cr3 m" by (rule cr(1))
        show "pde m6 j = pde m j" if j: "unat j < 1024" for j
          using C(3) [OF j] E5(1) O(3) [OF j] sb3 j clear by (simp add: same_but_def)
        show "pmem m6 a = pmem m a" if ab: "page_base a \<notin> insert pd {f}" "page_base a \<noteq> cr3 m" for a
        proof -
          have "pmem m6 a = pmem m5 a" unfolding m6_def using ab cr by (intro window_mem E5(2) windows) simp_all
          also have "\<dots> = pmem m4 a" using E5(1) ab cr by (simp add: same_but_def)
          also have "\<dots> = pmem m3 a" unfolding m4_def using ab cr by (intro window_mem E3(2) windows) simp_all
          also have "\<dots> = pmem m a" using sb3 ab by (simp add: same_but_def)
          finally show ?thesis .
        qed
      qed
      have "frames m6 = frames m2" using C(5) O(5) fr3 by (simp add: m5_def)
      then have "free_frames (frames m6) \<subseteq> free_frames (frames m) - {f}" "{f} \<subseteq> free_frames (frames m)" using A by auto
      then show ?thesis using run C(2) sb A fpd pte6 True
        by (intro disjI2 exI [of _ m6] exI [of _ "{f}"]) simp
    qed
  qed
qed


lemma enter_page_ok:
  assumes inv: "paging_inv m" and pd: "page_aligned pd" "pd \<noteq> cr3 m" "pde m TEMP_PD_SLOT = pd OR dir_flags 0"
    and clear: "pde m TEMP_PT_SLOT = 0" and i: "unat i < 1024" and j: "unat j < 1024"
    and T: "T = page_base (pte m pd i)" "T \<noteq> cr3 m" "T \<notin> free_frames (frames m)"
  shows "\<exists>m'. enter_page i j phys flags m = Inr m' \<and> paging_inv m' \<and> frames m' = frames m \<and> cr3 m' = cr3 m
    \<and> (\<forall>k. unat k < 1024 \<longrightarrow> pde m' k = (if k = TEMP_PD_SLOT then 0 else pde m k))
    \<and> (\<forall>a. page_base a \<noteq> T \<longrightarrow> page_base a \<noteq> cr3 m \<longrightarrow> pmem m' a = pmem m a)
    \<and> (\<forall>t k. page_aligned t \<longrightarrow> t \<noteq> cr3 m \<longrightarrow> unat k < 1024 \<longrightarrow>
          pte m' t k = (if t = T \<and> k = j then map_entry phys flags else pte m t k))"
proof -
  have ld: "vload32 (TEMP_PD_VIRT + 4 * i) m = Inr (pte m pd i)"
    unfolding TEMP_PD_VIRT_def using pd i by (intro window_entry inv windows) simp_all
  have Ta: "page_aligned T" by (simp add: T(1))
  define m1 where "m1 = opened TEMP_PT_SLOT T m"
  note O = temp_map_ok [OF inv Ta T(2,3) windows(3), folded m1_def]
  let ?e = "map_entry phys flags"
  define m2 where "m2 = set_entry T j ?e m1"
  have st: "vstore32 (TEMP_PT_VIRT + 4 * j) ?e m1 = Inr m2"
    unfolding TEMP_PT_VIRT_def m2_def using O(3) [OF slots_small(2)] j by (intro window_entry O(2) Ta windows) simp_all
  have T1: "T \<noteq> cr3 m1" using T(2) O(4) by simp
  note E = same_but_entry(1,3) [OF Ta T1 j O(2), where x = ?e, folded m2_def]
  define m3 where "m3 = closed TEMP_PD_SLOT m2"
  note C3 = temp_unmap_ok [OF E(2) windows(1), folded m3_def]
  define m4 where "m4 = closed TEMP_PT_SLOT m3"
  note C4 = temp_unmap_ok [OF C3(2) windows(3), folded m4_def]
  have run: "enter_page i j phys flags m = Inr m4"
    using O(1) st C3(1) C4(1) by (simp add: enter_page_def ld Let_def T(1) page_base_def map_entry_def)
  have cr: "cr3 m1 = cr3 m" "cr3 m2 = cr3 m" "cr3 m3 = cr3 m" "cr3 m4 = cr3 m"
    using O(4) C3(4) C4(4) by (simp_all add: m2_def)
  have pd4: "pde m4 k = (if k = TEMP_PD_SLOT then 0 else pde m k)" if k: "unat k < 1024" for k
    using C4(3) [OF k] C3(3) [OF k] E(1) O(3) [OF k] k clear by (auto simp: same_but_def)
  have mem: "pmem m4 a = pmem m a" if a: "page_base a \<noteq> T" "page_base a \<noteq> cr3 m" for a
  proof -
    have "pmem m4 a = pmem m3 a" unfolding m4_def using a cr by (intro window_mem C3(2) windows) simp_all
    also have "\<dots> = pmem m2 a" unfolding m3_def using a cr by (intro window_mem E(2) windows) simp_all
    also have "\<dots> = pmem m1 a" using E(1) a cr by (simp add: same_but_def)
    also have "\<dots> = pmem m a" unfolding m1_def using a by (intro window_mem inv windows) simp_all
    finally show ?thesis .
  qed
  have pte4: "pte m4 t k = (if t = T \<and> k = j then ?e else pte m t k)"
    if t: "page_aligned t" "t \<noteq> cr3 m" "unat k < 1024" for t k
  proof -
    have "pte m4 t k = pte m3 t k" unfolding m4_def using t cr by (intro opened_pte C3(2) windows) simp_all
    also have "\<dots> = pte m2 t k" unfolding m3_def using t cr by (intro opened_pte E(2) windows) simp_all
    also have "\<dots> = (if t = T \<and> k = j then ?e else pte m1 t k)" unfolding m2_def by (rule pte_set_entry [OF Ta t(1) j t(3)])
    also have "pte m1 t k = pte m t k" unfolding m1_def using t by (intro opened_pte inv windows) simp_all
    finally show ?thesis .
  qed
  have "frames m4 = frames m" using C4(5) C3(5) O(5) by (simp add: m2_def)
  then show ?thesis using run C4(2) cr(4) pd4 mem pte4 by (intro exI [of _ m4]) simp
qed

text \<open>What \<open>foreign_map_page\<close> leaves: the entries of the directory and of its tables.\<close>

lemma foreign_map_page_entries:
  assumes ok: "dir_ok m pd" and i: "unat (pd_index virt) < 768"
  shows "foreign_map_page pd phys virt flags m = Inl oom \<or> (\<exists>m' F T. foreign_map_page pd phys virt flags m = Inr m'
    \<and> paging_inv m' \<and> F \<subseteq> free_frames (frames m) \<and> free_frames (frames m') \<subseteq> free_frames (frames m) - F
    \<and> (F = {} \<and> pte m pd (pd_index virt) AND PAGE_PRESENT \<noteq> 0 \<and> T = page_base (pte m pd (pd_index virt))
       \<or> F = {T} \<and> pte m pd (pd_index virt) AND PAGE_PRESENT = 0 \<and> T \<noteq> pd \<and> page_aligned T)
    \<and> same_but (insert pd (insert T F)) m m'
    \<and> (\<forall>t k. page_aligned t \<longrightarrow> t \<noteq> cr3 m \<longrightarrow> unat k < 1024 \<longrightarrow>
          pte m' t k = (if t = T \<and> k = pt_index virt then map_entry phys flags
             else if t = T \<and> F \<noteq> {} then 0
             else if t = pd \<and> k = pd_index virt \<and> F \<noteq> {} then T OR dir_flags flags else pte m t k)))"
proof -
  let ?i = "pd_index virt"
  have inv: "paging_inv m" and sh: "shown m pd" and clr: "pde m TEMP_PD_SLOT = 0" "pde m TEMP_PT_SLOT = 0"
    using ok by (simp_all add: dir_ok_def temps_clear_def)
  have pd: "page_aligned pd" "pd \<noteq> cr3 m" "pd \<notin> free_frames (frames m)" using sh by (simp_all add: shown_def data_frame_def)
  define m1 where "m1 = opened TEMP_PD_SLOT pd m"
  note O = temp_map_ok [OF inv pd windows(1), folded m1_def]
  have p1: "pte m1 t k = pte m t k" if "page_aligned t" "t \<noteq> cr3 m" "unat k < 1024" for t k
    unfolding m1_def using that by (intro opened_pte inv windows)
  have mem1: "pmem m1 a = pmem m a" if "page_base a \<noteq> cr3 m" for a
    unfolding m1_def by (intro window_mem inv windows that)
  have open1: "pde m1 TEMP_PD_SLOT = pd OR dir_flags 0" "pde m1 TEMP_PT_SLOT = 0"
    using O(3) [OF slots_small(1)] O(3) [OF slots_small(2)] clr by simp_all
  have pd1: "pd \<noteq> cr3 m1" using pd(2) O(4) by simp
  note N = need_table_ok [OF O(2) pd(1) pd1 open1 pd_index_bound [of virt], of flags]
  show ?thesis
  proof (cases "need_table ?i flags m1 = Inl oom")
    case True
    then show ?thesis using O(1) by (simp add: foreign_map_page_halves)
  next
    case False
    then obtain m2 F where m2: "need_table ?i flags m1 = Inr m2" "paging_inv m2" "same_but (insert pd F) m1 m2"
        "free_frames (frames m2) \<subseteq> free_frames (frames m1) - F" "F \<subseteq> free_frames (frames m1)"
        "F = {} \<and> pte m1 pd ?i AND PAGE_PRESENT \<noteq> 0 \<and> m2 = m1
       \<or> (\<exists>f. F = {f} \<and> pte m1 pd ?i AND PAGE_PRESENT = 0 \<and> page_aligned f \<and> f \<noteq> cr3 m1 \<and> f \<noteq> pd
            \<and> (\<forall>t j. page_aligned t \<longrightarrow> t \<noteq> cr3 m1 \<longrightarrow> unat j < 1024 \<longrightarrow>
                 pte m2 t j = (if t = f then 0 else if t = pd \<and> j = ?i then f OR dir_flags flags else pte m1 t j)))"
      using N by blast
    have cr2: "cr3 m2 = cr3 m" using m2(3) O(4) by (simp add: same_but_def)
    have fr: "free_frames (frames m1) = free_frames (frames m)" by (simp add: O(5))
    have pdi: "pte m1 pd ?i = pte m pd ?i" using pd by (intro p1) simp_all
    define T where "T = page_base (pte m2 pd ?i)"
    have TP: "(\<forall>t k. page_aligned t \<longrightarrow> t \<noteq> cr3 m \<longrightarrow> unat k < 1024 \<longrightarrow> pte m2 t k = (if t = T \<and> F \<noteq> {} then 0
             else if t = pd \<and> k = ?i \<and> F \<noteq> {} then T OR dir_flags flags else pte m t k))
         \<and> (F = {} \<and> pte m pd ?i AND PAGE_PRESENT \<noteq> 0 \<and> T = page_base (pte m pd ?i)
       \<or> F = {T} \<and> pte m pd ?i AND PAGE_PRESENT = 0 \<and> T \<noteq> pd \<and> page_aligned T)"
        using m2(6)
      proof (elim disjE exE conjE)
        assume "F = {}" "pte m1 pd ?i AND PAGE_PRESENT \<noteq> 0" "m2 = m1"
        then show ?thesis using pdi p1 by (simp add: T_def)
      next
        fix f
        assume f: "F = {f}" "pte m1 pd ?i AND PAGE_PRESENT = 0" "page_aligned f" "f \<noteq> cr3 m1" "f \<noteq> pd"
          "\<forall>t j. page_aligned t \<longrightarrow> t \<noteq> cr3 m1 \<longrightarrow> unat j < 1024 \<longrightarrow>
                 pte m2 t j = (if t = f then 0 else if t = pd \<and> j = ?i then f OR dir_flags flags else pte m1 t j)"
        have "pte m2 pd ?i = f OR dir_flags flags" using f pd(1) pd1 by simp
        then have "T = f" using f(3) by (simp add: T_def)
        then show ?thesis using f pdi p1 O(4) by simp
      qed
    note T = conjunct2 [OF TP]
    have p2: "pte m2 t k = (if t = T \<and> F \<noteq> {} then 0
             else if t = pd \<and> k = ?i \<and> F \<noteq> {} then T OR dir_flags flags else pte m t k)"
        if "page_aligned t" "t \<noteq> cr3 m" "unat k < 1024" for t k
      using TP that by blast
    have open2: "pde m2 TEMP_PD_SLOT = pd OR dir_flags 0" "pde m2 TEMP_PT_SLOT = 0"
      using m2(3) open1 by (simp_all add: same_but_def)
    have Tcr: "T \<noteq> cr3 m2 \<and> T \<notin> free_frames (frames m2)"
    proof (cases "F = {}")
      case True
      then have "T \<in> user_tables m pd" using T i by (auto simp: user_tables_def)
      then have "shown m T" using ok by (simp add: dir_ok_def)
      then show ?thesis using m2(4) fr cr2 by (auto simp: shown_def data_frame_def)
    next
      case False
      then have "T \<in> free_frames (frames m)" "T \<notin> free_frames (frames m2)" using T m2(4,5) fr by auto
      then show ?thesis using inv cr2 by (auto simp: paging_inv_def)
    qed
    have pd2: "pd \<noteq> cr3 m2" using pd(2) cr2 by simp
    from enter_page_ok [OF m2(2) pd(1) pd2 open2 pd_index_bound [of virt] pt_index_bound [of virt] T_def conjunct1 [OF Tcr] conjunct2 [OF Tcr], of phys flags]
    obtain m3 where m3: "enter_page ?i (pt_index virt) phys flags m2 = Inr m3" "paging_inv m3" "frames m3 = frames m2" "cr3 m3 = cr3 m2"
        "\<And>k. unat k < 1024 \<Longrightarrow> pde m3 k = (if k = TEMP_PD_SLOT then 0 else pde m2 k)"
        "\<And>a. page_base a \<noteq> T \<Longrightarrow> page_base a \<noteq> cr3 m2 \<Longrightarrow> pmem m3 a = pmem m2 a"
        "\<And>t k. page_aligned t \<Longrightarrow> t \<noteq> cr3 m2 \<Longrightarrow> unat k < 1024 \<Longrightarrow>
          pte m3 t k = (if t = T \<and> k = pt_index virt then map_entry phys flags else pte m2 t k)"
      by blast
    have run: "foreign_map_page pd phys virt flags m = Inr m3"
      using O(1) m2(1) m3(1) by (simp add: foreign_map_page_halves)
    have sb: "same_but (insert pd (insert T F)) m m3"
      unfolding same_but_def
    proof (intro conjI allI impI)
      show "cr3 m3 = cr3 m" using m3(4) cr2 by simp
      show "pde m3 j = pde m j" if j: "unat j < 1024" for j
        using m3(5) [OF j] m2(3) O(3) [OF j] j clr by (simp add: same_but_def)
      show "pmem m3 a = pmem m a" if "page_base a \<notin> insert pd (insert T F)" "page_base a \<noteq> cr3 m" for a
        using m3(6) [of a] m2(3) mem1 [of a] that cr2 O(4) by (simp add: same_but_def)
    qed
    have "pte m3 t k = (if t = T \<and> k = pt_index virt then map_entry phys flags
             else if t = T \<and> F \<noteq> {} then 0
             else if t = pd \<and> k = ?i \<and> F \<noteq> {} then T OR dir_flags flags else pte m t k)"
      if "page_aligned t" "t \<noteq> cr3 m" "unat k < 1024" for t k
    proof -
      have "t \<noteq> cr3 m2" using that(2) cr2 by simp
      from m3(7) [OF that(1) this that(3)] show ?thesis by (simp only: p2 [OF that])
    qed
    moreover have "F \<subseteq> free_frames (frames m)" "free_frames (frames m3) \<subseteq> free_frames (frames m) - F"
      using m2(4,5) m3(3) fr by simp_all
    ultimately show ?thesis using run m3(2) T sb by blast
  qed
qed


lemma user_tables_cong:
  "(\<And>k. unat k < 768 \<Longrightarrow> pte m' pd k = pte m pd k) \<Longrightarrow> user_tables m' pd = user_tables m pd"
  unfolding user_tables_def by (intro Collect_cong ex_cong1) auto

lemma shown_mono: "shown m f \<Longrightarrow> same_but F m m' \<Longrightarrow> free_frames (frames m') \<subseteq> free_frames (frames m) \<Longrightarrow> shown m' f"
  by (auto simp: shown_def same_but_data_frame)

lemma present_entry: "(if b then x else y) AND PAGE_PRESENT \<noteq> 0 \<longleftrightarrow> (if b then x AND PAGE_PRESENT \<noteq> 0 else y AND PAGE_PRESENT \<noteq> 0)"
  for x y :: u32
  by simp

theorem foreign_map_page_spec:
  assumes ok: "dir_ok m pd" and i: "unat (pd_index virt) < 768"
    and phys: "shown m phys" "phys \<notin> insert pd (user_tables m pd)"
  shows "foreign_map_page pd phys virt flags m = Inl oom \<or> (\<exists>m'. foreign_map_page pd phys virt flags m = Inr m' \<and> dir_ok m' pd
    \<and> free_frames (frames m') \<subseteq> free_frames (frames m)
    \<and> (\<forall>i j. unat i < 768 \<longrightarrow> unat j < 1024 \<longrightarrow> user_entry m' pd i j =
          (if i = pd_index virt \<and> j = pt_index virt then map_entry phys flags else user_entry m pd i j))
    \<and> user_tables m pd \<subseteq> user_tables m' pd \<and> user_tables m' pd \<subseteq> user_tables m pd \<union> free_frames (frames m)
    \<and> same_but (insert pd (user_tables m' pd)) m m')"
proof -
  let ?i = "pd_index virt" and ?j = "pt_index virt"
  have pd: "page_aligned pd" "pd \<noteq> cr3 m" "pd \<notin> free_frames (frames m)" and inv: "paging_inv m"
    and tab: "\<And>t. t \<in> user_tables m pd \<Longrightarrow> shown m t \<and> t \<noteq> pd"
    and dist: "\<And>i j. unat i < 768 \<Longrightarrow> unat j < 768 \<Longrightarrow> i \<noteq> j \<Longrightarrow> pte m pd i AND PAGE_PRESENT \<noteq> 0 \<Longrightarrow>
        pte m pd j AND PAGE_PRESENT \<noteq> 0 \<Longrightarrow> page_base (pte m pd i) \<noteq> page_base (pte m pd j)"
    and ent: "\<And>i j. unat i < 768 \<Longrightarrow> unat j < 1024 \<Longrightarrow> user_entry m pd i j AND PAGE_PRESENT \<noteq> 0 \<Longrightarrow>
        shown m (page_base (user_entry m pd i j)) \<and> page_base (user_entry m pd i j) \<notin> insert pd (user_tables m pd)"
    using ok by (auto simp: dir_ok_def shown_def data_frame_def)
  show ?thesis
  proof (cases "foreign_map_page pd phys virt flags m = Inl oom")
    case False
    then obtain m' F T where m': "foreign_map_page pd phys virt flags m = Inr m'" "paging_inv m'" "F \<subseteq> free_frames (frames m)"
        "free_frames (frames m') \<subseteq> free_frames (frames m) - F" "same_but (insert pd (insert T F)) m m'"
      and T: "F = {} \<and> pte m pd ?i AND PAGE_PRESENT \<noteq> 0 \<and> T = page_base (pte m pd ?i)
        \<or> F = {T} \<and> pte m pd ?i AND PAGE_PRESENT = 0 \<and> T \<noteq> pd \<and> page_aligned T"
      and p: "\<And>t k. page_aligned t \<Longrightarrow> t \<noteq> cr3 m \<Longrightarrow> unat k < 1024 \<Longrightarrow>
          pte m' t k = (if t = T \<and> k = ?j then map_entry phys flags else if t = T \<and> F \<noteq> {} then 0
             else if t = pd \<and> k = ?i \<and> F \<noteq> {} then T OR dir_flags flags else pte m t k)"
      using foreign_map_page_entries [OF ok i, of phys flags] by blast
    have tabI: "page_base (pte m pd k) \<in> user_tables m pd" if "unat k < 768" "pte m pd k AND PAGE_PRESENT \<noteq> 0" for k
      using that by (auto simp: user_tables_def)
    have Tpd: "T \<noteq> pd" using T tab [OF tabI [OF i]] by auto
    have d: "pte m' pd k = (if k = ?i \<and> F \<noteq> {} then T OR dir_flags flags else pte m pd k)" if "unat k < 1024" for k
      using p [OF pd(1,2) that] Tpd by simp
    have old: "page_base (pte m pd k) = T \<longleftrightarrow> k = ?i \<and> F = {}" if k: "unat k < 768" "pte m pd k AND PAGE_PRESENT \<noteq> 0" for k
    proof (cases "F = {}")
      case True
      then show ?thesis using T dist [OF k(1) i _ k(2)] by auto
    next
      case False
      then have "T \<in> free_frames (frames m)" using T m'(3) by auto
      then show ?thesis using False tab [OF tabI [OF k]] by (auto simp: shown_def)
    qed
    have base: "page_base (T OR dir_flags flags) = T" "(T OR dir_flags flags) AND PAGE_PRESENT \<noteq> 0" if "F \<noteq> {}"
      using T that by auto
    have e: "user_entry m' pd k j = (if k = ?i \<and> j = ?j then map_entry phys flags else user_entry m pd k j)"
      if k: "unat k < 768" and j: "unat j < 1024" for k j
    proof (cases "k = ?i \<and> F \<noteq> {}")
      case True
      then have "pte m pd k AND PAGE_PRESENT = 0" "page_aligned T" "T \<noteq> cr3 m" using T m'(3) inv by (auto simp: paging_inv_def)
      then show ?thesis using True d [of k] k p [of T j] j base by (auto simp: user_entry_def Let_def)
    next
      case False
      then have dk: "pte m' pd k = pte m pd k" using d [of k] k by auto
      show ?thesis
      proof (cases "pte m pd k AND PAGE_PRESENT = 0")
        case True
        then have "k \<noteq> ?i" using T False by auto
        then show ?thesis using True dk by (simp add: user_entry_def Let_def)
      next
        case pres: False
        let ?t = "page_base (pte m pd k)"
        have "?t \<noteq> cr3 m" "?t \<noteq> pd" using tab [OF tabI [OF k pres]] by (auto simp: shown_def data_frame_def)
        then have "pte m' ?t j = (if ?t = T \<and> j = ?j then map_entry phys flags else if ?t = T \<and> F \<noteq> {} then 0 else pte m ?t j)"
          using p [OF page_base_aligned _ j, of "pte m pd k"] by simp
        then show ?thesis using old [OF k pres] dk pres False T by (auto simp: user_entry_def Let_def)
      qed
    qed
    have tabs: "user_tables m' pd = user_tables m pd \<union> F"
    proof -
      have "x \<in> user_tables m' pd \<longleftrightarrow> x \<in> user_tables m pd \<or> x \<in> F" for x
      proof (cases "F = {}")
        case True
        then have "pte m' pd k = pte m pd k" if "unat k < 768" for k using d [of k] that by simp
        then show ?thesis using True user_tables_cong [of m' pd m] by simp
      next
        case False
        then have F: "F = {T}" "pte m pd ?i AND PAGE_PRESENT = 0" using T by auto
        have "pte m' pd k = (if k = ?i then T OR dir_flags flags else pte m pd k)" if "unat k < 768" for k
          using d [of k] that False by simp
        note dk = this
        show ?thesis
        proof
          assume "x \<in> user_tables m' pd"
          then obtain k where k: "x = page_base (pte m' pd k)" "unat k < 768" "pte m' pd k AND PAGE_PRESENT \<noteq> 0"
            by (auto simp: user_tables_def)
          then show "x \<in> user_tables m pd \<or> x \<in> F"
            using dk [OF k(2)] base [OF False] F(1) tabI [OF k(2)] by (cases "k = ?i") simp_all
        next
          assume "x \<in> user_tables m pd \<or> x \<in> F"
          then obtain k where "unat k < 768" "pte m' pd k AND PAGE_PRESENT \<noteq> 0" "x = page_base (pte m' pd k)"
          proof
            assume "x \<in> user_tables m pd"
            then obtain k where k: "x = page_base (pte m pd k)" "unat k < 768" "pte m pd k AND PAGE_PRESENT \<noteq> 0"
              by (auto simp: user_tables_def)
            then have "k \<noteq> ?i" using F(2) by auto
            then show thesis using that [of k] k dk [OF k(2)] by simp
          next
            assume "x \<in> F"
            then show thesis using that [of ?i] dk [OF i] base [OF False] i F(1) by simp
          qed
          then show "x \<in> user_tables m' pd" by (auto simp: user_tables_def)
        qed
      qed
      then show ?thesis by blast
    qed
    have Tin: "T \<in> user_tables m' pd" using T tabI [OF i] by (auto simp: tabs)
    then have "insert T F \<subseteq> user_tables m' pd" using tabs by auto
    then have sb: "same_but (insert pd (user_tables m' pd)) m m'" using m'(5) by (blast intro: same_but_mono)
    note sh = shown_mono [OF _ sb]
    have fr: "free_frames (frames m') \<subseteq> free_frames (frames m)" using m'(4) by blast
    have pb: "page_base phys = phys" using phys(1) page_base_id by (simp add: shown_def data_frame_def)
    have F: "shown m' t \<and> t \<noteq> pd" if "t \<in> F" for t
    proof -
      have "t \<in> free_frames (frames m)" "t \<notin> free_frames (frames m')" using that m'(3,4) by auto
      then show ?thesis using free_data_frame [OF inv] same_but_data_frame [OF sb] pd(3) by (auto simp: shown_def)
    qed
    have "dir_ok m' pd"
      unfolding dir_ok_def
    proof (intro conjI ballI allI impI)
      show "paging_inv m'" by (rule m'(2))
      show "shown m' pd" using ok sh [OF _ fr] by (simp add: dir_ok_def)
      show "temps_clear m'" using ok sb by (simp add: dir_ok_def temps_clear_def same_but_def)
      show "shown m' t" "t \<noteq> pd" if "t \<in> user_tables m' pd" for t
        using that tab F sh [OF _ fr] by (auto simp: tabs)
      show "page_base (pte m' pd k) \<noteq> page_base (pte m' pd j)"
        if "unat k < 768" "unat j < 768" "k \<noteq> j" "pte m' pd k AND PAGE_PRESENT \<noteq> 0" "pte m' pd j AND PAGE_PRESENT \<noteq> 0" for k j
        using that d [of k] d [of j] old [of k] old [of j] dist [of k j] base by (auto split: if_splits)
      show "shown m' (page_base (user_entry m' pd k j))" "page_base (user_entry m' pd k j) \<notin> insert pd (user_tables m' pd)"
        if kj: "unat k < 768" "unat j < 1024" "user_entry m' pd k j AND PAGE_PRESENT \<noteq> 0" for k j
      proof -
        have "shown m (page_base (user_entry m' pd k j)) \<and> page_base (user_entry m' pd k j) \<notin> insert pd (user_tables m pd)"
          using kj e [OF kj(1,2)] ent [OF kj(1,2)] phys pb by (auto split: if_splits)
        then show "shown m' (page_base (user_entry m' pd k j))" "page_base (user_entry m' pd k j) \<notin> insert pd (user_tables m' pd)"
          using sh [OF _ fr] m'(3) by (auto simp: tabs shown_def)
      qed
    qed
    then show ?thesis using m'(1,3) fr e tabs sb by blast
  qed simp
qed


section \<open>The bytes of the program\<close>

definition user_byte :: "vm \<Rightarrow> u32 \<Rightarrow> u32 \<Rightarrow> u8 option" where
  "user_byte m pd v = map_option (pmem m) (translate (m\<lparr>cr3 := pd\<rparr>) v)"

definition in_user :: "u32 \<Rightarrow> bool" where
  "in_user v \<longleftrightarrow> unat (pd_index v) < 768"

text \<open>The file lies in mapped kernel memory that the loader does not write.\<close>

definition source :: "vm \<Rightarrow> u32 \<Rightarrow> u32 \<Rightarrow> u8 list \<Rightarrow> bool" where
  "source m pd data file \<longleftrightarrow> length file < 4294967296 \<and> (\<forall>k < length file. pd_index (data + of_nat k) \<noteq> RECURSIVE_SLOT
     \<and> (\<exists>p. translate m (data + of_nat k) = Some p \<and> pmem m p = file ! k \<and> page_base p \<noteq> cr3 m
          \<and> page_base p \<notin> insert pd (user_tables m pd) \<union> free_frames (frames m)))"

lemma vread_source:
  assumes "source m pd data file"
  shows "k + n \<le> length file \<Longrightarrow> vread n (data + of_nat k) m = Inr (take n (drop k file))"
proof (induction n arbitrary: k)
  case (Suc n)
  have k: "k < length file" using Suc.prems by simp
  then obtain p where "translate m (data + of_nat k) = Some p" "pmem m p = file ! k" using assms by (auto simp: source_def)
  moreover have "vread n (data + of_nat (Suc k)) m = Inr (take n (drop (Suc k) file))" using Suc.prems by (intro Suc.IH) simp
  ultimately show ?case
    using k by (simp add: vload8_def add.assoc add.commute [of 1] flip: Cons_nth_drop_Suc)
qed simp

text \<open>A step of the loader writes its own frames only: \<open>F\<close>, of which every one was free, the directory or one of its tables.\<close>

definition loader_frames :: "vm \<Rightarrow> u32 \<Rightarrow> u32 set \<Rightarrow> bool" where
  "loader_frames m pd F \<longleftrightarrow> F \<subseteq> insert pd (user_tables m pd) \<union> free_frames (frames m)"

lemma source_step:
  assumes src: "source m pd data file" and ok: "dir_ok m pd"
    and sb: "same_but F m m'" and F: "loader_frames m pd F"
    and fr: "free_frames (frames m') \<subseteq> free_frames (frames m)"
    and tab: "user_tables m' pd \<subseteq> user_tables m pd \<union> free_frames (frames m)"
  shows "source m' pd data file"
  unfolding source_def
proof (intro conjI allI impI)
  show "length file < 4294967296" using src by (simp add: source_def)
  fix k assume k: "k < length file"
  then obtain p where p: "translate m (data + of_nat k) = Some p" "pmem m p = file ! k" "page_base p \<noteq> cr3 m"
      "page_base p \<notin> insert pd (user_tables m pd) \<union> free_frames (frames m)" and v: "pd_index (data + of_nat k) \<noteq> RECURSIVE_SLOT"
    using src by (auto simp: source_def)
  show "pd_index (data + of_nat k) \<noteq> RECURSIVE_SLOT" by (rule v)
  have "data_frame m f" if "f \<in> F" for f
    using that F ok free_data_frame [of m f] by (auto simp: loader_frames_def dir_ok_def shown_def)
  then have "translate m' (data + of_nat k) = Some p" using same_but_translate [OF sb v] p(1) by simp
  moreover have "page_base p \<notin> F" using p(4) F by (auto simp: loader_frames_def)
  then have "pmem m' p = file ! k" using sb p(2,3) by (simp add: same_but_def)
  moreover have "cr3 m' = cr3 m" using sb by (simp add: same_but_def)
  moreover have "page_base p \<notin> insert pd (user_tables m' pd) \<union> free_frames (frames m')" using p(4) fr tab by blast
  ultimately show "\<exists>p. translate m' (data + of_nat k) = Some p \<and> pmem m' p = file ! k \<and> page_base p \<noteq> cr3 m'
      \<and> page_base p \<notin> insert pd (user_tables m' pd) \<union> free_frames (frames m')" using p(3) by auto
qed

lemma user_byte_step:
  assumes ok: "dir_ok m pd" and sb: "same_but F m m'" and F: "loader_frames m pd F"
    and v: "in_user v" and e: "user_entry m' pd (pd_index v) (pt_index v) = user_entry m pd (pd_index v) (pt_index v)"
  shows "user_byte m' pd v = user_byte m pd v"
proof (cases "user_entry m pd (pd_index v) (pt_index v) AND PAGE_PRESENT = 0")
  case True
  then show ?thesis using e by (simp add: user_byte_def user_translate)
next
  case False
  let ?f = "page_base (user_entry m pd (pd_index v) (pt_index v))"
  have f: "shown m ?f" "?f \<notin> insert pd (user_tables m pd)"
    using ok v False by (simp_all add: dir_ok_def in_user_def)
  have "unat (v AND 0xfff) < 4096" by (simp add: page_off_unat)
  then have "page_base (?f + (v AND 0xfff)) = ?f" by (rule page_base_off(1) [OF page_base_aligned])
  moreover have "?f \<notin> F" using f F by (auto simp: loader_frames_def shown_def)
  moreover have "?f \<noteq> cr3 m" using f by (simp add: shown_def data_frame_def)
  ultimately have "pmem m' (?f + (v AND 0xfff)) = pmem m (?f + (v AND 0xfff))" using sb by (simp add: same_but_def)
  then show ?thesis using e by (simp add: user_byte_def user_translate Let_def)
qed


lemma same_but_dir:
  assumes ok: "dir_ok m pd" and sb: "same_but F m m'" and fr: "free_frames (frames m') \<subseteq> free_frames (frames m)" "paging_inv m'"
    and F: "F \<inter> insert pd (user_tables m pd) = {}"
  shows "user_tables m' pd = user_tables m pd" "dir_ok m' pd"
    "unat i < 768 \<Longrightarrow> unat j < 1024 \<Longrightarrow> user_entry m' pd i j = user_entry m pd i j"
proof -
  have pd: "page_aligned pd" "pd \<notin> F" using ok F by (auto simp: dir_ok_def shown_def data_frame_def)
  have d: "pte m' pd k = pte m pd k" if "unat k < 1024" for k by (rule same_but_pte [OF sb pd that])
  then show tabs: "user_tables m' pd = user_tables m pd" by (intro user_tables_cong) simp
  show e: "user_entry m' pd i j = user_entry m pd i j" if "unat i < 768" "unat j < 1024" for i j
  proof (cases "pte m pd i AND PAGE_PRESENT = 0")
    case False
    then have "page_base (pte m pd i) \<in> user_tables m pd" using that by (auto simp: user_tables_def)
    then have "page_base (pte m pd i) \<notin> F" using F by blast
    then show ?thesis using d [of i] that same_but_pte [OF sb page_base_aligned _ that(2), of "pte m pd i"]
      by (simp add: user_entry_def Let_def)
  qed (use d [of i] that in \<open>simp add: user_entry_def Let_def\<close>)
  note sh = shown_mono [OF _ sb fr(1)]
  show "dir_ok m' pd"
    using ok e d sh sb fr(2) unfolding dir_ok_def tabs by (simp add: temps_clear_def same_but_def)
qed

lemma alloc_dir:
  assumes ok: "dir_ok m pd" and a: "alloc_frame m = Inr (f, m1)"
  shows "dir_ok m1 pd" "same_but {} m m1" "shown m1 f" "f \<notin> insert pd (user_tables m1 pd)"
    "f \<in> free_frames (frames m)" "free_frames (frames m1) \<subseteq> free_frames (frames m)"
    "user_tables m1 pd = user_tables m pd" "user_entry m1 pd i j = user_entry m pd i j"
proof -
  have inv: "paging_inv m" using ok by (simp add: dir_ok_def)
  note A = paging_inv_alloc [OF inv a]
  have e: "pte m1 t k = pte m t k" "pde m1 k = pde m k" "cr3 m1 = cr3 m" "pmem m1 = pmem m" for t k
    using A by (metis pte_frames(1), metis pte_frames(2)) (use A in \<open>metis vm.select_convs vm.surjective vm.update_convs(3)\<close>)+
  show sb: "same_but {} m m1" by (simp add: same_but_def e)
  show fr: "free_frames (frames m1) \<subseteq> free_frames (frames m)" and f: "f \<in> free_frames (frames m)" using A by auto
  show "dir_ok m1 pd" and tabs: "user_tables m1 pd = user_tables m pd"
    using same_but_dir [OF ok sb fr] A by auto
  show "user_entry m1 pd i j = user_entry m pd i j" by (simp add: user_entry_def Let_def e)
  show "shown m1 f" using free_data_frame [OF inv f] same_but_data_frame [OF sb] A by (simp add: shown_def)
  show "f \<notin> insert pd (user_tables m1 pd)" using f ok unfolding tabs by (auto simp: dir_ok_def shown_def)
qed

lemma frame_write:
  assumes ok: "dir_ok m pd" and f: "shown m f" "f \<notin> insert pd (user_tables m pd)" and n: "unat x + length bs \<le> 4096"
  shows "\<exists>m'. copy_to_phys f x bs m = Inr m' \<and> dir_ok m' pd \<and> same_but {f} m m' \<and> frames m' = frames m
    \<and> user_tables m' pd = user_tables m pd
    \<and> (\<forall>i j. unat i < 768 \<longrightarrow> unat j < 1024 \<longrightarrow> user_entry m' pd i j = user_entry m pd i j)
    \<and> (\<forall>a. page_base a = f \<longrightarrow> pmem m' a = patch (pmem m) (f + x) bs a)"
proof -
  have inv: "paging_inv m" and clr: "pde m TEMP_FRAME_SLOT = 0" using ok by (simp_all add: dir_ok_def temps_clear_def)
  note W = write_to_frame [OF inv f(1) windows(2) clr n]
  define m2 where "m2 = closed TEMP_FRAME_SLOT ((opened TEMP_FRAME_SLOT f m)
    \<lparr>pmem := patch (pmem (opened TEMP_FRAME_SLOT f m)) (f + x) bs\<rparr>)"
  note W = W [folded m2_def]
  have "free_frames (frames m2) \<subseteq> free_frames (frames m)" "{f} \<inter> insert pd (user_tables m pd) = {}" using W(3) f(2) by auto
  note S = same_but_dir [OF ok W(4) this(1) W(2) this(2)]
  have "copy_to_phys f x bs m = Inr m2" using W(1) by (simp add: copy_to_phys_def TEMP_FRAME_VIRT_def)
  then show ?thesis using W S by blast
qed

lemma zero_phys_copy: "zero_phys f x n = copy_to_phys f x (replicate (unat n) 0)"
  by (simp add: zero_phys_def copy_to_phys_def fun_eq_iff)


section \<open>Loading one page\<close>

definition part_ok :: "(u32 \<times> u32 \<times> u32) option \<Rightarrow> u8 list \<Rightarrow> bool" where
  "part_ok part file = (case part of None \<Rightarrow> True
     | Some (x, y, n) \<Rightarrow> unat x + unat n \<le> 4096 \<and> unat y + unat n \<le> length file)"

definition part_byte :: "(u32 \<times> u32 \<times> u32) option \<Rightarrow> u8 list \<Rightarrow> u32 \<Rightarrow> u8" where
  "part_byte part file off = (case part of None \<Rightarrow> 0
     | Some (x, y, n) \<Rightarrow> if unat x \<le> unat off \<and> unat off < unat x + unat n then file ! (unat y + (unat off - unat x)) else 0)"

lemma patch_page:
  assumes "unat x + length bs \<le> 4096" "unat off < 4096"
  shows "patch p (f + x) bs (f + off) = (if unat x \<le> unat off \<and> unat off < unat x + length bs
    then bs ! (unat off - unat x) else p (f + off))"
proof (cases "x \<le> off")
  case True
  then have "unat (off - x) = unat off - unat x" by (simp add: unat_sub_u32 word_le_nat_alt)
  then show ?thesis using True by (auto simp: patch_def word_le_nat_alt)
next
  case False
  then have "unat (off - x) = 4294967296 - (unat x - unat off)" by (intro unat_sub_wrap_u32) simp
  then have "\<not> unat (off - x) < length bs" using assms by linarith
  then show ?thesis using False by (auto simp: patch_def word_le_nat_alt)
qed

text \<open>The frame of a page filled: zeros, then the part of the file.\<close>

definition fill_frame :: "u32 \<Rightarrow> u32 \<Rightarrow> (u32 \<times> u32 \<times> u32) option \<Rightarrow> vm \<Rightarrow> vm res" where
  "fill_frame phys data part s = bind_res (zero_phys phys 0 PAGE_SIZE s) (\<lambda>s. case part of
       None \<Rightarrow> Inr s
     | Some (x, y, n) \<Rightarrow> bind_res (vread (unat n) (data + y) s) (\<lambda>bytes. copy_to_phys phys x bytes s))"

lemma fill_frame_ok:
  assumes ok: "dir_ok m pd" and f: "shown m f" "f \<notin> insert pd (user_tables m pd)"
    and src: "source m pd data file" and free: "\<And>p. page_base p = f \<Longrightarrow> \<forall>k < length file. translate m (data + of_nat k) \<noteq> Some p"
    and part: "part_ok part file"
  shows "\<exists>m'. fill_frame f data part m = Inr m' \<and> dir_ok m' pd \<and> same_but {f} m m' \<and> frames m' = frames m
    \<and> user_tables m' pd = user_tables m pd
    \<and> (\<forall>i j. unat i < 768 \<longrightarrow> unat j < 1024 \<longrightarrow> user_entry m' pd i j = user_entry m pd i j)
    \<and> (\<forall>off. unat off < 4096 \<longrightarrow> pmem m' (f + off) = part_byte part file off)"
proof -
  have al: "page_aligned f" using f(1) by (simp add: shown_def data_frame_def)
  have "unat (0 :: u32) + length (replicate (unat PAGE_SIZE) (0 :: u8)) \<le> 4096" by (simp add: PAGE_SIZE_def)
  from frame_write [OF ok f this] obtain m1 where
    m1: "zero_phys f 0 PAGE_SIZE m = Inr m1" "dir_ok m1 pd" "same_but {f} m m1" "frames m1 = frames m"
      "user_tables m1 pd = user_tables m pd"
      "\<forall>i j. unat i < 768 \<longrightarrow> unat j < 1024 \<longrightarrow> user_entry m1 pd i j = user_entry m pd i j"
      "\<forall>a. page_base a = f \<longrightarrow> pmem m1 a = patch (pmem m) (f + 0) (replicate (unat PAGE_SIZE) 0) a"
    unfolding zero_phys_copy by blast
  have z: "pmem m1 (f + off) = 0" if "unat off < 4096" for off
    using m1(7) page_base_off(1) [OF al that] patch_page [of 0 "replicate (unat PAGE_SIZE) 0" off "pmem m" f] that
    by (simp add: PAGE_SIZE_def)
  show ?thesis
  proof (cases part)
    case None
    then show ?thesis using m1 z by (simp add: fill_frame_def part_byte_def)
  next
    case (Some xyn)
    obtain x y n where p: "part = Some (x, y, n)" using Some by (cases xyn) simp
    have b: "unat x + unat n \<le> 4096" "unat y + unat n \<le> length file" using part by (simp_all add: part_ok_def p)
    have "source m1 pd data file"
      unfolding source_def
    proof (intro conjI allI impI)
      show "length file < 4294967296" using src by (simp add: source_def)
      fix k assume k: "k < length file"
      then obtain q where q: "translate m (data + of_nat k) = Some q" "pmem m q = file ! k" "page_base q \<noteq> cr3 m"
          "page_base q \<notin> insert pd (user_tables m pd) \<union> free_frames (frames m)" and v: "pd_index (data + of_nat k) \<noteq> RECURSIVE_SLOT"
        using src by (auto simp: source_def)
      show "pd_index (data + of_nat k) \<noteq> RECURSIVE_SLOT" by (rule v)
      have "page_base q \<noteq> f" using free [of q] q(1) k by auto
      moreover have "translate m1 (data + of_nat k) = Some q"
        using same_but_translate [OF m1(3) v] q(1) f(1) by (simp add: shown_def)
      ultimately show "\<exists>p. translate m1 (data + of_nat k) = Some p \<and> pmem m1 p = file ! k \<and> page_base p \<noteq> cr3 m1
          \<and> page_base p \<notin> insert pd (user_tables m1 pd) \<union> free_frames (frames m1)"
        using q m1(3-5) by (intro exI [of _ q]) (simp add: same_but_def)
    qed
    from vread_source [OF this, of "unat y" "unat n"] b(2)
    have rd: "vread (unat n) (data + y) m1 = Inr (take (unat n) (drop (unat y) file))" by simp
    let ?bs = "take (unat n) (drop (unat y) file)"
    have len: "length ?bs = unat n" using b(2) by simp
    have f1: "shown m1 f" "f \<notin> insert pd (user_tables m1 pd)"
      using shown_mono [OF f(1) m1(3)] m1(4,5) f(2) by simp_all
    from frame_write [OF m1(2) f1, of x ?bs] b(1) len obtain m2 where
      m2: "copy_to_phys f x ?bs m1 = Inr m2" "dir_ok m2 pd" "same_but {f} m1 m2" "frames m2 = frames m1"
        "user_tables m2 pd = user_tables m1 pd"
        "\<forall>i j. unat i < 768 \<longrightarrow> unat j < 1024 \<longrightarrow> user_entry m2 pd i j = user_entry m1 pd i j"
        "\<forall>a. page_base a = f \<longrightarrow> pmem m2 a = patch (pmem m1) (f + x) ?bs a"
      by auto
    have "pmem m2 (f + off) = part_byte part file off" if off: "unat off < 4096" for off
      using m2(7) page_base_off(1) [OF al off] patch_page [of x ?bs off "pmem m1" f] off b len z [OF off]
      by (auto simp: part_byte_def p)
    moreover have "same_but {f} m m2" using m1(3) m2(3) by (rule same_but_trans) simp_all
    moreover have "fill_frame f data part m = Inr m2" using m1(1) rd m2(1) by (simp add: fill_frame_def p)
    ultimately show ?thesis using m1 m2 by (intro exI [of _ m2]) simp
  qed
qed


lemma load_page_fill:
  "load_page pd data ph flags virt s = bind_res (alloc_frame s) (\<lambda>(phys, s).
     bind_res (foreign_map_page pd phys virt flags s) (fill_frame phys data (page_part ph virt)))"
  by (simp add: load_page_def fill_frame_def [abs_def])

lemma load_page_ok:
  assumes ok: "dir_ok m pd" and src: "source m pd data file" and virt: "page_aligned virt" "in_user virt"
    and part: "part_ok (page_part ph virt) file"
  shows "load_page pd data ph flags virt m = Inl oom \<or> (\<exists>m'. load_page pd data ph flags virt m = Inr m' \<and> dir_ok m' pd
    \<and> source m' pd data file
    \<and> (\<forall>off. unat off < 4096 \<longrightarrow> user_byte m' pd (virt + off) = Some (part_byte (page_part ph virt) file off))
    \<and> (\<forall>v. in_user v \<longrightarrow> page_base v \<noteq> virt \<longrightarrow> user_byte m' pd v = user_byte m pd v)
    \<and> (\<forall>v. pd_index v \<noteq> RECURSIVE_SLOT \<longrightarrow> translate m' v = translate m v))"
proof (cases "alloc_frame m")
  case (Inl e)
  then show ?thesis using alloc_frame_Inl [OF Inl] by (simp add: load_page_fill)
next
  case (Inr r)
  obtain f m1 where a: "alloc_frame m = Inr (f, m1)" using Inr by (cases r) simp
  note A = alloc_dir [OF ok a]
  have al: "page_aligned f" using A(3) by (simp add: shown_def data_frame_def)
  have i: "unat (pd_index virt) < 768" using virt(2) by (simp add: in_user_def)
  show ?thesis
  proof (cases "foreign_map_page pd f virt flags m1 = Inl oom")
    case True
    then show ?thesis using a by (simp add: load_page_fill)
  next
    case False
    then obtain m2 where m2: "foreign_map_page pd f virt flags m1 = Inr m2" "dir_ok m2 pd"
        "free_frames (frames m2) \<subseteq> free_frames (frames m1)"
        "\<forall>i j. unat i < 768 \<longrightarrow> unat j < 1024 \<longrightarrow> user_entry m2 pd i j =
          (if i = pd_index virt \<and> j = pt_index virt then map_entry f flags else user_entry m1 pd i j)"
        "user_tables m1 pd \<subseteq> user_tables m2 pd" "user_tables m2 pd \<subseteq> user_tables m1 pd \<union> free_frames (frames m1)"
        "same_but (insert pd (user_tables m2 pd)) m1 m2"
      using foreign_map_page_spec [OF A(1) i A(3,4)] by blast
    have pb: "page_base f = f" using al page_base_id by simp
    have e2: "user_entry m2 pd (pd_index virt) (pt_index virt) = map_entry f flags" using m2(4) i by simp
    have f2: "shown m2 f" "f \<notin> insert pd (user_tables m2 pd)"
      using m2(2) i e2 pb unfolding dir_ok_def by (metis map_entry_base map_entry_present pt_index_bound)+
    define G where "G = insert pd (user_tables m2 pd)"
    have sb2: "same_but G m m2" using A(2) m2(7) unfolding G_def by (rule same_but_trans) simp_all
    have G: "loader_frames m pd G" using m2(6) A(6,7) by (auto simp: G_def loader_frames_def)
    have Gd: "data_frame m g" if "g \<in> insert f G" for g
      using that G ok A(5) free_data_frame [of m] by (auto simp: loader_frames_def dir_ok_def shown_def)
    have fr2: "free_frames (frames m2) \<subseteq> free_frames (frames m)" and tab2: "user_tables m2 pd \<subseteq> user_tables m pd \<union> free_frames (frames m)"
      using m2(3,6) A(6,7) by auto
    have src2: "source m2 pd data file" by (rule source_step [OF src ok sb2 G fr2 tab2])
    have "\<forall>k < length file. translate m2 (data + of_nat k) \<noteq> Some p" if "page_base p = f" for p
    proof (intro allI impI notI)
      fix k assume k: "k < length file" "translate m2 (data + of_nat k) = Some p"
      then obtain q where q: "translate m (data + of_nat k) = Some q" "page_base q \<notin> free_frames (frames m)"
          "pd_index (data + of_nat k) \<noteq> RECURSIVE_SLOT" using src by (auto simp: source_def)
      then have "q = p" using same_but_translate [OF sb2 q(3)] Gd k(2) by simp
      then show False using q(2) that A(5) by simp
    qed
    from fill_frame_ok [OF m2(2) f2 src2 this part] obtain m3 where
      m3: "fill_frame f data (page_part ph virt) m2 = Inr m3" "dir_ok m3 pd" "same_but {f} m2 m3" "frames m3 = frames m2"
        "user_tables m3 pd = user_tables m2 pd"
        "\<forall>i j. unat i < 768 \<longrightarrow> unat j < 1024 \<longrightarrow> user_entry m3 pd i j = user_entry m2 pd i j"
        "\<forall>off. unat off < 4096 \<longrightarrow> pmem m3 (f + off) = part_byte (page_part ph virt) file off"
      by blast
    have sb: "same_but (insert f G) m m3" using sb2 m3(3) by (rule same_but_trans) auto
    have F: "loader_frames m pd (insert f G)" using G A(5) by (auto simp: loader_frames_def)
    have src3: "source m3 pd data file"
      using source_step [OF src ok sb F] fr2 tab2 m3(4,5) by simp
    have "user_byte m3 pd (virt + off) = Some (part_byte (page_part ph virt) file off)" if off: "unat off < 4096" for off
      using page_base_off [OF virt(1) off] m3(6,7) i e2 off
      by (simp add: user_byte_def user_translate Let_def pb)
    moreover have "user_byte m3 pd v = user_byte m pd v" if v: "in_user v" "page_base v \<noteq> virt" for v
    proof (rule user_byte_step [OF ok sb F v(1)])
      have "\<not> (pd_index v = pd_index virt \<and> pt_index v = pt_index virt)"
        using page_of_indices [of v virt] v(2) page_base_id [OF virt(1)] by auto
      then show "user_entry m3 pd (pd_index v) (pt_index v) = user_entry m pd (pd_index v) (pt_index v)"
        using v(1) m3(6) m2(4) A(8) by (auto simp: in_user_def)
    qed
    moreover have "translate m3 v = translate m v" if "pd_index v \<noteq> RECURSIVE_SLOT" for v
      using same_but_translate [OF sb that] Gd by blast
    ultimately show ?thesis using a m2(1) m3(1,2) src3 by (simp add: load_page_fill)
  qed
qed

text \<open>The part of a page, against the bytes of the segment.\<close>

definition seg_byte :: "elf_phdr \<Rightarrow> u8 list \<Rightarrow> u32 \<Rightarrow> u8" where
  "seg_byte ph file v = (if unat (p_vaddr ph) \<le> unat v \<and> unat v < unat (p_vaddr ph) + unat (p_filesz ph)
     then file ! (unat (p_offset ph) + (unat v - unat (p_vaddr ph))) else 0)"

lemma page_part_bytes:
  assumes virt: "page_aligned virt" "unat virt + 4096 < 4294967296"
    and ends: "unat (p_vaddr ph) + unat (p_filesz ph) < 4294967296" "unat (p_offset ph) + unat (p_filesz ph) \<le> length file"
      "length file < 4294967296"
  shows "part_ok (page_part ph virt) file"
    and "unat off < 4096 \<Longrightarrow> part_byte (page_part ph virt) file off = seg_byte ph file (virt + off)"
proof -
  have pe: "unat (virt + PAGE_SIZE) = unat virt + 4096" using virt(2) by (simp add: unat_add_u32 PAGE_SIZE_def)
  have fe: "unat (p_vaddr ph + p_filesz ph) = unat (p_vaddr ph) + unat (p_filesz ph)" using ends(1) by (rule unat_add_u32)
  define cs where "cs = (if virt < p_vaddr ph then p_vaddr ph else virt)"
  define ce where "ce = (if virt + PAGE_SIZE > p_vaddr ph + p_filesz ph then p_vaddr ph + p_filesz ph else virt + PAGE_SIZE)"
  have csn: "unat cs = max (unat virt) (unat (p_vaddr ph))" by (simp add: cs_def word_less_nat_alt)
  have cen: "unat ce = min (unat virt + 4096) (unat (p_vaddr ph) + unat (p_filesz ph))"
    by (auto simp: ce_def word_less_nat_alt pe fe)
  have none: "page_part ph virt = (if unat virt + 4096 \<le> unat (p_vaddr ph) \<or> unat (p_vaddr ph) + unat (p_filesz ph) \<le> unat virt
      then None else Some (cs - virt, p_offset ph + (cs - p_vaddr ph), ce - cs))"
    by (simp add: page_part_def Let_def word_le_nat_alt pe fe cs_def ce_def)
  have vo: "unat (virt + off) = unat virt + unat off" if "unat off < 4096" for off
    by (rule page_add_unat [OF virt(1) that])
  show "part_ok (page_part ph virt) file"
    "unat off < 4096 \<Longrightarrow> part_byte (page_part ph virt) file off = seg_byte ph file (virt + off)"
  proof (atomize (full), cases "unat virt + 4096 \<le> unat (p_vaddr ph) \<or> unat (p_vaddr ph) + unat (p_filesz ph) \<le> unat virt")
    case True
    then have "page_part ph virt = None" by (simp add: none)
    then show "part_ok (page_part ph virt) file \<and> (unat off < 4096 \<longrightarrow> part_byte (page_part ph virt) file off = seg_byte ph file (virt + off))"
      using True vo [of off] by (auto simp: part_ok_def part_byte_def seg_byte_def)
  next
    case False
    have x: "unat (cs - virt) = unat cs - unat virt" using csn by (intro unat_sub_u32) simp
    have y1: "unat (cs - p_vaddr ph) = unat cs - unat (p_vaddr ph)" using csn by (intro unat_sub_u32) simp
    have y: "unat (p_offset ph + (cs - p_vaddr ph)) = unat (p_offset ph) + (unat cs - unat (p_vaddr ph))"
      using False csn ends by (subst unat_add_u32) (auto simp: y1)
    have n: "unat (ce - cs) = unat ce - unat cs" using False csn cen by (intro unat_sub_u32) auto
    have p: "page_part ph virt = Some (cs - virt, p_offset ph + (cs - p_vaddr ph), ce - cs)" using False none by simp
    have "part_ok (page_part ph virt) file"
      unfolding p part_ok_def option.case prod.case x y n using False csn cen ends(2) by auto
    moreover have "part_byte (page_part ph virt) file off = seg_byte ph file (virt + off)" if off: "unat off < 4096"
    proof -
      have "unat (p_offset ph) + (unat cs - unat (p_vaddr ph)) + (unat off - (unat cs - unat virt))
          = unat (p_offset ph) + (unat virt + unat off - unat (p_vaddr ph))" if "unat cs - unat virt \<le> unat off"
        using that csn by auto
      then show ?thesis
        unfolding p part_byte_def option.case prod.case x y n seg_byte_def vo [OF off] using False csn cen off by auto
    qed
    ultimately show "part_ok (page_part ph virt) file \<and> (unat off < 4096 \<longrightarrow> part_byte (page_part ph virt) file off = seg_byte ph file (virt + off))"
      by blast
  qed
qed


section \<open>Loading a segment\<close>

lemma page_step_up:
  assumes "virt < virt_end" "unat virt_end \<le> 0xb0000000"
  shows "unat (virt + PAGE_SIZE) = unat virt + 4096" "unat virt + 4096 < 4294967296"
    "page_aligned virt \<Longrightarrow> page_aligned (virt + PAGE_SIZE)"
proof -
  show b: "unat virt + 4096 < 4294967296" using assms by (simp add: word_less_nat_alt)
  then show "unat (virt + PAGE_SIZE) = unat virt + 4096" by (simp add: unat_add_u32 PAGE_SIZE_def)
  show "page_aligned virt \<Longrightarrow> page_aligned (virt + PAGE_SIZE)" by (rule page_add_aligned [OF _ b])
qed

lemma below_kernel: "unat v < 0xc0000000 \<Longrightarrow> in_user v"
  by (simp add: in_user_def pd_index_unat)

text \<open>The loop over the pages of a segment ends, whatever the pages do.\<close>

lemma load_pages_end:
  "unat virt_end \<le> 0xb0000000 \<Longrightarrow> load_pages pd data ph flags virt virt_end m \<noteq> None"
proof (induction "unat virt_end - unat virt" arbitrary: virt m rule: less_induct)
  case less
  show ?case
  proof (cases "virt < virt_end")
    case True
    then have "unat virt_end - unat (virt + PAGE_SIZE) < unat virt_end - unat virt"
      using page_step_up(1) [OF True less.prems] by (simp add: word_less_nat_alt)
    from less.hyps [OF this less.prems] show ?thesis
      using True by (subst load_pages.simps) (auto split: sum.split)
  qed (simp add: load_pages.simps)
qed

lemma page_base_range:
  assumes "page_aligned virt" "unat virt + 4096 < 4294967296"
  shows "page_base v = virt \<longleftrightarrow> unat virt \<le> unat v \<and> unat v < unat virt + 4096"
proof
  assume e: "page_base v = virt"
  have "unat virt = unat v div 4096 * 4096" unfolding e [symmetric] by (rule page_base_unat)
  then show "unat virt \<le> unat v \<and> unat v < unat virt + 4096" by linarith
next
  assume r: "unat virt \<le> unat v \<and> unat v < unat virt + 4096"
  obtain q where "unat virt = 4096 * q" using page_aligned_div [OF assms(1)] ..
  then have "unat v div 4096 = q" using r by auto
  then show "page_base v = virt"
    using \<open>unat virt = 4096 * q\<close> by (intro unat_inj_u32) (simp add: page_base_unat)
qed

lemma load_pages_ok:
  assumes "dir_ok m pd" "source m pd data file" "page_aligned virt" and top: "unat virt_end \<le> 0xb0000000"
    and ends: "unat (p_vaddr ph) + unat (p_filesz ph) < 4294967296" "unat (p_offset ph) + unat (p_filesz ph) \<le> length file"
      "length file < 4294967296"
  shows "load_pages pd data ph flags virt virt_end m = Some (Inl oom)
    \<or> (\<exists>m'. load_pages pd data ph flags virt virt_end m = Some (Inr m') \<and> dir_ok m' pd \<and> source m' pd data file
      \<and> (\<forall>v. unat virt \<le> unat v \<longrightarrow> unat (page_base v) < unat virt_end \<longrightarrow> user_byte m' pd v = Some (seg_byte ph file v))
      \<and> (\<forall>v. in_user v \<longrightarrow> unat v < unat virt \<or> unat virt_end \<le> unat (page_base v) \<longrightarrow> user_byte m' pd v = user_byte m pd v)
      \<and> (\<forall>v. pd_index v \<noteq> RECURSIVE_SLOT \<longrightarrow> translate m' v = translate m v))"
  using assms(1-3)
proof (induction "unat virt_end - unat virt" arbitrary: virt m rule: less_induct)
  case less
  show ?case
  proof (cases "virt < virt_end")
    case False
    have "unat virt \<le> unat (page_base v)" if "unat virt \<le> unat v" for v
    proof -
      obtain q where q: "unat virt = 4096 * q" using page_aligned_div [OF less.prems(3)] ..
      then have "q \<le> unat v div 4096" using that by auto
      then show ?thesis by (simp add: page_base_unat q)
    qed
    then have "unat v < unat virt \<or> unat virt_end \<le> unat (page_base v)" for v
      using False by (meson leI le_trans not_less word_less_nat_alt)
    then show ?thesis using False less.prems
      by (intro disjI2 exI [of _ m]) (auto simp: load_pages.simps not_le [symmetric])
  next
    case True
    note step = page_step_up [OF True top]
    have iu: "in_user virt" using True top by (intro below_kernel) (simp add: word_less_nat_alt)
    note P = page_part_bytes [OF less.prems(3) step(2) ends]
    show ?thesis
    proof (cases "load_page pd data ph flags virt m = Inl oom")
      case F: True
      then show ?thesis using True by (subst load_pages.simps) simp
    next
      case False
      then obtain m1 where m1: "load_page pd data ph flags virt m = Inr m1" "dir_ok m1 pd" "source m1 pd data file"
          "\<forall>off. unat off < 4096 \<longrightarrow> user_byte m1 pd (virt + off) = Some (part_byte (page_part ph virt) file off)"
          "\<forall>v. in_user v \<longrightarrow> page_base v \<noteq> virt \<longrightarrow> user_byte m1 pd v = user_byte m pd v"
          "\<forall>v. pd_index v \<noteq> RECURSIVE_SLOT \<longrightarrow> translate m1 v = translate m v"
        using load_page_ok [OF less.prems(1-3) iu P(1)] by blast
      have unf: "load_pages pd data ph flags virt virt_end m = load_pages pd data ph flags (virt + PAGE_SIZE) virt_end m1"
        using True m1(1) by (subst load_pages.simps) simp
      have "unat virt_end - unat (virt + PAGE_SIZE) < unat virt_end - unat virt"
        using True step(1) by (simp add: word_less_nat_alt)
      from less.hyps [OF this m1(2,3) step(3) [OF less.prems(3)]] show ?thesis
      proof (elim disjE exE conjE)
        assume "load_pages pd data ph flags (virt + PAGE_SIZE) virt_end m1 = Some (Inl oom)"
        then show ?thesis using unf by simp
      next
        fix m2
        assume m2: "load_pages pd data ph flags (virt + PAGE_SIZE) virt_end m1 = Some (Inr m2)" "dir_ok m2 pd" "source m2 pd data file"
          "\<forall>v. unat (virt + PAGE_SIZE) \<le> unat v \<longrightarrow> unat (page_base v) < unat virt_end \<longrightarrow> user_byte m2 pd v = Some (seg_byte ph file v)"
          "\<forall>v. in_user v \<longrightarrow> unat v < unat (virt + PAGE_SIZE) \<or> unat virt_end \<le> unat (page_base v) \<longrightarrow> user_byte m2 pd v = user_byte m1 pd v"
          "\<forall>v. pd_index v \<noteq> RECURSIVE_SLOT \<longrightarrow> translate m2 v = translate m1 v"
        note pr = page_base_range [OF less.prems(3) step(2)]
        have "user_byte m2 pd v = Some (seg_byte ph file v)" if v: "unat virt \<le> unat v" "unat (page_base v) < unat virt_end" for v
        proof (cases "unat v < unat virt + 4096")
          case False
          then show ?thesis using m2(4) v step(1) by simp
        next
          case in_page: True
          have o: "unat (v - virt) = unat v - unat virt" using v(1) by (rule unat_sub_u32)
          then have "unat (v - virt) < 4096" using in_page by simp
          then have "user_byte m1 pd v = Some (seg_byte ph file v)" using m1(4) P(2) [of "v - virt"] by fastforce
          moreover have "in_user v" using in_page True top by (intro below_kernel) (simp add: word_less_nat_alt)
          ultimately show ?thesis using m2(5) in_page step(1) by simp
        qed
        moreover have "user_byte m2 pd v = user_byte m pd v"
          if v: "in_user v" "unat v < unat virt \<or> unat virt_end \<le> unat (page_base v)" for v
        proof -
          have "page_base v \<noteq> virt"
          proof
            assume e: "page_base v = virt"
            then show False using v(2) pr [THEN iffD1, OF e] True unfolding e word_less_nat_alt by linarith
          qed
          then show ?thesis using m1(5) m2(5) v step(1) by auto
        qed
        ultimately show ?thesis using m2(1-3,6) m1(6) unf by (intro disjI2 exI [of _ m2]) simp
      qed
    qed
  qed
qed


section \<open>Properties\<close>


text \<open>A machine with a file of three bytes at 0xd0000000 and an empty directory, in frames above the managed memory.\<close>

definition file_vm :: vm where
  "file_vm = big_vm\<lparr>pmem := patch (pmem big_vm) (0x4000000 + 0) [0xaa, 0xbb, 0xcc]\<rparr>"

definition load_vm :: vm where
  "load_vm = set_entry 0x3000000 0 0x4000003 (set_entry 0x1000 832 0x3000003 file_vm)"

definition load_phdr :: elf_phdr where
  "load_phdr = \<lparr>p_type = PT_LOAD, p_offset = 1, p_vaddr = 0x400fff, p_filesz = 2, p_memsz = 3, p_flags = 2\<rparr>"

lemma high_frames: "page_aligned 0x2000000" "page_aligned 0x3000000" "page_aligned 0x4000000"
  "0x2000000 \<notin> free_frames (frames big_vm)" "0x3000000 \<notin> free_frames (frames big_vm)" "0x4000000 \<notin> free_frames (frames big_vm)"
proof -
  have "unat f < 0x1000000" if f: "f \<in> free_frames (frames big_vm)" for f
  proof -
    obtain k where k: "k < 4096" "f = of_nat k * PAGE_SIZE" using f by (auto simp: big_vm_free)
    have "unat (of_nat k * PAGE_SIZE) = k * 4096" using k(1) by (simp add: PAGE_SIZE_def unat_mult_u32)
    then show ?thesis using k by simp
  qed
  from this [of "0x2000000"] this [of "0x3000000"] this [of "0x4000000"]
  show "0x2000000 \<notin> free_frames (frames big_vm)" "0x3000000 \<notin> free_frames (frames big_vm)" "0x4000000 \<notin> free_frames (frames big_vm)"
    by auto
qed (simp_all add: page_aligned_def)

lemma file_vm_ok: "same_but {0x4000000} big_vm file_vm" "paging_inv file_vm" "frames file_vm = frames big_vm" "cr3 file_vm = 0x1000"
proof -
  show sb: "same_but {0x4000000} big_vm file_vm"
    unfolding file_vm_def using high_frames(3) by (intro same_but_patch) (simp_all add: big_vm_fields page_aligned_def)
  show fr: "frames file_vm = frames big_vm" by (simp add: file_vm_def)
  show "paging_inv file_vm" by (rule same_but_inv [OF sb fr big_vm_ok(1)])
  show "cr3 file_vm = 0x1000" by (simp add: file_vm_def big_vm_fields)
qed

lemma load_vm_facts:
  "paging_inv load_vm" "frames load_vm = frames big_vm" "cr3 load_vm = 0x1000"
  "unat i < 1024 \<Longrightarrow> pde load_vm i = (if i = 832 then 0x3000003 else if i = RECURSIVE_SLOT then 0x1003 else 0)"
  "pte load_vm 0x3000000 0 = 0x4000003" "unat i < 1024 \<Longrightarrow> pte load_vm 0x2000000 i = 0"
  "unat k < 3 \<Longrightarrow> pmem load_vm (0x4000000 + k) = [0xaa, 0xbb, 0xcc] ! unat k"
proof -
  define m where "m = set_entry 0x1000 832 0x3000003 file_vm"
  have x: "page_base (0x3000003 :: u32) = 0x3000000" by (simp add: page_base_def)
  note P = paging_inv_set_pde [OF file_vm_ok(2), of 832 "0x3000003", unfolded file_vm_ok(3,4) x]
  have inv: "paging_inv m" unfolding m_def using high_frames(5) by (intro P(1)) simp_all
  have cr: "cr3 m = 0x1000" by (simp add: m_def file_vm_ok)
  have ne: "(0x3000000 :: u32) \<noteq> cr3 m" by (simp add: cr)
  have lv: "load_vm = set_entry 0x3000000 0 0x4000003 m" by (simp add: load_vm_def m_def)
  note Q = paging_inv_set_pte [OF inv high_frames(2) ne, where i = 0 and x = "0x4000003", folded lv]
  show "paging_inv load_vm" by (rule Q(1)) simp
  show "frames load_vm = frames big_vm" "cr3 load_vm = 0x1000" by (simp_all add: load_vm_def file_vm_ok)
  show "pde load_vm i = (if i = 832 then 0x3000003 else if i = RECURSIVE_SLOT then 0x1003 else 0)" if "unat i < 1024" for i
  proof -
    have "pde load_vm i = pde m i" using Q(2) [OF _ that] by simp
    also have "\<dots> = (if i = 832 then 0x3000003 else pde file_vm i)"
      unfolding m_def using P(2) [of i] that high_frames(5) by simp
    also have "pde file_vm i = pde big_vm i" using file_vm_ok(1) that by (simp add: same_but_def)
    finally show ?thesis using big_vm_pde [OF that] by simp
  qed
  have al: "page_aligned 0x1000" by (simp add: page_aligned_def)
  show "pte load_vm 0x3000000 0 = 0x4000003"
    unfolding load_vm_def using pte_set_entry [OF high_frames(2) high_frames(2), of 0 0] by simp
  show "pte load_vm 0x2000000 i = 0" if "unat i < 1024" for i
  proof -
    have "pte load_vm 0x2000000 i = pte m 0x2000000 i"
      unfolding lv using pte_set_entry [OF high_frames(2,1) _ that, of 0] by simp
    also have "\<dots> = pte file_vm 0x2000000 i" unfolding m_def using pte_set_entry [OF al high_frames(1) _ that, of 832] by simp
    also have "\<dots> = pte big_vm 0x2000000 i" using that by (intro same_but_pte [OF file_vm_ok(1) high_frames(1)]) simp_all
    also have "\<dots> = 0" unfolding big_vm_def using pte_set_entry [OF al high_frames(1) _ that, of RECURSIVE_SLOT]
      by (simp add: RECURSIVE_SLOT_def pte_def load32_def)
    finally show ?thesis .
  qed
  show "pmem load_vm (0x4000000 + k) = [0xaa, 0xbb, 0xcc] ! unat k" if "unat k < 3" for k
  proof -
    have pb: "page_base (0x4000000 + k) = 0x4000000" using that by (intro page_base_off(1) high_frames(3)) simp
    have "pmem load_vm (0x4000000 + k) = pmem file_vm (0x4000000 + k)"
      unfolding load_vm_def using high_frames(2) al by (simp add: set_entry_other pb)
    also have "\<dots> = [0xaa, 0xbb, 0xcc] ! unat k"
      using patch_page [of 0 "[0xaa, 0xbb, 0xcc]" k "pmem big_vm" "0x4000000"] that by (simp add: file_vm_def)
    finally show ?thesis .
  qed
qed


lemma load_vm_dir: "dir_ok load_vm 0x2000000" and load_vm_source: "source load_vm 0x2000000 0xd0000000 [0xaa, 0xbb, 0xcc]"
proof -
  note L = load_vm_facts
  have e0: "pte load_vm 0x2000000 i AND PAGE_PRESENT = 0" if "unat i < 768" for i using L(6) [of i] that by simp
  then have tab: "user_tables load_vm 0x2000000 = {}" by (auto simp: user_tables_def)
  have ent: "user_entry load_vm 0x2000000 i j = 0" if "unat i < 768" for i j using e0 [OF that] by (simp add: user_entry_def Let_def)
  have p3: "page_base (0x3000003 :: u32) = 0x3000000" by (simp add: page_base_def)
  have "data_frame load_vm 0x2000000"
    unfolding data_frame_def using L(3,4) p3 high_frames(1) by (simp add: RECURSIVE_SLOT_def)
  then have "shown load_vm 0x2000000" using high_frames(4) by (simp add: shown_def L(2))
  moreover have "temps_clear load_vm"
    by (simp add: temps_clear_def L(4) RECURSIVE_SLOT_def) (simp add: TEMP_PD_SLOT_def TEMP_PT_SLOT_def TEMP_FRAME_SLOT_def)
  ultimately show "dir_ok load_vm 0x2000000"
    using L(1) e0 ent by (simp add: dir_ok_def tab)
  show "source load_vm 0x2000000 0xd0000000 [0xaa, 0xbb, 0xcc]"
    unfolding source_def
  proof (intro conjI allI impI)
    fix k :: nat assume k: "k < length [0xaa :: u8, 0xbb, 0xcc]"
    have d: "page_aligned 0xd0000000" by (simp add: page_aligned_def)
    have u: "unat (of_nat k :: u32) = k" using k by simp
    then have "unat (of_nat k :: u32) < 4096" using k by simp
    note o = page_base_off [OF d this] page_base_off [OF high_frames(3) this]
    have i: "pd_index 0xd0000000 = 832" "pt_index 0xd0000000 = 0"
      by (auto intro!: unat_inj_u32 simp: pd_index_unat pt_index_unat)
    show "pd_index (0xd0000000 + of_nat k) \<noteq> RECURSIVE_SLOT" by (simp add: o i RECURSIVE_SLOT_def)
    have "translate load_vm (0xd0000000 + of_nat k) = Some (0x4000000 + of_nat k)"
      by (simp add: translate_def o i L(4) p3 L(5) PAGE_PRESENT_def) (simp add: page_base_def)
    moreover have "pmem load_vm (0x4000000 + of_nat k) = [0xaa, 0xbb, 0xcc] ! k" using L(7) [of "of_nat k"] k u by simp
    ultimately show "\<exists>p. translate load_vm (0xd0000000 + of_nat k) = Some p \<and> pmem load_vm p = [0xaa, 0xbb, 0xcc] ! k
        \<and> page_base p \<noteq> cr3 load_vm \<and> page_base p \<notin> insert 0x2000000 (user_tables load_vm 0x2000000) \<union> free_frames (frames load_vm)"
      using o(5) high_frames(6) by (intro exI [of _ "0x4000000 + of_nat k"]) (simp add: tab L(2,3))
  qed simp
qed





end
