(* ===== verification/Usyscall.thy ===== *)
theory Usyscall
  imports Uprocess Vfs Clock Idt
begin

text \<open>
  The system calls, \<open>src/userspace/usyscall.c\<close>. A handler gets the saved registers and the kernel state and
  leaves its result in \<open>eax\<close>. User strings and structures are read and written through the page tables.

  Parameters: the tables \<open>T\<close> of the file systems, the part \<open>K\<close> of the driver state that holds the clock,
  the address \<open>st_addr\<close> of the local variable of \<open>sys_spawn\<close> and, for \<open>sys_wait\<close>, the interrupts \<open>irqs\<close>
  that come while it waits. \<open>sys_exit\<close> never returns: its value is the state in which it halts.
\<close>

section \<open>Arguments\<close>

definition MAX_ARGS :: nat where "MAX_ARGS = 32"

definition val_ptr :: "u32 \<Rightarrow> u32 \<Rightarrow> bool" where
  "val_ptr p len = (if p \<ge> KERNEL_VIRT_BASE then False
     else if p + len \<ge> KERNEL_VIRT_BASE then False
     else p \<noteq> 0)"

definition reply :: "registers \<Rightarrow> u32 \<times> 'd ksys \<Rightarrow> (registers \<times> 'd ksys) res" where
  "reply regs = (\<lambda>(x, s). Inr (regs\<lparr>r_eax := x\<rparr>, s))"

definition refuse :: "registers \<Rightarrow> 'd ksys \<Rightarrow> (registers \<times> 'd ksys) res" where
  "refuse regs s = Inr (regs\<lparr>r_eax := -1\<rparr>, s)"

text \<open>\<open>strnlen(p, MAX_PATH)\<close>, and the string that \<open>vfs_open\<close> sees.\<close>

definition user_strnlen :: "u32 \<Rightarrow> 'd ksys \<Rightarrow> u32 res" where
  "user_strnlen p s = bind_res (vstrn MAX_PATH p (vmem (heap s))) (\<lambda>cs. Inr (of_nat (length cs)))"

definition user_string :: "u32 \<Rightarrow> 'd ksys \<Rightarrow> u8 list res" where
  "user_string p s = ret (vcstr p (vmem (heap s)))"

section \<open>Files\<close>

definition sys_open :: "'d tables \<Rightarrow> 'd ksys handler" where
  "sys_open T regs s =
     (let path = r_ebx regs; flags = r_ecx regs in
      if \<not> val_ptr path 1 then refuse regs s
      else bind_res (user_strnlen path s) (\<lambda>len.
        if \<not> val_ptr path len then refuse regs s
        else bind_res (user_string path s) (\<lambda>p.
             bind_res (vfs_open T p flags s) (reply regs))))"

definition sys_close :: "'d tables \<Rightarrow> 'd ksys handler" where
  "sys_close T regs s = bind_res (vfs_close T (r_ebx regs) s) (reply regs)"

definition sys_read :: "'d tables \<Rightarrow> 'd ksys handler" where
  "sys_read T regs s =
     (let fd = r_ebx regs; buf = r_ecx regs; len = r_edx regs in
      if \<not> val_ptr buf len then refuse regs s
      else bind_res (vfs_read T fd buf len s) (reply regs))"

definition sys_write :: "'d tables \<Rightarrow> 'd ksys handler" where
  "sys_write T regs s =
     (let fd = r_ebx regs; buf = r_ecx regs; len = r_edx regs in
      if \<not> val_ptr buf len then refuse regs s
      else bind_res (vfs_write T fd buf len s) (reply regs))"

definition sys_ioctl :: "'d tables \<Rightarrow> 'd ksys handler" where
  "sys_ioctl T regs s =
     (let fd = r_ebx regs; request = r_ecx regs; arg = r_edx regs in
      if arg \<noteq> 0 \<and> \<not> val_ptr arg 1 then refuse regs s
      else bind_res (vfs_ioctl T fd request arg s) (reply regs))"

definition sys_readdir :: "'d tables \<Rightarrow> 'd ksys handler" where
  "sys_readdir T regs s =
     (let fd = r_ebx regs; index = r_ecx regs; name_out = r_edx regs; name_max = r_ebp regs in
      if \<not> val_ptr name_out name_max then refuse regs s
      else bind_res (vfs_readdir T fd index name_out name_max s) (reply regs))"

definition sizeof_stat :: u32 where "sizeof_stat = 64"

definition sys_fstat :: "'d tables \<Rightarrow> 'd ksys handler" where
  "sys_fstat T regs s =
     (let fd = r_ebx regs; st = r_ecx regs in
      if \<not> val_ptr st sizeof_stat then refuse regs s
      else bind_res (vfs_stat T fd st s) (reply regs))"

section \<open>Time\<close>

definition sys_time :: "('d, clock) part \<Rightarrow> 'd ksys handler" where
  "sys_time K regs s =
     (let user_time = r_ebx regs; t = curr_time (dget K s) in
      if \<not> val_ptr user_time 8 then refuse regs s
      else bind_res (k_write [seconds t, minutes t, hours t, day t, month t] user_time s) (\<lambda>s.
           bind_res (k_write [ucast (year t), ucast (drop_bit 8 (year t))] (user_time + 6) s) (\<lambda>s.
             reply regs (0, s))))"

section \<open>Processes\<close>

definition wake_parent :: "u32 \<Rightarrow> 'd ksys \<Rightarrow> 'd ksys res" where
  "wake_parent par s =
     (if par = 0 then Inr s
      else bind_res (process_at par s) (\<lambda>q.
        if pstate q = PROCESS_WAITING
        then bind_res (set_process_state par PROCESS_RUNNING s) (set_thread_state (pthread q) THREAD_READY)
        else Inr s))"

definition sys_exit :: "registers \<Rightarrow> 'd ksys \<Rightarrow> 'd ksys res" where
  "sys_exit regs s =
     bind_res (process_at (curr_process s) s) (\<lambda>p.
     let s = put_process (curr_process s) (p\<lparr>exit_code := r_ebx regs, pstate := PROCESS_DEAD\<rparr>) s in
     bind_res (set_thread_state (curr_thread s) THREAD_DEAD s) (\<lambda>s.
     bind_res (wake_parent (parent p) s) (\<lambda>s.
       Inr (s\<lparr>schedule_pending := True\<rparr>))))"

text \<open>The arguments, copied into \<open>kernel_strs\<close>: rows of \<open>MAX_PATH\<close> bytes. \<open>None\<close>: a bad pointer.\<close>

primrec copy_args :: "nat \<Rightarrow> u32 \<Rightarrow> 'd ksys \<Rightarrow> u8 list list option res" where
  "copy_args 0 p s = Inr (Some [])"
| "copy_args (Suc n) p s =
     bind_res (field 4 p 0 (vmem (heap s))) (\<lambda>user_str.
     if \<not> val_ptr user_str 1 then Inr None
     else bind_res (vstrn MAX_PATH user_str (vmem (heap s))) (\<lambda>cs.
       if \<not> val_ptr user_str (of_nat (length cs)) then Inr None
       else if length cs \<ge> MAX_PATH then Inl (Fault ''kernel_strs'')
       else bind_res (copy_args n (p + 4) s) (\<lambda>as. Inr (map_option ((#) cs) as))))"

definition on_vm :: "(vm \<Rightarrow> ('a \<times> vm) res) \<Rightarrow> 'd ksys \<Rightarrow> ('a \<times> 'd ksys) res" where
  "on_vm f s = bind_res (f (vmem (heap s))) (\<lambda>(x, m). Inr (x, s\<lparr>heap := (heap s)\<lparr>vmem := m\<rparr>\<rparr>))"

text \<open>The end of \<open>sys_spawn\<close>: the program is in the buffer \<open>buf\<close>.\<close>

definition spawn_process :: "u32 \<Rightarrow> u8 list list \<Rightarrow> 'd ksys \<Rightarrow> (u32 \<times> 'd ksys) res" where
  "spawn_process buf argv s =
     bind_res (on_vm uprocess_create_pagedir s) (\<lambda>(pd_phys, s).
     bind_res (on_vm (\<lambda>m. bind_res (uprocess_load pd_phys buf argv m) (\<lambda>(ent, hstart, user_esp, m). Inr ((ent, hstart, user_esp), m))) s)
       (\<lambda>((ent, hstart, user_esp), s).
     bind_res (k_free buf s) (\<lambda>s.
     bind_res (uprocess_create ent pd_phys hstart user_esp s) (\<lambda>(child, s).
     bind_res (process_at child s) (\<lambda>c.
     let s = put_process child (c\<lparr>parent := curr_process s\<rparr>) s in
     bind_res (scheduler_add (pthread c) s) (\<lambda>s. Inr (pid c, s)))))))"

text \<open>The file of the program read into a heap buffer; every failure closes the file.\<close>

definition spawn_file :: "'d tables \<Rightarrow> u32 \<Rightarrow> u32 \<Rightarrow> u8 list list \<Rightarrow> 'd ksys \<Rightarrow> (u32 \<times> 'd ksys) res" where
  "spawn_file T st_addr fd argv s =
     bind_res (vfs_stat T fd st_addr s) (\<lambda>(r, s).
     if neg r then bind_res (vfs_close T fd s) (\<lambda>(_, s). Inr (-1, s))
     else bind_res (field 4 st_addr 28 (vmem (heap s))) (\<lambda>st_size.
     bind_res (k_malloc st_size s) (\<lambda>(buf, s).
     if buf = 0 then bind_res (vfs_close T fd s) (\<lambda>(_, s). Inr (-1, s))
     else bind_res (vfs_read T fd buf st_size s) (\<lambda>(n, s).
       if neg n then bind_res (k_free buf s) (\<lambda>s. bind_res (vfs_close T fd s) (\<lambda>(_, s). Inr (-1, s)))
       else bind_res (vfs_close T fd s) (\<lambda>(_, s). spawn_process buf argv s)))))"

definition sys_spawn :: "'d tables \<Rightarrow> u32 \<Rightarrow> 'd ksys handler" where
  "sys_spawn T st_addr regs s =
     (let path = r_ebx regs; user_argv = r_ecx regs; argc = r_edx regs in
      if \<not> val_ptr path 1 then refuse regs s
      else bind_res (user_strnlen path s) (\<lambda>len.
        if \<not> val_ptr path len then refuse regs s
        else if sint argc < 0 \<or> sint argc > int MAX_ARGS then refuse regs s
        else if \<not> val_ptr user_argv (argc * 4) then refuse regs s
        else bind_res (copy_args (unat argc) user_argv s) (\<lambda>args. case args of
            None \<Rightarrow> refuse regs s
          | Some argv \<Rightarrow>
              bind_res (user_string path s) (\<lambda>p.
              bind_res (vfs_open T p 0 s) (\<lambda>(fd, s).
                if neg fd then refuse regs s
                else bind_res (spawn_file T st_addr fd argv s) (reply regs))))))"

text \<open>\<open>while (curr_process->state == PROCESS_WAITING) hlt\<close>, each step one interrupt; \<open>None\<close> when the
  interrupts end and the process still waits.\<close>

primrec wait_child :: "('d ksys \<Rightarrow> 'd ksys res) list \<Rightarrow> 'd ksys \<Rightarrow> 'd ksys res option" where
  "wait_child [] s = (case process_at (curr_process s) s of
       Inl e \<Rightarrow> Some (Inl e)
     | Inr p \<Rightarrow> if pstate p = PROCESS_WAITING then None else Some (Inr s))"
| "wait_child (irq # irqs) s = (case process_at (curr_process s) s of
       Inl e \<Rightarrow> Some (Inl e)
     | Inr p \<Rightarrow> if pstate p = PROCESS_WAITING
         then (case irq s of Inl e \<Rightarrow> Some (Inl e) | Inr s \<Rightarrow> wait_child irqs s)
         else Some (Inr s))"

definition reap :: "u32 \<Rightarrow> u32 \<Rightarrow> u32 \<Rightarrow> 'd ksys \<Rightarrow> 'd ksys res" where
  "reap child_pid child exit_ptr s =
     bind_res (process_at child s) (\<lambda>c.
     bind_res (if exit_ptr \<noteq> 0 then k_write (word_bytes (exit_code c)) exit_ptr s else Inr s) (\<lambda>s.
     bind_res (uprocess_remove child_pid s) (\<lambda>s.
     bind_res (thread_at (pthread c) s) (\<lambda>t.
     bind_res (k_free (stack_base t) s) (\<lambda>s.
     bind_res (k_free (pthread c) s)
       (k_free child))))))"

definition sys_wait :: "('d ksys \<Rightarrow> 'd ksys res) list \<Rightarrow> 'd ksys handler" where
  "sys_wait irqs regs s =
     (let child_pid = r_ebx regs; exit_ptr = r_ecx regs in
      if exit_ptr \<noteq> 0 \<and> \<not> val_ptr exit_ptr 4 then refuse regs s
      else bind_res (uprocess_find child_pid s) (\<lambda>child.
        if child = 0 then refuse regs s
        else bind_res (process_at child s) (\<lambda>c.
          if parent c \<noteq> curr_process s then refuse regs s
          else bind_res
            (if pstate c \<noteq> PROCESS_DEAD
             then bind_res (set_process_state (curr_process s) PROCESS_WAITING s) (\<lambda>s.
                  bind_res (set_thread_state (curr_thread s) THREAD_BLOCKED s) (\<lambda>s.
                    ret (wait_child irqs (s\<lparr>schedule_pending := True\<rparr>))))
             else Inr s) (\<lambda>s.
          bind_res (reap child_pid child exit_ptr s) (\<lambda>s. reply regs (0, s))))))"

definition sys_getpid :: "'d ksys handler" where
  "sys_getpid regs s =
     (if curr_process s = 0 then refuse regs s
      else bind_res (process_at (curr_process s) s) (\<lambda>p. reply regs (pid p, s)))"

definition sys_getppid :: "'d ksys handler" where
  "sys_getppid regs s =
     (if curr_process s = 0 then refuse regs s
      else bind_res (process_at (curr_process s) s) (\<lambda>p.
        if parent p = 0 then refuse regs s
        else bind_res (process_at (parent p) s) (\<lambda>q. reply regs (pid q, s))))"

definition sys_exit_call :: "'d ksys handler" where
  "sys_exit_call regs s = bind_res (sys_exit regs s) (\<lambda>_. Inl Diverges)"

definition userspace_init :: "'d tables \<Rightarrow> ('d, clock) part \<Rightarrow> u32 \<Rightarrow> ('d ksys \<Rightarrow> 'd ksys res) list
    \<Rightarrow> 'd ksys isr_tables \<Rightarrow> 'd ksys isr_tables" where
  "userspace_init T K st_addr irqs H =
     fold (\<lambda>(num, h). syscall_register num h)
       [(1, sys_exit_call), (2, sys_open T), (3, sys_close T), (4, sys_read T), (5, sys_write T), (6, sys_ioctl T),
        (7, sys_readdir T), (8, sys_fstat T), (9, sys_time K), (10, sys_spawn T st_addr), (11, sys_wait irqs),
        (12, sys_getpid), (13, sys_getppid)] H"


section \<open>Properties\<close>

lemma val_ptr_iff:
  "val_ptr p n \<longleftrightarrow> p \<noteq> 0 \<and> unat p < 0xc0000000 \<and> (unat p + unat n < 0xc0000000 \<or> 4294967296 \<le> unat p + unat n)"
proof (cases "unat p + unat n < 4294967296")
  case True
  then show ?thesis by (auto simp: val_ptr_def word_le_nat_alt unat_add_u32 KERNEL_VIRT_BASE_def)
next
  case False
  have b: "unat p < 4294967296" "unat n < 4294967296" by simp_all
  then have "unat p + unat n - 4294967296 < 4294967296" by linarith
  then have "unat (p + n) = unat p + unat n - 4294967296" using False by (simp add: unat_word_ariths le_mod_geq)
  then have "unat p < 0xc0000000 \<Longrightarrow> unat (p + n) < 0xc0000000" using b by linarith
  then show ?thesis using False by (auto simp: val_ptr_def word_le_nat_alt KERNEL_VIRT_BASE_def)
qed

text \<open>C31: the check of a user buffer by \<open>sys_read\<close> and \<open>sys_write\<close>: a buffer at NULL or reaching the kernel's
  half is refused with -1 and no effect, and the call goes to the file otherwise; but a length with
  which the end wraps past 4 GiB is accepted as well, although the buffer then holds the whole of the kernel's half.\<close>

theorem user_buffer_check:
  "sys_read T regs s =
      (if r_ecx regs = 0 \<or> 0xc0000000 \<le> unat (r_ecx regs)
          \<or> 0xc0000000 \<le> unat (r_ecx regs) + unat (r_edx regs) \<and> unat (r_ecx regs) + unat (r_edx regs) < 4294967296
       then Inr (regs\<lparr>r_eax := -1\<rparr>, s)
       else bind_res (vfs_read T (r_ebx regs) (r_ecx regs) (r_edx regs) s) (\<lambda>(n, s). Inr (regs\<lparr>r_eax := n\<rparr>, s)))
   \<and> sys_write T regs s =
      (if r_ecx regs = 0 \<or> 0xc0000000 \<le> unat (r_ecx regs)
          \<or> 0xc0000000 \<le> unat (r_ecx regs) + unat (r_edx regs) \<and> unat (r_ecx regs) + unat (r_edx regs) < 4294967296
       then Inr (regs\<lparr>r_eax := -1\<rparr>, s)
       else bind_res (vfs_write T (r_ebx regs) (r_ecx regs) (r_edx regs) s) (\<lambda>(n, s). Inr (regs\<lparr>r_eax := n\<rparr>, s)))"
  by (auto simp: sys_read_def sys_write_def Let_def val_ptr_iff refuse_def reply_def split_beta)



definition dead_child :: process where
  "dead_child = (some_process 2)\<lparr>parent := 0x200, pstate := PROCESS_DEAD, pnext := 0x200, pthread := 0x40\<rparr>"

definition dead_thread :: thread where
  "dead_thread = \<lparr>esp = 0, stack_base = 0xe0000000, stack_size = 0x2000, tstate = THREAD_DEAD, tprocess = 0x100, tnext = 0x10\<rparr>"

definition zombie :: "unit ksys" where
  "zombie = (small_sys THREAD_RUNNING)
     \<lparr>processes := (\<lambda>_. None)(0x200 \<mapsto> some_process 1, 0x100 \<mapsto> dead_child),
      threads := (threads (small_sys THREAD_RUNNING))(0x40 \<mapsto> dead_thread),
      process_list := 0x100, curr_process := 0x200\<rparr>"


end
