(* ===== verification/Printf.thy ===== *)
theory Printf
  imports Ports Console "HOL-Library.Signed_Division"
begin

text \<open>
  Formatted output: \<open>itoa\<close> and \<open>utoa\<close> and \<open>ftoa\<close> of \<open>src/misc/util.c\<close>, and \<open>src/misc/printf.c\<close>.

  A format is the list of its bytes without the NUL, the arguments a list of \<open>arg\<close>s; the characters
  stand as their codes (\<open>0x25\<close> is the percent sign, \<open>0x30\<close> the digit 0). What is written to the buffer is a list:
  \<open>PUT\<close> appends to it while it is shorter than \<open>size - 1\<close>, which wraps for \<open>size = 0\<close>. The local arrays \<open>tmp\<close>
  keep their sizes: a store past their end is a \<open>Fault\<close>, as is an argument of the wrong type or a format
  that ends within a directive, where the code reads past its NUL. \<open>F\<close> stands for
  \<open>ftoa D\<close>, where \<open>D\<close> is the arithmetic on doubles.
\<close>

section \<open>Numbers\<close>

definition digits :: "u8 list" where
  "digits = [0x30, 0x31, 0x32, 0x33, 0x34, 0x35, 0x36, 0x37, 0x38, 0x39, 0x61, 0x62, 0x63, 0x64, 0x65, 0x66, 0]"

text \<open>The loop of \<open>utoa\<close>. The array \<open>tmp\<close>, its newest entry first, is the string that the second loop copies.\<close>

function utoa_digits :: "u32 \<Rightarrow> u32 \<Rightarrow> u8 list \<Rightarrow> u8 list res" where
  "utoa_digits base v tmp =
     (if v = 0 then Inr tmp
      else if base = 0 then Inl (Fault ''division'')
      else if length tmp \<ge> 32 then Inl (Fault ''tmp'')
      else if unat (v mod base) \<ge> length digits then Inl (Fault ''digits'')
      else utoa_digits base (v div base) (digits ! unat (v mod base) # tmp))"
  by pat_completeness auto
termination by (relation "measure (\<lambda>(base, v, tmp). 32 - length tmp)") auto

declare utoa_digits.simps [simp del]

definition utoa :: "u32 \<Rightarrow> u32 \<Rightarrow> u8 list res" where
  "utoa v base = (if v = 0 then Inr [0x30] else utoa_digits base v [])"

function itoa_digits :: "int \<Rightarrow> int \<Rightarrow> u8 list \<Rightarrow> u8 list res" where
  "itoa_digits base v tmp =
     (if v \<le> 0 then Inr tmp
      else if base = 0 then Inl (Fault ''division'')
      else if length tmp \<ge> 32 then Inl (Fault ''tmp'')
      else if nat (v smod base) \<ge> length digits then Inl (Fault ''digits'')
      else itoa_digits base (v sdiv base) (digits ! nat (v smod base) # tmp))"
  by pat_completeness auto
termination by (relation "measure (\<lambda>(base, v, tmp). 32 - length tmp)") auto

declare itoa_digits.simps [simp del]

definition itoa :: "u32 \<Rightarrow> u32 \<Rightarrow> u8 list res" where
  "itoa v base =
     (if v = 0 then Inr [0x30]
      else let negative = sint v < 0 \<and> base = 10; v = (if negative then - v else v)
           in bind_res (itoa_digits (sint base) (sint v) []) (\<lambda>tmp.
                if \<not> negative then Inr tmp
                else if length tmp \<ge> 32 then Inl (Fault ''tmp'')
                else Inr (0x2d # tmp)))"

text \<open>
  The arithmetic of \<open>double\<close> that \<open>ftoa\<close> uses: the test \<open>x < 0\<close>, \<open>- x\<close>, the conversion to \<open>int\<close>, \<open>x - i\<close> for an
  \<open>int\<close> and \<open>x * 10\<close>. It is a parameter, since the theory has no floating point.
\<close>

record 'f doubles =
  below_zero :: "'f \<Rightarrow> bool"
  negated :: "'f \<Rightarrow> 'f"
  to_int :: "'f \<Rightarrow> u32"
  minus_int :: "'f \<Rightarrow> u32 \<Rightarrow> 'f"
  times_10 :: "'f \<Rightarrow> 'f"

primrec frac_digits :: "'f doubles \<Rightarrow> nat \<Rightarrow> 'f \<Rightarrow> u8 list" where
  "frac_digits D 0 x = []"
| "frac_digits D (Suc n) x = (let x = times_10 D x; digit = to_int D x
     in (0x30 + ucast digit) # frac_digits D n (minus_int D x digit))"

definition ftoa :: "'f doubles \<Rightarrow> 'f \<Rightarrow> u32 \<Rightarrow> u8 list res" where
  "ftoa D value decimals =
     (let negative = below_zero D value; value = (if negative then negated D value else value); int_part = to_int D value
      in bind_res (itoa int_part 10) (\<lambda>tmp.
           let buf = (if negative then [0x2d] else []) @ tmp
           in if sint decimals \<le> 0 then Inr buf
              else Inr (buf @ 0x2e # frac_digits D (unat decimals) (minus_int D value int_part))))"

section \<open>vsnprintf\<close>

datatype 'f arg = Int_arg u32 | Str_arg "u8 list option" | Double_arg 'f

type_synonym 'f ftoa = "'f \<Rightarrow> u32 \<Rightarrow> u8 list res"

definition put :: "nat \<Rightarrow> u8 \<Rightarrow> u8 list \<Rightarrow> u8 list" where
  "put lim c out = (if length out < lim then out @ [c] else out)"

definition puts :: "nat \<Rightarrow> u8 list \<Rightarrow> u8 list \<Rightarrow> u8 list" where
  "puts lim cs out = fold (put lim) cs out"

definition pad_and_put :: "nat \<Rightarrow> bool \<Rightarrow> bool \<Rightarrow> u32 \<Rightarrow> u8 list \<Rightarrow> u8 list \<Rightarrow> u8 list" where
  "pad_and_put lim left_align zero_pad width tmp out =
     (let pad = nat (sint (width - of_nat (length tmp)));
          out = (if left_align then out else puts lim (replicate pad (if zero_pad then 0x30 else 0x20)) out);
          out = puts lim tmp out
      in if left_align then puts lim (replicate pad 0x20) out else out)"

fun parse_flags :: "bool \<Rightarrow> bool \<Rightarrow> u8 list \<Rightarrow> bool \<times> bool \<times> u8 list" where
  "parse_flags left_align zero_pad [] = (left_align, zero_pad, [])"
| "parse_flags left_align zero_pad (c # fmt) =
     (if c = 0x2d then parse_flags True zero_pad fmt
      else if c = 0x30 then parse_flags left_align True fmt
      else (left_align, zero_pad, c # fmt))"

fun parse_number :: "u32 \<Rightarrow> u8 list \<Rightarrow> u32 \<times> u8 list" where
  "parse_number n [] = (n, [])"
| "parse_number n (c # fmt) =
     (if 0x30 \<le> c \<and> c \<le> 0x39 then parse_number (n * 10 + (ucast c - 0x30)) fmt else (n, c # fmt))"

fun int_arg :: "'f arg list \<Rightarrow> (u32 \<times> 'f arg list) res" where
  "int_arg (Int_arg v # args) = Inr (v, args)"
| "int_arg args = Inl (Fault ''va_arg'')"

fun str_arg :: "'f arg list \<Rightarrow> (u8 list option \<times> 'f arg list) res" where
  "str_arg (Str_arg s # args) = Inr (s, args)"
| "str_arg args = Inl (Fault ''va_arg'')"

fun double_arg :: "'f arg list \<Rightarrow> ('f \<times> 'f arg list) res" where
  "double_arg (Double_arg x # args) = Inr (x, args)"
| "double_arg args = Inl (Fault ''va_arg'')"

definition parse_width :: "u8 list \<Rightarrow> 'f arg list \<Rightarrow> (u32 \<times> u8 list \<times> 'f arg list) res" where
  "parse_width fmt args =
     (if fmt \<noteq> [] \<and> hd fmt = 0x2a then bind_res (int_arg args) (\<lambda>(n, args). Inr (n, tl fmt, args))
      else let (n, fmt) = parse_number 0 fmt in Inr (n, fmt, args))"

definition parse_precision :: "u8 list \<Rightarrow> 'f arg list \<Rightarrow> (u32 \<times> u8 list \<times> 'f arg list) res" where
  "parse_precision fmt args = (if fmt \<noteq> [] \<and> hd fmt = 0x2e then parse_width (tl fmt) args else Inr (-1, fmt, args))"

text \<open>The digits of a number with its sign, in an array of 32 bytes, after the zeros the precision asks for.\<close>

definition zero_extend :: "u32 \<Rightarrow> u8 list \<Rightarrow> u8 list \<Rightarrow> u8 list res" where
  "zero_extend precision sign ds =
     (if sint precision > int (length ds)
      then let needed = nat (sint precision) - length ds
           in if length sign + length ds + needed \<ge> 32 then Inl (Fault ''tmp'')
              else Inr (sign @ replicate needed 0x30 @ ds)
      else Inr (sign @ ds))"

text \<open>The cases of the \<open>switch\<close> that take an argument: the characters to print padded.\<close>

definition conv_s :: "u32 \<Rightarrow> u8 list option \<Rightarrow> u8 list" where
  "conv_s precision arg =
     (let s = (case arg of None \<Rightarrow> [0x28, 0x6e, 0x75, 0x6c, 0x6c, 0x29] | Some s \<Rightarrow> s)
      in if sint precision \<ge> 0 \<and> sint precision < int (length s) then take (nat (sint precision)) s else s)"

definition conv_d :: "u32 \<Rightarrow> u32 \<Rightarrow> u8 list res" where
  "conv_d precision v =
     (let negative = sint v < 0; v = (if negative then - v else v)
      in bind_res (utoa v 10) (zero_extend precision (if negative then [0x2d] else [])))"

definition conv_u :: "u32 \<Rightarrow> u32 \<Rightarrow> u8 list res" where
  "conv_u precision v = bind_res (utoa v 10) (zero_extend precision [])"

definition conv_x :: "u32 \<Rightarrow> u32 \<Rightarrow> u8 list res" where
  "conv_x precision v = bind_res (utoa v 16) (zero_extend precision [])"

definition conv_p :: "u32 \<Rightarrow> u8 list res" where
  "conv_p v = bind_res (utoa v 16) (\<lambda>ds. Inr (0x30 # 0x78 # ds))"

definition conv_f :: "'f ftoa \<Rightarrow> u32 \<Rightarrow> 'f \<Rightarrow> u8 list res" where
  "conv_f F precision x =
     bind_res (F x (if sint precision \<ge> 0 then precision else 6)) (\<lambda>s.
       if length s \<ge> 64 then Inl (Fault ''tmp'') else Inr s)"

text \<open>The \<open>switch\<close>: \<open>None\<close> for the cases that print nothing padded.\<close>

definition convert :: "'f ftoa \<Rightarrow> u8 \<Rightarrow> u32 \<Rightarrow> 'f arg list \<Rightarrow> (u8 list option \<times> 'f arg list) res" where
  "convert F c precision args =
     (if c = 0x63 then bind_res (int_arg args) (\<lambda>(v, args). Inr (Some [ucast v], args))
      else if c = 0x73 then bind_res (str_arg args) (\<lambda>(s, args). Inr (Some (conv_s precision s), args))
      else if c = 0x64 then bind_res (int_arg args) (\<lambda>(v, args). bind_res (conv_d precision v) (\<lambda>t. Inr (Some t, args)))
      else if c = 0x75 then bind_res (int_arg args) (\<lambda>(v, args). bind_res (conv_u precision v) (\<lambda>t. Inr (Some t, args)))
      else if c = 0x78 then bind_res (int_arg args) (\<lambda>(v, args). bind_res (conv_x precision v) (\<lambda>t. Inr (Some t, args)))
      else if c = 0x70 then bind_res (int_arg args) (\<lambda>(v, args). bind_res (conv_p v) (\<lambda>t. Inr (Some t, args)))
      else if c = 0x66 then bind_res (double_arg args) (\<lambda>(x, args). bind_res (conv_f F precision x) (\<lambda>t. Inr (Some t, args)))
      else Inr (None, args))"

definition emit :: "nat \<Rightarrow> bool \<Rightarrow> bool \<Rightarrow> u32 \<Rightarrow> u8 \<Rightarrow> u8 list option \<Rightarrow> u8 list \<Rightarrow> u8 list" where
  "emit lim left_align zero_pad width c tmp out = (case tmp of
       Some t \<Rightarrow> pad_and_put lim left_align zero_pad width t out
     | None \<Rightarrow> if c = 0x25 then put lim 0x25 out else out)"

text \<open>A directive, after its percent sign.\<close>

definition directive :: "'f ftoa \<Rightarrow> nat \<Rightarrow> u8 list \<Rightarrow> 'f arg list \<Rightarrow> u8 list
    \<Rightarrow> (u8 list \<times> 'f arg list \<times> u8 list) res" where
  "directive F lim fmt args out =
     (let (left_align, zero_pad, fmt) = parse_flags False False fmt; zero_pad = (zero_pad \<and> \<not> left_align) in
      bind_res (parse_width fmt args) (\<lambda>(width, fmt, args).
      bind_res (parse_precision fmt args) (\<lambda>(precision, fmt, args).
      case fmt of
        [] \<Rightarrow> Inl (Fault ''format'')
      | c # fmt \<Rightarrow> bind_res (convert F c precision args) (\<lambda>(tmp, args).
          Inr (fmt, args, emit lim left_align zero_pad width c tmp out)))))"

lemma parse_flags_shorter: "parse_flags l z fmt = (l', z', fmt') \<Longrightarrow> length fmt' \<le> length fmt"
  by (induction l z fmt rule: parse_flags.induct) (auto split: if_splits)

lemma parse_number_shorter: "parse_number n fmt = (n', fmt') \<Longrightarrow> length fmt' \<le> length fmt"
  by (induction n fmt rule: parse_number.induct) (auto split: if_splits)

lemma parse_width_shorter: "parse_width fmt args = Inr (n, fmt', args') \<Longrightarrow> length fmt' \<le> length fmt"
  by (auto simp: parse_width_def split: if_splits prod.splits dest: parse_number_shorter)

lemma parse_precision_shorter: "parse_precision fmt args = Inr (n, fmt', args') \<Longrightarrow> length fmt' \<le> length fmt"
  by (auto simp: parse_precision_def split: if_splits dest!: parse_width_shorter)

lemma directive_shorter:
  assumes "directive F lim fmt args out = Inr (fmt', args', out')"
  shows "length fmt' < length fmt"
proof -
  obtain l z fmt1 where f: "parse_flags False False fmt = (l, z, fmt1)" by (metis prod_cases3)
  from assms f obtain w fmt2 args2 p fmt3 args3 c where
    w: "parse_width fmt1 args = Inr (w, fmt2, args2)" and p: "parse_precision fmt2 args2 = Inr (p, fmt3, args3)"
    and "fmt3 = c # fmt'"
    by (auto simp: directive_def Let_def neq_Nil_conv split: list.splits prod.splits)
  then show ?thesis using parse_flags_shorter [OF f] parse_width_shorter [OF w] parse_precision_shorter [OF p] by simp
qed

text \<open>
  The loop over the format. \<open>PUT(*fmt++)\<close> evaluates its argument only while the buffer has room: at an
  ordinary character with a full buffer \<open>fmt\<close> stays where it is and the loop does not end.
\<close>

partial_function (option) format_loop :: "'f ftoa \<Rightarrow> nat \<Rightarrow> u8 list \<Rightarrow> 'f arg list \<Rightarrow> u8 list \<Rightarrow> u8 list res option" where
  "format_loop F lim fmt args out = (case fmt of
       [] \<Rightarrow> Some (Inr out)
     | c # rest \<Rightarrow>
         if c \<noteq> 0x25
         then if length out < lim then format_loop F lim rest args (out @ [c]) else format_loop F lim fmt args out
         else (case directive F lim rest args out of
             Inl e \<Rightarrow> Some (Inl e)
           | Inr (rest, args, out) \<Rightarrow> format_loop F lim rest args out))"

text \<open>What the buffer holds, and the length that is returned.\<close>

definition vsnprintf :: "'f ftoa \<Rightarrow> u32 \<Rightarrow> u8 list \<Rightarrow> 'f arg list \<Rightarrow> (u8 list \<times> u32) res" where
  "vsnprintf F bufsize fmt args =
     bind_res (ret (format_loop F (unat (bufsize - 1)) fmt args [])) (\<lambda>out. Inr (out @ [0], of_nat (length out)))"

definition ksnprintf :: "'f ftoa \<Rightarrow> u32 \<Rightarrow> u8 list \<Rightarrow> 'f arg list \<Rightarrow> (u8 list \<times> u32) res" where
  "ksnprintf F bufsize fmt args = vsnprintf F bufsize fmt args"

section \<open>Output\<close>

definition serial_vprintf :: "inputs \<Rightarrow> 'f ftoa \<Rightarrow> u8 list \<Rightarrow> 'f arg list \<Rightarrow> ports \<Rightarrow> (u32 \<times> ports) res" where
  "serial_vprintf inp F fmt args io =
     bind_res (vsnprintf F 1024 fmt args) (\<lambda>(buf, len).
     bind_res (ret (map_option Inr (serial_write inp (takeWhile (\<lambda>c. c \<noteq> 0) buf) io))) (\<lambda>io. Inr (len, io)))"

definition serial_printf :: "inputs \<Rightarrow> 'f ftoa \<Rightarrow> u8 list \<Rightarrow> 'f arg list \<Rightarrow> ports \<Rightarrow> (u32 \<times> ports) res" where
  "serial_printf inp F fmt args io =
     bind_res (vsnprintf F 1024 fmt args) (\<lambda>(buf, len).
     bind_res (ret (map_option Inr (serial_write inp (takeWhile (\<lambda>c. c \<noteq> 0) buf) io))) (\<lambda>io. Inr (len, io)))"

definition console_vprintf :: "'f ftoa \<Rightarrow> u8 list \<Rightarrow> 'f arg list \<Rightarrow> console \<Rightarrow> (u32 \<times> console) res" where
  "console_vprintf F fmt args con =
     bind_res (vsnprintf F 1024 fmt args) (\<lambda>(buf, len).
       Inr (len, fold console_putchar (takeWhile (\<lambda>c. c \<noteq> 0) buf) con))"

definition console_printf :: "'f ftoa \<Rightarrow> u8 list \<Rightarrow> 'f arg list \<Rightarrow> console \<Rightarrow> (u32 \<times> console) res" where
  "console_printf F fmt args con =
     bind_res (vsnprintf F 1024 fmt args) (\<lambda>(buf, len).
       Inr (len, fold console_putchar (takeWhile (\<lambda>c. c \<noteq> 0) buf) con))"

section \<open>Truncation\<close>

text \<open>Output in a shorter buffer is the start of the output in a longer one.\<close>

lemma take_more: "n \<le> m \<Longrightarrow> take n (take m xs @ ys) = take n (xs @ ys)"
  by (cases "length xs \<le> m") (simp_all add: min_absorb1)

lemma put_take: "length out \<le> lim \<Longrightarrow> put lim c out = take lim (out @ [c])"
  by (cases "length out < lim") (simp_all add: put_def)

lemma puts_take: "length out \<le> lim \<Longrightarrow> puts lim cs out = take lim (out @ cs)"
proof (induction cs arbitrary: out)
  case (Cons c cs)
  then have "puts lim (c # cs) out = take lim (take lim (out @ [c]) @ cs)" by (simp add: puts_def put_take)
  then show ?case by (simp add: take_more del: take_append)
qed (simp add: puts_def)

lemma pad_and_put_take:
  assumes "length out \<le> lim"
  shows "pad_and_put lim l z w t out =
    (let pad = nat (sint (w - of_nat (length t)))
     in take lim (out @ (if l then t @ replicate pad 0x20 else replicate pad (if z then 0x30 else 0x20) @ t)))"
  using assms by (simp add: pad_and_put_def Let_def puts_take take_more del: take_append)

lemma emit_take:
  "lim \<le> lim' \<Longrightarrow> length out \<le> lim' \<Longrightarrow> emit lim l z w c t (take lim out) = take lim (emit lim' l z w c t out)"
  by (simp add: emit_def pad_and_put_take put_take Let_def take_more min_absorb1 del: take_append split: option.split)

lemma emit_length: "length out \<le> lim \<Longrightarrow> length (emit lim l z w c t out) \<le> lim"
  by (simp add: emit_def pad_and_put_take put_take Let_def del: take_append split: option.split)

definition shorten :: "nat \<Rightarrow> ('a \<times> 'b \<times> u8 list) res \<Rightarrow> ('a \<times> 'b \<times> u8 list) res" where
  "shorten lim r = bind_res r (\<lambda>(a, b, out). Inr (a, b, take lim out))"

lemma directive_take:
  "lim \<le> lim' \<Longrightarrow> length out \<le> lim' \<Longrightarrow>
    directive F lim fmt args (take lim out) = shorten lim (directive F lim' fmt args out)"
  by (simp add: directive_def shorten_def Let_def bind_res_def emit_take split: sum.splits prod.splits list.splits)

lemma directive_length:
  "length out \<le> lim \<Longrightarrow> directive F lim fmt args out = Inr (fmt', args', out') \<Longrightarrow> length out' \<le> lim"
  by (auto simp: directive_def Let_def emit_length neq_Nil_conv split: list.splits prod.splits)

lemma directive_grows:
  "length out \<le> lim \<Longrightarrow> directive F lim fmt args out = Inr (fmt', args', out') \<Longrightarrow> length out \<le> length out'"
  by (auto simp: directive_def emit_def pad_and_put_take put_take Let_def neq_Nil_conv simp del: take_append
      split: list.splits prod.splits option.splits)

text \<open>The steps of the loop. At a full buffer an ordinary character is never passed.\<close>

lemma format_loop_simps [simp]:
  "format_loop F lim [] args out = Some (Inr out)"
  "c \<noteq> 0x25 \<Longrightarrow> length out < lim \<Longrightarrow> format_loop F lim (c # fmt) args out = format_loop F lim fmt args (out @ [c])"
  "format_loop F lim (0x25 # fmt) args out = (case directive F lim fmt args out of
       Inl e \<Rightarrow> Some (Inl e) | Inr (fmt, args, out) \<Rightarrow> format_loop F lim fmt args out)"
  by (subst format_loop.simps, simp)+

lemma format_loop_stuck [simp]:
  assumes "c \<noteq> 0x25" "lim \<le> length out"
  shows "format_loop F lim (c # fmt) args out = None"
proof -
  have "format_loop F lim f a o1 = Some r \<Longrightarrow> \<not> (f = c # fmt \<and> lim \<le> length o1)" for f a o1 r
    by (erule format_loop.raw_induct [rotated]) (use assms(1) in \<open>auto split: list.splits if_splits\<close>)
  then show ?thesis using assms by (metis option.exhaust)
qed

lemma format_loop_take:
  "lim \<le> lim' \<Longrightarrow> length out \<le> lim' \<Longrightarrow> format_loop F lim fmt args (take lim out) = Some r \<Longrightarrow>
    \<exists>r'. format_loop F lim' fmt args out = Some r' \<and> r = bind_res r' (\<lambda>out. Inr (take lim out))"
proof (induction "length fmt" arbitrary: fmt args out rule: less_induct)
  case less
  note directive_take [OF less.prems(1,2), where F = F, simp]
  show ?case
  proof (cases fmt)
    case (Cons c rest)
    show ?thesis
    proof (cases "c = 0x25")
      case False
      then have "length out < lim" using less.prems(3) Cons by (cases "length out < lim") simp_all
      then show ?thesis using less.hyps [of rest "out @ [c]" args] less.prems False Cons by simp
    next
      case True
      show ?thesis
      proof (cases "directive F lim' rest args out")
        case (Inr x)
        obtain f a o1 where x: "x = (f, a, o1)" by (rule prod_cases3)
        then have "length f < length fmt" "length o1 \<le> lim'"
          using directive_shorter directive_length less.prems(2) Inr Cons by fastforce+
        then show ?thesis using less.hyps [of f o1 a] less.prems Inr True Cons x by (simp add: shorten_def)
      qed (use True Cons less.prems(3) in \<open>auto simp: shorten_def\<close>)
    qed
  qed (use less.prems(3) in auto)
qed

lemma format_loop_length:
  "length out \<le> lim \<Longrightarrow> format_loop F lim fmt args out = Some (Inr out') \<Longrightarrow> length out \<le> length out' \<and> length out' \<le> lim"
proof (induction "length fmt" arbitrary: fmt args out rule: less_induct)
  case less
  show ?case
  proof (cases fmt)
    case (Cons c rest)
    show ?thesis
    proof (cases "c = 0x25")
      case False
      then have "length out < lim" using less.prems(2) Cons by (cases "length out < lim") simp_all
      then show ?thesis using less.hyps [of rest "out @ [c]" args] less.prems False Cons by simp
    next
      case True
      then obtain f a o1 where d: "directive F lim rest args out = Inr (f, a, o1)" "format_loop F lim f a o1 = Some (Inr out')"
        using less.prems(2) Cons by (auto split: sum.splits)
      then show ?thesis using less.hyps [of f o1 a] directive_length [OF less.prems(1) d(1)] directive_grows [OF less.prems(1) d(1)]
          directive_shorter [OF d(1)] Cons by simp
    qed
  qed (use less.prems in auto)
qed

lemma format_loop_fits:
  "lim \<le> lim' \<Longrightarrow> length out \<le> lim' \<Longrightarrow> format_loop F lim' fmt args out = Some (Inr out') \<Longrightarrow> length out' \<le> lim \<Longrightarrow>
    format_loop F lim fmt args out = Some (Inr out')"
proof (induction "length fmt" arbitrary: fmt args out rule: less_induct)
  case less
  have out: "length out \<le> lim" using format_loop_length [OF less.prems(2,3)] less.prems(4) by simp
  show ?case
  proof (cases fmt)
    case (Cons c rest)
    show ?thesis
    proof (cases "c = 0x25")
      case False
      then have "length out < lim'" using less.prems(3) Cons by (cases "length out < lim'") simp_all
      then have step: "format_loop F lim' rest args (out @ [c]) = Some (Inr out')" using less.prems(3) Cons False by simp
      then have "length out < lim" using format_loop_length [OF _ step] less.prems(4) \<open>length out < lim'\<close> by simp
      then show ?thesis using less.hyps [of rest "out @ [c]" args] less.prems step False Cons by simp
    next
      case True
      then obtain f a o1 where d: "directive F lim' rest args out = Inr (f, a, o1)" "format_loop F lim' f a o1 = Some (Inr out')"
        using less.prems(3) Cons by (auto split: sum.splits)
      have l: "length o1 \<le> lim'" by (rule directive_length [OF less.prems(2) d(1)])
      then have "length o1 \<le> lim" using format_loop_length [OF l d(2)] less.prems(4) by simp
      then have "directive F lim rest args out = Inr (f, a, o1)"
        using directive_take [OF less.prems(1,2), of F rest args] d(1) out by (simp add: shorten_def)
      then show ?thesis using less.hyps [of f o1 a] less.prems(1,4) d l directive_shorter [OF d(1)] True Cons by simp
    qed
  qed (use less.prems in auto)
qed

lemma format_loop_plain:
  "0x25 \<notin> set fmt \<Longrightarrow> length out \<le> lim \<Longrightarrow>
    format_loop F lim fmt args out = (if length out + length fmt \<le> lim then Some (Inr (out @ fmt)) else None)"
proof (induction fmt arbitrary: out)
  case (Cons c fmt)
  then show ?case by (cases "length out < lim") auto
qed simp

section \<open>The value of a number's digits\<close>

definition digit_val :: "u8 \<Rightarrow> nat" where
  "digit_val c = (if c \<le> 0x39 then unat c - 0x30 else unat c - 0x57)"

definition digits_val :: "nat \<Rightarrow> u8 list \<Rightarrow> nat" where
  "digits_val base ds = foldl (\<lambda>n c. n * base + digit_val c) 0 ds"

text \<open>Digits of the base, without a leading zero unless there is just one digit.\<close>

definition numeral_ok :: "nat \<Rightarrow> u8 list \<Rightarrow> bool" where
  "numeral_ok base ds \<longleftrightarrow> ds \<noteq> [] \<and> set ds \<subseteq> set (take base digits) \<and> (hd ds = 0x30 \<longrightarrow> length ds = 1)"

lemma length_digits [simp]: "length digits = 17"
  by (simp add: digits_def)

lemma digit_val_nth: "i < 16 \<Longrightarrow> digit_val (digits ! i) = i"
proof -
  have "list_all (\<lambda>i. digit_val (digits ! i) = i) [0..<16]" by code_simp
  then show "i < 16 \<Longrightarrow> ?thesis" by (simp add: list_all_length)
qed

lemma digits_val_snoc: "digits_val base (ds @ [c]) = digits_val base ds * base + digit_val c"
  by (simp add: digits_val_def)

lemma digits_val_zeros: "digits_val base (replicate n 0x30 @ ds) = digits_val base ds"
  by (induction n) (simp_all add: digits_val_def digit_val_def)

lemma utoa_digits_spec:
  assumes "2 \<le> unat base" "unat base \<le> 16"
  shows "length tmp + k \<le> 32 \<Longrightarrow> unat v < unat base ^ k \<Longrightarrow>
    \<exists>ds. utoa_digits base v tmp = Inr (ds @ tmp) \<and> length ds \<le> k \<and> digits_val (unat base) ds = unat v
      \<and> set ds \<subseteq> set (take (unat base) digits) \<and> (ds = [] \<longleftrightarrow> v = 0) \<and> (ds \<noteq> [] \<longrightarrow> hd ds \<noteq> 0x30)"
proof (induction k arbitrary: v tmp)
  case 0
  then have "v = 0" by (simp add: unat_eq_0)
  then show ?case by (subst utoa_digits.simps) (simp add: digits_val_def)
next
  case (Suc k)
  show ?case
  proof (cases "v = 0")
    case True
    then show ?thesis by (subst utoa_digits.simps) (auto simp: digits_val_def intro!: exI [of _ "[]"])
  next
    case False
    let ?d = "digits ! unat (v mod base)"
    have b: "base \<noteq> 0" using assms(1) by auto
    have d: "unat (v mod base) < unat base" using assms(1) by (simp add: unat_mod)
    have "unat (v div base) < unat base ^ k"
      using Suc.prems(2) by (simp add: unat_div less_mult_imp_div_less mult.commute)
    then obtain ds where ds: "utoa_digits base (v div base) (?d # tmp) = Inr (ds @ ?d # tmp)" "length ds \<le> k"
      "digits_val (unat base) ds = unat (v div base)" "set ds \<subseteq> set (take (unat base) digits)"
      "ds = [] \<longleftrightarrow> v div base = 0" "ds \<noteq> [] \<longrightarrow> hd ds \<noteq> 0x30"
      using Suc.IH [of "?d # tmp" "v div base"] Suc.prems(1) by auto
    have "?d \<in> set (take (unat base) digits)" using d assms(2) nth_mem [of "unat (v mod base)" "take (unat base) digits"] by simp
    moreover have "?d \<noteq> 0x30" if "ds = []"
    proof
      assume "?d = 0x30"
      moreover have "digit_val ?d = unat (v mod base)" using digit_val_nth d assms(2) by simp
      ultimately have "unat (v mod base) = 0" by (simp add: digit_val_def)
      then have "unat v mod unat base = 0" by (simp only: unat_mod)
      moreover have "unat v div unat base = 0" using that ds(5) unat_div [of v base] by simp
      ultimately have "unat v = 0" using div_mult_mod_eq [of "unat v" "unat base"] by simp
      then show False using False by (simp only: unat_eq_0)
    qed
    moreover have "digits_val (unat base) (ds @ [?d]) = unat v"
      using digit_val_nth [of "unat (v mod base)"] d assms(2) ds(3) by (simp add: digits_val_snoc unat_div unat_mod)
    ultimately show ?thesis using ds(1,2,4,6) False b d assms(2) Suc.prems(1)
      by (intro exI [of _ "ds @ [?d]"], subst utoa_digits.simps) (auto simp: hd_append)
  qed
qed

lemma utoa_spec:
  assumes "2 \<le> unat base" "unat base \<le> 16" "unat v < unat base ^ k" "0 < k" "k \<le> 32"
  shows "\<exists>ds. utoa v base = Inr ds \<and> numeral_ok (unat base) ds \<and> length ds \<le> k \<and> digits_val (unat base) ds = unat v"
proof (cases "v = 0")
  case True
  have "0x30 \<in> set (take (unat base) digits)" using assms(1) by (cases "unat base") (simp_all add: digits_def)
  then show ?thesis using True assms(4) by (simp add: utoa_def numeral_ok_def digits_val_def digit_val_def)
next
  case False
  then show ?thesis using utoa_digits_spec [OF assms(1,2), of "[]" k v] assms(3,5) by (auto simp: utoa_def numeral_ok_def)
qed

lemma utoa_10: "\<exists>ds. utoa v 10 = Inr ds \<and> numeral_ok 10 ds \<and> length ds \<le> 10 \<and> digits_val 10 ds = unat v"
  using utoa_spec [of 10 v 10] unat_u32_bound [of v] by (simp add: less_trans)

lemma utoa_16: "\<exists>ds. utoa v 16 = Inr ds \<and> numeral_ok 16 ds \<and> length ds \<le> 8 \<and> digits_val 16 ds = unat v"
  using utoa_spec [of 16 v 8] unat_u32_bound [of v] by simp

text \<open>Signed decimal numbers.\<close>

definition int_val :: "u8 list \<Rightarrow> int" where
  "int_val ds = (if hd ds = 0x2d then - int (digits_val 10 (tl ds)) else int (digits_val 10 ds))"

lemma numeral_sign: "numeral_ok b ds \<Longrightarrow> hd ds \<noteq> 0x2d"
proof -
  have "list_all (\<lambda>c. c \<noteq> 0x2d) digits" by code_simp
  then show "numeral_ok b ds \<Longrightarrow> ?thesis" by (cases ds) (auto simp: numeral_ok_def list_all_iff dest: in_set_takeD)
qed

lemma magnitude:
  "sint (v :: u32) < 0 \<Longrightarrow> int (unat (- v)) = - sint v"
  "0 \<le> sint v \<Longrightarrow> int (unat v) = sint v"
proof -
  have b: "- 2147483648 \<le> sint v" "sint v < 2147483648"
    using sint_greater_eq [of v] sint_less [of v] by simp_all
  have "uint (- v) = (- sint v) mod 4294967296" using uint_word_of_int [where 'a = 32, of "- sint v"] by simp
  then show "sint v < 0 \<Longrightarrow> int (unat (- v)) = - sint v" using b by simp
  have "uint v = sint v mod 4294967296" using uint_word_of_int [where 'a = 32, of "sint v"] by simp
  then show "0 \<le> sint v \<Longrightarrow> int (unat v) = sint v" using b by simp
qed

lemma conv_d_spec: "\<exists>ds. conv_d (-1) v = Inr ds \<and> int_val ds = sint v \<and> ds \<noteq> [] \<and> length ds \<le> 11"
proof (cases "sint v < 0")
  case True
  obtain ds where "utoa (- v) 10 = Inr ds" "digits_val 10 ds = unat (- v)" "length ds \<le> 10" using utoa_10 by blast
  then show ?thesis using magnitude(1) [OF True] True
    by (simp add: conv_d_def zero_extend_def int_val_def Let_def)
next
  case False
  obtain ds where ds: "utoa v 10 = Inr ds" "digits_val 10 ds = unat v" "length ds \<le> 10" "numeral_ok 10 ds" using utoa_10 by blast
  have "int (unat v) = sint v" using False magnitude(2) by simp
  then show ?thesis using ds numeral_sign [OF ds(4)] False
    by (auto simp: conv_d_def zero_extend_def int_val_def Let_def numeral_ok_def)
qed

text \<open>The directives %d, %u, %x and %08x on their own.\<close>

lemma plain_directive:
  assumes "c \<noteq> 0x25" "c \<notin> {0x2d, 0x30, 0x2a, 0x2e}" "\<not> (0x30 \<le> c \<and> c \<le> 0x39)"
    and "convert F c (-1) args = Inr (Some t, args')" "length t < unat n" "length t < 2147483648"
  shows "vsnprintf F n [0x25, c] args = Inr (t @ [0], of_nat (length t))"
proof -
  have "n \<noteq> 0" using assms(5) by auto
  then have "length t \<le> unat (n - 1)" using assms(5) by (simp add: unat_dec_u32)
  moreover have "nat (sint (- of_nat (length t) :: u32)) = 0"
  proof (cases "length t = 0")
    case False
    have "sint (of_nat (length t) :: u32) = int (length t)" using sint_small [of "of_nat (length t)"] assms(6) by simp
    then have "sint (- (of_nat (length t) :: u32)) = - int (length t)"
      using assms(6) by (simp add: sint_word_minus signed_take_bit_int_eq_self_iff)
    then show ?thesis by simp
  qed simp
  ultimately show ?thesis using assms
    by (simp add: vsnprintf_def directive_def parse_width_def parse_precision_def emit_def pad_and_put_take Let_def)
qed

lemma directive_08x:
  assumes "utoa v 16 = Inr ds" "length ds \<le> 8" "8 < unat n"
  shows "vsnprintf F n [0x25, 0x30, 0x38, 0x78] [Int_arg v] = Inr (replicate (8 - length ds) 0x30 @ ds @ [0], 8)"
proof -
  have "n \<noteq> 0" using assms(3) by auto
  then have l: "8 \<le> unat (n - 1)" using assms(3) by (simp add: unat_dec_u32)
  have "(8 :: u32) - of_nat (length ds) = of_nat (8 - length ds)" using assms(2) by (simp add: of_nat_diff)
  then have "nat (sint ((8 :: u32) - of_nat (length ds))) = 8 - length ds"
    using sint_small [of "of_nat (8 - length ds)"] by simp
  then show ?thesis using assms l
    by (simp add: vsnprintf_def directive_def parse_width_def parse_precision_def convert_def conv_x_def zero_extend_def
        emit_def pad_and_put_take Let_def)
qed

text \<open>\<open>itoa\<close> negates a negative number in place, which leaves the smallest one negative: its loop then prints no digit.\<close>

lemma itoa_min: "itoa 0x80000000 10 = Inr [0x2d]"
proof -
  have "itoa_digits 10 (- 2147483648) [] = Inr []" by (subst itoa_digits.simps) simp
  then show ?thesis by (simp add: itoa_def Let_def)
qed

section \<open>Properties\<close>

text \<open>C34: numbers survive printing: in a buffer of at least 12 bytes, the string of %d reads as the signed
  value of its argument (also for the smallest one, which has no negation), that of %u as a decimal numeral
  without leading zeros of its value, and %08x gives exactly eight hexadecimal digits of it. But %05d pads a
  negative number with zeros before its sign, which is no numeral.\<close>

theorem printed_numbers_read_back:
  assumes "12 \<le> unat n"
  shows "(\<exists>ds. vsnprintf F n [0x25, 0x64] [Int_arg v] = Inr (ds @ [0], of_nat (length ds)) \<and> int_val ds = sint v)
    \<and> (\<exists>ds. vsnprintf F n [0x25, 0x75] [Int_arg v] = Inr (ds @ [0], of_nat (length ds))
        \<and> numeral_ok 10 ds \<and> digits_val 10 ds = unat v)
    \<and> (\<exists>ds. vsnprintf F n [0x25, 0x30, 0x38, 0x78] [Int_arg v] = Inr (ds @ [0], 8)
        \<and> length ds = 8 \<and> set ds \<subseteq> set (take 16 digits) \<and> digits_val 16 ds = unat v)
    \<and> vsnprintf F n [0x25, 0x30, 0x35, 0x64] [Int_arg (- 42)] = Inr ([0x30, 0x30, 0x2d, 0x34, 0x32, 0], 5)"
proof (intro conjI)
  obtain ds where "conv_d (-1) v = Inr ds" "int_val ds = sint v" "length ds \<le> 11" using conv_d_spec by blast
  then show "\<exists>ds. vsnprintf F n [0x25, 0x64] [Int_arg v] = Inr (ds @ [0], of_nat (length ds)) \<and> int_val ds = sint v"
    using assms by (intro exI [of _ ds] conjI plain_directive) (simp_all add: convert_def)
next
  obtain ds where "utoa v 10 = Inr ds" "numeral_ok 10 ds" "length ds \<le> 10" "digits_val 10 ds = unat v" using utoa_10 by blast
  then show "\<exists>ds. vsnprintf F n [0x25, 0x75] [Int_arg v] = Inr (ds @ [0], of_nat (length ds))
      \<and> numeral_ok 10 ds \<and> digits_val 10 ds = unat v"
    using assms by (intro exI [of _ ds] conjI plain_directive) (simp_all add: convert_def conv_u_def zero_extend_def)
next
  obtain ds where ds: "utoa v 16 = Inr ds" "numeral_ok 16 ds" "length ds \<le> 8" "digits_val 16 ds = unat v" using utoa_16 by blast
  then have "set (replicate (8 - length ds) 0x30 @ ds) \<subseteq> set (take 16 digits)" by (auto simp: numeral_ok_def digits_def)
  then show "\<exists>ds. vsnprintf F n [0x25, 0x30, 0x38, 0x78] [Int_arg v] = Inr (ds @ [0], 8)
      \<and> length ds = 8 \<and> set ds \<subseteq> set (take 16 digits) \<and> digits_val 16 ds = unat v"
    using directive_08x [OF ds(1,3), of n F] ds assms
    by (intro exI [of _ "replicate (8 - length ds) 0x30 @ ds"]) (simp add: digits_val_zeros)
next
  have "utoa 42 10 = Inr [0x34, 0x32]" by code_simp
  moreover have "replicate 2 (0x30 :: u8) = [0x30, 0x30]" by (simp add: numeral_2_eq_2)
  moreover have "5 \<le> unat (n - 1)" using assms by (simp add: unat_dec_u32 unat_eq_0 [symmetric])
  ultimately show "vsnprintf F n [0x25, 0x30, 0x35, 0x64] [Int_arg (- 42)] = Inr ([0x30, 0x30, 0x2d, 0x34, 0x32, 0], 5)"
    by (simp add: vsnprintf_def directive_def parse_width_def parse_precision_def convert_def conv_d_def zero_extend_def
        emit_def pad_and_put_take Let_def)
qed

lemma printed_numbers_read_back_witness:
  "12 \<le> unat (1024 :: u32) \<and> (\<exists>ds. vsnprintf (\<lambda>(x :: unit) n. Inr []) 1024 [0x25, 0x64] [Int_arg 0x80000000]
     = Inr (ds @ [0], of_nat (length ds)) \<and> int_val ds = - 2147483648)"
  using printed_numbers_read_back [of 1024 "\<lambda>x n. Inr []" "0x80000000"] by auto

text \<open>C33: what \<open>vsnprintf\<close> returns is right: with a size that is not 0, the buffer is never overrun, the string with its NUL
  fits in it, the value returned is the length of what was stored (not the length wanted, as in the C library), and
  the string is the start of what an unlimited buffer (size 0, which wraps) would hold. Whatever fits is printed. But a
  full buffer is not always a shorter output: a format without directives that does not fit is never finished.\<close>

theorem vsnprintf_bounded:
  assumes "0 < bufsize"
  shows "(\<forall>buf len. vsnprintf F bufsize fmt args = Inr (buf, len) \<longrightarrow>
      length buf \<le> unat bufsize \<and> unat len = length buf - 1 \<and> buf \<noteq> [] \<and> last buf = 0
      \<and> (\<exists>s. vsnprintf F 0 fmt args = Inr (s @ [0], of_nat (length s)) \<and> butlast buf = take (unat bufsize - 1) s))
    \<and> (\<forall>s n. vsnprintf F 0 fmt args = Inr (s @ [0], n) \<and> length s < unat bufsize
        \<longrightarrow> vsnprintf F bufsize fmt args = Inr (s @ [0], n))
    \<and> (0x25 \<notin> set fmt \<longrightarrow> vsnprintf F bufsize fmt args =
        (if length fmt < unat bufsize then Inr (fmt @ [0], of_nat (length fmt)) else Inl Diverges))"
proof -
  have n: "unat (bufsize - 1) = unat bufsize - 1" "0 < unat bufsize" using assms by (auto simp: unat_dec_u32 unat_gt_0 word_neq_0_conv)
  have lim: "unat bufsize - 1 \<le> 4294967295" using unat_u32_bound [of bufsize] by linarith
  have start: "\<exists>s. vsnprintf F 0 fmt args = Inr (s @ [0], of_nat (length s)) \<and> out = take (unat bufsize - 1) s
      \<and> length out \<le> unat bufsize - 1"
    if f: "format_loop F (unat bufsize - 1) fmt args [] = Some (Inr out)" for out
    using format_loop_take [OF lim, of "[]" F fmt args "Inr out"] format_loop_length [OF _ f] f
    by (auto simp: vsnprintf_def eq_commute [of "Inr _" "bind_res _ _"])
  have "vsnprintf F bufsize fmt args = Inr (s @ [0], k)"
    if "vsnprintf F 0 fmt args = Inr (s @ [0], k)" "length s < unat bufsize" for s k
    using that format_loop_fits [OF lim, of "[]" F fmt args s] n
    by (cases "format_loop F 4294967295 fmt args []") (auto simp: vsnprintf_def)
  moreover have "vsnprintf F bufsize fmt args = (if length fmt < unat bufsize then Inr (fmt @ [0], of_nat (length fmt)) else Inl Diverges)"
    if "0x25 \<notin> set fmt"
    using format_loop_plain [OF that, of "[]" "unat bufsize - 1" F args] n by (auto simp: vsnprintf_def)
  moreover have "length buf \<le> unat bufsize \<and> unat len = length buf - 1 \<and> buf \<noteq> [] \<and> last buf = 0
      \<and> (\<exists>s. vsnprintf F 0 fmt args = Inr (s @ [0], of_nat (length s)) \<and> butlast buf = take (unat bufsize - 1) s)"
    if v: "vsnprintf F bufsize fmt args = Inr (buf, len)" for buf len
  proof -
    obtain out where out: "format_loop F (unat bufsize - 1) fmt args [] = Some (Inr out)" "buf = out @ [0]" "len = of_nat (length out)"
      using v n by (cases "format_loop F (unat bufsize - 1) fmt args []") (auto simp: vsnprintf_def)
    have "length out < 4294967296" using start [OF out(1)] lim by auto
    then show ?thesis using start [OF out(1)] out(2,3) n by auto
  qed
  ultimately show ?thesis by blast
qed

lemma vsnprintf_bounded_witness:
  "0 < (4 :: u32) \<and> vsnprintf (\<lambda>(x :: unit) n. Inr []) 4 [0x61, 0x62, 0x63] [] = Inr ([0x61, 0x62, 0x63, 0], 3)
    \<and> vsnprintf (\<lambda>(x :: unit) n. Inr []) 4 [0x61, 0x62, 0x63, 0x64] [] = Inl Diverges"
  using vsnprintf_bounded [of 4 "\<lambda>(x :: unit) n. Inr []" "[0x61, 0x62, 0x63]" "[]"]
    vsnprintf_bounded [of 4 "\<lambda>(x :: unit) n. Inr []" "[0x61, 0x62, 0x63, 0x64]" "[]"] by simp

end
