(* ===== verification/Ksym.thy ===== *)
theory Ksym
  imports Printf Uprocess Idt Clock
begin

text \<open>
  The symbol table and what is printed when the kernel stops: \<open>ksym/ksym.c\<close>, the dump of
  \<open>exception_handler\<close> (\<open>idt/isr.c\<close>) and \<open>panic\<close> (\<open>misc/panic.c\<close>).

  The table is generated at build time: the parameter \<open>syms\<close>. A print is a step on a state
  \<open>'s\<close>, the ports for the serial line or the console for the screen; \<open>m\<close> is the memory that the dump reads through
  the page tables and \<open>F\<close> stands for \<open>ftoa D\<close>. Strings are given by \<open>str\<close>, their bytes.
\<close>

section \<open>Symbols\<close>

record ksym_entry =
  kaddr :: u32
  kname :: "u8 list"

definition str :: "string \<Rightarrow> u8 list" where "str s = map of_char s"

definition line :: "string \<Rightarrow> u8 list" where "line s = str s @ [0x0a]"

text \<open>The loop of \<open>ksym_lookup\<close>: the index of the best entry.\<close>

primrec ksym_scan :: "u32 \<Rightarrow> nat \<Rightarrow> nat option \<Rightarrow> ksym_entry list \<Rightarrow> nat option" where
  "ksym_scan eip i best [] = best"
| "ksym_scan eip i best (e # es) = (if kaddr e > eip then best else ksym_scan eip (Suc i) (Some i) es)"

text \<open>The name, and the offset and size that are stored unless there is no symbol.\<close>

definition ksym_lookup :: "ksym_entry list \<Rightarrow> u32 \<Rightarrow> u8 list \<times> (u32 \<times> u32) option" where
  "ksym_lookup syms eip =
     (if syms = [] then (str ''??'', None)
      else case ksym_scan eip 0 None syms of
          None \<Rightarrow> (str ''??'', None)
        | Some idx \<Rightarrow> (kname (syms ! idx), Some (eip - kaddr (syms ! idx),
            if idx + 1 < length syms then kaddr (syms ! (idx + 1)) - kaddr (syms ! idx) else 0)))"

text \<open>The string in the buffer.\<close>

definition ksym_format :: "'f ftoa \<Rightarrow> ksym_entry list \<Rightarrow> u32 \<Rightarrow> u32 \<Rightarrow> u8 list res" where
  "ksym_format F syms eip buflen =
     (let (name, r) = ksym_lookup syms eip; (offset, siz) = (case r of None \<Rightarrow> (0, 0) | Some r \<Rightarrow> r) in
      bind_res (if siz > 0
          then ksnprintf F buflen (str ''%s+0x%x/0x%x'') [Str_arg (Some name), Int_arg offset, Int_arg siz]
          else ksnprintf F buflen (str ''%s+0x%x'') [Str_arg (Some name), Int_arg offset])
        (\<lambda>(buf, len). Inr (takeWhile (\<lambda>c. c \<noteq> 0) buf)))"

section \<open>Printing\<close>

type_synonym ('f, 's) printer = "u8 list \<Rightarrow> 'f arg list \<Rightarrow> 's \<Rightarrow> 's res"

definition serial_out :: "inputs \<Rightarrow> 'f ftoa \<Rightarrow> ('f, ports) printer" where
  "serial_out inp F fmt args io = bind_res (serial_printf inp F fmt args io) (\<lambda>(len, io). Inr io)"

definition console_out :: "'f ftoa \<Rightarrow> ('f, console) printer" where
  "console_out F fmt args con = bind_res (console_printf F fmt args con) (\<lambda>(len, con). Inr con)"

text \<open>Prints one after the other.\<close>

primrec print_all :: "('f, 's) printer \<Rightarrow> (u8 list \<times> 'f arg list) list \<Rightarrow> 's \<Rightarrow> 's res" where
  "print_all pr [] s = Inr s"
| "print_all pr (p # ps) s = bind_res (pr (fst p) (snd p) s) (print_all pr ps)"

definition ksym_init :: "inputs \<Rightarrow> 'f ftoa \<Rightarrow> ksym_entry list \<Rightarrow> ports \<Rightarrow> ports res" where
  "ksym_init inp F syms io =
     bind_res (serial_out inp F (line ''ksym_init: %u symbols loaded'') [Int_arg (of_nat (length syms))] io) (\<lambda>io.
     if syms = [] then Inr io
     else print_all (serial_out inp F)
       [(line ''  first: 0x%08x %s'', [Int_arg (kaddr (hd syms)), Str_arg (Some (kname (hd syms)))]),
        (line ''  last:  0x%08x %s'', [Int_arg (kaddr (last syms)), Str_arg (Some (kname (last syms)))])] io)"

text \<open>The frames from the \<open>i\<close>-th on, \<open>n\<close> of them.\<close>

primrec ksym_frames :: "inputs \<Rightarrow> 'f ftoa \<Rightarrow> ksym_entry list \<Rightarrow> vm \<Rightarrow> nat \<Rightarrow> u32 \<Rightarrow> u32 \<Rightarrow> ports \<Rightarrow> ports res" where
  "ksym_frames inp F syms m 0 i ebp io = Inr io"
| "ksym_frames inp F syms m (Suc n) i ebp io =
     (if ebp = 0 \<or> ebp < 0xc0000000 then Inr io
      else bind_res (field 4 ebp 4 m) (\<lambda>retaddr.
           bind_res (field 4 ebp 0 m) (\<lambda>saved_ebp.
           if retaddr = 0 then Inr io
           else bind_res (ksym_format F syms retaddr 64) (\<lambda>s.
                bind_res (serial_out inp F (line ''  [%u] 0x%08x  %s'') [Int_arg i, Int_arg retaddr, Str_arg (Some s)] io) (\<lambda>io.
                if saved_ebp \<le> ebp then Inr io
                else ksym_frames inp F syms m n (i + 1) saved_ebp io)))))"

definition ksym_stacktrace :: "inputs \<Rightarrow> 'f ftoa \<Rightarrow> ksym_entry list \<Rightarrow> vm \<Rightarrow> u32 \<Rightarrow> u32 \<Rightarrow> u32 \<Rightarrow> ports \<Rightarrow> ports res" where
  "ksym_stacktrace inp F syms m ebp eip max_frames io =
     bind_res (serial_out inp F (line ''stack trace:'') [] io) (\<lambda>io.
     bind_res (ksym_format F syms eip 64) (\<lambda>s.
     bind_res (serial_out inp F (line ''  [0] 0x%08x  %s'') [Int_arg eip, Str_arg (Some s)] io)
       (ksym_frames inp F syms m (unat max_frames - 1) 1 ebp)))"

section \<open>The dump of an exception\<close>

definition KERNEL_OFFSET :: u32 where "KERNEL_OFFSET = 0xc0000000"

definition exception_messages :: "string list" where
  "exception_messages = [''division by zero'', ''debug'', ''non-maskable interrupt'', ''breakpoint'', ''overflow'',
     ''bound range exceeded'', ''invalid opcode'', ''device not available'', ''double fault'',
     ''coprocessor segment overrun'', ''invalid TSS'', ''segment not present'', ''stack segment fault'',
     ''general protection fault'', ''page fault'', ''reserved'', ''x87 floating point exception'',
     ''alignment check'', ''machine check'', ''SIMD floating point exception'']"

text \<open>The control registers; \<open>cpu_ss\<close> is the local variable \<open>ss\<close>, which the code prints without having set it.\<close>

record cpu =
  cr0 :: u32
  cr2 :: u32
  cr3 :: u32
  cr4 :: u32
  cpu_ss :: u32

definition flag_args :: "u32 \<Rightarrow> nat list \<Rightarrow> 'f arg list" where
  "flag_args x ns = map (\<lambda>n. Int_arg (drop_bit n x AND 1)) ns"

text \<open>The words on the stack, from the \<open>i\<close>-th on.\<close>

primrec dump_words :: "('f, 's) printer \<Rightarrow> 'f ftoa \<Rightarrow> ksym_entry list \<Rightarrow> vm \<Rightarrow> u32 \<Rightarrow> nat \<Rightarrow> u32 \<Rightarrow> 's \<Rightarrow> 's res" where
  "dump_words pr F syms m sp 0 i s = Inr s"
| "dump_words pr F syms m sp (Suc n) i s =
     (if sp + 4 * i < KERNEL_OFFSET then Inr s
      else bind_res (field 4 sp (4 * i) m) (\<lambda>val.
           bind_res
             (if val \<ge> KERNEL_OFFSET \<and> hd (fst (ksym_lookup syms val) @ [0]) \<noteq> 0x3f
              then bind_res (ksym_format F syms val 64) (\<lambda>t.
                   pr (line ''  esp+%02d: 0x%08x  <%s>'') [Int_arg (i * 4), Int_arg val, Str_arg (Some t)] s)
              else pr (line ''  esp+%02d: 0x%08x'') [Int_arg (i * 4), Int_arg val] s)
             (dump_words pr F syms m sp n (i + 1))))"

primrec dump_frames :: "('f, 's) printer \<Rightarrow> 'f ftoa \<Rightarrow> ksym_entry list \<Rightarrow> vm \<Rightarrow> nat \<Rightarrow> u32 \<Rightarrow> u32 \<Rightarrow> 's \<Rightarrow> 's res" where
  "dump_frames pr F syms m 0 i ebp s = Inr s"
| "dump_frames pr F syms m (Suc n) i ebp s =
     (if ebp = 0 \<or> ebp < KERNEL_OFFSET then Inr s
      else bind_res (field 4 ebp 4 m) (\<lambda>retaddr.
           bind_res (field 4 ebp 0 m) (\<lambda>saved_ebp.
           if retaddr = 0 then Inr s
           else bind_res (ksym_format F syms retaddr 64) (\<lambda>t.
                bind_res (pr (line ''  [%d] 0x%08x  <%s>'') [Int_arg i, Int_arg retaddr, Str_arg (Some t)] s) (\<lambda>s.
                if saved_ebp \<le> ebp then Inr s
                else dump_frames pr F syms m n (i + 1) saved_ebp s)))))"

text \<open>What \<open>exception_handler\<close> prints on the serial line, and the error it ends with.\<close>

definition page_fault_args :: "u32 \<Rightarrow> 'f arg list" where
  "page_fault_args err =
     map (\<lambda>t. Str_arg (Some (str t)))
       [if err AND 1 \<noteq> 0 then ''protection-violation'' else ''not-present'',
        if err AND 2 \<noteq> 0 then ''write'' else ''read'',
        if err AND 4 \<noteq> 0 then ''user'' else ''kernel'',
        if err AND 8 \<noteq> 0 then '' | reserved-bit-set'' else []]"

definition exception_name :: "u32 \<Rightarrow> u8 list" where
  "exception_name n = str (if n < 20 then exception_messages ! unat n else ''unkown'')"

text \<open>The lines about the registers that the dump on the serial line and the one on the screen share.\<close>

definition cpu_lines :: "registers \<Rightarrow> cpu \<Rightarrow> (u8 list \<times> 'f arg list) list" where
  "cpu_lines r c =
     [(line ''  eax=0x%08x  ebx=0x%08x  ecx=0x%08x  edx=0x%08x'', map Int_arg [r_eax r, r_ebx r, r_ecx r, r_edx r]),
      (line ''  esi=0x%08x  edi=0x%08x  ebp=0x%08x  esp=0x%08x'', map Int_arg [r_esi r, r_edi r, r_ebp r, r_esp r]),
      (line ''  cs=0x%04x  ds=0x%04x  es=0x%04x'', map Int_arg [r_cs r, r_ds r, r_es r]),
      (line ''  fs=0x%04x  gs=0x%04x  ss=0x%04x'', map Int_arg [r_fs r, r_gs r, cpu_ss c]),
      (line ''  cr0=0x%08x  cr2=0x%08x  cr3=0x%08x  cr4=0x%08x'', map Int_arg [cr0 c, cr2 c, cr3 c, cr4 c]),
      (0x0a # line ''  eflags: 0x%08x'', [Int_arg (r_eflags r)]),
      (line ''  cf=%d pf=%d af=%d zf=%d sf=%d tf=%d if=%d df=%d of=%d iopl=%d'',
         flag_args (r_eflags r) [0, 2, 4, 6, 7, 8, 9, 10, 11] @ [Int_arg (drop_bit 12 (r_eflags r) AND 3)]),
      (0x0a # line ''  cr0: 0x%08x'', [Int_arg (cr0 c)]),
      (line ''  pe=%d mp=%d em=%d ts=%d wp=%d pg=%d'', flag_args (cr0 c) [0, 1, 2, 3, 16, 31]),
      (0x0a # line ''  stack (esp=0x%08x):'', [Int_arg (r_esp r)])]"

definition exception_dump :: "inputs \<Rightarrow> 'f ftoa \<Rightarrow> ksym_entry list \<Rightarrow> vm \<Rightarrow> clock \<Rightarrow> cpu \<Rightarrow> registers \<Rightarrow> ports \<Rightarrow> ports res" where
  "exception_dump inp F syms m k c r io =
     (let pr = serial_out inp F in
      bind_res (if r_int_num r = 14
          then print_all pr [(0x0a # line ''page fault at 0x%08x'', [Int_arg (cr2 c)]),
                 (line ''  %s | %s | %s%s'', page_fault_args (r_err_code r))] io
          else Inr io) (\<lambda>io.
      bind_res (print_all pr ((0x0a # line ''exception %d: %s'' @ line ''  err=0x%08x'',
             [Int_arg (r_int_num r), Str_arg (Some (exception_name (r_int_num r))), Int_arg (r_err_code r)])
           # (line ''  eip=0x%08x  eflags: 0x%08x'', [Int_arg (r_eip r), Int_arg (r_eflags r)])
           # cpu_lines r c) io) (\<lambda>io.
      bind_res (dump_words pr F syms m (r_esp r) 8 0 io) (\<lambda>io.
      bind_res (pr (0x0a # line ''  stack trace:'') [] io) (\<lambda>io.
      bind_res (ksym_format F syms (r_eip r) 64) (\<lambda>t.
      bind_res (pr (line ''  [0] 0x%08x  <%s>'') [Int_arg (r_eip r), Str_arg (Some t)] io) (\<lambda>io.
      bind_res (dump_frames pr F syms m 15 1 (r_ebp r) io)
        (pr (0x0a # line ''  uptime: %u ticks (%u ms)'')
           [Int_arg (pit_get_ticks k), Int_arg (pit_get_ticks k * (1000 div PIT_HZ))]))))))))"

text \<open>\<open>panic\<close>: the screen in which the machine halts. Without registers only the message is shown.\<close>

definition panic_registers :: "'f ftoa \<Rightarrow> ksym_entry list \<Rightarrow> vm \<Rightarrow> clock \<Rightarrow> cpu \<Rightarrow> registers \<Rightarrow> console \<Rightarrow> console res" where
  "panic_registers F syms m k c r con =
     (let pr = console_out F in
      bind_res (if r_int_num r = 14
          then print_all pr [(0x0a # line ''page fault at 0x%08x'', [Int_arg (cr2 c)]),
                 (str ''  %s | %s | %s%s'', page_fault_args (r_err_code r))] con
          else Inr con) (\<lambda>con.
      bind_res (print_all pr ((0x0a # 0x0a # line ''exception %d: %s'' @ line ''  err=0x%08x'',
             [Int_arg (r_int_num r), Str_arg (Some (exception_name (r_int_num r))), Int_arg (r_err_code r)])
           # (line ''  eip=0x%08x  eflags=0x%08x'', [Int_arg (r_eip r), Int_arg (r_eflags r)])
           # cpu_lines r c) con) (\<lambda>con.
      bind_res (dump_words pr F syms m (r_esp r) 8 0 con) (\<lambda>con.
      bind_res (pr (0x0a # line ''  stack trace:'') [] con) (\<lambda>con.
      bind_res (ksym_format F syms (r_eip r) 64) (\<lambda>t.
      bind_res (pr (line ''  [0] 0x%08x  <%s>'') [Int_arg (r_eip r), Str_arg (Some t)] con) (\<lambda>con.
      bind_res (dump_frames pr F syms m 15 1 (r_ebp r) con)
        (pr (0x0a # line ''  uptime: %u ticks (%u ms)'')
           [Int_arg (pit_get_ticks k), Int_arg (pit_get_ticks k * (1000 div PIT_HZ))]))))))))"

definition panic_screen :: "'f ftoa \<Rightarrow> ksym_entry list \<Rightarrow> vm \<Rightarrow> clock \<Rightarrow> cpu \<Rightarrow> registers option \<Rightarrow> u8 list \<Rightarrow> 'f arg list
    \<Rightarrow> console \<Rightarrow> console res" where
  "panic_screen F syms m k c regs fmt args con =
     (let con = con\<lparr>cursor_x := 0, cursor_y := 0\<rparr>; con = on_fb (fb_clear (console_bg con)) con in
      bind_res (console_vprintf F fmt args con) (\<lambda>(len, con).
      bind_res (case regs of None \<Rightarrow> Inr con | Some r \<Rightarrow> panic_registers F syms m k c r con)
        (\<lambda>con. Inr (on_fb fb_swap con))))"

text \<open>The end of \<open>exception_handler\<close> for every vector but 0x80: what it prints, and the screen of the panic.\<close>

definition exception_stop :: "inputs \<Rightarrow> 'f ftoa \<Rightarrow> ksym_entry list \<Rightarrow> vm \<Rightarrow> clock \<Rightarrow> cpu \<Rightarrow> registers
    \<Rightarrow> ports \<times> console \<Rightarrow> (ports \<times> console) res" where
  "exception_stop inp F syms m k c r = (\<lambda>(io, con).
     bind_res (exception_dump inp F syms m k c r io) (\<lambda>io.
     bind_res (panic_screen F syms m k c (Some r) (str ''exception_handler() -> an exception occurred'') [] con)
       (\<lambda>con. Inr (io, con))))"

section \<open>The nearest symbol\<close>

lemma ksym_scan_prefix:
  "ksym_scan eip i best es =
     (let n = length (takeWhile (\<lambda>e. kaddr e \<le> eip) es) in if n = 0 then best else Some (i + n - 1))"
  by (induction es arbitrary: i best) (auto simp: Let_def not_le)

lemma filter_sorted:
  assumes "sorted (map kaddr es)"
  shows "filter (\<lambda>e. kaddr e \<le> eip) es = takeWhile (\<lambda>e. kaddr e \<le> eip) es"
    and "filter (\<lambda>e. eip < kaddr e) es = dropWhile (\<lambda>e. kaddr e \<le> eip) es"
proof -
  have "filter (\<lambda>e. kaddr e \<le> eip) es = takeWhile (\<lambda>e. kaddr e \<le> eip) es
    \<and> filter (\<lambda>e. eip < kaddr e) es = dropWhile (\<lambda>e. kaddr e \<le> eip) es"
    using assms
  proof (induction es)
    case (Cons e es)
    then have "\<forall>e' \<in> set es. kaddr e \<le> kaddr e'" by simp
    then have "\<not> kaddr e \<le> eip \<Longrightarrow> \<forall>e' \<in> set es. \<not> kaddr e' \<le> eip" by (meson order_trans)
    then show ?case using Cons by (auto simp: not_le filter_empty_conv intro: filter_True)
  qed simp
  then show "filter (\<lambda>e. kaddr e \<le> eip) es = takeWhile (\<lambda>e. kaddr e \<le> eip) es"
    "filter (\<lambda>e. eip < kaddr e) es = dropWhile (\<lambda>e. kaddr e \<le> eip) es" by auto
qed

section \<open>Properties\<close>

text \<open>C35: the symbol lookup is the search by value: in a table sorted by address, the loop that stops at the
  first greater address, and the index arithmetic behind it, give the name of the last symbol at or below
  \<open>eip\<close>, the distance to it, and as its size the distance to the first symbol above \<open>eip\<close> (0 when there
  is none); and \<open>??\<close> with nothing stored when every symbol is above. So the offset is within the size.\<close>

theorem ksym_lookup_nearest:
  assumes "sorted (map kaddr syms)"
  shows "ksym_lookup syms eip =
     (let below = filter (\<lambda>e. kaddr e \<le> eip) syms; above = filter (\<lambda>e. eip < kaddr e) syms
      in if below = [] then (str ''??'', None)
         else (kname (last below), Some (eip - kaddr (last below),
                 if above = [] then 0 else kaddr (hd above) - kaddr (last below))))"
    (is "_ = ?spec")
proof -
  let ?t = "takeWhile (\<lambda>e. kaddr e \<le> eip) syms" and ?d = "dropWhile (\<lambda>e. kaddr e \<le> eip) syms"
  have split: "syms = ?t @ ?d" by simp
  have spec: "?spec = (if ?t = [] then (str ''??'', None)
      else (kname (last ?t), Some (eip - kaddr (last ?t), if ?d = [] then 0 else kaddr (hd ?d) - kaddr (last ?t))))"
    unfolding Let_def filter_sorted [OF assms] by (rule refl)
  show ?thesis
  proof (cases "?t = []")
    case True
    then have "ksym_scan eip 0 None syms = None" by (simp add: ksym_scan_prefix)
    then show ?thesis unfolding spec using True by (simp add: ksym_lookup_def)
  next
    case False
    let ?n = "length ?t - 1"
    have "ksym_scan eip 0 None syms = Some ?n" using False by (simp add: ksym_scan_prefix Let_def)
    moreover have "syms \<noteq> []" using False by auto
    moreover have "syms ! ?n = last ?t" using False split by (metis last_conv_nth length_0_conv nth_append diff_less length_greater_0_conv zero_less_one)
    moreover have "?n + 1 = length ?t" using False by (cases ?t) simp_all
    moreover have "length syms = length ?t + length ?d" using split by (metis length_append)
    moreover have "?d \<noteq> [] \<Longrightarrow> syms ! length ?t = hd ?d" using split by (metis hd_conv_nth nth_append_length_plus add_0_right)
    ultimately show ?thesis unfolding spec using False by (auto simp: ksym_lookup_def)
  qed
qed

definition two_symbols :: "ksym_entry list" where
  "two_symbols = [\<lparr>kaddr = 0xc0200000, kname = str ''kmain''\<rparr>, \<lparr>kaddr = 0xc0200100, kname = str ''panic''\<rparr>]"

lemma ksym_lookup_nearest_witness:
  "ksym_lookup two_symbols 0xc0200010 = (str ''kmain'', Some (0x10, 0x100))"
proof -
  have "sorted (map kaddr two_symbols)" by (simp add: two_symbols_def)
  then show ?thesis by (subst ksym_lookup_nearest) (simp_all add: two_symbols_def)
qed

end
