(* ===== verification/Ftoa.thy ===== *)
theory Ftoa
  imports Complex_Main Printf
begin

text \<open>
  \<open>ftoa\<close> with exact arithmetic: the digits it prints are those of the number, cut off after the last decimal.
  With the roundings of \<open>double\<close> the same digits come out as long as \<open>x * 10\<close> and \<open>x - i\<close> are exact.
\<close>

definition exact :: "rat doubles" where
  "exact = \<lparr>below_zero = (\<lambda>x. x < 0), negated = uminus, to_int = (\<lambda>x. word_of_int \<lfloor>x\<rfloor>),
     minus_int = (\<lambda>x i. x - of_int (sint i)), times_10 = (\<lambda>x. x * 10)\<rparr>"

lemma digits_val_Cons: "digits_val b (c # cs) = digit_val c * b ^ length cs + digits_val b cs"
proof -
  have "foldl (\<lambda>n c. n * b + digit_val c) k cs = k * b ^ length cs + digits_val b cs" for k
  proof (induction cs arbitrary: k)
    case (Cons c cs)
    from Cons.IH [of "k * b + digit_val c"] Cons.IH [of "digit_val c"] show ?case
      by (simp add: digits_val_def algebra_simps)
  qed (simp add: digits_val_def)
  from this [of "digit_val c"] show ?thesis by (simp add: digits_val_def)
qed

lemma digit_char: "0 \<le> k \<Longrightarrow> k < 10 \<Longrightarrow> digit_val (0x30 + ucast (word_of_int k :: u32)) = nat k"
proof -
  assume "0 \<le> k" "k < 10"
  then have "k = 0 \<or> k = 1 \<or> k = 2 \<or> k = 3 \<or> k = 4 \<or> k = 5 \<or> k = 6 \<or> k = 7 \<or> k = 8 \<or> k = 9" by presburger
  then show ?thesis by (elim disjE) (simp_all add: digit_val_def)
qed

lemma sint_of_small: "0 \<le> k \<Longrightarrow> k < 2147483648 \<Longrightarrow> sint (word_of_int k :: u32) = k"
  by (simp add: sint_sbintrunc' signed_take_bit_int_eq_self)

lemma signed_of_small: "0 \<le> k \<Longrightarrow> k < 2147483648 \<Longrightarrow> (signed (word_of_int k :: u32) :: rat) = of_int k"
  by (metis of_int_sint sint_of_small)

lemma frac_digits_value:
  assumes "0 \<le> x" "x < 1"
  shows "length (frac_digits exact n x) = n \<and> int (digits_val 10 (frac_digits exact n x)) = \<lfloor>x * 10 ^ n\<rfloor>"
  using assms
proof (induction n arbitrary: x)
  case 0
  then show ?case by (simp add: digits_val_def floor_eq_iff)
next
  case (Suc n)
  let ?k = "\<lfloor>x * 10\<rfloor>"
  have k: "0 \<le> ?k" "?k < 10" using Suc.prems by (auto simp: floor_less_iff)
  have y: "0 \<le> x * 10 - of_int ?k" "x * 10 - of_int ?k < 1" by (simp_all add: floor_correct) linarith
  have s: "signed (word_of_int ?k :: u32) = rat_of_int ?k" using k by (intro signed_of_small) auto
  have "frac_digits exact (Suc n) x = (0x30 + ucast (word_of_int ?k :: u32)) # frac_digits exact n (x * 10 - of_int ?k)"
    using s by (simp add: exact_def Let_def)
  moreover have "\<lfloor>x * 10 ^ Suc n\<rfloor> = ?k * 10 ^ n + \<lfloor>(x * 10 - of_int ?k) * 10 ^ n\<rfloor>"
  proof -
    have "x * 10 ^ Suc n = of_int (?k * 10 ^ n) + (x * 10 - of_int ?k) * 10 ^ n" by (simp add: algebra_simps)
    then show ?thesis by (metis floor_add_int add.commute)
  qed
  ultimately show ?case using Suc.IH [OF y] k digit_char [OF k] by (simp add: digits_val_Cons)
qed

lemma itoa_digits_pos:
  "base = 10 \<Longrightarrow> unat v < 2147483648 \<Longrightarrow> itoa_digits 10 (int (unat v)) tmp = utoa_digits base v tmp"
proof (induction base v tmp rule: utoa_digits.induct)
  case (1 base v tmp)
  have d: "uint v smod 10 = uint (v mod 10)" "uint v sdiv 10 = uint (v div 10)"
    by (simp_all add: signed_modulo_int_def signed_divide_int_def sgn_if uint_mod uint_div) (simp_all add: order_less_le)
  have "0 \<le> uint v" by simp
  then have "(uint v \<le> 0) = (uint v = 0)" by linarith
  then have z: "(uint v \<le> 0) = (v = 0)" by (simp only: unsigned_eq_0_iff)
  have "unat (v div 10) \<le> unat v" by (simp add: unat_div)
  with 1 show ?case
    by (subst itoa_digits.simps, subst utoa_digits.simps) (auto simp: d z uint_0_iff)
qed

lemma itoa_pos: "0 \<le> sint v \<Longrightarrow> unat v < 2147483648 \<Longrightarrow> itoa v 10 = utoa v 10"
  using itoa_digits_pos [of 10 v "[]"] magnitude(2) [of v]
  by (cases "utoa_digits 10 v []") (auto simp: itoa_def utoa_def)

lemma ftoa_exact:
  assumes "0 \<le> x" "x < 2147483648" "0 < sint decimals"
  shows "\<exists>ip fp. ftoa exact x decimals = Inr (ip @ 0x2e # fp) \<and> int (digits_val 10 ip) = \<lfloor>x\<rfloor>
    \<and> length fp = unat decimals \<and> int (digits_val 10 (ip @ fp)) = \<lfloor>x * 10 ^ unat decimals\<rfloor>"
proof -
  have f: "0 \<le> \<lfloor>x\<rfloor>" "\<lfloor>x\<rfloor> < 2147483648" using assms(1,2) by (auto simp: floor_less_iff)
  let ?i = "word_of_int \<lfloor>x\<rfloor> :: u32"
  have u: "unat ?i = nat \<lfloor>x\<rfloor>" using f by (simp add: unat_eq_nat_uint uint_word_of_int)
  have s: "sint ?i = \<lfloor>x\<rfloor>" using f by (rule sint_of_small)
  have "itoa ?i 10 = utoa ?i 10" using f u s by (intro itoa_pos) linarith+
  then obtain ip where ip: "itoa ?i 10 = Inr ip" "digits_val 10 ip = nat \<lfloor>x\<rfloor>" using utoa_10 [of ?i] u by auto
  let ?y = "x - of_int \<lfloor>x\<rfloor>" and ?d = "unat decimals"
  have y: "0 \<le> ?y" "?y < 1" by (simp_all add: floor_correct) linarith
  note fr = frac_digits_value [OF y, of ?d]
  have "digits_val 10 (ip @ fp) = digits_val 10 ip * 10 ^ length fp + digits_val 10 fp" for ip fp
    by (induction ip) (simp_all add: digits_val_Cons power_add algebra_simps, simp add: digits_val_def)
  moreover have "\<lfloor>x * 10 ^ ?d\<rfloor> = \<lfloor>x\<rfloor> * 10 ^ ?d + \<lfloor>?y * 10 ^ ?d\<rfloor>"
  proof -
    have "x * 10 ^ ?d = of_int (\<lfloor>x\<rfloor> * 10 ^ ?d) + ?y * 10 ^ ?d" by (simp add: algebra_simps)
    then show ?thesis by (metis floor_add_int add.commute)
  qed
  moreover have "ftoa exact x decimals = Inr (ip @ 0x2e # frac_digits exact ?d ?y)"
    using assms(1,3) ip(1) signed_of_small [OF f] by (simp add: ftoa_def exact_def Let_def not_le)
  ultimately show ?thesis using fr ip(2) f by (intro exI [of _ ip] exI [of _ "frac_digits exact ?d ?y"]) simp
qed

end
