(* ===== verification/Ustring.thy ===== *)
theory Ustring
  imports CString Kstate
begin

text \<open>
  The string library of the programs, \<open>initrd/libc/string.c\<close>. A program reaches its memory through its page
  tables only, so each routine works on the virtual memory \<open>vm\<close>, byte by byte, and a byte that is not
  mapped is a page fault.

  The kernel's own copies of these routines (theory \<open>CString\<close>) work on flat memory. \<open>mirrors R m s\<close> says that the addresses in
  \<open>R\<close> are the program's own and hold what \<open>m\<close> holds; the lemmas show that every routine, run on both, keeps
  them so and returns the same.
\<close>

section \<open>string.c\<close>

primrec u_memset_loop :: "nat \<Rightarrow> u32 \<Rightarrow> u8 \<Rightarrow> vm \<Rightarrow> vm res" where
  "u_memset_loop 0 p c s = Inr s"
| "u_memset_loop (Suc n) p c s = bind_res (vstore8 p c s) (u_memset_loop n (p + 1) c)"

definition u_memset :: "u32 \<Rightarrow> u32 \<Rightarrow> u32 \<Rightarrow> vm \<Rightarrow> vm res" where
  "u_memset dst c n = u_memset_loop (unat n) dst (ucast c)"

primrec u_copy_up :: "nat \<Rightarrow> u32 \<Rightarrow> u32 \<Rightarrow> vm \<Rightarrow> vm res" where
  "u_copy_up 0 d src s = Inr s"
| "u_copy_up (Suc n) d src s =
     bind_res (vload8 src s) (\<lambda>x. bind_res (vstore8 d x s) (u_copy_up n (d + 1) (src + 1)))"

definition u_memcpy :: "u32 \<Rightarrow> u32 \<Rightarrow> u32 \<Rightarrow> vm \<Rightarrow> vm res" where
  "u_memcpy dst src n = u_copy_up (unat n) dst src"

primrec u_copy_down :: "nat \<Rightarrow> u32 \<Rightarrow> u32 \<Rightarrow> vm \<Rightarrow> vm res" where
  "u_copy_down 0 d src s = Inr s"
| "u_copy_down (Suc n) d src s =
     bind_res (vload8 (src - 1) s) (\<lambda>x. bind_res (vstore8 (d - 1) x s) (u_copy_down n (d - 1) (src - 1)))"

definition u_memmove :: "u32 \<Rightarrow> u32 \<Rightarrow> u32 \<Rightarrow> vm \<Rightarrow> vm res" where
  "u_memmove dst src n =
     (if dst < src then u_copy_up (unat n) dst src else u_copy_down (unat n) (dst + n) (src + n))"

primrec u_memcmp_loop :: "nat \<Rightarrow> u32 \<Rightarrow> u32 \<Rightarrow> vm \<Rightarrow> int res" where
  "u_memcmp_loop 0 p q s = Inr 0"
| "u_memcmp_loop (Suc n) p q s =
     bind_res (vload8 p s) (\<lambda>x. bind_res (vload8 q s) (\<lambda>y.
       if x \<noteq> y then Inr (uint x - uint y) else u_memcmp_loop n (p + 1) (q + 1) s))"

definition u_memcmp :: "u32 \<Rightarrow> u32 \<Rightarrow> u32 \<Rightarrow> vm \<Rightarrow> int res" where
  "u_memcmp a b n = u_memcmp_loop (unat n) a b"

partial_function (option) u_strlen_loop :: "u32 \<Rightarrow> u32 \<Rightarrow> vm \<Rightarrow> u32 res option" where
  "u_strlen_loop str len s = (case vload8 (str + len) s of
       Inl e \<Rightarrow> Some (Inl e)
     | Inr x \<Rightarrow> if x \<noteq> 0 then u_strlen_loop str (len + 1) s else Some (Inr len))"

definition u_strlen :: "u32 \<Rightarrow> vm \<Rightarrow> u32 res" where
  "u_strlen str s = ret (u_strlen_loop str 0 s)"

function u_strnlen_loop :: "u32 \<Rightarrow> u32 \<Rightarrow> u32 \<Rightarrow> vm \<Rightarrow> u32 res" where
  "u_strnlen_loop str maxlen len s =
     (if len < maxlen
      then case vload8 (str + len) s of
          Inl e \<Rightarrow> Inl e
        | Inr x \<Rightarrow> if x \<noteq> 0 then u_strnlen_loop str maxlen (len + 1) s else Inr len
      else Inr len)"
  by pat_completeness auto
termination
  by (relation "measure (\<lambda>(str, maxlen, len, s). unat maxlen - unat len)")
    (auto simp: unat_inc_u32 word_less_nat_alt)

declare u_strnlen_loop.simps [simp del]

definition u_strnlen :: "u32 \<Rightarrow> u32 \<Rightarrow> vm \<Rightarrow> u32 res" where
  "u_strnlen str maxlen = u_strnlen_loop str maxlen 0"

partial_function (option) u_strcpy_loop :: "u32 \<Rightarrow> u32 \<Rightarrow> vm \<Rightarrow> vm res option" where
  "u_strcpy_loop p src s = (case vload8 src s of
       Inl e \<Rightarrow> Some (Inl e)
     | Inr x \<Rightarrow> (case vstore8 p x s of
           Inl e \<Rightarrow> Some (Inl e)
         | Inr s \<Rightarrow> if x \<noteq> 0 then u_strcpy_loop (p + 1) (src + 1) s else Some (Inr s)))"

definition u_strcpy :: "u32 \<Rightarrow> u32 \<Rightarrow> vm \<Rightarrow> vm res" where
  "u_strcpy dst src s = ret (u_strcpy_loop dst src s)"

primrec u_strncpy_copy :: "nat \<Rightarrow> u32 \<Rightarrow> u32 \<Rightarrow> vm \<Rightarrow> (nat \<times> u32 \<times> vm) res" where
  "u_strncpy_copy 0 p src s = Inr (0, p, s)"
| "u_strncpy_copy (Suc n) p src s =
     bind_res (vload8 src s) (\<lambda>x.
       if x \<noteq> 0 then bind_res (vstore8 p x s) (u_strncpy_copy n (p + 1) (src + 1)) else Inr (Suc n, p, s))"

definition u_strncpy :: "u32 \<Rightarrow> u32 \<Rightarrow> u32 \<Rightarrow> vm \<Rightarrow> vm res" where
  "u_strncpy dst src n s = bind_res (u_strncpy_copy (unat n) dst src s) (\<lambda>(n, p, s). u_memset_loop n p 0 s)"

partial_function (option) u_strcmp_loop :: "u32 \<Rightarrow> u32 \<Rightarrow> vm \<Rightarrow> int res option" where
  "u_strcmp_loop s1 s2 s = (case vload8 s1 s of
       Inl e \<Rightarrow> Some (Inl e)
     | Inr x \<Rightarrow> (case vload8 s2 s of
           Inl e \<Rightarrow> Some (Inl e)
         | Inr y \<Rightarrow> if x \<noteq> 0 \<and> x = y then u_strcmp_loop (s1 + 1) (s2 + 1) s else Some (Inr (uint x - uint y))))"

definition u_strcmp :: "u32 \<Rightarrow> u32 \<Rightarrow> vm \<Rightarrow> int res" where
  "u_strcmp s1 s2 s = ret (u_strcmp_loop s1 s2 s)"

text \<open>The loop of \<open>strncmp\<close> counts down before it looks: with one byte left only the last subtraction is done.\<close>

fun u_strncmp_loop :: "nat \<Rightarrow> u32 \<Rightarrow> u32 \<Rightarrow> vm \<Rightarrow> int res" where
  "u_strncmp_loop n s1 s2 s =
     bind_res (vload8 s1 s) (\<lambda>x. bind_res (vload8 s2 s) (\<lambda>y.
       if n > 1 \<and> x \<noteq> 0 \<and> x = y then u_strncmp_loop (n - 1) (s1 + 1) (s2 + 1) s else Inr (uint x - uint y)))"

declare u_strncmp_loop.simps [simp del]

definition u_strncmp :: "u32 \<Rightarrow> u32 \<Rightarrow> u32 \<Rightarrow> vm \<Rightarrow> int res" where
  "u_strncmp s1 s2 n s = (if n = 0 then Inr 0 else u_strncmp_loop (unat n) s1 s2 s)"

partial_function (option) u_strchr_loop :: "u32 \<Rightarrow> u8 \<Rightarrow> vm \<Rightarrow> u32 res option" where
  "u_strchr_loop p ch s = (case vload8 p s of
       Inl e \<Rightarrow> Some (Inl e)
     | Inr x \<Rightarrow> if x = ch then Some (Inr p) else if x = 0 then Some (Inr 0) else u_strchr_loop (p + 1) ch s)"

definition u_strchr :: "u32 \<Rightarrow> u32 \<Rightarrow> vm \<Rightarrow> u32 res" where
  "u_strchr p c s = ret (u_strchr_loop p (ucast c) s)"

partial_function (option) u_strrchr_loop :: "u32 \<Rightarrow> u8 \<Rightarrow> u32 \<Rightarrow> vm \<Rightarrow> u32 res option" where
  "u_strrchr_loop p ch lst s = (case vload8 p s of
       Inl e \<Rightarrow> Some (Inl e)
     | Inr x \<Rightarrow> let lst = (if x = ch then p else lst)
               in if x = 0 then Some (Inr lst) else u_strrchr_loop (p + 1) ch lst s)"

definition u_strrchr :: "u32 \<Rightarrow> u32 \<Rightarrow> vm \<Rightarrow> u32 res" where
  "u_strrchr p c s = ret (u_strrchr_loop p (ucast c) 0 s)"

section \<open>Memory of a program\<close>

text \<open>The bytes of the two table entries that translate an address.\<close>

definition entry_bytes :: "vm \<Rightarrow> u32 \<Rightarrow> u32 set" where
  "entry_bytes s v = {a. unat (a - (cr3 s + 4 * pd_index v)) < 4
     \<or> unat (a - (page_base (pde s (pd_index v)) + 4 * pt_index v)) < 4}"

text \<open>A region that is mapped, without two addresses for a byte, and without access to its own page tables.\<close>

definition own_pages :: "u32 set \<Rightarrow> vm \<Rightarrow> bool" where
  "own_pages R s \<longleftrightarrow> (\<forall>v\<in>R. translate s v \<noteq> None) \<and> inj_on (translate s) R
     \<and> (\<forall>v\<in>R. \<forall>w\<in>R. the (translate s v) \<notin> entry_bytes s w)"

definition mirrors :: "u32 set \<Rightarrow> mem \<Rightarrow> vm \<Rightarrow> bool" where
  "mirrors R m s \<longleftrightarrow> own_pages R s \<and> (\<forall>v\<in>R. vload8 v s = Inr (m v))"

lemma load32_upd: "\<not> unat (a - b) < 4 \<Longrightarrow> load32 (m(a := x)) b = load32 m b"
proof -
  assume far: "\<not> unat (a - b) < 4"
  have "a - b \<noteq> 0" "a - b \<noteq> 1" "a - b \<noteq> 2" "a - b \<noteq> 3" using far by auto
  then have "b \<noteq> a" "b + 1 \<noteq> a" "b + 2 \<noteq> a" "b + 3 \<noteq> a" by (auto simp: algebra_simps)
  then show ?thesis by (simp add: load32_def)
qed

lemma translate_upd:
  fixes x :: u8
  assumes "a \<notin> entry_bytes s w"
  defines "s' \<equiv> s\<lparr>pmem := (pmem s)(a := x)\<rparr>"
  shows "translate s' w = translate s w \<and> entry_bytes s' w = entry_bytes s w"
proof -
  have d: "pde s' (pd_index w) = pde s (pd_index w)"
    using assms(1) by (simp add: s'_def pde_def entry_bytes_def load32_upd)
  moreover have "pte s' (page_base (pde s (pd_index w))) (pt_index w) = pte s (page_base (pde s (pd_index w))) (pt_index w)"
    using assms(1) by (simp add: s'_def pte_def entry_bytes_def load32_upd)
  ultimately have "translate s' w = translate s w" by (intro translate_cong)
  with d show ?thesis by (simp add: entry_bytes_def) (simp add: s'_def)
qed

lemma mirrors_load: "mirrors R m s \<Longrightarrow> v \<in> R \<Longrightarrow> vload8 v s = Inr (m v)"
  by (simp add: mirrors_def)

lemma mirrors_store:
  assumes "mirrors R m s" "v \<in> R"
  shows "\<exists>s'. vstore8 v x s = Inr s' \<and> mirrors R (m(v := x)) s'"
proof -
  have inj: "inj_on (translate s) R" using assms(1) by (simp add: mirrors_def own_pages_def)
  obtain a where a: "translate s v = Some a" using assms by (auto simp: mirrors_def own_pages_def)
  let ?s = "s\<lparr>pmem := (pmem s)(a := x)\<rparr>"
  have same: "translate ?s w = translate s w \<and> entry_bytes ?s w = entry_bytes s w" if "w \<in> R" for w
    using assms that a by (intro translate_upd) (force simp: mirrors_def own_pages_def)
  have "own_pages R ?s"
    unfolding own_pages_def
  proof (intro conjI)
    show "inj_on (translate ?s) R" using inj same by (simp cong: inj_on_cong)
  qed (use assms(1) same in \<open>auto simp: mirrors_def own_pages_def\<close>)
  moreover have "vload8 w ?s = Inr ((m(v := x)) w)" if w: "w \<in> R" for w
  proof (cases "w = v")
    case False
    obtain b where b: "translate s w = Some b" using assms(1) w by (auto simp: mirrors_def own_pages_def)
    then have "b \<noteq> a" using False inj_onD [OF inj, of w v] a w assms(2) by auto
    then show ?thesis using same [OF w] b mirrors_load [OF assms(1) w] False by (simp add: vload8_def)
  qed (use same [OF assms(2)] a in \<open>simp add: vload8_def\<close>)
  ultimately show ?thesis using a by (simp add: vstore8_def mirrors_def)
qed

section \<open>The same as on flat memory\<close>

text \<open>The routine \<open>r\<close> returns, and leaves the region as the memory \<open>m\<close> shows it.\<close>

definition leaves :: "u32 set \<Rightarrow> mem \<Rightarrow> vm res \<Rightarrow> bool" where
  "leaves R m r \<longleftrightarrow> (\<exists>s. r = Inr s \<and> mirrors R m s)"

lemma leaves_Inr [simp]: "leaves R m (Inr s) \<longleftrightarrow> mirrors R m s"
  by (simp add: leaves_def)

lemma leaves_store:
  assumes "mirrors R m s" "v \<in> R" "\<And>s'. mirrors R (m(v := x)) s' \<Longrightarrow> leaves R m' (f s')"
  shows "leaves R m' (bind_res (vstore8 v x s) f)"
  using mirrors_store [OF assms(1,2), of x] assms(3) by auto

text \<open>\<open>n\<close> bytes from an address.\<close>

definition span :: "u32 \<Rightarrow> nat \<Rightarrow> u32 set" where
  "span p n = {a. unat (a - p) < n}"

lemma span_up: "span p (Suc n) \<subseteq> R \<Longrightarrow> p \<in> R \<and> span (p + 1) n \<subseteq> R"
proof -
  assume R: "span p (Suc n) \<subseteq> R"
  moreover have "a \<in> span p (Suc n)" if "a \<in> span (p + 1) n" for a
    using that offset_step_u32 [of a p] by (cases "a = p") (auto simp: span_def)
  moreover have "p \<in> span p (Suc n)" by (simp add: span_def)
  ultimately show ?thesis by blast
qed

lemma span_down:
  assumes "span (d - of_nat (Suc n)) (Suc n) \<subseteq> R"
  shows "d - 1 \<in> R \<and> span (d - 1 - of_nat n) n \<subseteq> R"
proof -
  have e: "d - of_nat (Suc n) = d - 1 - of_nat n" by simp
  have "unat (of_nat n :: u32) \<le> n" by (simp add: unat_of_nat take_bit_nat_less_eq_self)
  then have "d - 1 \<in> span (d - of_nat (Suc n)) (Suc n)" by (simp add: span_def)
  then show ?thesis using assms unfolding e by (auto simp: span_def)
qed

lemma span_iff: "unat p + n \<le> 4294967296 \<Longrightarrow> a \<in> span p n \<longleftrightarrow> unat p \<le> unat a \<and> unat a < unat p + n"
proof -
  assume pn: "unat p + n \<le> 4294967296"
  show ?thesis
  proof (cases "p \<le> a")
    case True
    then show ?thesis by (auto simp: span_def unat_sub_u32 word_le_nat_alt)
  next
    case False
    then have "unat (a - p) = 4294967296 - (unat p - unat a)" "unat a < unat p"
      using unat_sub_wrap_u32 [of a p] by (simp_all add: word_less_nat_alt not_le)
    then show ?thesis using pn by (auto simp: span_def)
  qed
qed

lemma span_apart:
  "unat p + n \<le> unat q \<Longrightarrow> unat q + k \<le> 4294967296 \<Longrightarrow> span p n \<inter> span q k = {} \<and> span q k \<inter> span p n = {}"
  by (auto simp: span_iff)

lemma span_cstr: "span p (Suc (length (c # cs))) \<subseteq> R \<Longrightarrow> p \<in> R \<and> span (p + 1) (Suc (length cs)) \<subseteq> R"
  using span_up by simp

lemma memset_mirrors: "mirrors R m s \<Longrightarrow> span p n \<subseteq> R \<Longrightarrow> leaves R (memset_loop n p c m) (u_memset_loop n p c s)"
proof (induction n arbitrary: p m s)
  case (Suc n)
  then show ?case using span_up [OF Suc.prems(2)] by (simp, intro leaves_store Suc.IH) (simp_all add: fun_upd_def)
qed simp

lemma copy_up_mirrors:
  "mirrors R m s \<Longrightarrow> span d n \<subseteq> R \<Longrightarrow> span src n \<subseteq> R \<Longrightarrow> leaves R (copy_up n d src m) (u_copy_up n d src s)"
proof (induction n arbitrary: d src m s)
  case (Suc n)
  then show ?case using span_up [OF Suc.prems(2)] span_up [OF Suc.prems(3)]
    by (simp add: mirrors_load, intro leaves_store Suc.IH) (simp_all add: fun_upd_def)
qed simp

lemma copy_down_mirrors:
  "mirrors R m s \<Longrightarrow> span (d - of_nat n) n \<subseteq> R \<Longrightarrow> span (src - of_nat n) n \<subseteq> R \<Longrightarrow>
    leaves R (copy_down n d src m) (u_copy_down n d src s)"
proof (induction n arbitrary: d src m s)
  case (Suc n)
  then show ?case using span_down [OF Suc.prems(2)] span_down [OF Suc.prems(3)]
    by (simp add: mirrors_load, intro leaves_store Suc.IH) (simp_all add: fun_upd_def)
qed simp

lemma memmove_mirrors:
  assumes "mirrors R m s" "span dst (unat n) \<subseteq> R" "span src (unat n) \<subseteq> R"
  shows "leaves R (memmove m dst src n) (u_memmove dst src n s)"
  using copy_up_mirrors [OF assms] copy_down_mirrors [OF assms(1), of "dst + n" "unat n" "src + n"] assms(2,3)
  by (simp add: memmove_def u_memmove_def)

lemma memcmp_mirrors:
  "mirrors R m s \<Longrightarrow> span p n \<subseteq> R \<Longrightarrow> span q n \<subseteq> R \<Longrightarrow> u_memcmp_loop n p q s = Inr (memcmp_loop n m p q)"
proof (induction n arbitrary: p q)
  case (Suc n)
  then show ?case using span_up [OF Suc.prems(2)] span_up [OF Suc.prems(3)] by (simp add: mirrors_load)
qed simp

lemma strlen_mirrors:
  assumes "mirrors R m s"
  shows "cstr m (p + k) cs \<Longrightarrow> span (p + k) (Suc (length cs)) \<subseteq> R \<Longrightarrow>
    u_strlen_loop p k s = Some (Inr (k + of_nat (length cs)))"
proof (induction cs arbitrary: k)
  case Nil
  then show ?case using span_up [OF Nil.prems(2)] by (simp add: u_strlen_loop.simps mirrors_load [OF assms])
next
  case (Cons c cs)
  then show ?case using span_cstr [OF Cons.prems(2)] Cons.IH [of "k + 1"]
    by (subst u_strlen_loop.simps) (simp add: mirrors_load [OF assms] add.assoc)
qed

lemma strnlen_mirrors:
  assumes "mirrors R m s"
  shows "cstr m (p + k) cs \<Longrightarrow> span (p + k) (Suc (length cs)) \<subseteq> R \<Longrightarrow>
    u_strnlen_loop p n k s = Inr (strnlen_loop m p n k)"
proof (induction cs arbitrary: k)
  case Nil
  then show ?case using span_up [OF Nil.prems(2)]
    by (simp add: u_strnlen_loop.simps strnlen_loop.simps mirrors_load [OF assms])
next
  case (Cons c cs)
  then show ?case using span_cstr [OF Cons.prems(2)] Cons.IH [of "k + 1"]
    by (subst u_strnlen_loop.simps, subst strnlen_loop.simps) (simp add: mirrors_load [OF assms] add.assoc)
qed

lemma strcmp_mirrors:
  assumes "mirrors R m s"
  shows "cstr m p cs \<Longrightarrow> cstr m q ds \<Longrightarrow> span p (Suc (length cs)) \<subseteq> R \<Longrightarrow> span q (Suc (length ds)) \<subseteq> R \<Longrightarrow>
    u_strcmp_loop p q s = map_option Inr (strcmp m p q)"
proof (induction cs ds arbitrary: p q rule: strcmp_l.induct)
  case (4 c cs d ds)
  then show ?case using span_cstr [OF "4.prems"(3)] span_cstr [OF "4.prems"(4)]
    by (subst u_strcmp_loop.simps, subst strcmp.simps) (simp add: mirrors_load [OF assms])
qed (subst u_strcmp_loop.simps, subst strcmp.simps, use span_up in \<open>force simp: mirrors_load [OF assms]\<close>)+

lemma strncmp_mirrors:
  assumes "mirrors R m s"
  shows "cstr m p cs \<Longrightarrow> cstr m q ds \<Longrightarrow> span p (Suc (length cs)) \<subseteq> R \<Longrightarrow> span q (Suc (length ds)) \<subseteq> R \<Longrightarrow>
    u_strncmp_loop (Suc n) p q s = Inr (strncmp_loop (Suc n) m p q)"
proof (induction n arbitrary: p q cs ds)
  case 0
  then show ?case using span_up [OF "0.prems"(3)] span_up [OF "0.prems"(4)]
    by (subst u_strncmp_loop.simps) (simp add: mirrors_load [OF assms])
next
  case (Suc n)
  have pq: "p \<in> R" "q \<in> R" using span_up [OF Suc.prems(3)] span_up [OF Suc.prems(4)] by simp_all
  show ?case
  proof (cases "m p \<noteq> 0 \<and> m p = m q")
    case True
    then obtain c cs' d ds' where "cs = c # cs'" "ds = d # ds'" using Suc.prems(1,2) by (cases cs; cases ds) auto
    then show ?thesis using True pq Suc.prems span_cstr [of p c cs'] span_cstr [of q d ds'] Suc.IH [of "p + 1" cs' "q + 1" ds']
      by (subst u_strncmp_loop.simps) (simp add: mirrors_load [OF assms])
  next
    case False
    then show ?thesis using pq by (subst u_strncmp_loop.simps) (auto simp: mirrors_load [OF assms])
  qed
qed

lemma strchr_mirrors:
  assumes "mirrors R m s"
  shows "cstr m p cs \<Longrightarrow> span p (Suc (length cs)) \<subseteq> R \<Longrightarrow>
    u_strchr_loop p ch s = map_option Inr (strchr_loop m p ch)
    \<and> u_strrchr_loop p ch l s = map_option Inr (strrchr_loop m p ch l)"
proof (induction cs arbitrary: p l)
  case Nil
  then show ?case using span_up [OF Nil.prems(2)]
    by (subst u_strchr_loop.simps, subst strchr_loop.simps, subst u_strrchr_loop.simps, subst strrchr_loop.simps)
      (simp add: mirrors_load [OF assms] Let_def)
next
  case (Cons c cs)
  then show ?case using span_cstr [OF Cons.prems(2)]
    by (subst u_strchr_loop.simps, subst strchr_loop.simps, subst u_strrchr_loop.simps, subst strrchr_loop.simps)
      (simp add: mirrors_load [OF assms] Let_def)
qed

lemma strcpy_mirrors:
  "mirrors R m s \<Longrightarrow> cstr m src cs \<Longrightarrow> src_outside dst src (Suc (length cs)) cs \<Longrightarrow>
    span src (Suc (length cs)) \<subseteq> R \<Longrightarrow> span dst (Suc (length cs)) \<subseteq> R \<Longrightarrow>
    \<exists>m'. strcpy m dst src = Some m' \<and> leaves R m' (ret (u_strcpy_loop dst src s))"
proof (induction cs arbitrary: dst src m s)
  case Nil
  then have "src \<in> R" "dst \<in> R" "m src = 0" using span_up by fastforce+
  then show ?case using mirrors_store [OF Nil.prems(1), of dst 0]
    by (subst u_strcpy_loop.simps, subst strcpy.simps) (auto simp: mirrors_load [OF Nil.prems(1)] leaves_def)
next
  case (Cons c cs)
  note far = src_outside_step [OF Cons.prems(3)]
  have in_R: "src \<in> R" "dst \<in> R" "span (src + 1) (Suc (length cs)) \<subseteq> R" "span (dst + 1) (Suc (length cs)) \<subseteq> R"
    using span_cstr [OF Cons.prems(4)] span_cstr [where p = dst, OF Cons.prems(5)] by auto
  obtain s' where s': "vstore8 dst c s = Inr s'" "mirrors R (m(dst := c)) s'"
    using mirrors_store [OF Cons.prems(1) in_R(2)] by blast
  have "cstr (m(dst := c)) (src + 1) cs" using Cons.prems(2) far(2) by (simp add: cstr_update)
  then have "\<exists>m'. strcpy (m(dst := c)) (dst + 1) (src + 1) = Some m' \<and> leaves R m' (ret (u_strcpy_loop (dst + 1) (src + 1) s'))"
    using far(1) in_R by (intro Cons.IH [OF s'(2)]) (simp_all add: fun_upd_def)
  then show ?case using in_R Cons.prems(2) s'(1)
    by (subst u_strcpy_loop.simps, subst strcpy.simps) (simp add: mirrors_load [OF Cons.prems(1)])
qed

lemma strncpy_copy_mirrors:
  "mirrors R m s \<Longrightarrow> cstr m src cs \<Longrightarrow> src_outside dst src n cs \<Longrightarrow>
    span src (Suc (length cs)) \<subseteq> R \<Longrightarrow> span dst n \<subseteq> R \<Longrightarrow> strncpy_copy n dst src m = (n', p, m') \<Longrightarrow>
    \<exists>s'. u_strncpy_copy n dst src s = Inr (n', p, s') \<and> mirrors R m' s' \<and> span p n' \<subseteq> R"
proof (induction n arbitrary: dst src m s cs)
  case (Suc n)
  have in_R: "src \<in> R" "dst \<in> R" "span (dst + 1) n \<subseteq> R" using span_up [OF Suc.prems(4)] span_up [OF Suc.prems(5)] by simp_all
  show ?case
  proof (cases cs)
    case Nil
    then show ?thesis using Suc.prems in_R by (auto simp: mirrors_load [OF Suc.prems(1)])
  next
    case (Cons c cs')
    note far = src_outside_step [OF Suc.prems(3) [unfolded Cons]]
    obtain s' where s': "vstore8 dst c s = Inr s'" "mirrors R (m(dst := c)) s'"
      using mirrors_store [OF Suc.prems(1) in_R(2)] by blast
    have "cstr (m(dst := c)) (src + 1) cs'" using Suc.prems(2) far(2) Cons by (simp add: cstr_update)
    then show ?thesis using Suc.IH [OF s'(2), of "src + 1" cs' "dst + 1"] far(1) in_R Suc.prems(2,4,6) s'(1) Cons
        span_cstr [of src c cs' R] by (simp add: mirrors_load [OF Suc.prems(1)] fun_upd_def)
  qed
qed simp

lemma strncpy_mirrors:
  assumes "mirrors R m s" "cstr m src cs" "src_outside dst src (unat n) cs"
    "span src (Suc (length cs)) \<subseteq> R" "span dst (unat n) \<subseteq> R"
  shows "leaves R (strncpy m dst src n) (u_strncpy dst src n s)"
proof -
  obtain n' p m' where c: "strncpy_copy (unat n) dst src m = (n', p, m')" by (rule prod_cases3)
  from strncpy_copy_mirrors [OF assms c] show ?thesis
    by (auto simp: strncpy_def u_strncpy_def c intro: memset_mirrors)
qed

section \<open>Properties\<close>

text \<open>C36: the string library of the programs, byte by byte through the page tables, does what the kernel's does on
  flat memory: on regions that are mapped and apart from the page tables, every routine returns the
  kernel routine's value, faults nowhere, and leaves the program's memory as the kernel routine leaves its memory.\<close>

theorem program_strings:
  assumes "mirrors R m s"
  shows "(\<forall>p c n. span p (unat n) \<subseteq> R \<longrightarrow> leaves R (memset m p c n) (u_memset p c n s))
    \<and> (\<forall>p q n. span p (unat n) \<subseteq> R \<and> span q (unat n) \<subseteq> R \<longrightarrow>
        leaves R (memcpy m p q n) (u_memcpy p q n s) \<and> leaves R (memmove m p q n) (u_memmove p q n s)
        \<and> u_memcmp p q n s = Inr (memcmp m p q n))
    \<and> (\<forall>p cs n c. cstr m p cs \<and> span p (Suc (length cs)) \<subseteq> R \<longrightarrow>
        u_strlen p s = ret (map_option Inr (strlen m p)) \<and> u_strnlen p n s = Inr (strnlen m p n)
        \<and> u_strchr p c s = ret (map_option Inr (strchr m p c)) \<and> u_strrchr p c s = ret (map_option Inr (strrchr m p c)))
    \<and> (\<forall>p cs q ds n. cstr m p cs \<and> span p (Suc (length cs)) \<subseteq> R \<and> cstr m q ds \<and> span q (Suc (length ds)) \<subseteq> R \<longrightarrow>
        u_strcmp p q s = ret (map_option Inr (strcmp m p q)) \<and> u_strncmp p q n s = Inr (strncmp m p q n))
    \<and> (\<forall>p q cs n. cstr m q cs \<and> span q (Suc (length cs)) \<subseteq> R \<longrightarrow>
        (span p (unat n) \<subseteq> R \<and> src_outside p q (unat n) cs \<longrightarrow> leaves R (strncpy m p q n) (u_strncpy p q n s))
        \<and> (span p (Suc (length cs)) \<subseteq> R \<and> src_outside p q (Suc (length cs)) cs \<longrightarrow>
            (\<exists>m'. strcpy m p q = Some m' \<and> leaves R m' (u_strcpy p q s))))"
proof (intro conjI allI impI; (elim conjE)?)
  fix p n :: u32
  assume p: "span p (unat n) \<subseteq> R"
  show "leaves R (memset m p c n) (u_memset p c n s)" for c
    using memset_mirrors [OF assms p] by (simp add: memset_def u_memset_def)
  fix q assume q: "span q (unat n) \<subseteq> R"
  show "leaves R (memcpy m p q n) (u_memcpy p q n s)"
    using copy_up_mirrors [OF assms p q] by (simp add: memcpy_def u_memcpy_def)
  show "leaves R (memmove m p q n) (u_memmove p q n s)" by (rule memmove_mirrors [OF assms p q])
  show "u_memcmp p q n s = Inr (memcmp m p q n)"
    using memcmp_mirrors [OF assms p q] by (simp add: memcmp_def u_memcmp_def)
next
  fix p cs and n c :: u32
  assume cs: "cstr m p cs" and p: "span p (Suc (length cs)) \<subseteq> R"
  show "u_strlen p s = ret (map_option Inr (strlen m p))"
    using strlen_mirrors [OF assms, of p 0 cs] cs p by (simp add: u_strlen_def strlen_cstr)
  show "u_strnlen p n s = Inr (strnlen m p n)"
    using strnlen_mirrors [OF assms, of p 0 cs n] cs p by (simp add: u_strnlen_def strnlen_def)
  show "u_strchr p c s = ret (map_option Inr (strchr m p c))" "u_strrchr p c s = ret (map_option Inr (strrchr m p c))"
    using strchr_mirrors [OF assms cs p] by (simp_all add: u_strchr_def strchr_def u_strrchr_def strrchr_def)
  fix q ds assume ds: "cstr m q ds" and q: "span q (Suc (length ds)) \<subseteq> R"
  show "u_strcmp p q s = ret (map_option Inr (strcmp m p q))"
    using strcmp_mirrors [OF assms cs ds p q] by (simp add: u_strcmp_def)
  show "u_strncmp p q n s = Inr (strncmp m p q n)"
    using strncmp_mirrors [OF assms cs ds p q, of "unat n - 1"]
    by (cases "n = 0") (simp_all add: u_strncmp_def strncmp_def unat_gt_0)
next
  fix p q cs and n :: u32
  assume cs: "cstr m q cs" and q: "span q (Suc (length cs)) \<subseteq> R"
  show "leaves R (strncpy m p q n) (u_strncpy p q n s)" if "span p (unat n) \<subseteq> R" "src_outside p q (unat n) cs"
    by (rule strncpy_mirrors [OF assms cs that(2) q that(1)])
  show "\<exists>m'. strcpy m p q = Some m' \<and> leaves R m' (u_strcpy p q s)"
    if "span p (Suc (length cs)) \<subseteq> R" "src_outside p q (Suc (length cs)) cs"
    using strcpy_mirrors [OF assms cs that(2) q that(1)] by (simp add: u_strcpy_def)
qed

text \<open>A program whose only page, at address 0, holds "hi" at 0x10, a newline at 0x14 and a format at 0x18.\<close>

definition hi_vm :: vm where
  "hi_vm = small_vm\<lparr>cr3 := 0x1000, pmem := (\<lambda>_. 0)(0x1000 := 0x07, 0x1001 := 0x20, 0x2000 := 0x07, 0x2001 := 0x30,
     0x3010 := 0x68, 0x3011 := 0x69, 0x3014 := 0x0a, 0x3018 := 0x25, 0x3019 := 0x73)\<rparr>"

lemma hi_translate: "unat v < 4096 \<Longrightarrow> translate hi_vm v = Some (0x3000 + v)"
proof -
  assume v: "unat v < 4096"
  then have "pd_index v = 0" "pt_index v = 0" by (simp_all add: unat_eq_0 [symmetric] pd_index_unat pt_index_unat)
  moreover have "v AND 0xfff = v" using v by (simp add: unat_eq_0 [symmetric] word_unat_eq_iff page_off_unat)
  ultimately show ?thesis by (simp add: translate_def pde_def pte_def hi_vm_def load32_def page_base_def PAGE_PRESENT_def)
qed

definition hi_page :: "u32 set" where
  "hi_page = {v. unat v < 4096}"

lemma hi_mirrors: "mirrors hi_page (\<lambda>v. pmem hi_vm (0x3000 + v)) hi_vm"
proof -
  have "0x3000 + v \<notin> entry_bytes hi_vm w" if "unat v < 4096" "unat w < 4096" for v w
  proof -
    have "pd_index w = 0" "pt_index w = 0" using that(2) by (simp_all add: unat_eq_0 [symmetric] pd_index_unat pt_index_unat)
    moreover have "unat (0x2000 + v) = 0x2000 + unat v" "unat (0x1000 + v) = 0x1000 + unat v"
      using that(1) by (simp_all add: unat_add_u32)
    ultimately show ?thesis by (simp add: entry_bytes_def pde_def load32_def page_base_def hi_vm_def)
  qed
  then have "own_pages hi_page hi_vm" by (auto simp: own_pages_def hi_page_def hi_translate inj_on_def)
  then show ?thesis by (simp add: mirrors_def hi_page_def vload8_def hi_translate)
qed

lemma program_strings_witness:
  "u_strlen 0x10 hi_vm = Inr 2 \<and> u_strcmp 0x10 0x11 hi_vm = Inr (- 1) \<and> u_strchr 0x10 0x69 hi_vm = Inr 0x11
    \<and> (\<exists>s. u_strcpy 0x20 0x10 hi_vm = Inr s \<and> vload8 0x21 s = Inr 0x69)"
proof -
  let ?m = "\<lambda>v. pmem hi_vm (0x3000 + v)"
  note P = program_strings [OF hi_mirrors]
  have m: "?m 0x10 = 0x68" "?m 0x11 = 0x69" "?m 0x12 = 0" by (simp_all add: hi_vm_def)
  have page: "span p n \<subseteq> hi_page" if "p \<in> {0x10, 0x11, 0x20}" "n \<le> 3" for p :: u32 and n
    using that by (auto simp: span_iff hi_page_def)
  have cs: "cstr ?m 0x10 [0x68, 0x69]" "cstr ?m 0x11 [0x69]" using m by simp_all
  note read = P [THEN conjunct2, THEN conjunct2, THEN conjunct1, rule_format, of "0x10" "[0x68, 0x69]"]
    and compare = P [THEN conjunct2, THEN conjunct2, THEN conjunct2, THEN conjunct1, rule_format,
      of "0x10" "[0x68, 0x69]" "0x11" "[0x69]"]
    and copy = P [THEN conjunct2, THEN conjunct2, THEN conjunct2, THEN conjunct2, rule_format,
      of "0x10" "[0x68, 0x69]" "0x20" 0]
  have len: "u_strlen 0x10 hi_vm = Inr 2"
    using read cs(1) page [of "0x10" "Suc (Suc (Suc 0))"] strlen_cstr [OF cs(1)] by simp
  have cmp: "u_strcmp 0x10 0x11 hi_vm = Inr (- 1)"
    using compare cs page [of "0x10" "Suc (Suc (Suc 0))"] page [of "0x11" "Suc (Suc 0)"] strcmp_cstr [OF cs] by simp
  have chr: "u_strchr 0x10 0x69 hi_vm = Inr 0x11"
    using read cs(1) page [of "0x10" "Suc (Suc (Suc 0))"] strchr_cstr_found [of ?m "0x10" "[0x68]" "0x69" "[]"] by (simp add: strchr_def)
  have "i = 0 \<or> i = 1 \<or> i = 2" if "i \<le> 2" for i :: nat using that by auto
  moreover have "Suc (Suc (Suc 0)) \<le> unat (0x10 + of_nat i - 0x20 :: u32)" if "i \<in> {0, 1, 2}" for i :: nat
    using that by auto
  ultimately have out: "src_outside 0x20 0x10 (Suc (Suc (Suc 0))) [0x68, 0x69]"
    by (simp add: src_outside_def)
  then obtain m' s where s: "strcpy ?m 0x20 0x10 = Some m'" "u_strcpy 0x20 0x10 hi_vm = Inr s" "mirrors hi_page m' s"
    using copy cs(1) page [of "0x10" "Suc (Suc (Suc 0))"] page [of "0x20" "Suc (Suc (Suc 0))"] by (auto simp: leaves_def)
  have "m' 0x21 = 0x69" using strcpy_at [OF _ cs(1), of "0x20"] out s(1) by auto
  moreover have "(0x21 :: u32) \<in> hi_page" by (simp add: hi_page_def)
  ultimately show ?thesis using len cmp chr s(2) mirrors_load [OF s(3), of "0x21"] by auto
qed

end
