(* ===== verification/Uformat.thy ===== *)
theory Uformat
  imports Ustring Printf
begin

text \<open>
  \<open>vsnprintf\<close> of \<open>initrd/libc/stdio.c\<close> in the memory of a program: the format and the strings it prints are read
  through the page tables, the buffer is written through them, and an argument is a word (an \<open>int\<close> or a
  pointer) or a double, as the caller pushed it. The local arrays are lists, as in \<open>Printf\<close>.

  The lemmas show that it implements the function on byte lists of \<open>Printf\<close>.
\<close>

section \<open>vsnprintf\<close>

datatype 'f va = Va_word u32 | Va_double 'f

fun word_arg :: "'f va list \<Rightarrow> (u32 \<times> 'f va list) res" where
  "word_arg (Va_word v # args) = Inr (v, args)"
| "word_arg args = Inl (Fault ''va_arg'')"

fun float_arg :: "'f va list \<Rightarrow> ('f \<times> 'f va list) res" where
  "float_arg (Va_double x # args) = Inr (x, args)"
| "float_arg args = Inl (Fault ''va_arg'')"

text \<open>\<open>PUT\<close>, for the number of bytes written so far and the memory.\<close>

definition u_put :: "u32 \<Rightarrow> u32 \<Rightarrow> u8 \<Rightarrow> u32 \<times> vm \<Rightarrow> (u32 \<times> vm) res" where
  "u_put buf bufsize c = (\<lambda>(i, s).
     if i < bufsize - 1 then bind_res (vstore8 (buf + i) c s) (\<lambda>s. Inr (i + 1, s)) else Inr (i, s))"

primrec u_put_all :: "u32 \<Rightarrow> u32 \<Rightarrow> u8 list \<Rightarrow> u32 \<times> vm \<Rightarrow> (u32 \<times> vm) res" where
  "u_put_all buf bufsize [] st = Inr st"
| "u_put_all buf bufsize (c # cs) st = bind_res (u_put buf bufsize c st) (u_put_all buf bufsize cs)"

text \<open>The characters of a string in memory. A character is read only while the buffer has room.\<close>

primrec u_put_str :: "u32 \<Rightarrow> u32 \<Rightarrow> nat \<Rightarrow> u32 \<Rightarrow> u32 \<times> vm \<Rightarrow> (u32 \<times> vm) res" where
  "u_put_str buf bufsize 0 p st = Inr st"
| "u_put_str buf bufsize (Suc n) p st =
     bind_res (if fst st < bufsize - 1 then bind_res (vload8 p (snd st)) (\<lambda>c. u_put buf bufsize c st) else Inr st)
       (u_put_str buf bufsize n (p + 1))"

definition u_pad_and_put :: "u32 \<Rightarrow> u32 \<Rightarrow> bool \<Rightarrow> bool \<Rightarrow> u32 \<Rightarrow> u32 \<Rightarrow> (u32 \<times> vm \<Rightarrow> (u32 \<times> vm) res)
    \<Rightarrow> u32 \<times> vm \<Rightarrow> (u32 \<times> vm) res" where
  "u_pad_and_put buf bufsize left_align zero_pad width len body st =
     (let pad = nat (sint (width - len)) in
      bind_res (if left_align then Inr st else u_put_all buf bufsize (replicate pad (if zero_pad then 0x30 else 0x20)) st) (\<lambda>st.
      bind_res (body st) (\<lambda>st.
      if left_align then u_put_all buf bufsize (replicate pad 0x20) st else Inr st)))"

partial_function (option) u_flags :: "bool \<Rightarrow> bool \<Rightarrow> u32 \<Rightarrow> vm \<Rightarrow> (bool \<times> bool \<times> u32) res option" where
  "u_flags left_align zero_pad fmt s = (case vload8 fmt s of
       Inl e \<Rightarrow> Some (Inl e)
     | Inr c \<Rightarrow> if c = 0x2d then u_flags True zero_pad (fmt + 1) s
               else if c = 0x30 then u_flags left_align True (fmt + 1) s
               else Some (Inr (left_align, zero_pad, fmt)))"

partial_function (option) u_number :: "u32 \<Rightarrow> u32 \<Rightarrow> vm \<Rightarrow> (u32 \<times> u32) res option" where
  "u_number n fmt s = (case vload8 fmt s of
       Inl e \<Rightarrow> Some (Inl e)
     | Inr c \<Rightarrow> if 0x30 \<le> c \<and> c \<le> 0x39 then u_number (n * 10 + (ucast c - 0x30)) (fmt + 1) s
               else Some (Inr (n, fmt)))"

definition u_width :: "u32 \<Rightarrow> 'f va list \<Rightarrow> vm \<Rightarrow> (u32 \<times> u32 \<times> 'f va list) res" where
  "u_width fmt args s = bind_res (vload8 fmt s) (\<lambda>c.
     if c = 0x2a then bind_res (word_arg args) (\<lambda>(n, args). Inr (n, fmt + 1, args))
     else bind_res (ret (u_number 0 fmt s)) (\<lambda>(n, fmt). Inr (n, fmt, args)))"

definition u_precision :: "u32 \<Rightarrow> 'f va list \<Rightarrow> vm \<Rightarrow> (u32 \<times> u32 \<times> 'f va list) res" where
  "u_precision fmt args s = bind_res (vload8 fmt s) (\<lambda>c.
     if c = 0x2e then u_width (fmt + 1) args s else Inr (-1, fmt, args))"

text \<open>What a directive prints padded: the characters of a local array, or those at an address.\<close>

datatype text_of = Chars "u8 list" | Stored u32 u32 | Unpadded

definition u_string :: "u32 \<Rightarrow> u32 \<Rightarrow> vm \<Rightarrow> text_of res" where
  "u_string precision p s =
     (if p = 0 then Inr (Chars (conv_s precision None))
      else bind_res (u_strlen p s) (\<lambda>len.
        Inr (Stored p (if 0 \<le> sint precision \<and> sint precision < sint len then precision else len))))"

definition u_convert :: "'f ftoa \<Rightarrow> u8 \<Rightarrow> u32 \<Rightarrow> 'f va list \<Rightarrow> vm \<Rightarrow> (text_of \<times> 'f va list) res" where
  "u_convert F c precision args s =
     (if c = 0x63 then bind_res (word_arg args) (\<lambda>(v, args). Inr (Chars [ucast v], args))
      else if c = 0x73 then bind_res (word_arg args) (\<lambda>(p, args). bind_res (u_string precision p s) (\<lambda>t. Inr (t, args)))
      else if c = 0x64 then bind_res (word_arg args) (\<lambda>(v, args). bind_res (conv_d precision v) (\<lambda>t. Inr (Chars t, args)))
      else if c = 0x75 then bind_res (word_arg args) (\<lambda>(v, args). bind_res (conv_u precision v) (\<lambda>t. Inr (Chars t, args)))
      else if c = 0x78 then bind_res (word_arg args) (\<lambda>(v, args). bind_res (conv_x precision v) (\<lambda>t. Inr (Chars t, args)))
      else if c = 0x70 then bind_res (word_arg args) (\<lambda>(v, args). bind_res (conv_p v) (\<lambda>t. Inr (Chars t, args)))
      else if c = 0x66 then bind_res (float_arg args) (\<lambda>(x, args). bind_res (conv_f F precision x) (\<lambda>t. Inr (Chars t, args)))
      else Inr (Unpadded, args))"

definition u_emit :: "u32 \<Rightarrow> u32 \<Rightarrow> bool \<Rightarrow> bool \<Rightarrow> u32 \<Rightarrow> u8 \<Rightarrow> text_of \<Rightarrow> u32 \<times> vm \<Rightarrow> (u32 \<times> vm) res" where
  "u_emit buf bufsize left_align zero_pad width c t st = (case t of
       Chars cs \<Rightarrow> u_pad_and_put buf bufsize left_align zero_pad width (of_nat (length cs)) (u_put_all buf bufsize cs) st
     | Stored p len \<Rightarrow> u_pad_and_put buf bufsize left_align zero_pad width len (u_put_str buf bufsize (nat (sint len)) p) st
     | Unpadded \<Rightarrow> if c = 0x25 then u_put buf bufsize 0x25 st else Inr st)"

text \<open>A directive, after its percent sign.\<close>

definition u_directive :: "'f ftoa \<Rightarrow> u32 \<Rightarrow> u32 \<Rightarrow> u32 \<Rightarrow> 'f va list \<Rightarrow> u32 \<Rightarrow> vm
    \<Rightarrow> (u32 \<times> 'f va list \<times> u32 \<times> vm) res" where
  "u_directive F buf bufsize fmt args i s =
     bind_res (ret (u_flags False False fmt s)) (\<lambda>(left_align, zero_pad, fmt).
     let zero_pad = (zero_pad \<and> \<not> left_align) in
     bind_res (u_width fmt args s) (\<lambda>(width, fmt, args).
     bind_res (u_precision fmt args s) (\<lambda>(precision, fmt, args).
     bind_res (vload8 fmt s) (\<lambda>c.
     bind_res (u_convert F c precision args s) (\<lambda>(t, args).
     bind_res (u_emit buf bufsize left_align zero_pad width c t (i, s)) (\<lambda>st. Inr (fmt + 1, args, st)))))))"

partial_function (option) u_format :: "'f ftoa \<Rightarrow> u32 \<Rightarrow> u32 \<Rightarrow> u32 \<Rightarrow> 'f va list \<Rightarrow> u32 \<Rightarrow> vm \<Rightarrow> (u32 \<times> vm) res option" where
  "u_format F buf bufsize fmt args i s = (case vload8 fmt s of
       Inl e \<Rightarrow> Some (Inl e)
     | Inr c \<Rightarrow>
         if c = 0 then Some (Inr (i, s))
         else if c \<noteq> 0x25
         then if i < bufsize - 1
              then (case vstore8 (buf + i) c s of
                  Inl e \<Rightarrow> Some (Inl e)
                | Inr s \<Rightarrow> u_format F buf bufsize (fmt + 1) args (i + 1) s)
              else u_format F buf bufsize fmt args i s
         else (case u_directive F buf bufsize (fmt + 1) args i s of
             Inl e \<Rightarrow> Some (Inl e)
           | Inr (fmt, args, i, s) \<Rightarrow> u_format F buf bufsize fmt args i s))"

definition u_vsnprintf :: "'f ftoa \<Rightarrow> u32 \<Rightarrow> u32 \<Rightarrow> u32 \<Rightarrow> 'f va list \<Rightarrow> vm \<Rightarrow> (u32 \<times> vm) res" where
  "u_vsnprintf F buf bufsize fmt args s =
     bind_res (ret (u_format F buf bufsize fmt args 0 s)) (\<lambda>(i, s).
     bind_res (vstore8 (buf + i) 0 s) (\<lambda>s. Inr (i, s)))"

section \<open>stdlib.c\<close>

text \<open>The digits are collected in a local array and then stored, the NUL last.\<close>

definition u_itoa :: "u32 \<Rightarrow> u32 \<Rightarrow> u32 \<Rightarrow> vm \<Rightarrow> vm res" where
  "u_itoa v buf base s = bind_res (itoa v base) (\<lambda>ds. vwrite (ds @ [0]) buf s)"

definition u_utoa :: "u32 \<Rightarrow> u32 \<Rightarrow> u32 \<Rightarrow> vm \<Rightarrow> vm res" where
  "u_utoa v buf base s = bind_res (utoa v base) (\<lambda>ds. vwrite (ds @ [0]) buf s)"

definition u_ftoa :: "'f doubles \<Rightarrow> 'f \<Rightarrow> u32 \<Rightarrow> u32 \<Rightarrow> vm \<Rightarrow> vm res" where
  "u_ftoa D x buf decimals s = bind_res (ftoa D x decimals) (\<lambda>cs. vwrite (cs @ [0]) buf s)"

section \<open>What the buffer holds\<close>

definition patched :: "mem \<Rightarrow> u32 \<Rightarrow> u8 list \<Rightarrow> mem" where
  "patched m buf cs = (\<lambda>a. if unat (a - buf) < length cs then cs ! unat (a - buf) else m a)"

text \<open>\<open>i\<close> characters, \<open>out\<close>, have been written to a buffer that has room for \<open>lim\<close>.\<close>

definition outs_at :: "u32 set \<Rightarrow> mem \<Rightarrow> u32 \<Rightarrow> nat \<Rightarrow> u8 list \<Rightarrow> u32 \<times> vm \<Rightarrow> bool" where
  "outs_at R m buf lim out = (\<lambda>(i, s). i = of_nat (length out) \<and> length out \<le> lim \<and> mirrors R (patched m buf out) s)"

definition prints :: "u32 set \<Rightarrow> mem \<Rightarrow> u32 \<Rightarrow> nat \<Rightarrow> u8 list \<Rightarrow> (u32 \<times> vm) res \<Rightarrow> bool" where
  "prints R m buf lim out r \<longleftrightarrow> (\<exists>st. r = Inr st \<and> outs_at R m buf lim out st)"

definition room :: "u32 set \<Rightarrow> u32 \<Rightarrow> u32 \<Rightarrow> bool" where
  "room R buf bufsize \<longleftrightarrow> 0 < bufsize \<and> span buf (unat bufsize) \<subseteq> R"

abbreviation lim_of :: "u32 \<Rightarrow> nat" where
  "lim_of bufsize \<equiv> unat (bufsize - 1)"

lemma patched_Nil [simp]: "patched m buf [] = m"
  by (simp add: patched_def)

lemma patched_snoc:
  assumes "length out < 4294967296"
  shows "patched m buf (out @ [c]) = (patched m buf out)(buf + of_nat (length out) := c)"
proof
  fix a
  have "unat (a - buf) = length out \<longleftrightarrow> a = buf + of_nat (length out)"
    using assms by (metis add.commute diff_add_cancel add_diff_cancel_right' unat_of_nat_u32 unat_inj_u32)
  then show "patched m buf (out @ [c]) a = ((patched m buf out)(buf + of_nat (length out) := c)) a"
    by (auto simp: patched_def nth_append)
qed

lemma room_at: "room R buf bufsize \<Longrightarrow> n < unat bufsize \<Longrightarrow> buf + of_nat n \<in> R"
proof -
  assume r: "room R buf bufsize" and n: "n < unat bufsize"
  then have "n < 4294967296" using unat_u32_bound [of bufsize] by linarith
  then have "buf + of_nat n \<in> span buf (unat bufsize)" using n by (simp add: span_def)
  then show ?thesis using r by (auto simp: room_def)
qed

lemma room_lim: "room R buf bufsize \<Longrightarrow> Suc (lim_of bufsize) = unat bufsize"
proof -
  assume "room R buf bufsize"
  then have "bufsize \<noteq> 0" by (auto simp: room_def)
  then show ?thesis by (simp add: unat_dec_u32 unat_gt_0)
qed

lemma put_prints:
  assumes "room R buf bufsize" "outs_at R m buf (lim_of bufsize) out st"
  shows "prints R m buf (lim_of bufsize) (put (lim_of bufsize) c out) (u_put buf bufsize c st)"
proof -
  obtain i s where st: "st = (i, s)" by (cases st)
  have ob: "i = of_nat (length out)" "length out \<le> lim_of bufsize" "mirrors R (patched m buf out) s"
    using assms(2) by (simp_all add: outs_at_def st)
  have l: "length out < 4294967296" using ob(2) unat_u32_bound [of "bufsize - 1"] by linarith
  then have lt: "i < bufsize - 1 \<longleftrightarrow> length out < lim_of bufsize" by (simp add: ob(1) word_less_nat_alt)
  show ?thesis
  proof (cases "length out < lim_of bufsize")
    case True
    then have "buf + i \<in> R" using room_at [OF assms(1)] room_lim [OF assms(1)] ob(1) by simp
    then obtain s' where "vstore8 (buf + i) c s = Inr s'" "mirrors R (patched m buf (out @ [c])) s'"
      using mirrors_store [OF ob(3)] by (auto simp: patched_snoc [OF l] ob(1))
    then show ?thesis using True lt by (simp add: prints_def outs_at_def u_put_def st put_def ob(1))
  next
    case False
    then show ?thesis using lt ob by (auto simp: prints_def outs_at_def u_put_def st put_def)
  qed
qed

lemma prints_bind:
  "prints R m buf lim out r \<Longrightarrow> (\<And>st. outs_at R m buf lim out st \<Longrightarrow> prints R m buf lim out' (f st)) \<Longrightarrow>
    prints R m buf lim out' (bind_res r f)"
  by (auto simp: prints_def)

lemma prints_Inr [simp]: "prints R m buf lim out (Inr st) \<longleftrightarrow> outs_at R m buf lim out st"
  by (simp add: prints_def)

lemma put_all_prints:
  "room R buf bufsize \<Longrightarrow> outs_at R m buf (lim_of bufsize) out st \<Longrightarrow>
    prints R m buf (lim_of bufsize) (puts (lim_of bufsize) cs out) (u_put_all buf bufsize cs st)"
  by (induction cs arbitrary: out st) (auto simp: puts_def intro: prints_bind put_prints)

section \<open>What the format and the arguments show\<close>

text \<open>A string of the program that the buffer does not overlap.\<close>

definition shown :: "u32 set \<Rightarrow> mem \<Rightarrow> u32 \<Rightarrow> nat \<Rightarrow> u32 \<Rightarrow> u8 list \<Rightarrow> bool" where
  "shown R m buf lim p cs \<longleftrightarrow> cstr m p cs \<and> span p (Suc (length cs)) \<subseteq> R
     \<and> span p (Suc (length cs)) \<inter> span buf (Suc lim) = {}"

lemma shown_load:
  assumes "outs_at R m buf lim out (i, s)" "shown R m buf lim p cs"
  shows "vload8 p s = Inr (if cs = [] then 0 else hd cs)"
proof -
  have p: "p \<in> span p (Suc (length cs))" by (simp add: span_def)
  then have "p \<in> R" "p \<notin> span buf (Suc lim)" using assms(2) by (auto simp: shown_def)
  then have "vload8 p s = Inr (m p)"
    using assms(1) mirrors_load [of R "patched m buf out" s p] by (auto simp: outs_at_def patched_def span_def)
  then show ?thesis using assms(2) by (cases cs) (auto simp: shown_def)
qed

lemma shown_step: "shown R m buf lim p (c # cs) \<Longrightarrow> c \<noteq> 0 \<and> shown R m buf lim (p + 1) cs"
proof -
  assume "shown R m buf lim p (c # cs)"
  moreover have "span (p + 1) (Suc (length cs)) \<subseteq> span p (Suc (length (c # cs)))" using span_cstr [of p c cs] by blast
  ultimately show ?thesis by (auto simp: shown_def)
qed

lemma shown_flags:
  assumes "outs_at R m buf lim out (i, s)"
  shows "shown R m buf lim fmt cs \<Longrightarrow> parse_flags l z cs = (l', z', cs') \<Longrightarrow>
    \<exists>fmt'. u_flags l z fmt s = Some (Inr (l', z', fmt')) \<and> shown R m buf lim fmt' cs'"
proof (induction l z cs arbitrary: fmt rule: parse_flags.induct)
  case (1 l z)
  then show ?case using shown_load [OF assms "1.prems"(1)] by (auto simp: u_flags.simps)
next
  case (2 l z c cs)
  show ?case
    using "2.IH"(1) [of "fmt + 1"] "2.IH"(2) [of "fmt + 1"] "2.prems" shown_load [OF assms "2.prems"(1)] shown_step [OF "2.prems"(1)]
    by (subst u_flags.simps) (auto split: if_splits)
qed

lemma shown_number:
  assumes "outs_at R m buf lim out (i, s)"
  shows "shown R m buf lim fmt cs \<Longrightarrow> parse_number n cs = (n', cs') \<Longrightarrow>
    \<exists>fmt'. u_number n fmt s = Some (Inr (n', fmt')) \<and> shown R m buf lim fmt' cs'"
proof (induction n cs arbitrary: fmt rule: parse_number.induct)
  case (1 n)
  then show ?case using shown_load [OF assms "1.prems"(1)] by (auto simp: u_number.simps)
next
  case (2 n c cs)
  then show ?case
    using "2.IH" [of "fmt + 1"] "2.prems" shown_load [OF assms "2.prems"(1)] shown_step [OF "2.prems"(1)]
    by (subst u_number.simps) (auto split: if_splits)
qed

text \<open>The arguments that were pushed, and what they stand for.\<close>

fun arg_shown :: "u32 set \<Rightarrow> mem \<Rightarrow> u32 \<Rightarrow> nat \<Rightarrow> 'f va \<Rightarrow> 'f arg \<Rightarrow> bool" where
  "arg_shown R m buf lim (Va_word v) (Int_arg w) \<longleftrightarrow> v = w"
| "arg_shown R m buf lim (Va_word p) (Str_arg None) \<longleftrightarrow> p = 0"
| "arg_shown R m buf lim (Va_word p) (Str_arg (Some cs)) \<longleftrightarrow>
     p \<noteq> 0 \<and> length cs < 2147483648 \<and> shown R m buf lim p cs"
| "arg_shown R m buf lim (Va_double x) (Double_arg y) \<longleftrightarrow> x = y"
| "arg_shown R m buf lim a b \<longleftrightarrow> False"

abbreviation args_shown :: "u32 set \<Rightarrow> mem \<Rightarrow> u32 \<Rightarrow> nat \<Rightarrow> 'f va list \<Rightarrow> 'f arg list \<Rightarrow> bool" where
  "args_shown R m buf lim \<equiv> list_all2 (arg_shown R m buf lim)"

lemma word_arg_shown:
  "int_arg as = Inr (v, as') \<Longrightarrow> args_shown R m buf lim args as \<Longrightarrow>
    \<exists>args'. word_arg args = Inr (v, args') \<and> args_shown R m buf lim args' as'"
  by (cases as rule: int_arg.cases; cases args rule: word_arg.cases) auto

lemma float_arg_shown:
  "double_arg as = Inr (x, as') \<Longrightarrow> args_shown R m buf lim args as \<Longrightarrow>
    \<exists>args'. float_arg args = Inr (x, args') \<and> args_shown R m buf lim args' as'"
  by (cases as rule: double_arg.cases; cases args rule: float_arg.cases) auto

lemma str_arg_shown:
  fixes args :: "'f va list"
  shows "str_arg as = Inr (t, as') \<Longrightarrow> args_shown R m buf lim args as \<Longrightarrow>
    \<exists>p args'. word_arg args = Inr (p, args') \<and> args_shown R m buf lim args' as' \<and> arg_shown R m buf lim (Va_word p :: 'f va) (Str_arg t)"
  by (cases as rule: str_arg.cases; cases args rule: word_arg.cases) auto

lemma shown_width:
  assumes "outs_at R m buf lim out (i, s)" "shown R m buf lim fmt cs" "args_shown R m buf lim args as"
    "parse_width cs as = Inr (n, cs', as')"
  shows "\<exists>fmt' args'. u_width fmt args s = Inr (n, fmt', args') \<and> shown R m buf lim fmt' cs' \<and> args_shown R m buf lim args' as'"
proof (cases "cs \<noteq> [] \<and> hd cs = 0x2a")
  case True
  then obtain cs1 where cs: "cs = 0x2a # cs1" by (cases cs) auto
  then obtain a1 where "int_arg as = Inr (n, a1)" "cs' = cs1" "as' = a1" using assms(4) by (auto simp: parse_width_def)
  with word_arg_shown [OF this(1) assms(3)] show ?thesis
    using shown_load [OF assms(1,2)] shown_step [OF assms(2) [unfolded cs]] by (auto simp: u_width_def cs)
next
  case False
  then obtain n1 cs1 where "parse_number 0 cs = (n1, cs1)" "n = n1" "cs' = cs1" "as' = as"
    using assms(4) by (auto simp: parse_width_def split: prod.splits)
  with shown_number [OF assms(1,2) this(1)] show ?thesis
    using shown_load [OF assms(1,2)] False assms(3) by (auto simp: u_width_def)
qed

lemma shown_precision:
  assumes "outs_at R m buf lim out (i, s)" "shown R m buf lim fmt cs" "args_shown R m buf lim args as"
    "parse_precision cs as = Inr (n, cs', as')"
  shows "\<exists>fmt' args'. u_precision fmt args s = Inr (n, fmt', args') \<and> shown R m buf lim fmt' cs' \<and> args_shown R m buf lim args' as'"
proof (cases "cs \<noteq> [] \<and> hd cs = 0x2e")
  case True
  then obtain cs1 where cs: "cs = 0x2e # cs1" by (cases cs) auto
  then have "parse_width cs1 as = Inr (n, cs', as')" using assms(4) by (simp add: parse_precision_def)
  with shown_width [OF assms(1) _ assms(3)] shown_step [OF assms(2) [unfolded cs]] show ?thesis
    using shown_load [OF assms(1,2)] by (auto simp: u_precision_def cs)
next
  case False
  then have "n = -1" "cs' = cs" "as' = as" using assms(4) by (auto simp: parse_precision_def split: if_splits)
  then show ?thesis using shown_load [OF assms(1,2)] False assms(2,3) by (auto simp: u_precision_def)
qed

section \<open>A directive\<close>

fun text_shown :: "u32 set \<Rightarrow> mem \<Rightarrow> u32 \<Rightarrow> nat \<Rightarrow> text_of \<Rightarrow> u8 list option \<Rightarrow> bool" where
  "text_shown R m buf lim (Chars t) (Some cs) \<longleftrightarrow> t = cs"
| "text_shown R m buf lim (Stored p len) (Some cs) \<longleftrightarrow>
     len = of_nat (length cs) \<and> length cs < 2147483648 \<and> (\<exists>rest. shown R m buf lim p (cs @ rest))"
| "text_shown R m buf lim Unpadded None \<longleftrightarrow> True"
| "text_shown R m buf lim a b \<longleftrightarrow> False"

lemma string_shown:
  assumes "outs_at R m buf lim out (i, s)" "arg_shown R m buf lim (Va_word p) (Str_arg t)"
  shows "\<exists>tx. u_string precision p s = Inr tx \<and> text_shown R m buf lim tx (Some (conv_s precision t))"
proof (cases t)
  case None
  then show ?thesis using assms(2) by (simp add: u_string_def)
next
  case (Some cs)
  then have p: "p \<noteq> 0" "length cs < 2147483648" "shown R m buf lim p cs" using assms(2) by simp_all
  have "\<exists>fmt'. u_strlen_loop p k s = Some (Inr (k + of_nat (length ds))) \<and> True" if "shown R m buf lim (p + k) ds" for k ds
    using that
  proof (induction ds arbitrary: k)
    case Nil
    then show ?case using shown_load [OF assms(1) Nil.prems] by (subst u_strlen_loop.simps) simp
  next
    case (Cons d ds)
    then show ?case using shown_load [OF assms(1) Cons.prems] shown_step [OF Cons.prems] Cons.IH [of "k + 1"]
      by (subst u_strlen_loop.simps) (simp add: add.assoc)
  qed
  from this [of 0 cs] p(3) have len: "u_strlen p s = Inr (of_nat (length cs))" by (simp add: u_strlen_def)
  have sl: "sint (of_nat (length cs) :: u32) = int (length cs)" using p(2) sint_small [of "of_nat (length cs)"] by simp
  show ?thesis
  proof (cases "0 \<le> sint precision \<and> sint precision < int (length cs)")
    case True
    let ?n = "nat (sint precision)"
    have "length (take ?n cs) = ?n" "?n < 2147483648" using True p(2) by auto
    moreover have "of_nat ?n = precision" using True by (simp add: of_nat_nat)
    moreover have "\<exists>rest. shown R m buf lim p (take ?n cs @ rest)"
      using p(3) by (intro exI [of _ "drop ?n cs"]) simp
    ultimately show ?thesis using True p(1) len sl Some by (auto simp: u_string_def conv_s_def)
  next
    case False
    then show ?thesis using p len sl Some by (auto simp: u_string_def conv_s_def intro: exI [of _ "[]"])
  qed
qed

lemma convert_shown:
  assumes "outs_at R m buf lim out (i, s)" "args_shown R m buf lim args as" "convert F c precision as = Inr (t, as')"
  shows "\<exists>tx args'. u_convert F c precision args s = Inr (tx, args') \<and> text_shown R m buf lim tx t
    \<and> args_shown R m buf lim args' as'"
proof (cases "c \<in> {0x63, 0x64, 0x75, 0x78, 0x70}")
  case True
  then obtain v a1 where "int_arg as = Inr (v, a1)" "as' = a1" using assms(3) by (auto simp: convert_def)
  with word_arg_shown [OF this(1) assms(2)] show ?thesis using True assms(3) by (auto simp: convert_def u_convert_def)
next
  case no_int: False
  show ?thesis
  proof (cases "c = 0x73")
    case True
    then obtain a a1 where a: "str_arg as = Inr (a, a1)" "as' = a1" "t = Some (conv_s precision a)"
      using assms(3) by (auto simp: convert_def)
    obtain p args' where p: "word_arg args = Inr (p, args')" "args_shown R m buf lim args' a1"
        "arg_shown R m buf lim (Va_word p :: 'a va) (Str_arg a)"
      using str_arg_shown [OF a(1) assms(2)] by blast
    show ?thesis using string_shown [OF assms(1) p(3), of precision] True p a by (auto simp: u_convert_def)
  next
    case no_str: False
    show ?thesis
    proof (cases "c = 0x66")
      case True
      then obtain x a1 where "double_arg as = Inr (x, a1)" "as' = a1" using assms(3) by (auto simp: convert_def)
      with float_arg_shown [OF this(1) assms(2)] show ?thesis using True assms(3) by (auto simp: convert_def u_convert_def)
    qed (use no_int no_str assms(2,3) in \<open>auto simp: convert_def u_convert_def\<close>)
  qed
qed

lemma put_str_prints:
  assumes "room R buf bufsize"
  shows "outs_at R m buf (lim_of bufsize) out st \<Longrightarrow> shown R m buf (lim_of bufsize) p (cs @ rest) \<Longrightarrow>
    prints R m buf (lim_of bufsize) (puts (lim_of bufsize) cs out) (u_put_str buf bufsize (length cs) p st)"
proof (induction cs arbitrary: out st p)
  case (Cons c cs)
  obtain i s where st: "st = (i, s)" by (cases st)
  have ob: "i = of_nat (length out)" "length out \<le> lim_of bufsize" using Cons.prems(1) by (simp_all add: outs_at_def st)
  have l: "length out < 4294967296" using ob(2) unat_u32_bound [of "bufsize - 1"] by linarith
  then have lt: "i < bufsize - 1 \<longleftrightarrow> length out < lim_of bufsize" by (simp add: ob(1) word_less_nat_alt)
  have "vload8 p s = Inr c" using shown_load [OF Cons.prems(1) [unfolded st] Cons.prems(2)] by simp
  then have "prints R m buf (lim_of bufsize) (put (lim_of bufsize) c out)
      (if fst st < bufsize - 1 then bind_res (vload8 p (snd st)) (\<lambda>c. u_put buf bufsize c st) else Inr st)"
    using put_prints [OF assms Cons.prems(1), of c] Cons.prems(1) lt by (auto simp: st put_def)
  moreover have "prints R m buf (lim_of bufsize) (puts (lim_of bufsize) (c # cs) out)
      (u_put_str buf bufsize (length cs) (p + 1) st)" if "outs_at R m buf (lim_of bufsize) (put (lim_of bufsize) c out) st" for st
    using Cons.IH [OF that, of "p + 1"] shown_step [of R m buf "lim_of bufsize" p c "cs @ rest"] Cons.prems(2)
    by (simp add: puts_def)
  ultimately show ?case by (simp only: u_put_str.simps list.size add_0_right add_Suc_right) (rule prints_bind)
qed (simp add: puts_def)

lemma pad_prints:
  assumes r: "room R buf bufsize"
    and body: "\<And>out st. outs_at R m buf (lim_of bufsize) out st \<Longrightarrow>
      prints R m buf (lim_of bufsize) (puts (lim_of bufsize) t out) (body st)"
    and ob: "outs_at R m buf (lim_of bufsize) out st"
  shows "prints R m buf (lim_of bufsize) (pad_and_put (lim_of bufsize) l z width t out)
    (u_pad_and_put buf bufsize l z width (of_nat (length t)) body st)"
  unfolding u_pad_and_put_def pad_and_put_def Let_def
  using ob by (auto intro!: prints_bind put_all_prints [OF r] body)

lemma emit_prints:
  assumes r: "room R buf bufsize" and ob: "outs_at R m buf (lim_of bufsize) out st"
    and t: "text_shown R m buf (lim_of bufsize) tx t"
  shows "prints R m buf (lim_of bufsize) (emit (lim_of bufsize) l z width c t out) (u_emit buf bufsize l z width c tx st)"
proof (cases tx)
  case (Chars cs)
  then have "t = Some cs" using t by (cases t) auto
  then show ?thesis using pad_prints [OF r put_all_prints [OF r] ob] Chars by (simp add: u_emit_def emit_def)
next
  case (Stored p len)
  then obtain cs rest where cs: "t = Some cs" "len = of_nat (length cs)" "length cs < 2147483648"
      "shown R m buf (lim_of bufsize) p (cs @ rest)" using t by (cases t) auto
  then have "nat (sint len) = length cs" using sint_small [of len] by simp
  then show ?thesis using pad_prints [OF r put_str_prints [OF r _ cs(4)] ob] Stored cs(1,2) by (simp add: u_emit_def emit_def)
next
  case Unpadded
  then have "t = None" using t by (cases t) auto
  then show ?thesis using put_prints [OF r ob] ob Unpadded by (simp add: u_emit_def emit_def)
qed

lemma directive_prints:
  assumes r: "room R buf bufsize" and ob: "outs_at R m buf (lim_of bufsize) out (i, s)"
    and fmt: "shown R m buf (lim_of bufsize) fmt cs" and args: "args_shown R m buf (lim_of bufsize) args as"
    and d: "directive F (lim_of bufsize) cs as out = Inr (cs', as', out')"
  shows "\<exists>fmt' args' i' s'. u_directive F buf bufsize fmt args i s = Inr (fmt', args', i', s')
    \<and> outs_at R m buf (lim_of bufsize) out' (i', s') \<and> shown R m buf (lim_of bufsize) fmt' cs'
    \<and> args_shown R m buf (lim_of bufsize) args' as'"
proof -
  obtain l z cs1 where f: "parse_flags False False cs = (l, z, cs1)" by (metis prod_cases3)
  from d f obtain w cs2 as2 p cs3 as3 c t where
    w: "parse_width cs1 as = Inr (w, cs2, as2)" and p: "parse_precision cs2 as2 = Inr (p, cs3, as3)" and c: "cs3 = c # cs'"
    and t: "convert F c p as3 = Inr (t, as')" "out' = emit (lim_of bufsize) l (z \<and> \<not> l) w c t out"
    by (auto simp: directive_def Let_def neq_Nil_conv split: list.splits prod.splits)
  obtain f1 where f1: "u_flags False False fmt s = Some (Inr (l, z, f1))" "shown R m buf (lim_of bufsize) f1 cs1"
    using shown_flags [OF ob fmt f] by blast
  obtain f2 a2 where f2: "u_width f1 args s = Inr (w, f2, a2)" "shown R m buf (lim_of bufsize) f2 cs2"
      "args_shown R m buf (lim_of bufsize) a2 as2"
    using shown_width [OF ob f1(2) args w] by blast
  obtain f3 a3 where f3: "u_precision f2 a2 s = Inr (p, f3, a3)" "shown R m buf (lim_of bufsize) f3 (c # cs')"
      "args_shown R m buf (lim_of bufsize) a3 as3"
    using shown_precision [OF ob f2(2,3) p] c by blast
  obtain tx a4 where a4: "u_convert F c p a3 s = Inr (tx, a4)" "text_shown R m buf (lim_of bufsize) tx t"
      "args_shown R m buf (lim_of bufsize) a4 as'"
    using convert_shown [OF ob f3(3) t(1)] by blast
  have "prints R m buf (lim_of bufsize) out' (u_emit buf bufsize l (z \<and> \<not> l) w c tx (i, s))"
    unfolding t(2) by (rule emit_prints [OF r ob a4(2)])
  then obtain i' s' where "u_emit buf bufsize l (z \<and> \<not> l) w c tx (i, s) = Inr (i', s')"
      "outs_at R m buf (lim_of bufsize) out' (i', s')" by (auto simp: prints_def)
  moreover have "vload8 f3 s = Inr c" using shown_load [OF ob f3(2)] by simp
  ultimately show ?thesis using f1(1) f2(1) f3(1) a4(1,3) shown_step [OF f3(2)]
    by (simp add: u_directive_def Let_def)
qed

section \<open>The whole format\<close>

lemma format_prints:
  assumes r: "room R buf bufsize"
  shows "outs_at R m buf (lim_of bufsize) out (i, s) \<Longrightarrow> shown R m buf (lim_of bufsize) fmt cs \<Longrightarrow>
    args_shown R m buf (lim_of bufsize) args as \<Longrightarrow> format_loop F (lim_of bufsize) cs as out = Some (Inr out') \<Longrightarrow>
    \<exists>st. u_format F buf bufsize fmt args i s = Some (Inr st) \<and> outs_at R m buf (lim_of bufsize) out' st"
proof (induction "length cs" arbitrary: cs fmt args as out i s rule: less_induct)
  case less
  note ob = less.prems(1) and fmt = less.prems(2) and args = less.prems(3) and returns = less.prems(4)
  show ?case
  proof (cases cs)
    case Nil
    then show ?thesis using shown_load [OF ob fmt] ob returns by (subst u_format.simps) simp
  next
    case (Cons c cs1)
    have c: "vload8 fmt s = Inr c" "c \<noteq> 0" "shown R m buf (lim_of bufsize) (fmt + 1) cs1"
      using shown_load [OF ob fmt] shown_step [OF fmt [unfolded Cons]] Cons by simp_all
    show ?thesis
    proof (cases "c = 0x25")
      case False
      then have l: "length out < lim_of bufsize" using returns Cons by (cases "length out < lim_of bufsize") simp_all
      have i: "i = of_nat (length out)" using ob by (simp add: outs_at_def)
      have "length out < 4294967296" using l unat_u32_bound [of "bufsize - 1"] by linarith
      then have lt: "i < bufsize - 1" using l by (simp add: i word_less_nat_alt)
      obtain i' s' where "u_put buf bufsize c (i, s) = Inr (i', s')"
          and ob': "outs_at R m buf (lim_of bufsize) (out @ [c]) (i', s')"
        using put_prints [OF r ob, of c] l by (auto simp: prints_def put_def)
      then have "vstore8 (buf + i) c s = Inr s'" "i' = i + 1" using lt by (auto simp: u_put_def)
      then show ?thesis using less.hyps [OF _ ob' c(3) args] returns False Cons l lt c(1,2)
        by (subst u_format.simps) simp
    next
      case True
      then obtain cs2 as2 out2 where d: "directive F (lim_of bufsize) cs1 as out = Inr (cs2, as2, out2)"
          and f: "format_loop F (lim_of bufsize) cs2 as2 out2 = Some (Inr out')"
        using returns Cons by (auto split: sum.splits)
      then obtain fmt2 args2 i2 s2 where d2: "u_directive F buf bufsize (fmt + 1) args i s = Inr (fmt2, args2, i2, s2)"
          "outs_at R m buf (lim_of bufsize) out2 (i2, s2)" "shown R m buf (lim_of bufsize) fmt2 cs2"
          "args_shown R m buf (lim_of bufsize) args2 as2"
        using directive_prints [OF r ob c(3) args d] by blast
      then show ?thesis using less.hyps [OF _ d2(2,3,4) f] directive_shorter [OF d] True Cons c(1)
        by (subst u_format.simps) simp
    qed
  qed
qed

text \<open>Where the loop on lists does not end, neither does the one in memory: what ends in memory ends on lists.\<close>

definition ends_with :: "'f ftoa \<Rightarrow> u32 set \<Rightarrow> mem \<Rightarrow> u32 \<Rightarrow> u32 \<Rightarrow> u32 \<Rightarrow> 'f va list \<Rightarrow> u32 \<Rightarrow> vm \<Rightarrow> bool" where
  "ends_with F R m buf bufsize fmt args i s \<longleftrightarrow> (\<forall>cs as out. outs_at R m buf (lim_of bufsize) out (i, s) \<longrightarrow>
     shown R m buf (lim_of bufsize) fmt cs \<longrightarrow> args_shown R m buf (lim_of bufsize) args as \<longrightarrow>
     format_loop F (lim_of bufsize) cs as out \<noteq> None)"

lemma format_ends:
  "u_format F buf bufsize fmt args i s = Some res \<Longrightarrow> room R buf bufsize \<longrightarrow> ends_with F R m buf bufsize fmt args i s"
proof (erule u_format.raw_induct [rotated])
  fix f F buf bufsize fmt args i s and res :: "(u32 \<times> vm) res"
  assume IH: "\<And>F buf bufsize fmt args i s res. f F buf bufsize fmt args i s = Some res \<Longrightarrow>
      room R buf bufsize \<longrightarrow> ends_with F R m buf bufsize fmt args i s"
    and body: "(case vload8 fmt s of
       Inl e \<Rightarrow> Some (Inl e)
     | Inr c \<Rightarrow>
         if c = 0 then Some (Inr (i, s))
         else if c \<noteq> 0x25
         then if i < bufsize - 1
              then (case vstore8 (buf + i) c s of
                  Inl e \<Rightarrow> Some (Inl e)
                | Inr s \<Rightarrow> f F buf bufsize (fmt + 1) args (i + 1) s)
              else f F buf bufsize fmt args i s
         else (case u_directive F buf bufsize (fmt + 1) args i s of
             Inl e \<Rightarrow> Some (Inl e)
           | Inr (fmt, args, i, s) \<Rightarrow> f F buf bufsize fmt args i s)) = Some res"
  show "room R buf bufsize \<longrightarrow> ends_with F R m buf bufsize fmt args i s"
    unfolding ends_with_def
  proof (intro impI allI)
    fix cs as out
    assume r: "room R buf bufsize" and ob: "outs_at R m buf (lim_of bufsize) out (i, s)"
      and fmt: "shown R m buf (lim_of bufsize) fmt cs" and args: "args_shown R m buf (lim_of bufsize) args as"
    show "format_loop F (lim_of bufsize) cs as out \<noteq> None"
    proof (cases cs)
      case (Cons c cs1)
      have c: "vload8 fmt s = Inr c" "c \<noteq> 0" "shown R m buf (lim_of bufsize) (fmt + 1) cs1"
        using shown_load [OF ob fmt] shown_step [OF fmt [unfolded Cons]] Cons by simp_all
      show ?thesis
      proof (cases "c = 0x25")
        case False
        obtain i' s' where put: "u_put buf bufsize c (i, s) = Inr (i', s')"
            and ob': "outs_at R m buf (lim_of bufsize) (put (lim_of bufsize) c out) (i', s')"
          using put_prints [OF r ob, of c] by (auto simp: prints_def)
        show ?thesis
        proof (cases "i < bufsize - 1")
          case True
          then have st: "vstore8 (buf + i) c s = Inr s'" "i' = i + 1" using put by (auto simp: u_put_def)
          then have "ends_with F R m buf bufsize (fmt + 1) args (i + 1) s'" using body c False True IH r by auto
          then have "format_loop F (lim_of bufsize) cs1 as (put (lim_of bufsize) c out) \<noteq> None"
            using ob' c(3) args st(2) unfolding ends_with_def by blast
          moreover have "length out < 4294967296"
            using ob le_less_trans [OF _ unat_u32_bound [of "bufsize - 1"], of "length out"] by (simp add: outs_at_def)
          then have "length out < lim_of bufsize" using True ob by (simp add: outs_at_def word_less_nat_alt)
          ultimately show ?thesis using False Cons by (simp add: put_def)
        next
          case full: False
          then have "ends_with F R m buf bufsize fmt args i s" using body c False IH r by auto
          then show ?thesis using ob fmt args unfolding ends_with_def by blast
        qed
      next
        case True
        show ?thesis
        proof (cases "directive F (lim_of bufsize) cs1 as out")
          case (Inr x)
          obtain cs2 as2 out2 where x: "x = (cs2, as2, out2)" by (rule prod_cases3)
          obtain fmt2 args2 i2 s2 where d: "u_directive F buf bufsize (fmt + 1) args i s = Inr (fmt2, args2, i2, s2)"
              "outs_at R m buf (lim_of bufsize) out2 (i2, s2)" "shown R m buf (lim_of bufsize) fmt2 cs2"
              "args_shown R m buf (lim_of bufsize) args2 as2"
            using directive_prints [OF r ob c(3) args Inr [unfolded x]] by blast
          then have "ends_with F R m buf bufsize fmt2 args2 i2 s2" using body c True IH r by auto
          then show ?thesis using d Inr x True Cons unfolding ends_with_def by auto
        qed (simp add: True Cons)
      qed
    qed simp
  qed
qed

lemma u_vsnprintf_prints:
  assumes "mirrors R m s" "0 < bufsize" "span buf (unat bufsize) \<subseteq> R"
    and "shown R m buf (unat (bufsize - 1)) fmt cs" "args_shown R m buf (unat (bufsize - 1)) args as"
    and "vsnprintf F bufsize cs as = Inr (out, len)"
  shows "\<exists>s'. u_vsnprintf F buf bufsize fmt args s = Inr (len, s') \<and> mirrors R (patched m buf out) s'"
proof -
  have r: "room R buf bufsize" using assms(2,3) by (simp add: room_def)
  obtain o1 where o1: "format_loop F (lim_of bufsize) cs as [] = Some (Inr o1)" "out = o1 @ [0]" "len = of_nat (length o1)"
    using assms(6) by (cases "format_loop F (lim_of bufsize) cs as []") (auto simp: vsnprintf_def)
  have "outs_at R m buf (lim_of bufsize) [] (0, s)" using assms(1) by (simp add: outs_at_def)
  from format_prints [OF r this assms(4,5) o1(1)] obtain s1 where
    f: "u_format F buf bufsize fmt args 0 s = Some (Inr (len, s1))" and ob: "outs_at R m buf (lim_of bufsize) o1 (len, s1)"
    by (auto simp: outs_at_def o1(3))
  then have l: "length o1 < unat bufsize" using room_lim [OF r] by (simp add: outs_at_def)
  then have "length o1 < 4294967296" using unat_u32_bound [of bufsize] by linarith
  then show ?thesis
    using mirrors_store [of R "patched m buf o1" s1 "buf + len" 0] room_at [OF r l] ob f patched_snoc [of o1 m buf 0] o1(2,3)
    by (auto simp: outs_at_def u_vsnprintf_def)
qed

section \<open>Properties\<close>

text \<open>C37: \<open>vsnprintf\<close> of the programs, which reads its format and strings and writes its buffer through the page tables,
  implements the function on byte lists: when the buffer, the format and the strings are the program's own memory and the
  buffer overlaps none of them, then if the function on lists returns, so does this one, with the same length and
  no fault, and it changes nothing of the region but the buffer, which then holds the characters and the NUL; and where
  the loop on lists never ends, because an ordinary character meets a full buffer, this one never ends either.\<close>

theorem program_vsnprintf:
  assumes "mirrors R m s" "0 < bufsize" "span buf (unat bufsize) \<subseteq> R"
    and "shown R m buf (unat (bufsize - 1)) fmt cs" "args_shown R m buf (unat (bufsize - 1)) args as"
  shows "(\<forall>out len. vsnprintf F bufsize cs as = Inr (out, len) \<longrightarrow>
      (\<exists>s'. u_vsnprintf F buf bufsize fmt args s = Inr (len, s') \<and> mirrors R (patched m buf out) s'))
    \<and> (format_loop F (unat (bufsize - 1)) cs as [] = None \<longrightarrow> u_vsnprintf F buf bufsize fmt args s = Inl Diverges)"
proof (intro conjI allI impI)
  show "\<exists>s'. u_vsnprintf F buf bufsize fmt args s = Inr (len, s') \<and> mirrors R (patched m buf out) s'"
    if "vsnprintf F bufsize cs as = Inr (out, len)" for out len
    using that by (rule u_vsnprintf_prints [OF assms])
  have "room R buf bufsize" using assms(2,3) by (simp add: room_def)
  moreover have "outs_at R m buf (lim_of bufsize) [] (0, s)" using assms(1) by (simp add: outs_at_def)
  ultimately have "u_format F buf bufsize fmt args 0 s = None" if "format_loop F (lim_of bufsize) cs as [] = None"
    using format_ends [of F buf bufsize fmt args 0 s _ R m] assms(4,5) that unfolding ends_with_def
    by (cases "u_format F buf bufsize fmt args 0 s") blast+
  then show "u_vsnprintf F buf bufsize fmt args s = Inl Diverges" if "format_loop F (lim_of bufsize) cs as [] = None"
    using that by (simp add: u_vsnprintf_def)
qed

lemma hi_shown:
  assumes "(p, cs) \<in> {(0x10, [0x68, 0x69]), (0x18, [0x25, 0x73])}" "0x20 \<le> unat buf" "unat buf + lim < 4294967296"
  shows "shown hi_page (\<lambda>v. pmem hi_vm (0x3000 + v)) buf lim p cs"
proof -
  have m: "pmem hi_vm 0x3010 = 0x68" "pmem hi_vm 0x3011 = 0x69" "pmem hi_vm 0x3012 = 0"
    "pmem hi_vm 0x3018 = 0x25" "pmem hi_vm 0x3019 = 0x73" "pmem hi_vm 0x301A = 0" by (simp_all add: hi_vm_def)
  have "span p (Suc (length cs)) \<inter> span buf (Suc lim) = {}"
    using assms span_apart [of p "Suc (length cs)" buf "Suc lim"] by auto
  moreover have "span p (Suc (length cs)) \<subseteq> hi_page" using assms by (auto simp: span_iff hi_page_def)
  ultimately show ?thesis using assms m by (auto simp: shown_def)
qed

lemma program_vsnprintf_witness:
  "\<exists>s. u_vsnprintf (\<lambda>(x :: unit) n. Inr []) 0x20 8 0x18 [Va_word 0x10] hi_vm = Inr (2, s) \<and> vload8 0x21 s = Inr 0x69"
proof -
  have "span 0x20 (unat (8 :: u32)) \<subseteq> hi_page" by (auto simp: span_iff hi_page_def)
  moreover have "vsnprintf (\<lambda>(x :: unit) n. Inr []) 8 [0x25, 0x73] [Str_arg (Some [0x68, 0x69])] = Inr ([0x68, 0x69, 0], 2)"
    using plain_directive [of "0x73" "\<lambda>(x :: unit) n. Inr []" "[Str_arg (Some [0x68, 0x69])]" "[0x68, 0x69]" "[]" 8]
    by (simp add: convert_def conv_s_def)
  ultimately obtain s where s: "u_vsnprintf (\<lambda>(x :: unit) n. Inr []) 0x20 8 0x18 [Va_word 0x10] hi_vm = Inr (2, s)"
      "mirrors hi_page (patched (\<lambda>v. pmem hi_vm (0x3000 + v)) 0x20 [0x68, 0x69, 0]) s"
    using program_vsnprintf [OF hi_mirrors, of 8 "0x20" "0x18" "[0x25, 0x73]" "[Va_word 0x10]" "[Str_arg (Some [0x68, 0x69])]"
        "\<lambda>(x :: unit) n. Inr []"] hi_shown by auto
  then have "vload8 0x21 s = Inr 0x69"
    using mirrors_load [OF s(2), of "0x21"] by (simp add: hi_page_def patched_def)
  then show ?thesis using s(1) by blast
qed

end
