(* ===== verification/Libc.thy ===== *)
theory Libc
  imports Usyscall Uformat Tty
begin

text \<open>
  The library of the programs, \<open>initrd/libc\<close> and \<open>initrd/usr/include\<close>: system calls by \<open>int 0x80\<close>, the
  calls on files and processes, output, and the start of a program (\<open>crt0.c\<close>).

  A program is a function on the kernel state \<open>'d ksys\<close>; its own memory is read and written through its
  page tables. \<open>H\<close> holds the handlers of \<open>exception_handler\<close>, \<open>R\<close> the registers that a call does not set.
  The string functions are in \<open>Ustring\<close>, the formatting in \<open>Uformat\<close>. The
  addresses of local arrays and of string literals are parameters.
\<close>

section \<open>System calls\<close>

definition int80 :: "'d ksys isr_tables \<Rightarrow> registers \<Rightarrow> 'd ksys \<Rightarrow> (u32 \<times> 'd ksys) res" where
  "int80 H R s = bind_res (exception_handler H (R\<lparr>r_int_num := 0x80\<rparr>) s) (\<lambda>(regs, s). Inr (r_eax regs, s))"

definition syscall0 :: "'d ksys isr_tables \<Rightarrow> registers \<Rightarrow> u32 \<Rightarrow> 'd ksys \<Rightarrow> (u32 \<times> 'd ksys) res" where
  "syscall0 H R num = int80 H (R\<lparr>r_eax := num\<rparr>)"

definition syscall1 :: "'d ksys isr_tables \<Rightarrow> registers \<Rightarrow> u32 \<Rightarrow> u32 \<Rightarrow> 'd ksys \<Rightarrow> (u32 \<times> 'd ksys) res" where
  "syscall1 H R num a = int80 H (R\<lparr>r_eax := num, r_ebx := a\<rparr>)"

definition syscall2 :: "'d ksys isr_tables \<Rightarrow> registers \<Rightarrow> u32 \<Rightarrow> u32 \<Rightarrow> u32 \<Rightarrow> 'd ksys \<Rightarrow> (u32 \<times> 'd ksys) res" where
  "syscall2 H R num a b = int80 H (R\<lparr>r_eax := num, r_ebx := a, r_ecx := b\<rparr>)"

definition syscall3 :: "'d ksys isr_tables \<Rightarrow> registers \<Rightarrow> u32 \<Rightarrow> u32 \<Rightarrow> u32 \<Rightarrow> u32 \<Rightarrow> 'd ksys
    \<Rightarrow> (u32 \<times> 'd ksys) res" where
  "syscall3 H R num a b c = int80 H (R\<lparr>r_eax := num, r_ebx := a, r_ecx := b, r_edx := c\<rparr>)"

definition syscall4 :: "'d ksys isr_tables \<Rightarrow> registers \<Rightarrow> u32 \<Rightarrow> u32 \<Rightarrow> u32 \<Rightarrow> u32 \<Rightarrow> u32 \<Rightarrow> 'd ksys
    \<Rightarrow> (u32 \<times> 'd ksys) res" where
  "syscall4 H R num a b c d = int80 H (R\<lparr>r_eax := num, r_ebx := a, r_ecx := b, r_edx := c, r_esi := d\<rparr>)"

section \<open>Files and processes\<close>

definition u_open :: "'d ksys isr_tables \<Rightarrow> registers \<Rightarrow> u32 \<Rightarrow> u32 \<Rightarrow> 'd ksys \<Rightarrow> (u32 \<times> 'd ksys) res" where
  "u_open H R path flags = syscall2 H R 2 path flags"

definition u_read :: "'d ksys isr_tables \<Rightarrow> registers \<Rightarrow> u32 \<Rightarrow> u32 \<Rightarrow> u32 \<Rightarrow> 'd ksys \<Rightarrow> (u32 \<times> 'd ksys) res" where
  "u_read H R fd buf len = syscall3 H R 4 fd buf len"

definition u_write :: "'d ksys isr_tables \<Rightarrow> registers \<Rightarrow> u32 \<Rightarrow> u32 \<Rightarrow> u32 \<Rightarrow> 'd ksys \<Rightarrow> (u32 \<times> 'd ksys) res" where
  "u_write H R fd buf len = syscall3 H R 5 fd buf len"

definition u_close :: "'d ksys isr_tables \<Rightarrow> registers \<Rightarrow> u32 \<Rightarrow> 'd ksys \<Rightarrow> (u32 \<times> 'd ksys) res" where
  "u_close H R fd = syscall1 H R 3 fd"

definition u_ioctl :: "'d ksys isr_tables \<Rightarrow> registers \<Rightarrow> u32 \<Rightarrow> u32 \<Rightarrow> u32 \<Rightarrow> 'd ksys \<Rightarrow> (u32 \<times> 'd ksys) res" where
  "u_ioctl H R fd request arg = syscall3 H R 6 fd request arg"

definition readdir :: "'d ksys isr_tables \<Rightarrow> registers \<Rightarrow> u32 \<Rightarrow> u32 \<Rightarrow> u32 \<Rightarrow> u32 \<Rightarrow> 'd ksys
    \<Rightarrow> (u32 \<times> 'd ksys) res" where
  "readdir H R fd index name_out name_max = syscall4 H R 7 fd index name_out name_max"

definition fstat :: "'d ksys isr_tables \<Rightarrow> registers \<Rightarrow> u32 \<Rightarrow> u32 \<Rightarrow> 'd ksys \<Rightarrow> (u32 \<times> 'd ksys) res" where
  "fstat H R fd st = syscall2 H R 8 fd st"

definition gettimeofday :: "'d ksys isr_tables \<Rightarrow> registers \<Rightarrow> u32 \<Rightarrow> 'd ksys \<Rightarrow> (u32 \<times> 'd ksys) res" where
  "gettimeofday H R t = syscall1 H R 9 t"

definition u_exit :: "'d ksys isr_tables \<Rightarrow> registers \<Rightarrow> u32 \<Rightarrow> 'd ksys \<Rightarrow> (u32 \<times> 'd ksys) res" where
  "u_exit H R code = syscall1 H R 1 code"

definition u_wait :: "'d ksys isr_tables \<Rightarrow> registers \<Rightarrow> u32 \<Rightarrow> u32 \<Rightarrow> 'd ksys \<Rightarrow> (u32 \<times> 'd ksys) res" where
  "u_wait H R p status = syscall2 H R 11 p status"

definition getpid :: "'d ksys isr_tables \<Rightarrow> registers \<Rightarrow> 'd ksys \<Rightarrow> (u32 \<times> 'd ksys) res" where
  "getpid H R = syscall0 H R 12"

definition getppid :: "'d ksys isr_tables \<Rightarrow> registers \<Rightarrow> 'd ksys \<Rightarrow> (u32 \<times> 'd ksys) res" where
  "getppid H R = syscall0 H R 13"

definition spawn :: "'d ksys isr_tables \<Rightarrow> registers \<Rightarrow> u32 \<Rightarrow> u32 \<Rightarrow> u32 \<Rightarrow> 'd ksys \<Rightarrow> (u32 \<times> 'd ksys) res" where
  "spawn H R path argc argv = syscall3 H R 10 path argv argc"

section \<open>Output\<close>

text \<open>\<open>ch\<close> is the address of the local variable, \<open>newline\<close> that of the literal.\<close>

definition u_putchar :: "'d ksys isr_tables \<Rightarrow> registers \<Rightarrow> u32 \<Rightarrow> u32 \<Rightarrow> 'd ksys \<Rightarrow> (u32 \<times> 'd ksys) res" where
  "u_putchar H R ch c s = bind_res (k_write [ucast c] ch s) (u_write H R 1 ch 1)"

definition u_puts :: "'d ksys isr_tables \<Rightarrow> registers \<Rightarrow> u32 \<Rightarrow> u32 \<Rightarrow> 'd ksys \<Rightarrow> (u32 \<times> 'd ksys) res" where
  "u_puts H R newline p s =
     bind_res (user_string p s) (\<lambda>cs.
     bind_res (u_write H R 1 p (of_nat (length cs)) s) (\<lambda>(r, s).
     bind_res (u_write H R 1 newline 1 s) (\<lambda>(_, s). Inr (r, s))))"

text \<open>A computation in the memory of the program.\<close>

definition user_vm :: "(vm \<Rightarrow> ('a \<times> vm) res) \<Rightarrow> 'd ksys \<Rightarrow> ('a \<times> 'd ksys) res" where
  "user_vm f s = bind_res (f (vmem (heap s))) (\<lambda>(x, m). Inr (x, s\<lparr>heap := (heap s)\<lparr>vmem := m\<rparr>\<rparr>))"

text \<open>\<open>buf\<close> of the print functions is the address of their local array of 1024 bytes.\<close>

definition u_snprintf :: "'f ftoa \<Rightarrow> u32 \<Rightarrow> u32 \<Rightarrow> u32 \<Rightarrow> 'f va list \<Rightarrow> 'd ksys \<Rightarrow> (u32 \<times> 'd ksys) res" where
  "u_snprintf F buf bufsize fmt args = user_vm (u_vsnprintf F buf bufsize fmt args)"

definition vsnprintf_pub :: "'f ftoa \<Rightarrow> u32 \<Rightarrow> u32 \<Rightarrow> u32 \<Rightarrow> 'f va list \<Rightarrow> 'd ksys \<Rightarrow> (u32 \<times> 'd ksys) res" where
  "vsnprintf_pub F buf bufsize fmt args = user_vm (u_vsnprintf F buf bufsize fmt args)"

definition u_vfprintf :: "'d ksys isr_tables \<Rightarrow> registers \<Rightarrow> 'f ftoa \<Rightarrow> u32 \<Rightarrow> u32 \<Rightarrow> u32 \<Rightarrow> 'f va list \<Rightarrow> 'd ksys
    \<Rightarrow> (u32 \<times> 'd ksys) res" where
  "u_vfprintf H R F buf fd fmt args s =
     bind_res (user_vm (u_vsnprintf F buf 1024 fmt args) s) (\<lambda>(len, s). u_write H R fd buf len s)"

definition u_fprintf :: "'d ksys isr_tables \<Rightarrow> registers \<Rightarrow> 'f ftoa \<Rightarrow> u32 \<Rightarrow> u32 \<Rightarrow> u32 \<Rightarrow> 'f va list \<Rightarrow> 'd ksys
    \<Rightarrow> (u32 \<times> 'd ksys) res" where
  "u_fprintf H R F buf fd fmt args s =
     bind_res (user_vm (u_vsnprintf F buf 1024 fmt args) s) (\<lambda>(len, s). u_write H R fd buf len s)"

definition u_printf :: "'d ksys isr_tables \<Rightarrow> registers \<Rightarrow> 'f ftoa \<Rightarrow> u32 \<Rightarrow> u32 \<Rightarrow> 'f va list \<Rightarrow> 'd ksys
    \<Rightarrow> (u32 \<times> 'd ksys) res" where
  "u_printf H R F buf fmt args s =
     bind_res (user_vm (u_vsnprintf F buf 1024 fmt args) s) (\<lambda>(len, s). u_write H R 1 buf len s)"

definition u_vprintf :: "'d ksys isr_tables \<Rightarrow> registers \<Rightarrow> 'f ftoa \<Rightarrow> u32 \<Rightarrow> u32 \<Rightarrow> 'f va list \<Rightarrow> 'd ksys
    \<Rightarrow> (u32 \<times> 'd ksys) res" where
  "u_vprintf H R F buf fmt args s =
     bind_res (user_vm (u_vsnprintf F buf 1024 fmt args) s) (\<lambda>(len, s). u_write H R 1 buf len s)"

section \<open>The start of a program\<close>

text \<open>The words of the BSS section are cleared; the loop compares the pointers only.\<close>

partial_function (option) clear_bss :: "u32 \<Rightarrow> u32 \<Rightarrow> 'd ksys \<Rightarrow> 'd ksys res option" where
  "clear_bss bss bss_end s =
     (if bss < bss_end
      then (case k_write (word_bytes 0) bss s of
              Inl e \<Rightarrow> Some (Inl e)
            | Inr s \<Rightarrow> clear_bss (bss + 4) bss_end s)
      else Some (Inr s))"

text \<open>\<open>main_fn\<close> is the program, \<open>tty0\<close> the address of the path. Should \<open>exit\<close> return, the program would wait forever.\<close>

definition start_c :: "'d ksys isr_tables \<Rightarrow> registers \<Rightarrow> u32 \<Rightarrow> u32 \<Rightarrow> u32
    \<Rightarrow> (u32 \<Rightarrow> u32 \<Rightarrow> 'd ksys \<Rightarrow> (u32 \<times> 'd ksys) res) \<Rightarrow> u32 \<Rightarrow> u32 \<Rightarrow> 'd ksys \<Rightarrow> 'd ksys res" where
  "start_c H R bss_start bss_end tty0 main_fn argc argv s =
     bind_res (ret (clear_bss bss_start bss_end s)) (\<lambda>s.
     bind_res (u_open H R tty0 0 s) (\<lambda>(_, s).
     bind_res (u_open H R tty0 0 s) (\<lambda>(_, s).
     bind_res (u_open H R tty0 0 s) (\<lambda>(_, s).
     bind_res (main_fn argc argv s) (\<lambda>(code, s).
     bind_res (u_close H R 0 s) (\<lambda>(_, s).
     bind_res (u_close H R 1 s) (\<lambda>(_, s).
     bind_res (u_close H R 2 s) (\<lambda>(_, s).
     bind_res (u_exit H R code s) (\<lambda>_. Inl Diverges)))))))))"

section \<open>From a program to the screen\<close>

text \<open>The handlers after \<open>userspace_init\<close>.\<close>

lemma syscall_registered:
  assumes "length (syscall_handlers H) = 256"
  shows "syscall_handlers (syscall_register n h H) ! unat m = (if m = n then Some h else syscall_handlers H ! unat m)"
    and "length (syscall_handlers (syscall_register n h H)) = 256"
  using assms unsigned_less [of m] by (auto simp: syscall_register_def nth_list_update word_unat_eq_iff)

lemma userspace_handlers:
  assumes "length (syscall_handlers H) = 256"
  shows "syscall_handlers (userspace_init T K st irqs H) ! 5 = Some (sys_write T)"
  using assms by (simp add: userspace_init_def syscall_register_def nth_list_update)

text \<open>The open file 1 of the running process is the terminal.\<close>

definition stdout_is_tty :: "(tty \<times> console) tables \<Rightarrow> ((tty \<times> console) ksys \<Rightarrow> (tty \<times> console) ksys res) list
    \<Rightarrow> u32 \<Rightarrow> (tty \<times> console) ksys \<Rightarrow> bool" where
  "stdout_is_tty T irqs file s \<longleftrightarrow>
     (case processes s (curr_process s) of None \<Rightarrow> False
      | Some p \<Rightarrow> curr_process s \<noteq> 0 \<and> length (fds p) = MAX_FDS \<and> fds p ! 1 = file) \<and> file \<noteq> 0
     \<and> (case files s file of None \<Rightarrow> False
        | Some f \<Rightarrow> (case vnodes s (fvnode f) of None \<Rightarrow> False
            | Some v \<Rightarrow> ops v \<noteq> 0 \<and> vops T (ops v) = Some (tty_ops part_fst part_snd irqs)))"

lemma tty_write_console:
  assumes "vread (unat len) buf (vmem (heap s)) = Inr cs"
  shows "\<exists>s'. tty_write part_fst part_snd node buf len off s = Inr (len, s')
    \<and> dget part_snd s' = fold console_putchar cs (dget part_snd s)
    \<and> s' = s\<lparr>dev := dev s'\<rparr>"
  using assms
  by (auto simp: tty_write_def k_read_def copy_cursor_def Let_def)
    (auto simp: dput_def)

lemma u_write_tty:
  assumes "length (syscall_handlers H) = 256" "stdout_is_tty T irqs file s"
    and "vread (unat len) buf (vmem (heap s)) = Inr cs"
    and "buf \<noteq> 0" "unat buf + unat len < 0xc0000000" "unat len < 2147483648"
  shows "\<exists>s'. u_write (userspace_init T K st wirqs H) R 1 buf len s = Inr (len, s')
    \<and> dget part_snd s' = fold console_putchar cs (dget part_snd s)
    \<and> stdout_is_tty T irqs file s' \<and> heap s' = heap s
    \<and> map_option offset (files s' file) = map_option (\<lambda>f. offset f + len) (files s file)"
proof -
  obtain p where p: "processes s (curr_process s) = Some p" "curr_process s \<noteq> 0" "length (fds p) = MAX_FDS" "fds p ! 1 = file"
    and f0: "file \<noteq> 0" using assms(2) by (auto simp: stdout_is_tty_def split: option.splits)
  obtain f v where f: "files s file = Some f" "vnodes s (fvnode f) = Some v" "ops v \<noteq> 0"
      "vops T (ops v) = Some (tty_ops part_fst part_snd irqs)"
    using assms(2) by (auto simp: stdout_is_tty_def split: option.splits)
  obtain s1 where s1: "tty_write part_fst part_snd (fvnode f) buf len (offset f) s = Inr (len, s1)"
      "dget part_snd s1 = fold console_putchar cs (dget part_snd s)" "s1 = s\<lparr>dev := dev s1\<rparr>"
    using tty_write_console [OF assms(3)] by blast
  have fields: "files s1 = files s" "vnodes s1 = vnodes s" "processes s1 = processes s" "curr_process s1 = curr_process s"
    "heap s1 = heap s" by (subst s1(3), simp)+
  define s2 where "s2 = (if sint len > 0 then put_file file (f\<lparr>offset := offset f + len\<rparr>) s1 else s1)"
  have len: "sint len > 0 \<longleftrightarrow> len \<noteq> 0" using sint_pos [OF assms(6)] .
  have "get_file 1 s = Inr file"
    using p by (simp add: get_file_def active_fd_table_def process_at_def neg_def MAX_FDS_def)
  then have "vfs_write T 1 buf len s = Inr (len, s2)"
    using f0 f s1(1) by (simp add: vfs_write_def on_file_def file_at_def vnode_at_def the_op_def tty_ops_def advance_def
        s2_def fields)
  then have "u_write (userspace_init T K st wirqs H) R 1 buf len s = Inr (len, s2)"
    using assms(4,5) userspace_handlers [OF assms(1)]
    by (simp add: u_write_def syscall3_def int80_def exception_handler_def sys_write_def val_ptr_iff reply_def word_less_nat_alt)
  moreover have "dget part_snd s2 = fold console_putchar cs (dget part_snd s)"
    using s1(2) by (simp add: s2_def dget_def put_file_def)
  moreover have "stdout_is_tty T irqs file s2" "heap s2 = heap s"
    using p f0 f by (auto simp: stdout_is_tty_def s2_def put_file_def fields)
  moreover have "map_option offset (files s2 file) = map_option (\<lambda>f. offset f + len) (files s file)"
    using f len by (auto simp: s2_def put_file_def fields)
  ultimately show ?thesis by blast
qed

section \<open>Properties\<close>

text \<open>What a program prints arrives on the screen: with the system calls registered and the terminal
  open as descriptor 1, \<open>puts\<close> of a string in the program's memory passes \<open>int 0x80\<close>, the dispatcher, the check
  of the buffer, the descriptor table and the terminal, and draws exactly the characters of the string and
  a newline, in order; it returns the length, moves the offset by one more, and leaves the heap, the page tables and memory
  alone.\<close>

theorem puts_reaches_screen:
  assumes "length (syscall_handlers H) = 256" "stdout_is_tty T irqs file s"
    and "vcstr p (vmem (heap s)) = Some (Inr cs)" "vread (length cs) p (vmem (heap s)) = Inr cs"
    and "vread 1 nl (vmem (heap s)) = Inr [0x0a]"
    and "p \<noteq> 0" "unat p + length cs < 0xc0000000" "length cs < 2147483648" "nl \<noteq> 0" "unat nl + 1 < 0xc0000000"
  shows "\<exists>s'. u_puts (userspace_init T K st wirqs H) R nl p s = Inr (of_nat (length cs), s')
    \<and> dget part_snd s' = fold console_putchar (cs @ [0x0a]) (dget part_snd s)
    \<and> heap s' = heap s
    \<and> map_option offset (files s' file) = map_option (\<lambda>f. offset f + of_nat (length cs) + 1) (files s file)"
proof -
  have n: "unat (of_nat (length cs) :: u32) = length cs" using assms(8) by simp
  obtain s1 where s1: "u_write (userspace_init T K st wirqs H) R 1 p (of_nat (length cs)) s = Inr (of_nat (length cs), s1)"
      "dget part_snd s1 = fold console_putchar cs (dget part_snd s)" "stdout_is_tty T irqs file s1" "heap s1 = heap s"
      "map_option offset (files s1 file) = map_option (\<lambda>f. offset f + of_nat (length cs)) (files s file)"
    using u_write_tty [OF assms(1,2), where len = "of_nat (length cs)" and buf = p and cs = cs and K = K and st = st
        and wirqs = wirqs and R = R] assms(4,6-8) n by auto
  have "vread (unat 1) nl (vmem (heap s1)) = Inr [0x0a]" using assms(5) s1(4) by simp
  from u_write_tty [OF assms(1) s1(3) this assms(9), where K = K and st = st and wirqs = wirqs and R = R] obtain s2 where
    s2: "u_write (userspace_init T K st wirqs H) R 1 nl 1 s1 = Inr (1, s2)"
      "dget part_snd s2 = console_putchar 0x0a (dget part_snd s1)" "heap s2 = heap s1"
      "map_option offset (files s2 file) = map_option (\<lambda>f. offset f + 1) (files s1 file)"
    using assms(10) by auto
  have "map_option offset (files s2 file) = map_option (\<lambda>f. offset f + of_nat (length cs) + 1) (files s file)"
    using s2(4) s1(5) by (cases "files s1 file"; cases "files s file") auto
  then show ?thesis using assms(3) s1 s2 by (simp add: u_puts_def user_string_def)
qed

lemma mirrors_vread:
  "mirrors R m s \<Longrightarrow> span p n \<subseteq> R \<Longrightarrow> vread n p s = Inr (bytes_at m p n)"
proof (induction n arbitrary: p)
  case (Suc n)
  have "bytes_at m p (Suc n) = m p # bytes_at m (p + 1) n"
    unfolding bytes_at_def upt_conv_Cons [OF zero_less_Suc] map_Suc_upt [symmetric] by (simp add: add.assoc)
  then show ?case using Suc.IH [of "p + 1"] span_up [OF Suc.prems(2)] Suc.prems(1) by (simp add: mirrors_load)
qed (simp add: bytes_at_def)

lemma bytes_patched:
  "length out < 4294967296 \<Longrightarrow> bytes_at (patched m buf (out @ [0])) buf (length out) = out"
  by (intro nth_equalityI) (simp_all add: patched_def nth_append)

text \<open>C38: \<open>printf\<close> of a program draws exactly the formatted characters: whatever the format and the arguments in
  the program's memory (which the local buffer does not overlap), if the formatted string is \<open>out\<close>, it is what the
  terminal of descriptor 1 puts on the screen, \<open>printf\<close> returns its length, and the program's memory changes in
  the buffer only.\<close>

theorem printf_reaches_screen:
  assumes "length (syscall_handlers H) = 256" "stdout_is_tty T irqs file s"
    and "mirrors A m (vmem (heap s))" "span buf 1024 \<subseteq> A" "buf \<noteq> 0" "unat buf + 1024 \<le> 0xc0000000"
    and "shown A m buf 1023 fmt cs" "args_shown A m buf 1023 args as"
    and "vsnprintf F 1024 cs as = Inr (out @ [0], len)"
  shows "\<exists>s'. u_printf (userspace_init T K st wirqs H) R F buf fmt args s = Inr (len, s')
    \<and> dget part_snd s' = fold console_putchar out (dget part_snd s)
    \<and> mirrors A (patched m buf (out @ [0])) (vmem (heap s')) \<and> unat len = length out"
proof -
  have k: "unat (1024 :: u32) = 1024" "unat (1024 - 1 :: u32) = 1023" by simp_all
  obtain m1 where m1: "u_vsnprintf F buf 1024 fmt args (vmem (heap s)) = Inr (len, m1)" "mirrors A (patched m buf (out @ [0])) m1"
    using u_vsnprintf_prints [OF assms(3), where bufsize = 1024, unfolded k, OF _ assms(4,7-9)] by auto
  obtain o1 where o1: "format_loop F 1023 cs as [] = Some (Inr o1)" "out = o1" "len = of_nat (length o1)"
    using assms(9) by (cases "format_loop F 1023 cs as []") (auto simp: vsnprintf_def)
  have l: "length out \<le> 1023" using format_loop_length [OF _ o1(1)] o1(2) by simp
  then have len: "unat len = length out" using o1(2,3) by simp
  let ?s = "s\<lparr>heap := (heap s)\<lparr>vmem := m1\<rparr>\<rparr>"
  have "span buf (unat len) \<subseteq> A" using assms(4) l len by (auto simp: span_def)
  from mirrors_vread [OF m1(2) this] have rd: "vread (unat len) buf (vmem (heap ?s)) = Inr out"
    using bytes_patched [of out m buf] l len by simp
  have "stdout_is_tty T irqs file ?s" using assms(2) by (simp add: stdout_is_tty_def cong: option.case_cong)
  from u_write_tty [OF assms(1) this rd assms(5), where K = K and st = st and wirqs = wirqs and R = R] obtain s' where
    "u_write (userspace_init T K st wirqs H) R 1 buf len ?s = Inr (len, s')"
    "dget part_snd s' = fold console_putchar out (dget part_snd ?s)" "heap s' = heap ?s"
    using l len assms(6) by auto
  then show ?thesis using m1 len by (simp add: u_printf_def user_vm_def dget_def)
qed

text \<open>The program of \<open>hi_vm\<close>, with the terminal as its descriptor 1.\<close>

definition hi_sys :: "(tty \<times> console) ksys" where
  "hi_sys = (vfs_sys (empty_tty, tiny_console) 0x200)
     \<lparr>heap := small_heap\<lparr>vmem := hi_vm\<rparr>,
      processes := (\<lambda>_. None)(0x200 \<mapsto> (some_process 1)\<lparr>fds := (replicate MAX_FDS 0)[1 := 0x500]\<rparr>),
      vnodes := (\<lambda>_. None)(0x600 \<mapsto> zero_vnode\<lparr>ops := 0x700\<rparr>),
      files := (\<lambda>_. None)(0x500 \<mapsto> \<lparr>fvnode = 0x600, offset = 0, fflags = 0, ref_count = 1\<rparr>)\<rparr>"

definition hi_tables :: "(tty \<times> console) tables" where
  "hi_tables = \<lparr>vops = (\<lambda>_. None)(0x700 \<mapsto> tty_ops part_fst part_snd []), drivers = (\<lambda>_. None), mount_table_addr = 0\<rparr>"

definition stopped_clock :: "(tty \<times> console, clock) part" where
  "stopped_clock = (let t = \<lparr>seconds = 0, minutes = 0, hours = 0, day = 1, month = 1, year = 2026\<rparr>
     in \<lparr>get_part = (\<lambda>d. \<lparr>ticks = 0, boot_time = t, curr_time = t\<rparr>), put_part = (\<lambda>k d. d)\<rparr>)"

lemma puts_reaches_screen_witness:
  "\<exists>s'. u_puts (userspace_init hi_tables stopped_clock 0 [] no_handlers) (stopped_regs 0x80) 0x14 0x10 hi_sys = Inr (2, s')
    \<and> dget part_snd s' = fold console_putchar [0x68, 0x69, 0x0a] tiny_console"
proof -
  have tr: "translate hi_vm 0x10 = Some 0x3010" "translate hi_vm 0x11 = Some 0x3011" "translate hi_vm 0x12 = Some 0x3012"
    "translate hi_vm 0x14 = Some 0x3014" by (simp_all add: hi_translate)
  have ld: "vload8 0x10 hi_vm = Inr 0x68" "vload8 0x11 hi_vm = Inr 0x69" "vload8 0x12 hi_vm = Inr 0" "vload8 0x14 hi_vm = Inr 0x0a"
    by (simp_all add: vload8_def tr) (simp_all add: hi_vm_def)
  have m: "vmem (heap hi_sys) = hi_vm" by (simp add: hi_sys_def)
  have "vcstr 0x10 hi_vm = Some (Inr [0x68, 0x69])" by (simp add: ld vcstr.simps)
  moreover have "stdout_is_tty hi_tables [] 0x500 hi_sys"
    by (simp add: stdout_is_tty_def hi_sys_def hi_tables_def vfs_sys_def MAX_FDS_def)
  moreover have "length (syscall_handlers no_handlers) = 256" by (simp add: no_handlers_def)
  moreover have "dget part_snd hi_sys = tiny_console" by (simp add: dget_def part_snd_def hi_sys_def vfs_sys_def)
  ultimately show ?thesis
    using puts_reaches_screen [of no_handlers hi_tables "[]" "0x500" hi_sys "0x10" "[0x68, 0x69]" "0x14" stopped_clock 0 "[]" "stopped_regs 0x80"]
    by (auto simp: m ld)
qed

lemma printf_reaches_screen_witness:
  "\<exists>s'. u_printf (userspace_init hi_tables stopped_clock 0 [] no_handlers) (stopped_regs 0x80)
      (\<lambda>(x :: unit) n. Inr []) 0x100 0x18 [Va_word 0x10] hi_sys = Inr (2, s')
    \<and> dget part_snd s' = fold console_putchar [0x68, 0x69] tiny_console"
proof -
  have "stdout_is_tty hi_tables [] 0x500 hi_sys"
    by (simp add: stdout_is_tty_def hi_sys_def hi_tables_def vfs_sys_def MAX_FDS_def)
  moreover have "mirrors hi_page (\<lambda>v. pmem hi_vm (0x3000 + v)) (vmem (heap hi_sys))" using hi_mirrors by (simp add: hi_sys_def)
  moreover have "span 0x100 1024 \<subseteq> hi_page" by (auto simp: span_iff hi_page_def)
  moreover have "shown hi_page (\<lambda>v. pmem hi_vm (0x3000 + v)) 0x100 1023 0x18 [0x25, 0x73]"
    "shown hi_page (\<lambda>v. pmem hi_vm (0x3000 + v)) 0x100 1023 0x10 [0x68, 0x69]"
    by (rule hi_shown; simp)+
  moreover have "vsnprintf (\<lambda>(x :: unit) n. Inr []) 1024 [0x25, 0x73] [Str_arg (Some [0x68, 0x69])] = Inr ([0x68, 0x69] @ [0], 2)"
    using plain_directive [of "0x73" "\<lambda>(x :: unit) n. Inr []" "[Str_arg (Some [0x68, 0x69])]" "[0x68, 0x69]" "[]" 1024]
    by (simp add: convert_def conv_s_def)
  moreover have "length (syscall_handlers no_handlers) = 256" by (simp add: no_handlers_def)
  moreover have "dget part_snd hi_sys = tiny_console" by (simp add: dget_def part_snd_def hi_sys_def vfs_sys_def)
  ultimately show ?thesis
    using printf_reaches_screen [of no_handlers hi_tables "[]" "0x500" hi_sys hi_page "\<lambda>v. pmem hi_vm (0x3000 + v)" "0x100" "0x18"
        "[0x25, 0x73]" "[Va_word 0x10]" "[Str_arg (Some [0x68, 0x69])]" "\<lambda>(x :: unit) n. Inr []" "[0x68, 0x69]" 2
        stopped_clock 0 "[]" "stopped_regs 0x80"] by auto
qed

end
