(* ===== verification/Programs.thy ===== *)
theory Programs
  imports Libc
begin

text \<open>
  The two programs of the ramdisk, \<open>initrd/src/init/init.c\<close> and \<open>initrd/src/test/test.c\<close>, as arguments of \<open>start_c\<close>.
  \<open>A\<close> and \<open>B\<close> hold the addresses of their local variables and literals and of the buffer of \<open>printf\<close>; \<open>argc\<close> and \<open>argv\<close> are
  not used by either.
\<close>

section \<open>init\<close>

record init_addrs =
  hello_txt :: u32
  text_buf :: u32
  text_fmt :: u32
  time_buf :: u32
  time_fmt :: u32
  am_text :: u32
  pm_text :: u32
  month :: "u32 list"
  test_path :: u32
  test_argv :: u32
  failed_fmt :: u32
  spawned_fmt :: u32
  init_printf_buf :: u32

text \<open>The hour on a clock of twelve hr.\<close>

definition hour12 :: "u8 \<Rightarrow> u8" where
  "hour12 hr = (let hour = hr mod 12 in if hour = 0 then 12 else hour)"

definition show_time :: "'d ksys isr_tables \<Rightarrow> registers \<Rightarrow> 'f ftoa \<Rightarrow> init_addrs \<Rightarrow> 'd ksys \<Rightarrow> (u32 \<times> 'd ksys) res" where
  "show_time H R F A s =
     bind_res (k_read 8 (time_buf A) s) (\<lambda>t.
     let hr = t ! 2; m = t ! 4; ampm = (if 12 \<le> hr then pm_text A else am_text A);
         year = le [t ! 6, t ! 7] :: u32
     in if m = 0 \<or> 12 < m then Inl (Fault ''month'')
        else u_printf H R F (init_printf_buf A) (time_fmt A)
          [Va_word (ucast (hour12 hr)), Va_word (ucast (t ! 1)), Va_word ampm,
           Va_word (month A ! (unat m - 1)), Va_word (ucast (t ! 3)), Va_word year] s)"

definition init_main :: "'d ksys isr_tables \<Rightarrow> registers \<Rightarrow> 'f ftoa \<Rightarrow> init_addrs \<Rightarrow> u32 \<Rightarrow> u32 \<Rightarrow> 'd ksys
    \<Rightarrow> (u32 \<times> 'd ksys) res" where
  "init_main H R F A argc argv s =
     bind_res (u_open H R (hello_txt A) 0 s) (\<lambda>(text_fd, s).
     bind_res (if sint text_fd < 0 then u_exit H R 1 s else Inr (0, s)) (\<lambda>(_, s).
     bind_res (u_read H R text_fd (text_buf A) 255 s) (\<lambda>(bytes, s).
     bind_res (if 0 < sint bytes then u_printf H R F (init_printf_buf A) (text_fmt A) [Va_word (text_buf A)] s
               else Inr (0, s)) (\<lambda>(_, s).
     bind_res (gettimeofday H R (time_buf A) s) (\<lambda>(r, s).
     bind_res (if r = 0 then show_time H R F A s else Inr (0, s)) (\<lambda>(_, s).
     bind_res (k_write (word_bytes (test_path A)) (test_argv A) s) (\<lambda>s.
     bind_res (spawn H R (test_path A) 1 (test_argv A) s) (\<lambda>(test_pid, s).
     bind_res (if sint test_pid < 0 then u_printf H R F (init_printf_buf A) (failed_fmt A) [] s
               else u_printf H R F (init_printf_buf A) (spawned_fmt A) [Va_word test_pid] s) (\<lambda>(_, s).
     Inr (0, s))))))))))"

section \<open>test\<close>

record test_addrs =
  fb_path :: u32
  fb_buf :: u32
  hello_fmt :: u32
  test_printf_buf :: u32

primrec fill_words :: "nat \<Rightarrow> u32 \<Rightarrow> u32 \<Rightarrow> 'd ksys \<Rightarrow> 'd ksys res" where
  "fill_words 0 p x s = Inr s"
| "fill_words (Suc n) p x s = bind_res (k_write (word_bytes x) p s) (fill_words n (p + 4) x)"

definition test_main :: "'d ksys isr_tables \<Rightarrow> registers \<Rightarrow> 'f ftoa \<Rightarrow> test_addrs \<Rightarrow> u32 \<Rightarrow> u32 \<Rightarrow> 'd ksys
    \<Rightarrow> (u32 \<times> 'd ksys) res" where
  "test_main H R F B argc argv s =
     bind_res (u_open H R (fb_path B) 0 s) (\<lambda>(fb_fd, s).
     bind_res (if sint fb_fd < 0 then u_exit H R 1 s else Inr (0, s)) (\<lambda>(_, s).
     bind_res (fill_words 100 (fb_buf B) 0xffff0000 s) (\<lambda>s.
     bind_res (u_write H R fb_fd (fb_buf B) 100 s) (\<lambda>(_, s).
     bind_res (u_close H R fb_fd s) (\<lambda>(_, s).
     bind_res (getpid H R s) (\<lambda>(pid, s).
     bind_res (getppid H R s) (\<lambda>(ppid, s).
     bind_res (u_printf H R F (test_printf_buf B) (hello_fmt B) [Va_word pid, Va_word ppid] s) (\<lambda>(_, s).
     Inr (0, s)))))))))"

text \<open>The clock of twelve hr loses nothing: the hour shown and the half of the day give the hour back.\<close>

lemma hour12_back:
  assumes "unat h < 24"
  shows "1 \<le> unat (hour12 h) \<and> unat (hour12 h) \<le> 12 \<and> unat (hour12 h) mod 12 + (if 12 \<le> h then 12 else 0) = unat h"
proof -
  have z: "h mod 12 = 0 \<longleftrightarrow> unat h mod 12 = 0" by (simp add: unat_eq_0 [symmetric] unat_mod)
  have "(12 :: u8) \<le> h \<longleftrightarrow> 12 \<le> unat h" by (simp add: word_le_nat_alt)
  moreover have "unat (hour12 h) = (if unat h mod 12 = 0 then 12 else unat h mod 12)"
    using z by (simp add: hour12_def Let_def unat_mod)
  ultimately show ?thesis using assms by (auto simp: mod_if)
qed

end
