(* ===== verification/Boot.thy ===== *)
theory Boot
  imports Libc Ksym Initrd Mouse
begin

text \<open>
  The boot sequence, \<open>src/kernel.c\<close>, on the whole machine: the state of all drivers is the record \<open>devices\<close>, of
  which each driver has its field as its part, so the contracts \<open>driver_part\<close> and \<open>terminal\<close> are interpreted here on the kernel's
  own drivers. \<open>statics\<close> holds the addresses that the linker chooses, \<open>inp\<close> and \<open>cmos\<close> what the devices
  answer (\<open>cmos\<close> in the first reading of the clock, \<open>cmos'\<close> in the second), \<open>F\<close> stands for \<open>ftoa D\<close> and \<open>mib\<close> for the division of the memory size by 1048576 as a double.

  \<open>kmain\<close> has four stages: the processor and the clock, the memory, the files and devices, and the first
  threads. It ends in the state in which the main thread is entered.
\<close>

section \<open>The drivers of the machine\<close>

record devices =
  d_ports :: ports
  d_idt :: "idt_entry list \<times> idt_ptr"
  d_clock :: clock
  d_mmap :: mmap_state
  d_initrd :: initrd_fs
  d_devfs :: devfs
  d_fbs :: fb_infos
  d_mouse :: mouse
  d_keyboard :: keyboard
  d_console :: console
  d_tty :: tty

definition ports_part :: "(devices, ports) part" where
  "ports_part = \<lparr>get_part = d_ports, put_part = (\<lambda>x d. d\<lparr>d_ports := x\<rparr>)\<rparr>"

definition clock_part :: "(devices, clock) part" where
  "clock_part = \<lparr>get_part = d_clock, put_part = (\<lambda>x d. d\<lparr>d_clock := x\<rparr>)\<rparr>"

definition initrd_part :: "(devices, initrd_fs) part" where
  "initrd_part = \<lparr>get_part = d_initrd, put_part = (\<lambda>x d. d\<lparr>d_initrd := x\<rparr>)\<rparr>"

definition devfs_part :: "(devices, devfs) part" where
  "devfs_part = \<lparr>get_part = d_devfs, put_part = (\<lambda>x d. d\<lparr>d_devfs := x\<rparr>)\<rparr>"

definition fbs_part :: "(devices, fb_infos) part" where
  "fbs_part = \<lparr>get_part = d_fbs, put_part = (\<lambda>x d. d\<lparr>d_fbs := x\<rparr>)\<rparr>"

definition mouse_part :: "(devices, mouse) part" where
  "mouse_part = \<lparr>get_part = d_mouse, put_part = (\<lambda>x d. d\<lparr>d_mouse := x\<rparr>)\<rparr>"

definition keyboard_part :: "(devices, keyboard) part" where
  "keyboard_part = \<lparr>get_part = d_keyboard, put_part = (\<lambda>x d. d\<lparr>d_keyboard := x\<rparr>)\<rparr>"

definition console_part :: "(devices, console) part" where
  "console_part = \<lparr>get_part = d_console, put_part = (\<lambda>x d. d\<lparr>d_console := x\<rparr>)\<rparr>"

definition tty_part :: "(devices, tty) part" where
  "tty_part = \<lparr>get_part = d_tty, put_part = (\<lambda>x d. d\<lparr>d_tty := x\<rparr>)\<rparr>"

lemmas part_defs = ports_part_def clock_part_def initrd_part_def devfs_part_def fbs_part_def mouse_part_def
  keyboard_part_def console_part_def tty_part_def

interpretation dev_ports: driver_part ports_part by unfold_locales (simp_all add: part_defs)
interpretation dev_clock: driver_part clock_part by unfold_locales (simp_all add: part_defs)
interpretation dev_initrd: driver_part initrd_part by unfold_locales (simp_all add: part_defs)
interpretation dev_devfs: driver_part devfs_part by unfold_locales (simp_all add: part_defs)
interpretation dev_fbs: driver_part fbs_part by unfold_locales (simp_all add: part_defs)
interpretation dev_mouse: driver_part mouse_part by unfold_locales (simp_all add: part_defs)
interpretation dev_keyboard: driver_part keyboard_part by unfold_locales (simp_all add: part_defs)
interpretation dev_terminal: terminal tty_part console_part by unfold_locales (simp_all add: part_defs)

text \<open>What the linker chooses: the addresses of static objects, of the tables of operations and of functions.\<close>

record statics =
  link :: link_syms
  gdt_sym :: u32
  tss_sym :: u32
  idt_sym :: u32
  isr_sym :: "nat \<Rightarrow> u32"
  irq_sym :: "nat \<Rightarrow> u32"
  pd_sym :: u32
  fb_sym :: u32
  initrd_drv :: u32
  initrd_ops :: initrd_syms
  devfs_drv :: u32
  null_ops_sym :: u32
  zero_ops_sym :: u32
  fb_ops_sym :: u32
  tty_ops_sym :: u32
  tty_sym :: u32
  devfs_ops_sym :: u32
  mounts_sym :: u32
  idle_sym :: u32
  main_sym :: u32
  st_sym :: u32

type_synonym kstate = "devices ksys"

text \<open>The tables of operations at their addresses; \<open>irqs\<close> are the interrupts that come while \<open>tty_read\<close> waits.\<close>

definition kernel_tables :: "statics \<Rightarrow> (kstate \<Rightarrow> kstate res) list \<Rightarrow> devices tables" where
  "kernel_tables A irqs =
     \<lparr>vops = map_of
        [(null_ops_sym A, null_ops), (zero_ops_sym A, zero_ops), (fb_ops_sym A, fb_ops fbs_part),
         (tty_ops_sym A, tty_ops tty_part console_part irqs),
         (file_ops_addr (initrd_ops A), initrd_file_ops initrd_part),
         (dir_ops_addr (initrd_ops A), initrd_dir_ops initrd_part (initrd_ops A)),
         (devfs_ops_sym A, devfs_root_ops_table devfs_part)],
      drivers = map_of [(initrd_drv A, initrd_driver initrd_part (initrd_ops A)), (devfs_drv A, devfs_driver devfs_part)],
      mount_table_addr = mounts_sym A\<rparr>"

text \<open>Different objects have different addresses.\<close>

definition syms_ok :: "statics \<Rightarrow> bool" where
  "syms_ok A \<longleftrightarrow> initrd_drv A \<noteq> devfs_drv A \<and>
     distinct [0, null_ops_sym A, zero_ops_sym A, fb_ops_sym A, tty_ops_sym A, file_ops_addr (initrd_ops A),
       dir_ops_addr (initrd_ops A), devfs_ops_sym A]"

section \<open>Interrupts\<close>

definition pit_irq :: "kstate handler" where
  "pit_irq r s = Inr (r, pit_callback clock_part console_part s)"

definition keyboard_irq :: "inputs \<Rightarrow> kstate handler" where
  "keyboard_irq inp r s = (let (b, io) = inb inp 0x60 (dget ports_part s) in
     bind_res (keyboard_callback keyboard_part tty_part console_part b (dput ports_part io s)) (\<lambda>s. Inr (r, s)))"

definition mouse_irq :: "inputs \<Rightarrow> kstate handler" where
  "mouse_irq inp r s = (let (b, io) = inb inp 0x60 (dget ports_part s); s = dput ports_part io s in
     Inr (r, dput mouse_part (mouse_callback (fb (dget console_part s)) b (dget mouse_part s)) s))"

section \<open>kmain\<close>

text \<open>\<open>serial_printf\<close> in the course of the boot.\<close>

definition say :: "inputs \<Rightarrow> 'f ftoa \<Rightarrow> u8 list \<Rightarrow> 'f arg list \<Rightarrow> kstate \<Rightarrow> kstate res" where
  "say inp F fmt args s =
     bind_res (serial_printf inp F fmt args (dget ports_part s)) (\<lambda>(len, io). Inr (dput ports_part io s))"

definition MB2_MAGIC :: u32 where "MB2_MAGIC = 0x36d76289"

type_synonym machine = "kstate isr_tables \<times> kstate"

text \<open>The processor and the clock.\<close>

definition date_args :: "rtc_time \<Rightarrow> 'f arg list" where
  "date_args t = map Int_arg
     [ucast (month t), ucast (day t), ucast (year t), ucast (hours t), ucast (minutes t), ucast (seconds t)]"

definition kmain_cpu :: "statics \<Rightarrow> inputs \<Rightarrow> 'f ftoa \<Rightarrow> (nat \<Rightarrow> u8 \<Rightarrow> u8) \<Rightarrow> (nat \<Rightarrow> u8 \<Rightarrow> u8)
    \<Rightarrow> u32 \<Rightarrow> u32 \<Rightarrow> machine \<Rightarrow> machine res" where
  "kmain_cpu A inp F cmos cmos' magic mb2_info = (\<lambda>(H, s).
     if magic \<noteq> MB2_MAGIC then Inl (Panic ''main() -> invalid multiboot magic'')
     else bind_res (say inp F (0x0a # line ''magic: 0x%x'' @ line ''mb2_info addr: 0x%08x'') [Int_arg magic, Int_arg mb2_info] s) (\<lambda>s.
     let s = s\<lparr>gdts := gdt_init (gdt_sym A) (tss_sym A) (gdts s)\<rparr> in
     bind_res (say inp F (line ''gdt initialized'') [] s) (\<lambda>s.
     let (idt, ptr, io) = idt_init (idt_sym A) (isr_sym A) (irq_sym A) (dget ports_part s);
         s = s\<lparr>dev := (dev s)\<lparr>d_ports := io, d_idt := (idt, ptr)\<rparr>\<rparr> in
     bind_res (say inp F (line ''idt initialized'') [] s) (\<lambda>s.
     bind_res (ret (map_option Inr (rtc_init cmos 0 (dget clock_part s)))) (\<lambda>k.
     bind_res (ret (map_option Inr (rtc_read_time cmos' 0))) (\<lambda>t.
     let s = dput clock_part (k\<lparr>curr_time := t\<rparr>) s in
     bind_res (say inp F (line ''rtc initialized'' @ line ''  boot time: %02d/%02d/%02d - %02d:%02d:%02d'') (date_args (boot_time k)) s) (\<lambda>s.
     let s = dput ports_part (fold (\<lambda>(p, x). outb p x) pit_init (dget ports_part s)) s in
     bind_res (irq_register 0 pit_irq H) (\<lambda>H.
     bind_res (say inp F (line ''pit initialized to %d Hz'') [Int_arg PIT_HZ] s) (\<lambda>s. Inr (H, s))))))))))"

text \<open>The memory. The multiboot information is read at its physical address: the first 4 MiB are mapped to
  themselves until \<open>remove_identity_map\<close>. \<open>mib\<close> is the size in MiB as a double, \<open>syms\<close> the symbol table.\<close>

definition usable_memory :: "mmap_state \<Rightarrow> u32" where
  "usable_memory mm = fold (\<lambda>r n. n + rlength r) (usable_regions mm) 0"

definition mmap_steps :: "statics \<Rightarrow> inputs \<Rightarrow> 'f ftoa \<Rightarrow> (u32 \<Rightarrow> 'f) \<Rightarrow> u32 \<Rightarrow> kstate \<Rightarrow> kstate res" where
  "mmap_steps A inp F mib mb2_info s =
     bind_res (ret (mmap_init (link A) (pmem (vmem (heap s))) mb2_info (d_mmap (dev s)))) (\<lambda>mm.
     let s = s\<lparr>dev := (dev s)\<lparr>d_mmap := mm\<rparr>\<rparr> in
     bind_res (say inp F (line ''mmap initialized'' @ line ''  usable regions: %d'')
       [Int_arg (of_nat (length (usable_regions mm)))] s) (\<lambda>s.
     bind_res (say inp F (line ''  available memory: %.2f MiB'') [Double_arg (mib (usable_memory mm))] s)
       (say inp F (line ''  kernel start: 0x%08x'' @ line ''  kernel end: 0x%08x'' @ line ''  kernel size: %d bytes'')
         (map Int_arg [kstart mm, kend mm, ksize mm]))))"

definition with_frames :: "pmm \<Rightarrow> kstate \<Rightarrow> kstate" where
  "with_frames p s = s\<lparr>heap := (heap s)\<lparr>vmem := (vmem (heap s))\<lparr>frames := p\<rparr>\<rparr>\<rparr>"

definition pmm_steps :: "statics \<Rightarrow> inputs \<Rightarrow> 'f ftoa \<Rightarrow> u32 \<Rightarrow> kstate \<Rightarrow> (u32 \<times> kstate) res" where
  "pmm_steps A inp F mb2_info s =
     (let m = pmem (vmem (heap s)) in
      bind_res (ret (initrd_init m mb2_info (dget initrd_part s))) (\<lambda>i.
      let s = dput initrd_part i s in
      bind_res (say inp F (line ''initrd initialized'' @ line ''  phys addr: 0x%08x'' @ line ''  size: %u bytes'')
        (map Int_arg [phys_addr i, isize i]) s) (\<lambda>s.
      bind_res (ret (fb_parse_tag m mb2_info)) (\<lambda>tag.
      let p = pmm_init (d_mmap (dev s)) (load64 m (tag + 8)) (load32 m (tag + 16)) (load32 m (tag + 24)) (fb_sym A) m;
          s = with_frames p s in
      bind_res (say inp F (line ''pmm initialized'' @ line ''  bitmap addr: 0x%08x'' @ line ''  bitmap size: %u bytes'')
        (map Int_arg [bitmap_addr p, bitmap_size p]) s) (\<lambda>s. Inr (tag, s))))))"

definition paging_steps :: "statics \<Rightarrow> inputs \<Rightarrow> 'f ftoa \<Rightarrow> ksym_entry list \<Rightarrow> kstate \<Rightarrow> kstate res" where
  "paging_steps A inp F syms s =
     bind_res (on_vm (paging_init (pd_sym A)) s) (\<lambda>(pd, s).
     let s = s\<lparr>kernel_pd_phys := pd\<rparr> in
     bind_res (say inp F (line ''paging initialized'') [] s) (\<lambda>s.
     bind_res (ksym_init inp F syms (dget ports_part s)) (\<lambda>io.
     let s = dput ports_part io s in
     bind_res (say inp F (line ''ksym initialized'') [] s) (\<lambda>s.
     bind_res (kheap_init (heap s)) (\<lambda>h.
     let s = s\<lparr>heap := h\<rparr> in
       say inp F (line ''kheap initialized'' @ line ''  addr: 0x%08x'' @ line ''  size: %u bytes''
           @ line ''  head addr: 0x%08x'' @ line ''  end: 0x%08x'')
         (map Int_arg [kheap_start h, kheap_size h, head h, kheap_end h]) s)))))"

definition kmain_memory ::
  "statics \<Rightarrow> inputs \<Rightarrow> 'f ftoa \<Rightarrow> (u32 \<Rightarrow> 'f) \<Rightarrow> ksym_entry list \<Rightarrow> u32 \<Rightarrow> kstate \<Rightarrow> kstate res" where
  "kmain_memory A inp F mib syms mb2_info s =
     bind_res (mmap_steps A inp F mib mb2_info s) (\<lambda>s.
     bind_res (pmm_steps A inp F mb2_info s) (\<lambda>(tag, s).
     bind_res (paging_steps A inp F syms s) (\<lambda>s.
     bind_res (fb_init (pmem (vmem (heap s))) tag (fb (dget console_part s)) s) (\<lambda>(f, s).
     let s = dput console_part ((dget console_part s)\<lparr>fb := f\<rparr>) s in
     bind_res (say inp F (line ''fb initialized'' @ line ''  pitch: %d'' @ line ''  width: %d'' @ line ''  height: %d''
         @ line ''  bpp: %d'' @ line ''  addr: 0x%08x'')
       (map Int_arg [fb_pitch f, fb_width f, fb_height f, fb_bpp f, fb_addr f]) s) (\<lambda>s.
     bind_res (initrd_remap initrd_part s) (\<lambda>s.
     bind_res (say inp F (line ''initrd remapped'' @ line ''  addr: 0x%08x'') [Int_arg (iaddr (dget initrd_part s))] s) (\<lambda>s.
     bind_res (with_vm remove_identity_map s)
       (say inp F (line ''identity mapping removed'') []))))))))"

text \<open>The files and the devices.\<close>

definition kmain_mounts :: "statics \<Rightarrow> inputs \<Rightarrow> 'f ftoa \<Rightarrow> devices tables \<Rightarrow> kstate \<Rightarrow> kstate res" where
  "kmain_mounts A inp F T s =
     bind_res (vfs_mount T (str ''/'') (initrd_drv A) 0 s) (\<lambda>(r, s).
     if r \<noteq> 0 then Inl (Panic ''main() -> failed to mount root'')
     else bind_res (say inp F (line ''mounted /'') [] s) (\<lambda>s.
     bind_res (vfs_mount T (str ''/dev'') (devfs_drv A) 0 s) (\<lambda>(r, s).
     if r \<noteq> 0 then Inl (Panic ''main() -> failed to mount dev'')
     else say inp F (line ''mounted /dev'') [] s)))"

definition mouse_steps :: "inputs \<Rightarrow> kstate \<Rightarrow> kstate res" where
  "mouse_steps inp s =
     bind_res (ret (map_option Inr (mouse_init inp (fb (dget console_part s)) (dget mouse_part s, dget ports_part s))))
       (\<lambda>(m, io). Inr (dput ports_part io (dput mouse_part m s)))"

definition fb_info_of_screen :: "framebuffer \<Rightarrow> fb_info" where
  "fb_info_of_screen f = \<lparr>fi_phys = fb_phys f, fi_virt = fb_addr f, fi_width = fb_width f, fi_height = fb_height f,
     fi_pitch = fb_pitch f, fi_bpp = fb_bpp f\<rparr>"

definition screen_steps :: "statics \<Rightarrow> inputs \<Rightarrow> 'f ftoa \<Rightarrow> kstate \<Rightarrow> kstate res" where
  "screen_steps A inp F s =
     bind_res (fb_register fbs_part devfs_part (fb_ops_sym A) (fb_info_of_screen (fb (dget console_part s))) s) (\<lambda>s.
     bind_res (say inp F (line ''fb0 initialized'') [] s) (\<lambda>s.
     let c = console_init (dget console_part s);
         s = tty_register tty_part devfs_part (tty_sym A) (tty_ops_sym A)
           (console_cols c) (console_rows c) (console_bg c) (console_fg c) (dput console_part c s) in
       say inp F (line ''tty0 initialized'') [] s))"

definition kmain_files ::
  "statics \<Rightarrow> inputs \<Rightarrow> 'f ftoa \<Rightarrow> devices tables \<Rightarrow> (kstate \<Rightarrow> kstate res) list \<Rightarrow> machine \<Rightarrow> machine res" where
  "kmain_files A inp F T irqs = (\<lambda>(H, s).
     bind_res (kmain_mounts A inp F T s) (\<lambda>s.
     let s = dput devfs_part (null_init (null_ops_sym A) (dget devfs_part s)) s in
     bind_res (say inp F (line ''null initialized'') [] s) (\<lambda>s.
     let s = dput devfs_part (zero_init (zero_ops_sym A) (dget devfs_part s)) s in
     bind_res (say inp F (line ''zero initialized'') [] s) (\<lambda>s.
     bind_res (mouse_steps inp s) (\<lambda>s.
     bind_res (irq_register 12 (mouse_irq inp) H) (\<lambda>H.
     bind_res (say inp F (line ''mouse initialized'') [] s) (\<lambda>s.
     bind_res (irq_register 1 (keyboard_irq inp) H) (\<lambda>H.
     bind_res (say inp F (line ''keyboard initialized'') [] s) (\<lambda>s.
     let H = userspace_init T clock_part (st_sym A) irqs H in
     bind_res (say inp F (line ''userspace syscalls initialized'') [] s) (\<lambda>s.
     bind_res (screen_steps A inp F s) (\<lambda>s. Inr (H, s))))))))))))"

text \<open>The first threads. \<open>st_sym\<close> is the address of \<open>st\<close> on the stack; that \<open>vfs_open\<close> and \<open>vfs_stat\<close> succeed
  is not checked.\<close>

definition main_entry :: "inputs \<Rightarrow> 'f ftoa \<Rightarrow> kstate \<Rightarrow> kstate res" where
  "main_entry inp F s = bind_res (say inp F (line ''boot time: %d ms'') [Int_arg (pit_get_ms (dget clock_part s))] s)
     (\<lambda>s. Inl Diverges)"

definition init_path :: "u8 list" where "init_path = str ''/bin/init/init''"

definition read_init :: "statics \<Rightarrow> devices tables \<Rightarrow> kstate \<Rightarrow> (u32 \<times> kstate) res" where
  "read_init A T s =
     bind_res (vfs_open T init_path 0 s) (\<lambda>(init_fd, s).
     bind_res (vfs_stat T init_fd (st_sym A) s) (\<lambda>(_, s).
     bind_res (field 4 (st_sym A) 28 (vmem (heap s))) (\<lambda>st_size.
     bind_res (k_malloc st_size s) (\<lambda>(buf, s).
     if buf = 0 then Inl (Panic ''main() -> failed to allocate buffer'')
     else bind_res (vfs_read T init_fd buf st_size s) (\<lambda>(_, s).
          bind_res (vfs_close T init_fd s) (\<lambda>(_, s). Inr (buf, s)))))))"

definition start_init :: "u32 \<Rightarrow> kstate \<Rightarrow> (u32 \<times> kstate) res" where
  "start_init buf s =
     bind_res (k_malloc 4 s) (\<lambda>(argv, s).
     bind_res (k_malloc 20 s) (\<lambda>(argv0, s).
     bind_res (k_write (word_bytes argv0) argv s) (\<lambda>s.
     bind_res (k_write (init_path @ [0]) argv0 s) (\<lambda>s.
     bind_res (on_vm uprocess_create_pagedir s) (\<lambda>(pd_phys, s).
     bind_res (on_vm (\<lambda>m. bind_res (uprocess_load pd_phys buf [init_path] m)
         (\<lambda>(ent, hstart, user_esp, m). Inr ((ent, hstart, user_esp), m))) s) (\<lambda>((ent, hstart, user_esp), s).
     bind_res (uprocess_create ent pd_phys hstart user_esp s) (\<lambda>(init, s).
     bind_res (k_free argv0 s) (\<lambda>s.
     bind_res (k_free argv s) (\<lambda>s.
     bind_res (k_free buf s) (\<lambda>s. Inr (init, s)))))))))))"

definition run_main :: "u32 \<Rightarrow> u32 \<Rightarrow> kstate \<Rightarrow> kstate res" where
  "run_main main_thread init s =
     bind_res (scheduler_add (idle_thread s) s) (\<lambda>s.
     bind_res (scheduler_add main_thread s) (\<lambda>s.
     bind_res (process_at init s) (\<lambda>p.
     bind_res (scheduler_add (pthread p) s) (\<lambda>s.
     let s = s\<lparr>curr_thread := main_thread\<rparr> in
     bind_res (set_thread_state main_thread THREAD_RUNNING s) (\<lambda>s.
     bind_res (thread_at main_thread s) (\<lambda>t.
       Inr (s\<lparr>gdts := tss_set_kernel_stack (stack_base t + stack_size t) (gdts s)\<rparr>)))))))"

definition kmain_start :: "statics \<Rightarrow> devices tables \<Rightarrow> kstate \<Rightarrow> kstate res" where
  "kmain_start A T s =
     bind_res (kthread_create (idle_sym A) KSTACK_SIZE s) (\<lambda>(idle, s).
     bind_res (set_thread_state idle THREAD_READY (s\<lparr>idle_thread := idle\<rparr>)) (\<lambda>s.
     bind_res (kthread_create (main_sym A) KSTACK_SIZE s) (\<lambda>(main_thread, s).
     bind_res (set_thread_state main_thread THREAD_READY s) (\<lambda>s.
     bind_res (read_init A T s) (\<lambda>(buf, s).
     bind_res (start_init buf s) (\<lambda>(init, s).
       run_main main_thread init s))))))"

definition kmain :: "statics \<Rightarrow> inputs \<Rightarrow> 'f ftoa \<Rightarrow> (u32 \<Rightarrow> 'f) \<Rightarrow> (nat \<Rightarrow> u8 \<Rightarrow> u8) \<Rightarrow> (nat \<Rightarrow> u8 \<Rightarrow> u8) \<Rightarrow> ksym_entry list
    \<Rightarrow> (kstate \<Rightarrow> kstate res) list \<Rightarrow> u32 \<Rightarrow> u32 \<Rightarrow> machine \<Rightarrow> machine res" where
  "kmain A inp F mib cmos cmos' syms irqs magic mb2_info c =
     (let T = kernel_tables A irqs in
      bind_res (kmain_cpu A inp F cmos cmos' magic mb2_info c) (\<lambda>(H, s).
      bind_res (kmain_memory A inp F mib syms mb2_info s) (\<lambda>s.
      bind_res (kmain_files A inp F T irqs (H, s)) (\<lambda>(H, s).
      bind_res (kmain_start A T s) (\<lambda>s. Inr (H, s))))))"

end
