(* ===== verification/Bootfiles.thy ===== *)
theory Bootfiles
  imports Boot
begin

text \<open>
  What \<open>kmain\<close> has set up when it comes to the first threads: both file systems are mounted, the four devices can be opened under
  \<open>/dev\<close>, and mouse and keyboard have their interrupts. \<open>yields\<close> is total correctness of one step, and \<open>mounted\<close> what
  the steps of \<open>kmain_files\<close> keep. The properties assume devices that get ready in the end and a heap whose last block
  is free and large enough, as \<open>kheap_init\<close> leaves it.
\<close>

section \<open>Steps that succeed\<close>

definition yields :: "'a res \<Rightarrow> ('a \<Rightarrow> bool) \<Rightarrow> bool" where
  "yields r P \<longleftrightarrow> (\<exists>x. r = Inr x \<and> P x)"

lemma yields_Inr [simp]: "yields (Inr x) P \<longleftrightarrow> P x"
  by (simp add: yields_def)

lemma yields_bind: "yields r P \<Longrightarrow> (\<And>x. P x \<Longrightarrow> yields (f x) Q) \<Longrightarrow> yields (bind_res r f) Q"
  by (auto simp: yields_def)

lemma yields_mono: "yields r P \<Longrightarrow> (\<And>x. P x \<Longrightarrow> Q x) \<Longrightarrow> yields r Q"
  by (auto simp: yields_def)

lemma yields_let: "yields (f x) Q \<Longrightarrow> yields (Let x f) Q"
  by (simp add: Let_def)

section \<open>Output\<close>

definition serial_live :: "inputs \<Rightarrow> bool" where
  "serial_live inp \<longleftrightarrow> (\<forall>n. \<exists>k. inp (n + k) (COM1 + 5) AND 0x20 \<noteq> 0)"

text \<open>Messages without directives, shorter than the buffer of the print functions.\<close>

definition plain :: "u8 list \<Rightarrow> bool" where
  "plain fmt \<longleftrightarrow> 0x25 \<notin> set fmt \<and> length fmt < 1024"

lemma serial_printf_plain:
  assumes "serial_live inp" "plain fmt"
  shows "\<exists>len io'. serial_printf inp F fmt args io = Inr (len, io')"
proof -
  have f: "format_loop F (unat (1024 - 1 :: u32)) fmt args [] = Some (Inr fmt)"
    using format_loop_plain [of fmt "[]" 1023 F args] assms(2) by (simp add: plain_def)
  obtain n where "serial_write inp (takeWhile (\<lambda>c. c \<noteq> 0) (fmt @ [0])) io
      = Some \<lparr>reads = n, outs = outs io @ map (Pair COM1) (takeWhile (\<lambda>c. c \<noteq> 0) (fmt @ [0]))\<rparr>"
    using serial_write_sends assms(1) unfolding serial_live_def by blast
  then show ?thesis unfolding serial_printf_def vsnprintf_def f by (simp del: takeWhile_append)
qed

lemma say_keeps:
  assumes "serial_live inp" "plain fmt" "P s" "\<And>io s. P s \<Longrightarrow> P (dput ports_part io s)"
  shows "yields (say inp F fmt args s) P"
proof -
  obtain len io where "serial_printf inp F fmt args (dget ports_part s) = Inr (len, io)"
    using serial_printf_plain [OF assms(1,2)] by blast
  then show ?thesis using assms(3,4) by (simp add: say_def)
qed

section \<open>The mouse answers\<close>

definition ps2_live :: "inputs \<Rightarrow> bool" where
  "ps2_live inp \<longleftrightarrow> (\<forall>n. \<exists>k. inp (n + k) 0x64 AND 0x02 = 0) \<and> (\<forall>n. \<exists>k. inp (n + k) 0x64 AND 0x01 \<noteq> 0)"

lemma ps2_wait_write_returns: "inp (reads io + k) 0x64 AND 0x02 = 0 \<Longrightarrow> \<exists>io'. ps2_wait_write inp io = Some io'"
proof (induction k arbitrary: io)
  case 0
  then show ?case by (subst ps2_wait_write.simps) (simp add: inb_def)
next
  case (Suc k)
  from Suc.IH [of "io\<lparr>reads := Suc (reads io)\<rparr>"] Suc.prems show ?case
    by (subst ps2_wait_write.simps) (simp add: inb_def)
qed

lemma ps2_wait_read_returns: "inp (reads io + k) 0x64 AND 0x01 \<noteq> 0 \<Longrightarrow> \<exists>io'. ps2_wait_read inp io = Some io'"
proof (induction k arbitrary: io)
  case 0
  then show ?case by (subst ps2_wait_read.simps) (simp add: inb_def)
next
  case (Suc k)
  from Suc.IH [of "io\<lparr>reads := Suc (reads io)\<rparr>"] Suc.prems show ?case
    by (subst ps2_wait_read.simps) (simp add: inb_def)
qed

lemma mouse_init_returns:
  assumes "ps2_live inp"
  shows "mouse_init inp f c \<noteq> None"
proof -
  have send: "ps2_send inp p x io \<noteq> None" for p x io
  proof -
    obtain k where "inp (reads io + k) 0x64 AND 0x02 = 0" using assms by (auto simp: ps2_live_def)
    from ps2_wait_write_returns [where inp = inp and io = io and k = k, OF this] show ?thesis by (auto simp: ps2_send_def)
  qed
  have wait: "ps2_wait_read inp io \<noteq> None" for io
  proof -
    obtain k where "inp (reads io + k) 0x64 AND 0x01 \<noteq> 0" using assms by (auto simp: ps2_live_def)
    from ps2_wait_read_returns [where inp = inp and io = io and k = k, OF this] show ?thesis by auto
  qed
  have "mouse_write inp x io \<noteq> None" "mouse_read inp io \<noteq> None" for x io
    using send wait by (simp_all add: mouse_write_def mouse_read_def bind_eq_None_conv)
  with send wait show ?thesis
    by (simp add: mouse_init_def bind_eq_None_conv Let_def split_beta)
qed

section \<open>Room in the heap\<close>

text \<open>One free block of at least \<open>k\<close> bytes behind the blocks in use, as it is after \<open>kheap_init\<close>.\<close>

definition roomy :: "nat \<Rightarrow> kheap \<Rightarrow> bool" where
  "roomy k h \<longleftrightarrow> (\<exists>bs a sz. used_only bs \<and> heap_ok h (bs @ [(a, sz, True)]) \<and> k \<le> unat sz)"

lemma first_fit_used_only: "used_only bs \<Longrightarrow> first_fit n bs = 0"
  by (induction n bs rule: first_fit.induct) auto

lemma roomy_malloc:
  assumes "roomy (unat n + 21 + k) (heap s)"
  shows "yields (k_malloc n s) (\<lambda>(p, s'). p \<noteq> 0 \<and> (\<exists>h. s' = s\<lparr>heap := h\<rparr> \<and> roomy k h))"
proof -
  obtain bs a sz where b: "used_only bs" "heap_ok (heap s) (bs @ [(a, sz, True)])" "unat n + 21 + k \<le> unat sz"
    using assms by (auto simp: roomy_def)
  have "n \<le> sz" using b(3) by (simp add: word_le_nat_alt)
  from kmalloc_fit [OF b(2) this first_fit_used_only [OF b(1)]] obtain h where
    h: "kmalloc n (heap s) = Some (Inr (a + HDR, h))" "heap_ok h (bs @ alloc_at a n sz)" by auto
  have al: "alloc_at a n sz = [(a, n, False), (a + HDR + n, sz - n - HDR, True)]" using b(3) by (simp add: alloc_at_def)
  have "HDR \<le> sz - n" using b(3) \<open>n \<le> sz\<close> by (simp add: word_le_nat_alt HDR_def unat_sub_u32)
  then have "unat (sz - n - HDR) = unat sz - unat n - 20" using \<open>n \<le> sz\<close> by (simp add: unat_sub_u32 word_le_nat_alt HDR_def)
  then have "k \<le> unat (sz - n - HDR)" using b(3) by simp
  then have "roomy k h" using h(2) b(1) unfolding roomy_def al
    by (intro exI [of _ "bs @ [(a, n, False)]"] exI [of _ "a + HDR + n"] exI [of _ "sz - n - HDR"]) simp
  moreover have "k_malloc n s = Inr (a + HDR, s\<lparr>heap := h\<rparr>)" by (simp add: k_malloc_def h(1))
  moreover have "a + HDR \<noteq> 0"
    using heap.malloc_Inr [OF _ h(1)] b(2) by (auto simp: heap_wf_def)
  ultimately show ?thesis by (auto intro!: exI [of _ h])
qed

lemma roomy_mono: "roomy n h \<Longrightarrow> k \<le> n \<Longrightarrow> roomy k h"
  unfolding roomy_def by (meson order_trans)

section \<open>The state along the way\<close>

definition files_state :: "statics \<Rightarrow> nat \<Rightarrow> fs_mount list \<Rightarrow> devfs_entry list \<Rightarrow> kstate \<Rightarrow> bool" where
  "files_state A k ms es s \<longleftrightarrow> roomy k (heap s) \<and> mount_table s = ms \<and> registry (dget devfs_part s) = es
     \<and> devfs_root_ops (dget devfs_part s) = devfs_ops_sym A \<and> curr_process s = 0
     \<and> kernel_fd_table s = replicate MAX_FDS 0"

definition mount_of :: "string \<Rightarrow> u32 \<Rightarrow> u32 \<Rightarrow> fs_mount" where
  "mount_of path drv rt = \<lparr>mpath = str path, driver = drv, root = rt, mprivate = 0\<rparr>"

definition dev_dir :: "statics \<Rightarrow> vnode" where
  "dev_dir A = zero_vnode\<lparr>vflags := VFS_DIRECTORY, ops := devfs_ops_sym A\<rparr>"

definition mounted :: "statics \<Rightarrow> nat \<Rightarrow> devfs_entry list \<Rightarrow> kstate \<Rightarrow> bool" where
  "mounted A k es s \<longleftrightarrow> (\<exists>rt d. files_state A k [mount_of ''/'' (initrd_drv A) rt, mount_of ''/dev'' (devfs_drv A) d] es s
     \<and> d \<noteq> 0 \<and> vnodes s d = Some (dev_dir A))"

text \<open>The parts of the drivers do not overlap.\<close>

lemmas part_access = dget_def dput_def part_defs

lemma other_parts [simp]:
  "dget devfs_part (dput ports_part x s) = dget devfs_part s" "dget devfs_part (dput mouse_part m s) = dget devfs_part s"
  "dget devfs_part (dput fbs_part b s) = dget devfs_part s" "dget devfs_part (dput initrd_part i s) = dget devfs_part s"
  "dget devfs_part (dput console_part c s) = dget devfs_part s" "dget devfs_part (dput tty_part t s) = dget devfs_part s"
  by (simp_all add: part_access)

lemma dput_fields [simp]:
  "heap (dput L x s) = heap s" "mount_table (dput L x s) = mount_table s" "curr_process (dput L x s) = curr_process s"
  "kernel_fd_table (dput L x s) = kernel_fd_table s" "vnodes (dput L x s) = vnodes s"
  by (simp_all add: dput_def)

lemma dget_fields [simp]:
  "dget L (s\<lparr>heap := h\<rparr>) = dget L s" "dget L (s\<lparr>mount_table := ms\<rparr>) = dget L s" "dget L (put_vnode p v s) = dget L s"
  by (simp_all add: dget_def put_vnode_def)

lemma files_state_ports: "files_state A k ms es (dput ports_part io s) = files_state A k ms es s"
  by (simp add: files_state_def)

lemma mounted_ports: "mounted A k es s \<Longrightarrow> mounted A k es (dput ports_part io s)"
  by (simp add: mounted_def files_state_ports)

lemma say_mounted:
  "serial_live inp \<Longrightarrow> plain fmt \<Longrightarrow> mounted A k es s \<Longrightarrow> yields (say inp F fmt args s) (mounted A k es)"
  by (rule say_keeps) (auto intro: mounted_ports)

section \<open>The two mounts\<close>

lemma not_neg_0 [simp]: "\<not> neg 0"
  by (simp add: neg_def)

lemma roomy_malloc_eq:
  assumes "roomy (unat n + 21 + k) (heap s)"
  obtains p h where "k_malloc n s = Inr (p, s\<lparr>heap := h\<rparr>)" "p \<noteq> 0" "roomy k h"
  using roomy_malloc [OF assms] by (auto simp: yields_def)

lemma root_mounted:
  assumes "files_state A (338 + k) [] es s"
  shows "yields (vfs_mount (kernel_tables A irqs) (str ''/'') (initrd_drv A) 0 s)
    (\<lambda>(r, s'). r = 0 \<and> (\<exists>rt. files_state A k [mount_of ''/'' (initrd_drv A) rt] es s'))"
proof -
  note f = assms [unfolded files_state_def]
  have "roomy (unat sizeof_vnode + 21 + (277 + k)) (heap s)" using f by (simp add: sizeof_vnode_def add.assoc)
  then obtain p h where m1: "k_malloc sizeof_vnode s = Inr (p, s\<lparr>heap := h\<rparr>)" "p \<noteq> 0" "roomy (277 + k) h"
    by (rule roomy_malloc_eq)
  then have "roomy (unat sizeof_vnode_data + 21 + k) (heap (s\<lparr>heap := h\<rparr>))" by (simp add: sizeof_vnode_data_def)
  then obtain q h' where m2: "k_malloc sizeof_vnode_data (s\<lparr>heap := h\<rparr>) = Inr (q, s\<lparr>heap := h'\<rparr>)" "q \<noteq> 0" "roomy k h'"
    by (rule roomy_malloc_eq) simp
  show ?thesis using f m1 m2
    by (simp add: vfs_mount_def kernel_tables_def initrd_driver_def initrd_get_root_def initrd_vnode_create_def
        MAX_MOUNTS_def MAX_PATH_def str_def mount_of_def files_state_def Let_def)
      (simp add: put_vnode_def)
qed

lemma dev_mounted:
  assumes "syms_ok A" "files_state A (61 + k) [mount_of ''/'' (initrd_drv A) rt] es s"
  shows "yields (vfs_mount (kernel_tables A irqs) (str ''/dev'') (devfs_drv A) 0 s) (\<lambda>(r, s'). r = 0 \<and> mounted A k es s')"
proof -
  note f = assms(2) [unfolded files_state_def]
  have "roomy (unat sizeof_vnode + 21 + k) (heap s)" using f by (simp add: sizeof_vnode_def)
  then obtain p h where m1: "k_malloc sizeof_vnode s = Inr (p, s\<lparr>heap := h\<rparr>)" "p \<noteq> 0" "roomy k h"
    by (rule roomy_malloc_eq)
  have d: "drivers (kernel_tables A irqs) (devfs_drv A) = Some (devfs_driver devfs_part)"
    using assms(1) by (auto simp: kernel_tables_def syms_ok_def)
  show ?thesis using f m1
    by (simp add: vfs_mount_def d devfs_driver_def devfs_mount_def devfs_get_root_def
        MAX_MOUNTS_def MAX_PATH_def str_def mount_of_def files_state_def mounted_def Let_def dev_dir_def)
      (simp add: put_vnode_def)
qed

section \<open>The devices\<close>

definition boot_devices :: "statics \<Rightarrow> u32 \<Rightarrow> (string \<times> u32 \<times> u32) list" where
  "boot_devices A p = [(''null'', null_ops_sym A, 0), (''zero'', zero_ops_sym A, 0), (''fb0'', fb_ops_sym A, p),
     (''tty0'', tty_ops_sym A, tty_sym A)]"

definition device_entries :: "(string \<times> u32 \<times> u32) list \<Rightarrow> devfs_entry list" where
  "device_entries ds = map (\<lambda>(nm, oa, priv). entry_of (str nm, oa, priv, VFS_CHARDEV)) ds"

lemma registered:
  assumes "mounted A k es s" "length es < DEVFS_MAX_DEVICES"
  shows "mounted A k (es @ [entry_of (nm, oa, priv, flags)])
    (dput devfs_part (snd (devfs_register nm oa priv flags (dget devfs_part s))) s)"
  using assms by (auto simp: mounted_def files_state_def devfs_register_def entry_of_def)

lemma mouse_ready:
  assumes "ps2_live inp" "mounted A k es s"
  shows "yields (mouse_steps inp s) (mounted A k es)"
proof -
  obtain m io where "mouse_init inp (fb (dget console_part s)) (dget mouse_part s, dget ports_part s) = Some (m, io)"
    using mouse_init_returns [OF assms(1)] by (metis not_Some_eq surj_pair)
  then show ?thesis using assms(2) by (auto simp: mouse_steps_def mounted_def files_state_def)
qed

lemma screen_ready:
  assumes live: "serial_live inp" and m: "mounted A (45 + k) es s" and l: "length es < 60"
  shows "yields (screen_steps A inp F s) (\<lambda>s'. \<exists>p. mounted A k
    (es @ device_entries [(''fb0'', fb_ops_sym A, p), (''tty0'', tty_ops_sym A, tty_sym A)]) s')"
proof -
  have "roomy (unat sizeof_fb_info + 21 + k) (heap s)" using m
    by (auto simp: sizeof_fb_info_def mounted_def files_state_def)
  then obtain p h where h: "k_malloc sizeof_fb_info s = Inr (p, s\<lparr>heap := h\<rparr>)" "roomy k h"
    by (rule roomy_malloc_eq)
  let ?i = "fb_info_of_screen (fb (dget console_part s))"
  define s1 where "s1 = dput fbs_part ((dget fbs_part s)(p \<mapsto> ?i)) (s\<lparr>heap := h\<rparr>)"
  have r: "fb_register fbs_part devfs_part (fb_ops_sym A) ?i s =
      Inr (dput devfs_part (snd (devfs_register (str ''fb0'') (fb_ops_sym A) p VFS_CHARDEV (dget devfs_part s1))) s1)"
    by (simp add: fb_register_def h(1) s1_def str_def Let_def)
  have "mounted A k es s1" using m h(2) by (auto simp: s1_def mounted_def files_state_def)
  from registered [OF this] l have m1: "mounted A k (es @ [entry_of (str ''fb0'', fb_ops_sym A, p, VFS_CHARDEV)])
      (dput devfs_part (snd (devfs_register (str ''fb0'') (fb_ops_sym A) p VFS_CHARDEV (dget devfs_part s1))) s1)"
    by (simp add: DEVFS_MAX_DEVICES_def)
  show ?thesis unfolding screen_steps_def r bind_res_simps
  proof (rule yields_bind [OF say_mounted [OF live _ m1]])
    fix s2 assume "mounted A k (es @ [entry_of (str ''fb0'', fb_ops_sym A, p, VFS_CHARDEV)]) s2"
    then have "mounted A k (es @ device_entries [(''fb0'', fb_ops_sym A, p), (''tty0'', tty_ops_sym A, tty_sym A)])
      (tty_register tty_part devfs_part (tty_sym A) (tty_ops_sym A) cols rows bg fg (dput console_part c s2))" for cols rows bg fg c
      using registered [of A k "es @ [entry_of (str ''fb0'', fb_ops_sym A, p, VFS_CHARDEV)]" "dput tty_part t (dput console_part c s2)"
          "str ''tty0''" "tty_ops_sym A" "tty_sym A" VFS_CHARDEV for t c] l
      by (simp add: tty_register_def Let_def device_entries_def str_def DEVFS_MAX_DEVICES_def)
        (auto simp: mounted_def files_state_def)
    then show "yields (let c = console_init (dget console_part s2);
         s = tty_register tty_part devfs_part (tty_sym A) (tty_ops_sym A)
           (console_cols c) (console_rows c) (console_bg c) (console_fg c) (dput console_part c s2) in
       say inp F (line ''tty0 initialized'') [] s)
      (\<lambda>s'. \<exists>p. mounted A k (es @ device_entries [(''fb0'', fb_ops_sym A, p), (''tty0'', tty_ops_sym A, tty_sym A)]) s')"
      unfolding Let_def
      by (intro yields_mono [OF say_mounted [OF live]]) (auto simp: plain_def line_def str_def)
  qed (simp add: plain_def line_def str_def)
qed

definition devices_up :: "statics \<Rightarrow> inputs \<Rightarrow> (kstate \<Rightarrow> kstate res) list \<Rightarrow> nat \<Rightarrow> kstate isr_tables \<Rightarrow> machine \<Rightarrow> bool" where
  "devices_up A inp irqs k H = (\<lambda>(H', s). (\<exists>p. mounted A k (device_entries (boot_devices A p)) s)
     \<and> H' = userspace_init (kernel_tables A irqs) clock_part (st_sym A) irqs
         (H\<lparr>irq_handlers := (irq_handlers H)[12 := Some (mouse_irq inp), 1 := Some (keyboard_irq inp)]\<rparr>))"

lemma mounts_up:
  assumes live: "serial_live inp" and A: "syms_ok A" and s: "files_state A (399 + k) [] es s"
  shows "yields (kmain_mounts A inp F (kernel_tables A irqs) s) (mounted A k es)"
proof -
  let ?T = "kernel_tables A irqs"
  let ?root = "\<lambda>rt. files_state A (61 + k) [mount_of ''/'' (initrd_drv A) rt] es"
  define dev where "dev = (\<lambda>s. bind_res (vfs_mount ?T (str ''/dev'') (devfs_drv A) 0 s) (\<lambda>(r, s).
     if r \<noteq> 0 then Inl (Panic ''main() -> failed to mount dev'') else say inp F (line ''mounted /dev'') [] s))"
  have plain: "plain (line ''mounted /'')" "plain (line ''mounted /dev'')" by (simp_all add: plain_def line_def str_def)
  have dev: "yields (dev s) (mounted A k es)" if "?root rt s" for rt s
    unfolding dev_def by (rule yields_bind [OF dev_mounted [OF A that]]) (auto intro: say_mounted [OF live plain(2)])
  have rt: "yields (bind_res (say inp F (line ''mounted /'') [] s) dev) (mounted A k es)" if "?root rt s" for rt s
    by (rule yields_bind [OF say_keeps [where P = "?root rt", OF live plain(1) that]]) (auto simp: files_state_ports intro: dev)
  have s: "files_state A (338 + (61 + k)) [] es s" using s by (simp add: add.assoc)
  show ?thesis unfolding kmain_mounts_def dev_def [symmetric]
    by (rule yields_bind [OF root_mounted [OF s]]) (auto intro: rt)
qed

lemma files_up:
  assumes live: "serial_live inp" "ps2_live inp" and A: "syms_ok A"
    and s: "files_state A (444 + k) [] [] s" and H: "length (irq_handlers H) = 16"
  shows "yields (kmain_files A inp F (kernel_tables A irqs) irqs (H, s)) (devices_up A inp irqs k H)"
proof -
  note say = yields_bind [OF say_mounted [OF live(1)]]
  have s: "files_state A (399 + (45 + k)) [] [] s" using s by (simp add: add.assoc)
  have irq: "irq_register 12 h H = Inr (H\<lparr>irq_handlers := (irq_handlers H)[12 := Some h]\<rparr>)"
    "irq_register 1 h' (H\<lparr>irq_handlers := (irq_handlers H)[12 := Some h]\<rparr>)
      = Inr (H\<lparr>irq_handlers := (irq_handlers H)[12 := Some h, 1 := Some h']\<rparr>)" for h h'
    by (simp_all add: irq_register_def H)
  have plain: "plain (line ''null initialized'')" "plain (line ''zero initialized'')"
    "plain (line ''mouse initialized'')" "plain (line ''keyboard initialized'')"
    "plain (line ''userspace syscalls initialized'')" by (simp_all add: plain_def line_def str_def)
  show ?thesis unfolding kmain_files_def prod.case null_init_def zero_init_def
    apply (rule yields_bind [OF mounts_up [OF live(1) A s]])
    apply (rule yields_let, rule say, rule plain, rule registered, assumption, simp add: DEVFS_MAX_DEVICES_def)
    apply (rule yields_let, rule say, rule plain, rule registered, assumption, simp add: DEVFS_MAX_DEVICES_def)
    apply (rule yields_bind [OF mouse_ready [OF live(2)]], assumption)
    apply (simp only: irq bind_res_simps, rule say, rule plain, assumption)
    apply (rule say, rule plain, assumption)
    apply (rule yields_let, rule say, rule plain, assumption)
    apply (rule yields_bind [OF screen_ready [OF live(1)]], assumption)
    apply (auto simp: devices_up_def boot_devices_def device_entries_def str_def)
    done
qed

section \<open>Opening a device\<close>

lemma dev_path_mount:
  assumes "mount_table s = [mount_of ''/'' x rt, mount_of ''/dev'' y d]" "0 \<notin> set n"
  shows "find_mount (str ''/dev/'' @ n) s = Some (mount_of ''/dev'' y d)"
proof -
  let ?p = "str ''/dev/'' @ n"
  have z: "\<forall>m \<in> set (mount_table s). 0 \<notin> set (mpath m)" "0 \<notin> set ?p"
    using assms by (auto simp: mount_of_def str_def)
  have pre: "prefix (str ''/dev'') ?p" by (simp add: str_def)
  from find_mount_spec [OF z] pre assms(1) show ?thesis
    by (cases "find_mount ?p s") (auto simp: mount_of_def str_def)
qed

lemma dev_resolved:
  assumes s: "mounted A (61 + k) es s" and A: "syms_ok A"
    and n: "n \<noteq> []" "slash \<notin> set n" "0 \<notin> set n" "length n < MAX_PATH" "find_device n es = Some e" "dflags e AND VFS_MOUNTPT = 0"
  obtains node h where "vfs_resolve (kernel_tables A irqs) (str ''/dev/'' @ n) s =
      Inr (node, put_vnode node (zero_vnode\<lparr>ops := dops e, vflags := dflags e, private_data := dprivate e\<rparr>) (s\<lparr>heap := h\<rparr>))"
    "node \<noteq> 0" "roomy k h"
proof -
  obtain rt d where f: "files_state A (61 + k) [mount_of ''/'' (initrd_drv A) rt, mount_of ''/dev'' (devfs_drv A) d] es s"
    "d \<noteq> 0" "vnodes s d = Some (dev_dir A)" using s by (auto simp: mounted_def)
  note ff = f(1) [unfolded files_state_def]
  have "roomy (unat sizeof_vnode + 21 + k) (heap s)" using ff by (simp add: sizeof_vnode_def)
  then obtain node h where m: "k_malloc sizeof_vnode s = Inr (node, s\<lparr>heap := h\<rparr>)" "node \<noteq> 0" "roomy k h"
    by (rule roomy_malloc_eq)
  let ?v = "zero_vnode\<lparr>ops := dops e, vflags := dflags e, private_data := dprivate e\<rparr>"
  let ?T = "kernel_tables A irqs"
  have ops: "the_op ?T op_finddir (dev_dir A) = Inr (Some (devfs_root_finddir devfs_part))"
    using A by (auto simp: the_op_def dev_dir_def zero_vnode_def kernel_tables_def syms_ok_def devfs_root_ops_table_def)
  have st: "step_into ?T d n s = Inr (node, put_vnode node ?v (s\<lparr>heap := h\<rparr>))"
    using f(3) ff m n(5) by (simp add: step_into_def vnode_at_def ops devfs_root_finddir_def devfs_vnode_from_entry_def)
      (simp add: dev_dir_def zero_vnode_def VFS_DIRECTORY_def VFS_MOUNTPT_def)
  have w: "takeWhile (\<lambda>c. c \<noteq> slash) n = n" "dropWhile (\<lambda>c. c \<noteq> slash) n = []" "dropWhile (\<lambda>c. c = slash) n = n"
    using n(1,2) by (cases n; auto simp: takeWhile_eq_all_conv dropWhile_eq_Nil_conv)+
  have "resolve_loop ?T d (slash # n) s = Inr (node, put_vnode node ?v (s\<lparr>heap := h\<rparr>))"
    using n(1,4) m(2) by (simp add: resolve_loop.simps [of ?T d "slash # n"] w st resolve_loop.simps [of ?T node "[]"])
  moreover have "drop (length (str ''/dev'')) (str ''/dev/'' @ n) = slash # n" by (simp add: str_def slash_def)
  ultimately have "vfs_resolve ?T (str ''/dev/'' @ n) s = Inr (node, put_vnode node ?v (s\<lparr>heap := h\<rparr>))"
    using dev_path_mount [OF conjunct1 [OF conjunct2 [OF ff]] n(3)] f(2) m(2) n(6)
    by (simp add: vfs_resolve_def mount_of_def vnode_at_def put_vnode_def)
  then show ?thesis using m(2,3) by (rule that)
qed

lemma dev_opens:
  assumes s: "mounted A (98 + k) es s" and A: "syms_ok A"
    and n: "n \<noteq> []" "slash \<notin> set n" "0 \<notin> set n" "length n < MAX_PATH" "find_device n es = Some e" "dflags e AND VFS_MOUNTPT = 0"
    and T: "vops (kernel_tables A irqs) (dops e) = Some tab" "op_open tab = None"
  shows "yields (vfs_open (kernel_tables A irqs) (str ''/dev/'' @ n) flags s) (\<lambda>(fd, s'). fd = 0 \<and>
    (\<exists>fp node. get_file fd s' = Inr fp \<and> files s' fp = Some \<lparr>fvnode = node, offset = 0, fflags = flags, ref_count = 1\<rparr>
      \<and> vnodes s' node = Some (zero_vnode\<lparr>ops := dops e, vflags := dflags e, private_data := dprivate e\<rparr>)))"
proof -
  let ?T = "kernel_tables A irqs"
  let ?v = "zero_vnode\<lparr>ops := dops e, vflags := dflags e, private_data := dprivate e\<rparr>"
  have "mounted A (61 + (37 + k)) es s" using s by (simp add: add.assoc)
  from dev_resolved [OF this A n, of irqs] obtain node h where
    r: "vfs_resolve ?T (str ''/dev/'' @ n) s = Inr (node, put_vnode node ?v (s\<lparr>heap := h\<rparr>))" "node \<noteq> 0" "roomy (37 + k) h" .
  define s1 where "s1 = put_vnode node ?v (s\<lparr>heap := h\<rparr>)"
  have f: "curr_process s1 = 0" "kernel_fd_table s1 = replicate MAX_FDS 0" "vnodes s1 node = Some ?v" "heap s1 = h"
    using s by (auto simp: s1_def put_vnode_def mounted_def files_state_def)
  have op: "the_op ?T op_open ?v = Inr None" using T by (simp add: the_op_def)
  have "roomy (unat sizeof_file + 21 + k) (heap s1)" using r(3) f(4) by (simp add: sizeof_file_def)
  then obtain fp h' where m: "k_malloc sizeof_file s1 = Inr (fp, s1\<lparr>heap := h'\<rparr>)" "fp \<noteq> 0" by (rule roomy_malloc_eq)
  have slot: "free_slot (replicate MAX_FDS 0) 0 = Some 0" by (simp add: MAX_FDS_def numeral_eq_Suc)
  define s2 where "s2 = put_file fp \<lparr>fvnode = node, offset = 0, fflags = flags, ref_count = 1\<rparr> (s1\<lparr>heap := h'\<rparr>)"
  have g: "curr_process s2 = 0" "kernel_fd_table s2 = replicate MAX_FDS 0" "vnodes s2 node = Some ?v"
    "files s2 fp = Some \<lparr>fvnode = node, offset = 0, fflags = flags, ref_count = 1\<rparr>"
    using f by (simp_all add: s2_def put_file_def)
  have fd: "alloc_fd fp s2 = Inr (0, s2\<lparr>kernel_fd_table := (replicate MAX_FDS 0)[0 := fp]\<rparr>)"
    using g by (simp add: alloc_fd_def active_fd_table_def set_active_fd_def slot)
  have "vfs_open ?T (str ''/dev/'' @ n) flags s = Inr (0, s2\<lparr>kernel_fd_table := (replicate MAX_FDS 0)[0 := fp]\<rparr>)"
    using f m op fd by (simp add: vfs_open_def r(1,2) s1_def [symmetric] vnode_at_def s2_def [symmetric])
  then show ?thesis using g by (simp add: get_file_def active_fd_table_def MAX_FDS_def)
qed

section \<open>Properties\<close>

text \<open>The devices and their operations.\<close>

definition device_ops :: "(kstate \<Rightarrow> kstate res) list \<Rightarrow> (string \<times> devices vnode_ops) list" where
  "device_ops irqs = [(''null'', null_ops), (''zero'', zero_ops), (''fb0'', fb_ops fbs_part),
     (''tty0'', tty_ops tty_part console_part irqs)]"

lemma device_names:
  "str ''null'' = [0x6e, 0x75, 0x6c, 0x6c]" "str ''zero'' = [0x7a, 0x65, 0x72, 0x6f]" "str ''fb0'' = [0x66, 0x62, 0x30]"
  "str ''tty0'' = [0x74, 0x74, 0x79, 0x30]"
  by (simp_all add: str_def)

lemma no_open [simp]:
  "op_open null_ops = None" "op_open zero_ops = None" "op_open (fb_ops L) = None" "op_open (tty_ops T C is) = None"
  by (simp_all add: null_ops_def zero_ops_def fb_ops_def tty_ops_def no_ops_def)

lemma device_found:
  "find_device (str ''null'') (device_entries (boot_devices A p)) = Some (entry_of (str ''null'', null_ops_sym A, 0, VFS_CHARDEV))"
  "find_device (str ''zero'') (device_entries (boot_devices A p)) = Some (entry_of (str ''zero'', zero_ops_sym A, 0, VFS_CHARDEV))"
  "find_device (str ''fb0'') (device_entries (boot_devices A p)) = Some (entry_of (str ''fb0'', fb_ops_sym A, p, VFS_CHARDEV))"
  "find_device (str ''tty0'') (device_entries (boot_devices A p)) = Some (entry_of (str ''tty0'', tty_ops_sym A, tty_sym A, VFS_CHARDEV))"
  by (simp_all add: device_names device_entries_def boot_devices_def entry_of_def)

lemma device_tables:
  assumes "syms_ok A"
  shows "vops (kernel_tables A irqs) (null_ops_sym A) = Some null_ops"
    "vops (kernel_tables A irqs) (zero_ops_sym A) = Some zero_ops"
    "vops (kernel_tables A irqs) (fb_ops_sym A) = Some (fb_ops fbs_part)"
    "vops (kernel_tables A irqs) (tty_ops_sym A) = Some (tty_ops tty_part console_part irqs)"
  using assms by (auto simp: kernel_tables_def syms_ok_def)

lemma device_ops_registered:
  assumes "(nm, tab) \<in> set (device_ops irqs)" "syms_ok A"
  shows "\<exists>e. find_device (str nm) (device_entries (boot_devices A p)) = Some e \<and> dflags e AND VFS_MOUNTPT = 0
    \<and> vops (kernel_tables A irqs) (dops e) = Some tab \<and> op_open tab = None"
    and "str nm \<noteq> []" "slash \<notin> set (str nm)" "0 \<notin> set (str nm)" "length (str nm) < MAX_PATH"
proof -
  have f: "VFS_CHARDEV AND VFS_MOUNTPT = 0" by (simp add: VFS_CHARDEV_def VFS_MOUNTPT_def)
  show "\<exists>e. find_device (str nm) (device_entries (boot_devices A p)) = Some e \<and> dflags e AND VFS_MOUNTPT = 0
    \<and> vops (kernel_tables A irqs) (dops e) = Some tab \<and> op_open tab = None"
    using assms by (auto simp: device_ops_def device_found device_tables entry_of_def f)
  show "str nm \<noteq> []" "slash \<notin> set (str nm)" "0 \<notin> set (str nm)" "length (str nm) < MAX_PATH"
    using assms(1) by (auto simp: device_ops_def device_names slash_def MAX_PATH_def)
qed

text \<open>C39: once the heap is set up, the stage \<open>kmain_files\<close> of the boot ends: it installs the handlers of keyboard and mouse, and
  afterwards \<open>vfs_open\<close> of \<open>/dev/null\<close>, \<open>/dev/zero\<close>, \<open>/dev/fb0\<close> or \<open>/dev/tty0\<close> goes through the mount table and
  the device registry and returns descriptor 0 for a vnode with the operations of that device. It needs a
  serial line and a mouse controller that get ready again and again, a heap with 542 bytes in its last block,
  and different addresses for the tables of operations.\<close>

theorem boot_opens_devices:
  assumes "serial_live inp" "ps2_live inp" "syms_ok A" "files_state A 542 [] [] s" "length (irq_handlers H) = 16"
    and "(nm, tab) \<in> set (device_ops irqs)"
  shows "\<exists>H' s' s'' fp f v. kmain_files A inp F (kernel_tables A irqs) irqs (H, s) = Inr (H', s')
    \<and> irq_handlers H' ! 1 = Some (keyboard_irq inp) \<and> irq_handlers H' ! 12 = Some (mouse_irq inp)
    \<and> vfs_open (kernel_tables A irqs) (str ''/dev/'' @ str nm) flags s' = Inr (0, s'')
    \<and> get_file 0 s'' = Inr fp \<and> files s'' fp = Some f \<and> offset f = 0
    \<and> vnodes s'' (fvnode f) = Some v \<and> vops (kernel_tables A irqs) (ops v) = Some tab"
proof -
  have "files_state A (444 + 98) [] [] s" using assms(4) by simp
  from files_up [OF assms(1-3) this assms(5), of F irqs] obtain H' s' p where
    k: "kmain_files A inp F (kernel_tables A irqs) irqs (H, s) = Inr (H', s')"
      "mounted A 98 (device_entries (boot_devices A p)) s'"
      "H' = userspace_init (kernel_tables A irqs) clock_part (st_sym A) irqs
         (H\<lparr>irq_handlers := (irq_handlers H)[12 := Some (mouse_irq inp), 1 := Some (keyboard_irq inp)]\<rparr>)"
    by (auto simp: yields_def devices_up_def)
  have irqs: "irq_handlers H' ! 1 = Some (keyboard_irq inp)" "irq_handlers H' ! 12 = Some (mouse_irq inp)"
    using assms(5) by (simp_all add: k(3) userspace_init_def syscall_register_def)
  obtain e where e: "find_device (str nm) (device_entries (boot_devices A p)) = Some e" "dflags e AND VFS_MOUNTPT = 0"
    "vops (kernel_tables A irqs) (dops e) = Some tab" "op_open tab = None"
    using device_ops_registered(1) [OF assms(6,3)] by blast
  have m: "mounted A (98 + 0) (device_entries (boot_devices A p)) s'" using k(2) by simp
  note o' = dev_opens [OF m assms(3) device_ops_registered(2-5) [OF assms(6,3)] e, of flags]
  then obtain s'' fp node where "vfs_open (kernel_tables A irqs) (str ''/dev/'' @ str nm) flags s' = Inr (0, s'')"
    "get_file 0 s'' = Inr fp" "files s'' fp = Some \<lparr>fvnode = node, offset = 0, fflags = flags, ref_count = 1\<rparr>"
    "vnodes s'' node = Some (zero_vnode\<lparr>ops := dops e, vflags := dflags e, private_data := dprivate e\<rparr>)"
    by (auto simp: yields_def)
  with k(1) irqs e(3) show ?thesis by (auto intro!: exI)
qed

text \<open>A machine before the first mount: a heap of one block of 4076 bytes, no devices, no mounts. Port reads give
  \<open>0x21\<close>: the serial line and the controller of the mouse are always ready.\<close>

definition boot_heap :: kheap where
  "boot_heap = small_heap\<lparr>kheap_end := 0xd0001000, kheap_size := 4096,
     blocks := (\<lambda>_. None)(0xd0000000 \<mapsto> \<lparr>addr = 0xd0000014, bsize = 4076, bfree = True, prev = 0, nxt = 0\<rparr>)\<rparr>"

definition boot_syms :: statics where
  "boot_syms = \<lparr>link = \<lparr>kernel_virt_start = 0xc0200000, kernel_virt_end = 0xc0300000, kernel_phys_start = 0x200000,
       kernel_phys_end = 0x300000\<rparr>, gdt_sym = 0xc0210000, tss_sym = 0xc0211000, idt_sym = 0xc0212000,
     isr_sym = (\<lambda>n. 0xc0213000 + of_nat (16 * n)), irq_sym = (\<lambda>n. 0xc0214000 + of_nat (16 * n)), pd_sym = 0xc0215000,
     fb_sym = 0xc0216000, initrd_drv = 0xc0216100,
     initrd_ops = \<lparr>file_ops_addr = 0xc0216200, dir_ops_addr = 0xc0216240\<rparr>, devfs_drv = 0xc0216110,
     null_ops_sym = 0xc0216280, zero_ops_sym = 0xc02162c0, fb_ops_sym = 0xc0216300, tty_ops_sym = 0xc0216340,
     tty_sym = 0xc0217000, devfs_ops_sym = 0x680, mounts_sym = 0xc0218000, idle_sym = 0xc0219000,
     main_sym = 0xc0219100, st_sym = 0xc021a000\<rparr>"

definition boot_sys :: kstate where
  "boot_sys = (vfs_sys \<lparr>d_ports = \<lparr>reads = 0, outs = []\<rparr>, d_idt = (idt_clear, \<lparr>limit = 0, base = 0\<rparr>),
       d_clock = \<lparr>ticks = 0, boot_time = new_year_eve, curr_time = new_year_eve\<rparr>,
       d_mmap = \<lparr>kstart = 0, kend = 0, ksize = 0, kpstart = 0, kpend = 0, usable_regions = [], total_memory = 0\<rparr>,
       d_initrd = \<lparr>iaddr = 0, phys_addr = 0, isize = 0, image = [], vdata = (\<lambda>_. None)\<rparr>,
       d_devfs = no_devices, d_fbs = (\<lambda>_. None), d_mouse = idle_mouse,
       d_keyboard = \<lparr>kbuf = replicate 64 0, khead = 0, ktail = 0, mods = 0, extended = False, keyboard_dirty = False\<rparr>,
       d_console = tiny_console, d_tty = empty_tty\<rparr> 0)\<lparr>heap := boot_heap, mount_table := []\<rparr>"

lemma boot_heap_roomy: "roomy 542 boot_heap"
proof -
  have "heap_ok boot_heap [(0xd0000000, 4076, True)]"
    using small_vm_inv small_vm_unaliased avail_bound [of small_vm]
    by (simp add: heap_ok_def heap_inv_def boot_heap_def small_heap_def HDR_def small_vm_frames small_pmm_def)
  then show ?thesis unfolding roomy_def by (intro exI [of _ "[]"] exI [of _ "0xd0000000"] exI [of _ 4076]) simp
qed

lemma boot_sys_files: "files_state boot_syms 542 [] [] boot_sys"
  using boot_heap_roomy
  by (simp add: files_state_def boot_sys_def vfs_sys_def dget_def devfs_part_def no_devices_def boot_syms_def)

lemma boot_opens_devices_witness:
  "\<exists>H' s' s'' fp f v. kmain_files boot_syms (\<lambda>n p. 0x21) (\<lambda>x n. Inr []) (kernel_tables boot_syms []) [] (no_handlers, boot_sys) = Inr (H', s')
    \<and> vfs_open (kernel_tables boot_syms []) (str ''/dev/'' @ str ''tty0'') 0 s' = Inr (0, s'')
    \<and> get_file 0 s'' = Inr fp \<and> files s'' fp = Some f \<and> vnodes s'' (fvnode f) = Some v
    \<and> vops (kernel_tables boot_syms []) (ops v) = Some (tty_ops tty_part console_part [])"
proof -
  have "serial_live (\<lambda>n p. 0x21)" "ps2_live (\<lambda>n p. 0x21)" by (simp_all add: serial_live_def ps2_live_def)
  moreover have "syms_ok boot_syms" by (simp add: syms_ok_def boot_syms_def)
  moreover have "length (irq_handlers no_handlers) = 16" by (simp add: no_handlers_def)
  moreover have "(''tty0'', tty_ops tty_part console_part []) \<in> set (device_ops [])" by (simp add: device_ops_def)
  ultimately show ?thesis
    using boot_opens_devices [OF _ _ _ boot_sys_files, of "\<lambda>n p. 0x21" no_handlers "''tty0''" "tty_ops tty_part console_part []" "[]"
        "\<lambda>x n. Inr []" 0] by blast
qed

end
