(* ===== verification/Traps.thy ===== *)
theory Traps
  imports Bootfiles
begin

text \<open>
  \<open>exception_handler\<close> of \<open>idt/isr.c\<close> on the whole machine: the handler of a system call (theory \<open>Idt\<close>), the message about a
  call that has none, and the dump of every other vector (theory \<open>Ksym\<close>). \<open>c\<close> holds the control registers.
\<close>

definition kernel_exception :: "inputs \<Rightarrow> 'f ftoa \<Rightarrow> ksym_entry list \<Rightarrow> cpu \<Rightarrow> kstate isr_tables \<Rightarrow> kstate handler" where
  "kernel_exception inp F syms c H regs s =
     (if r_int_num regs = 0x80
      then let num = ucast (r_eax regs AND 0xff) :: u8
           in if syscall_handlers H ! unat num \<noteq> None then exception_handler H regs s
              else bind_res (say inp F (line ''unhandled syscall %d'') [Int_arg (ucast num)] s) (\<lambda>s. Inr (regs, s))
      else bind_res (exception_stop inp F syms (vmem (heap s)) (dget clock_part s) c regs (dget ports_part s, dget console_part s))
        (\<lambda>_. Inl (Panic ''exception_handler() -> an exception occurred'')))"

lemma format_loop_prefix:
  "0x25 \<notin> set p \<Longrightarrow> length out + length p \<le> lim \<Longrightarrow>
    format_loop F lim (p @ rest) args out = format_loop F lim rest args (out @ p)"
  by (induction p arbitrary: out) auto

lemma sint_minus_small: "n < 2147483648 \<Longrightarrow> sint (- of_nat n :: u32) = - int n"
  using sint_small [of "of_nat n"] by (simp add: sint_word_minus signed_take_bit_int_eq_self_iff)

lemma directive_d:
  assumes "conv_d (-1) v = Inr ds" "length out + length ds \<le> lim" "length ds \<le> 11"
  shows "directive F lim (0x64 # rest) (Int_arg v # args) out = Inr (rest, args, out @ ds)"
proof -
  have "nat (sint (- of_nat (length ds) :: u32)) = 0" using assms(3) by (simp add: sint_minus_small)
  then show ?thesis using assms
    by (simp add: directive_def parse_width_def parse_precision_def convert_def emit_def pad_and_put_take Let_def)
qed

text \<open>A system call without a handler: the message goes out on the serial line, and the registers come back as they were, so
  that the program takes the number of its call for the result.\<close>

lemma unhandled_syscall:
  assumes "serial_live inp" "r_int_num regs = 0x80" "syscall_handlers H ! unat (ucast (r_eax regs AND 0xff) :: u8) = None"
  shows "\<exists>ds n. kernel_exception inp F syms c H regs s = Inr (regs, dput ports_part
      \<lparr>reads = n, outs = outs (dget ports_part s) @ map (Pair COM1) (str ''unhandled syscall '' @ ds @ [0x0a])\<rparr> s)
    \<and> int_val ds = int (unat (r_eax regs AND 0xff))"
proof -
  let ?v = "ucast (ucast (r_eax regs AND 0xff) :: u8) :: u32"
  let ?p = "str ''unhandled syscall ''"
  have v: "?v = r_eax regs AND 0xff"
  proof -
    have "r_eax regs AND 0xff = take_bit 8 (r_eax regs)" by (simp add: take_bit_eq_mask mask_eq_exp_minus_1)
    then show ?thesis by (auto intro!: bit_word_eqI simp: bit_simps)
  qed
  have small: "unat ?v < 256" using unat_ucast_u8(2) [of "ucast (r_eax regs AND 0xff)"] by simp
  obtain ds where u: "utoa ?v 10 = Inr ds" "numeral_ok 10 ds" "length ds \<le> 10" "digits_val 10 ds = unat ?v"
    using utoa_10 by blast
  have sv: "sint ?v = int (unat ?v)" using sint_small [of ?v] small by simp
  have ds: "conv_d (-1) ?v = Inr ds" "int_val ds = int (unat ?v)" "length ds \<le> 11"
    using u numeral_sign [OF u(2)] sv by (simp_all add: conv_d_def zero_extend_def int_val_def Let_def del: of_nat_unat)
  have line: "line ''unhandled syscall %d'' = ?p @ 0x25 # 0x64 # [0x0a]" by (simp add: line_def str_def)
  have p: "0x25 \<notin> set ?p" "length ?p = 18" "0 \<notin> set ?p" by (simp_all add: str_def)
  have "format_loop F 1023 (line ''unhandled syscall %d'') [Int_arg ?v] [] = Some (Inr (?p @ ds @ [0x0a]))"
    unfolding line using format_loop_prefix [OF p(1), where out = "[]" and lim = 1023 and F = F and rest = "0x25 # 0x64 # [0x0a]"] p(2)
      directive_d [OF ds(1), where out = ?p and lim = 1023 and rest = "[0x0a]" and args = "[]" and F = F] ds(3) by simp
  then have "vsnprintf F 1024 (line ''unhandled syscall %d'') [Int_arg ?v] = Inr ((?p @ ds @ [0x0a]) @ [0], of_nat (length (?p @ ds @ [0x0a])))"
    by (simp add: vsnprintf_def)
  moreover have "0 \<notin> set (?p @ ds @ [0x0a])"
    using u(2) p(3) by (auto simp: numeral_ok_def digits_def)
  then have "takeWhile (\<lambda>c. c \<noteq> 0) ((?p @ ds @ [0x0a]) @ [0]) = ?p @ ds @ [0x0a]" by (subst takeWhile_append2) auto
  moreover obtain n where "serial_write inp (?p @ ds @ [0x0a]) (dget ports_part s)
      = Some \<lparr>reads = n, outs = outs (dget ports_part s) @ map (Pair COM1) (?p @ ds @ [0x0a])\<rparr>"
    using serial_write_sends assms(1) unfolding serial_live_def by blast
  ultimately have "say inp F (line ''unhandled syscall %d'') [Int_arg ?v] s = Inr (dput ports_part
      \<lparr>reads = n, outs = outs (dget ports_part s) @ map (Pair COM1) (?p @ ds @ [0x0a])\<rparr> s)"
    by (simp add: say_def serial_printf_def del: append_assoc)
  then show ?thesis using assms(2,3) ds(2) v by (auto simp: kernel_exception_def Let_def)
qed

text \<open>A symbol whose name fills the buffer: \<open>ksym_format\<close> never gets past the plus sign of its format, so the dump does not end.\<close>

lemma directive_s:
  assumes "length t < 2147483648" "length out \<le> lim"
  shows "directive F lim (0x73 # rest) (Str_arg (Some t) # args) out = Inr (rest, args, take lim (out @ t))"
proof -
  have "nat (sint (- of_nat (length t) :: u32)) = 0" using assms(1) by (simp add: sint_minus_small)
  then show ?thesis using assms
    by (simp add: directive_def parse_width_def parse_precision_def convert_def conv_s_def emit_def pad_and_put_take Let_def)
qed

lemma long_name_hangs:
  assumes "fst (ksym_lookup syms eip) = name" "unat buflen \<le> Suc (length name)" "0 < buflen" "length name < 2147483648"
  shows "ksym_format F syms eip buflen = Inl Diverges"
proof -
  have lim: "unat (buflen - 1) \<le> length name" using assms(2,3) by (simp add: unat_dec_u32 word_neq_0_conv)
  have "format_loop F (unat (buflen - 1)) (0x25 # 0x73 # 0x2b # fmt) (Str_arg (Some name) # args) [] = None" for fmt args
    using directive_s [OF assms(4), of "[]" "unat (buflen - 1)" F "0x2b # fmt" args] lim by simp
  then have "ksnprintf F buflen (0x25 # 0x73 # 0x2b # fmt) (Str_arg (Some name) # args) = Inl Diverges" for fmt args
    by (simp add: ksnprintf_def vsnprintf_def)
  moreover have "str ''%s+0x%x/0x%x'' = 0x25 # 0x73 # 0x2b # str ''0x%x/0x%x''" "str ''%s+0x%x'' = 0x25 # 0x73 # 0x2b # str ''0x%x''"
    by (simp_all add: str_def)
  ultimately show ?thesis using assms(1)
    by (cases "ksym_lookup syms eip") (auto simp: ksym_format_def split: prod.splits)
qed

end
