(* ===== verification/Typing.thy ===== *)
theory Typing
  imports Boot
begin

text \<open>
  References between kernel objects. The C structures point to each other (descriptor to file, file to vnode, vnode to
  operations and private data), and the model turns a pointer to no object into an error. \<open>safe r P\<close> says that
  a step does not end in such an error and that \<open>P\<close> holds of its result; \<open>typed\<close> is the invariant; the locale
  \<open>typed_tables\<close> is what the operations of the drivers must keep, and in it the calls of \<open>vfs.c\<close> keep
  it too. An object that was freed still counts as an object here: what reuse of its memory does to it is outside of this property.
\<close>

section \<open>Steps that never follow a dangling reference\<close>

text \<open>The errors that stand for a pointer to an object that does not exist.\<close>

fun dangling :: "kerr \<Rightarrow> bool" where
  "dangling (Fault m) \<longleftrightarrow> m \<in> set [''no file'', ''no vnode'', ''no process'', ''no thread'', ''no operations'',
     ''no vnode data'', ''no fb_info'']"
| "dangling (Panic m) \<longleftrightarrow> False"
| "dangling Diverges \<longleftrightarrow> False"

definition safe :: "'a res \<Rightarrow> ('a \<Rightarrow> bool) \<Rightarrow> bool" where
  "safe r P \<longleftrightarrow> (case r of Inl e \<Rightarrow> \<not> dangling e | Inr x \<Rightarrow> P x)"

lemma safe_simps [simp]: "safe (Inr x) P \<longleftrightarrow> P x" "safe (Inl e) P \<longleftrightarrow> \<not> dangling e"
  by (simp_all add: safe_def)

lemma safe_bind: "safe r P \<Longrightarrow> (\<And>x. P x \<Longrightarrow> safe (f x) Q) \<Longrightarrow> safe (bind_res r f) Q"
  by (cases r) auto

lemma safe_mono: "safe r P \<Longrightarrow> (\<And>x. P x \<Longrightarrow> Q x) \<Longrightarrow> safe r Q"
  by (cases r) auto

lemma safe_let: "safe (f x) Q \<Longrightarrow> safe (Let x f) Q"
  by (simp add: Let_def)

lemma safe_if: "(b \<Longrightarrow> safe r P) \<Longrightarrow> (\<not> b \<Longrightarrow> safe r' P) \<Longrightarrow> safe (if b then r else r') P"
  by simp

lemma safe_ret: "(\<And>r'. r = Some r' \<Longrightarrow> safe r' P) \<Longrightarrow> safe (ret r) P"
  by (cases r) simp_all

abbreviation anyway :: "'a \<Rightarrow> bool" where "anyway \<equiv> \<lambda>_. True"

lemma safe_anyway_bind: "safe r anyway \<Longrightarrow> (\<And>x. safe (f x) Q) \<Longrightarrow> safe (bind_res r f) Q"
  by (rule safe_bind)

section \<open>Memory and the heap\<close>

lemma pmm_alloc_scan_safe: "safe (pmm_alloc_scan p i) anyway"
  by (induction p i rule: pmm_alloc_scan.induct) (subst pmm_alloc_scan.simps, simp)

lemma paging_safe:
  "safe (alloc_frame m) anyway" "safe (vload32 v m) anyway" "safe (vstore32 v x m) anyway" "safe (vmemset_page v c m) anyway"
  "safe (vload8 v m) anyway" "safe (vstore8 v b m) anyway"
  by (auto simp: alloc_frame_def pmm_alloc_frame_def vload32_def vstore32_def vmemset_page_def vload8_def vstore8_def
      intro!: safe_anyway_bind pmm_alloc_scan_safe split: option.splits)

lemma map_page_safe: "safe (map_page phys virt flags m) anyway"
  unfolding map_page_def Let_def
  by (auto intro!: safe_anyway_bind paging_safe split: prod.splits)

lemma block_safe:
  "safe (deref p h) anyway" "safe (set_prev p x h) anyway" "safe (split_block p n h) anyway"
  "safe (merge_next p h) anyway" "safe (merge_prev p h) anyway" "safe (kfree p h) anyway"
proof -
  show d: "safe (deref p h) anyway" for p h by (simp add: deref_def split: option.split)
  show sp: "safe (set_prev p x h) anyway" for p x h by (auto simp: set_prev_def intro!: safe_anyway_bind d)
  show "safe (split_block p n h) anyway" for p n h
    by (auto simp: split_block_def Let_def intro!: safe_anyway_bind d sp)
  show mn: "safe (merge_next p h) anyway" for p h
    by (auto simp: merge_next_def Let_def intro!: safe_anyway_bind d sp)
  show mp: "safe (merge_prev p h) anyway" for p h
    by (auto simp: merge_prev_def Let_def intro!: safe_anyway_bind d sp)
  show "safe (kfree p h) anyway" for p h
    by (auto simp: kfree_def Let_def intro!: safe_anyway_bind d mn mp)
qed

lemma find_block_safe: "find_block h sz cur = Some r \<Longrightarrow> safe r anyway"
  by (erule find_block.raw_induct [rotated]) (auto split: if_splits option.splits)

lemma skip_used_safe: "skip_used h p = Some r \<Longrightarrow> safe r anyway"
  by (erule skip_used.raw_induct [rotated]) (auto split: if_splits option.splits)

lemma find_tail_safe: "find_tail h p = Some r \<Longrightarrow> safe r anyway"
  by (erule find_tail.raw_induct [rotated]) (auto split: if_splits option.splits)

lemma take_block_safe: "take_block cur sz h = Some r \<Longrightarrow> safe r anyway"
proof -
  assume t: "take_block cur sz h = Some r"
  have "safe (bind_res (split_block cur sz h) (\<lambda>h. bind_res (deref cur h) (\<lambda>b.
      Inr (b, set_block cur (b\<lparr>bsize := sz, bfree := False\<rparr>) h)))) anyway"
    by (auto intro!: safe_anyway_bind block_safe)
  with t show ?thesis unfolding take_block_def
    by (auto split: sum.splits prod.splits if_splits dest!: skip_used_safe intro!: safe_anyway_bind)
qed

lemma grow_heap_safe: "grow_heap h = Some r \<Longrightarrow> safe r anyway"
proof -
  assume g: "grow_heap h = Some r"
  have m: "safe (grow_map h) anyway"
    by (auto simp: grow_map_def intro!: safe_anyway_bind paging_safe map_page_safe split: prod.splits)
  have l: "safe (grow_link nb tail h) anyway" for nb tail h
    by (auto simp: grow_link_def Let_def intro!: safe_anyway_bind block_safe)
  show ?thesis using g m unfolding grow_heap_def
    by (cases "grow_map h") (auto dest!: find_tail_safe intro!: safe_anyway_bind l)
qed

lemma kmalloc_safe: "kmalloc n h = Some r \<Longrightarrow> safe r anyway"
proof (erule kmalloc.raw_induct [rotated])
  fix kmalloc n h r
  assume 1: "\<And>n h r. kmalloc n h = Some r \<Longrightarrow> safe r anyway"
    "Option.bind (find_block h n (free_head h)) (\<lambda>r. case r of
       Inl e \<Rightarrow> Some (Inl e)
     | Inr cur \<Rightarrow>
         if cur \<noteq> 0 then take_block cur n h
         else Option.bind (grow_heap h) (\<lambda>r'. case r' of
                Inl e \<Rightarrow> Some (Inl e)
              | Inr h' \<Rightarrow> kmalloc n h')) = Some (r :: (u32 \<times> kheap) res)"
  from 1(2) obtain r0 where r0: "find_block h n (free_head h) = Some r0"
    by (cases "find_block h n (free_head h)") auto
  show "safe r anyway"
  proof (cases r0)
    case (Inl e)
    with 1(2) r0 find_block_safe [OF r0] show ?thesis by auto
  next
    case (Inr cur)
    show ?thesis
    proof (cases "cur = 0")
      case True
      with 1(2) r0 Inr obtain r' where r': "grow_heap h = Some r'" by (cases "grow_heap h") auto
      with 1(2) r0 Inr True grow_heap_safe [OF r'] show ?thesis by (cases r') (auto intro: 1(1))
    qed (use 1(2) r0 Inr in \<open>auto intro: take_block_safe\<close>)
  qed
qed

text \<open>The calls of the heap on the kernel state change nothing else.\<close>

definition heap_only :: "'d ksys \<Rightarrow> 'd ksys \<Rightarrow> bool" where
  "heap_only s s' \<longleftrightarrow> (\<exists>h. s' = s\<lparr>heap := h\<rparr>)"

lemma heap_only_refl [simp]: "heap_only s s"
  unfolding heap_only_def by (intro exI [of _ "heap s"]) simp

lemma vwrite_safe: "safe (vwrite bs v m) anyway"
  by (induction bs arbitrary: v m) (auto intro!: safe_anyway_bind paging_safe)

lemma vread_safe: "safe (vread n v m) anyway"
  by (induction n arbitrary: v) (auto intro!: safe_anyway_bind paging_safe)

lemma heap_calls_safe:
  "safe (k_malloc n s) (\<lambda>(p, s'). heap_only s s')" "safe (k_free p s) (heap_only s)" "safe (k_write bs v s) (heap_only s)"
  "safe (k_read k v s) anyway"
proof -
  have "safe (ret (kmalloc n (heap s))) anyway" by (rule safe_ret) (rule kmalloc_safe)
  then show "safe (k_malloc n s) (\<lambda>(p, s'). heap_only s s')"
    unfolding k_malloc_def by (auto intro!: safe_anyway_bind simp: heap_only_def)
  show "safe (k_free p s) (heap_only s)"
    unfolding k_free_def by (auto intro!: safe_anyway_bind block_safe simp: heap_only_def)
  show "safe (k_write bs v s) (heap_only s)"
    unfolding k_write_def with_vm_def by (auto intro!: safe_anyway_bind vwrite_safe simp: heap_only_def)
  show "safe (k_read k v s) anyway" unfolding k_read_def by (rule vread_safe)
qed

lemma vstrn_safe: "safe (vstrn n v m) anyway"
  by (induction n arbitrary: v) (auto intro!: safe_anyway_bind paging_safe)

lemma vcstr_safe: "vcstr v m = Some r \<Longrightarrow> safe r anyway"
proof (erule vcstr.raw_induct [rotated])
  fix f v m and r :: "u8 list res"
  assume IH: "\<And>v m r. f v m = Some r \<Longrightarrow> safe r anyway"
    and r: "(case vload8 v m of
         Inl e \<Rightarrow> Some (Inl e)
       | Inr x \<Rightarrow> if x = 0 then Some (Inr [])
                else Option.bind (f (v + 1) m) (\<lambda>r. Some (bind_res r (\<lambda>xs. Inr (x # xs))))) = Some r"
  show "safe r anyway" using r paging_safe(5) [of v m]
    by (cases "vload8 v m") (auto split: if_splits simp: Option.bind_eq_Some_conv intro!: safe_anyway_bind dest!: IH)
qed

section \<open>Typed states\<close>

text \<open>Every descriptor leads to a file, every file and every mount to a vnode, every vnode to its table of operations and
  to the data its driver needs (\<open>vok\<close>), and the running thread and process exist. \<open>dok\<close> is the driver's own part.\<close>

definition table_ok :: "'d ksys \<Rightarrow> fd_table \<Rightarrow> bool" where
  "table_ok s t \<longleftrightarrow> length t = MAX_FDS \<and> (\<forall>f \<in> set t. f = 0 \<or> files s f \<noteq> None)"

definition vnode_ref :: "'d ksys \<Rightarrow> u32 \<Rightarrow> bool" where
  "vnode_ref s p \<longleftrightarrow> p = 0 \<or> vnodes s p \<noteq> None"

definition typed :: "('d \<Rightarrow> vnode \<Rightarrow> bool) \<Rightarrow> ('d \<Rightarrow> bool) \<Rightarrow> 'd ksys \<Rightarrow> bool" where
  "typed vok dok s \<longleftrightarrow> dok (dev s) \<and> table_ok s (kernel_fd_table s)
     \<and> (\<forall>p q. processes s p = Some q \<longrightarrow> table_ok s (fds q))
     \<and> (curr_process s = 0 \<or> processes s (curr_process s) \<noteq> None) \<and> threads s (curr_thread s) \<noteq> None
     \<and> (\<forall>p f. files s p = Some f \<longrightarrow> vnodes s (fvnode f) \<noteq> None)
     \<and> (\<forall>p v. vnodes s p = Some v \<longrightarrow> vok (dev s) v \<and> vnode_ref s (mounted_here v))
     \<and> (\<forall>m \<in> set (mount_table s). vnode_ref s (root m))"

definition grown :: "('d \<Rightarrow> vnode \<Rightarrow> bool) \<Rightarrow> ('d \<Rightarrow> bool) \<Rightarrow> 'd ksys \<Rightarrow> 'd ksys \<Rightarrow> bool" where
  "grown vok dok s s' \<longleftrightarrow> typed vok dok s' \<and> dom (vnodes s) \<subseteq> dom (vnodes s') \<and> dom (files s) \<subseteq> dom (files s')"

lemma grown_refl: "typed vok dok s \<Longrightarrow> grown vok dok s s"
  by (simp add: grown_def)

lemma grown_trans: "grown vok dok s s1 \<Longrightarrow> grown vok dok s1 s2 \<Longrightarrow> grown vok dok s s2"
  unfolding grown_def by (meson order_trans)

lemma grown_typed: "grown vok dok s s' \<Longrightarrow> typed vok dok s'"
  by (simp add: grown_def)

lemma grown_vnode: "grown vok dok s s' \<Longrightarrow> vnodes s p \<noteq> None \<Longrightarrow> vnodes s' p \<noteq> None"
  by (auto simp: grown_def)

lemma grown_file: "grown vok dok s s' \<Longrightarrow> files s p \<noteq> None \<Longrightarrow> files s' p \<noteq> None"
  by (auto simp: grown_def)

lemma table_ok_grows: "table_ok s t \<Longrightarrow> dom (files s) \<subseteq> dom (files s') \<Longrightarrow> table_ok s' t"
  unfolding table_ok_def by (metis domIff subsetD)

lemma vnode_ref_grows: "vnode_ref s p \<Longrightarrow> dom (vnodes s) \<subseteq> dom (vnodes s') \<Longrightarrow> vnode_ref s' p"
  unfolding vnode_ref_def by (metis domIff subsetD)

text \<open>A step that adds objects and leaves the rest of the kernel alone.\<close>

lemma grown_by:
  assumes t: "typed vok dok s"
    and same: "kernel_fd_table s' = kernel_fd_table s" "processes s' = processes s" "curr_process s' = curr_process s"
      "curr_thread s' = curr_thread s" "threads s' (curr_thread s) \<noteq> None" "mount_table s' = mount_table s"
    and dom: "dom (vnodes s) \<subseteq> dom (vnodes s')" "dom (files s) \<subseteq> dom (files s')"
    and ok: "dok (dev s')" "\<And>p f. files s' p = Some f \<Longrightarrow> vnodes s' (fvnode f) \<noteq> None"
      "\<And>p v. vnodes s' p = Some v \<Longrightarrow> vok (dev s') v \<and> vnode_ref s' (mounted_here v)"
  shows "grown vok dok s s'"
  unfolding grown_def typed_def
proof (intro conjI allI impI ballI)
  show "table_ok s' (kernel_fd_table s')" using t dom(2) unfolding typed_def same by (metis table_ok_grows)
  show "table_ok s' (fds q)" if "processes s' p = Some q" for p q
    using t that dom(2) unfolding typed_def same by (metis table_ok_grows)
  show "curr_process s' = 0 \<or> processes s' (curr_process s') \<noteq> None" using t by (simp add: typed_def same)
  show "vnode_ref s' (root m)" if "m \<in> set (mount_table s')" for m
    using t that dom(1) by (auto simp: typed_def same intro: vnode_ref_grows)
qed (use same dom ok in auto)

lemma grown_heap_only:
  assumes "typed vok dok s" "heap_only s s'"
  shows "grown vok dok s s'"
proof -
  obtain h where "s' = s\<lparr>heap := h\<rparr>" using assms(2) by (auto simp: heap_only_def)
  with assms(1) show ?thesis by (simp add: grown_def typed_def table_ok_def vnode_ref_def)
qed

lemma grown_put_file:
  assumes t: "typed vok dok s" and f: "vnodes s (fvnode f) \<noteq> None"
  shows "grown vok dok s (put_file p f s)"
  using t f by (intro grown_by [OF t]) (auto simp: typed_def put_file_def vnode_ref_def split: if_splits)

lemma grown_put_vnode:
  assumes t: "typed vok dok s" and v: "vok (dev s) v" "mounted_here v = 0"
  shows "grown vok dok s (put_vnode p v s)"
proof (rule grown_by [OF t])
  fix q w assume "vnodes (put_vnode p v s) q = Some w"
  then have "vok (dev s) w \<and> vnode_ref s (mounted_here w)"
    using t v by (auto simp: typed_def put_vnode_def vnode_ref_def split: if_splits)
  moreover have "vnode_ref (put_vnode p v s) x" if "vnode_ref s x" for x
    using that by (auto simp: vnode_ref_def put_vnode_def)
  ultimately show "vok (dev (put_vnode p v s)) w \<and> vnode_ref (put_vnode p v s) (mounted_here w)"
    by (simp add: put_vnode_def)
qed (use t in \<open>auto simp: typed_def put_vnode_def\<close>)

lemma grown_dput:
  assumes t: "typed vok dok s" and d: "dok (put_part L x (dev s))" "\<And>v. vok (dev s) v \<Longrightarrow> vok (put_part L x (dev s)) v"
  shows "grown vok dok s (dput L x s)"
  using t d by (intro grown_by [OF t]) (auto simp: typed_def dput_def vnode_ref_def)

lemma table_ok_update: "table_ok s t \<Longrightarrow> x = 0 \<or> files s x \<noteq> None \<Longrightarrow> table_ok s (t[i := x])"
  using set_update_subset_insert [of t i x] by (auto simp: table_ok_def)

lemma active_table_typed:
  "typed vok dok s \<Longrightarrow> safe (active_fd_table s) (table_ok s)"
  by (auto simp: active_fd_table_def typed_def process_at_def)

lemma set_active_fd_typed:
  assumes "typed vok dok s" "f = 0 \<or> files s f \<noteq> None"
  shows "safe (set_active_fd i f s) (grown vok dok s)"
proof -
  have upd: "table_ok s (t[i := f])" if "table_ok s t" for t using that assms(2) by (rule table_ok_update)
  have same: "table_ok (s\<lparr>kernel_fd_table := x\<rparr>) t = table_ok s t" "vnode_ref (s\<lparr>kernel_fd_table := x\<rparr>) p = vnode_ref s p"
    "table_ok (put_process c q s) t = table_ok s t" "vnode_ref (put_process c q s) p = vnode_ref s p" for x t p c q
    by (simp_all add: table_ok_def vnode_ref_def put_process_def)
  show ?thesis
  proof (cases "curr_process s = 0")
    case True
    with assms(1) upd [of "kernel_fd_table s"] show ?thesis by (simp add: set_active_fd_def grown_def typed_def same)
  next
    case False
    then obtain q where q: "processes s (curr_process s) = Some q" "table_ok s (fds q)"
      using assms(1) by (auto simp: typed_def)
    let ?s = "put_process (curr_process s) (q\<lparr>fds := (fds q)[i := f]\<rparr>) s"
    have "typed vok dok ?s" using assms(1) upd [OF q(2)] unfolding typed_def same by (simp add: put_process_def)
    then show ?thesis using False q(1) by (simp add: set_active_fd_def process_at_def grown_def put_process_def)
  qed
qed

lemma alloc_fd_typed:
  assumes "typed vok dok s" "files s f \<noteq> None"
  shows "safe (alloc_fd f s) (\<lambda>(r, s'). grown vok dok s s')"
  unfolding alloc_fd_def
proof (rule safe_bind [OF active_table_typed [OF assms(1)]])
  fix t
  show "safe (case free_slot t 0 of None \<Rightarrow> Inr (-1, s)
      | Some i \<Rightarrow> bind_res (set_active_fd i f s) (\<lambda>s. Inr (of_nat i, s))) (\<lambda>(r, s'). grown vok dok s s')"
    using assms by (auto split: option.split intro!: grown_refl safe_bind [OF set_active_fd_typed])
qed

lemma get_file_typed:
  assumes "typed vok dok s"
  shows "safe (get_file fd s) (\<lambda>p. p = 0 \<or> files s p \<noteq> None)"
proof -
  have "t ! unat fd = 0 \<or> files s (t ! unat fd) \<noteq> None"
    if "table_ok s t" "\<not> neg fd" "sint fd < int MAX_FDS" for t
  proof -
    have "0 \<le> sint fd" using that(2) by (simp add: neg_def)
    moreover have "sint fd < 256" using that(3) by (simp add: MAX_FDS_def)
    moreover have "uint fd = sint fd mod 4294967296" by (simp add: uint_sint take_bit_eq_mod)
    ultimately have "uint fd < 256" by simp
    then have "unat fd < MAX_FDS" by (simp add: MAX_FDS_def nat_less_iff flip: nat_uint_eq)
    then show ?thesis using that(1) nth_mem [of "unat fd" t] unfolding table_ok_def by metis
  qed
  then show ?thesis unfolding get_file_def
    by (auto intro!: safe_bind [OF active_table_typed [OF assms]])
qed

lemma best_mount_index:
  "fst (best_mount path ms i b) = Some j \<Longrightarrow> fst b = Some j \<or> i \<le> j \<and> j < i + length ms"
  by (induction ms arbitrary: i b) (fastforce simp: Let_def split: if_splits)+

lemma find_mount_member: "find_mount path s = Some m \<Longrightarrow> m \<in> set (mount_table s)"
  using best_mount_index [of path "mount_table s" 0 "(None, 0)"] by (auto simp: find_mount_def)

text \<open>The parts of \<open>vfs_open\<close> and \<open>vfs_close\<close>.\<close>

definition open_fd :: "u32 \<Rightarrow> 'd ksys \<Rightarrow> (u32 \<times> 'd ksys) res" where
  "open_fd fp s = bind_res (alloc_fd fp s) (\<lambda>(fd, s). if neg fd then bind_res (k_free fp s) (\<lambda>s. Inr (-1, s)) else Inr (fd, s))"

definition open_record :: "u32 \<Rightarrow> u32 \<Rightarrow> 'd ksys \<Rightarrow> (u32 \<times> 'd ksys) res" where
  "open_record n flags s = bind_res (k_malloc sizeof_file s) (\<lambda>(fp, s). if fp = 0 then Inr (-1, s)
     else open_fd fp (put_file fp \<lparr>fvnode = n, offset = 0, fflags = flags, ref_count = 1\<rparr> s))"

definition open_node :: "'d tables \<Rightarrow> u32 \<Rightarrow> u32 \<Rightarrow> 'd ksys \<Rightarrow> (u32 \<times> 'd ksys) res" where
  "open_node T n flags s = bind_res (vnode_at n s) (\<lambda>v. bind_res (the_op T op_open v) (\<lambda>op.
     bind_res (case op of None \<Rightarrow> Inr (0, s) | Some f \<Rightarrow> f n flags s)
       (\<lambda>(r, s). if op \<noteq> None \<and> neg r then Inr (-1, s) else open_record n flags s)))"

lemma vfs_open_parts:
  "vfs_open T path flags s = bind_res (vfs_resolve T path s) (\<lambda>(n, s). if n = 0 then Inr (-1, s) else open_node T n flags s)"
  unfolding vfs_open_def open_node_def open_record_def open_fd_def Let_def ..

definition close_node :: "'d tables \<Rightarrow> u32 \<Rightarrow> file_t \<Rightarrow> 'd ksys \<Rightarrow> 'd ksys res" where
  "close_node T fp f s = bind_res (vnode_at (fvnode f) s) (\<lambda>v. bind_res (the_op T op_close v) (\<lambda>op.
     bind_res (case op of None \<Rightarrow> Inr (0, s) | Some g \<Rightarrow> g (fvnode f) s) (\<lambda>(_, s). k_free fp s)))"

lemma vfs_close_parts:
  "vfs_close T fd s = bind_res (get_file fd s) (\<lambda>fp. if fp = 0 then Inr (-1, s)
     else bind_res (file_at fp s) (\<lambda>f.
       bind_res (if ref_count (f\<lparr>ref_count := ref_count f - 1\<rparr>) = 0
           then close_node T fp (f\<lparr>ref_count := ref_count f - 1\<rparr>) (put_file fp (f\<lparr>ref_count := ref_count f - 1\<rparr>) s)
           else Inr (put_file fp (f\<lparr>ref_count := ref_count f - 1\<rparr>) s))
         (\<lambda>s. Inr (0, s\<lparr>kernel_fd_table := (kernel_fd_table s)[unat fd := 0]\<rparr>))))"
  unfolding vfs_close_def close_node_def Let_def ..

section \<open>Drivers that keep the state typed\<close>

definition keeps :: "('d \<Rightarrow> vnode \<Rightarrow> bool) \<Rightarrow> ('d \<Rightarrow> bool) \<Rightarrow> 'd ksys \<Rightarrow> (u32 \<times> 'd ksys) res \<Rightarrow> bool" where
  "keeps vok dok s r \<longleftrightarrow> safe r (\<lambda>(x, s'). grown vok dok s s')"

locale typed_tables =
  fixes T :: "'d tables" and vok :: "'d \<Rightarrow> vnode \<Rightarrow> bool" and dok :: "'d \<Rightarrow> bool"
  assumes vok_ops: "vok d v \<Longrightarrow> ops v = 0 \<or> vops T (ops v) \<noteq> None"
    and open_keeps: "typed vok dok s \<Longrightarrow> vnodes s n = Some v \<Longrightarrow> vops T (ops v) = Some tab \<Longrightarrow> op_open tab = Some f1 \<Longrightarrow>
      keeps vok dok s (f1 n flags s)"
    and close_keeps: "typed vok dok s \<Longrightarrow> vnodes s n = Some v \<Longrightarrow> vops T (ops v) = Some tab \<Longrightarrow> op_close tab = Some f2 \<Longrightarrow>
      keeps vok dok s (f2 n s)"
    and read_keeps: "typed vok dok s \<Longrightarrow> vnodes s n = Some v \<Longrightarrow> vops T (ops v) = Some tab \<Longrightarrow> op_read tab = Some f3 \<Longrightarrow>
      keeps vok dok s (f3 n buf len off s)"
    and write_keeps: "typed vok dok s \<Longrightarrow> vnodes s n = Some v \<Longrightarrow> vops T (ops v) = Some tab \<Longrightarrow> op_write tab = Some f4 \<Longrightarrow>
      keeps vok dok s (f4 n buf len off s)"
    and readdir_keeps: "typed vok dok s \<Longrightarrow> vnodes s n = Some v \<Longrightarrow> vops T (ops v) = Some tab \<Longrightarrow> op_readdir tab = Some f5 \<Longrightarrow>
      keeps vok dok s (f5 n index buf len s)"
    and finddir_keeps: "typed vok dok s \<Longrightarrow> vnodes s n = Some v \<Longrightarrow> vops T (ops v) = Some tab \<Longrightarrow> op_finddir tab = Some f6 \<Longrightarrow>
      safe (f6 n name s) (\<lambda>(x, s'). grown vok dok s s' \<and> vnode_ref s' x)"
    and ioctl_keeps: "typed vok dok s \<Longrightarrow> vnodes s n = Some v \<Longrightarrow> vops T (ops v) = Some tab \<Longrightarrow> op_ioctl tab = Some f7 \<Longrightarrow>
      keeps vok dok s (f7 n request arg s)"
    and stat_keeps: "typed vok dok s \<Longrightarrow> vnodes s n = Some v \<Longrightarrow> vops T (ops v) = Some tab \<Longrightarrow> op_stat tab = Some f8 \<Longrightarrow>
      keeps vok dok s (f8 n st s)"
begin

lemma vnode_at_typed: "vnodes s n \<noteq> None \<Longrightarrow> safe (vnode_at n s) (\<lambda>v. vnodes s n = Some v)"
  by (auto simp: vnode_at_def)

lemma file_at_typed: "files s p \<noteq> None \<Longrightarrow> safe (file_at p s) (\<lambda>f. files s p = Some f)"
  by (auto simp: file_at_def)

lemma the_op_typed:
  assumes "typed vok dok s" "vnodes s n = Some v"
  shows "safe (the_op T sel v) (\<lambda>op. op = None \<or> (\<exists>tab. vops T (ops v) = Some tab \<and> sel tab = op))"
  using assms vok_ops [of "dev s" v] by (auto simp: the_op_def typed_def split: option.split)

lemma step_into_typed:
  assumes t: "typed vok dok s" and n: "vnodes s n \<noteq> None"
  shows "safe (step_into T n cname s) (\<lambda>(x, s'). grown vok dok s s' \<and> vnode_ref s' x)"
  unfolding step_into_def
proof (rule safe_bind [OF vnode_at_typed [OF n]], rule safe_if, goal_cases)
  case (1 v)
  then show ?case using grown_refl [OF t] by (simp add: vnode_ref_def)
next
  case (2 v)
  define m where "m = (if mounted_here v \<noteq> 0 then mounted_here v else n)"
  have m: "vnodes s m \<noteq> None" using t 2 n by (auto simp: m_def typed_def vnode_ref_def)
  show ?case unfolding Let_def m_def [symmetric]
  proof (rule safe_bind [OF vnode_at_typed [OF m]], rule safe_bind [OF the_op_typed [OF t]])
    fix w f assume "vnodes s m = Some w" "f = None \<or> (\<exists>tab. vops T (ops w) = Some tab \<and> op_finddir tab = f)"
    then show "safe (case f of None \<Rightarrow> Inr (0, s) | Some finddir \<Rightarrow> finddir m cname s) (\<lambda>(x, s'). grown vok dok s s' \<and> vnode_ref s' x)"
      using finddir_keeps [OF t] grown_refl [OF t] by (cases f) (auto simp: vnode_ref_def)
  qed
qed

lemma resolve_loop_typed:
  "typed vok dok s \<Longrightarrow> vnodes s n \<noteq> None \<Longrightarrow> safe (resolve_loop T n rel s) (\<lambda>(x, s'). grown vok dok s s' \<and> vnode_ref s' x)"
proof (induction rel arbitrary: n s rule: length_induct)
  case (1 rel)
  let ?rel = "dropWhile (\<lambda>c. c = slash) rel"
  show ?case
  proof (cases "?rel = [] \<or> length (takeWhile (\<lambda>c. c \<noteq> slash) ?rel) \<ge> MAX_PATH")
    case True
    then show ?thesis using 1(2,3) by (subst resolve_loop.simps) (auto simp: grown_refl vnode_ref_def Let_def)
  next
    case False
    let ?c = "takeWhile (\<lambda>c. c \<noteq> slash) ?rel" and ?rest = "dropWhile (\<lambda>c. c \<noteq> slash) ?rel"
    have e: "resolve_loop T n rel s = bind_res (step_into T n ?c s)
        (\<lambda>(n', s'). if n' = 0 then Inr (0, s') else resolve_loop T n' ?rest s')"
      using False by (subst resolve_loop.simps) (auto simp: Let_def split: sum.split)
    have sh: "length ?rest < length rel" using False by (intro rest_shorter) simp
    show ?thesis unfolding e
    proof (rule safe_bind [OF step_into_typed [OF 1(2,3)]])
      fix x :: "u32 \<times> 'd ksys"
      assume x: "case x of (n', s') \<Rightarrow> grown vok dok s s' \<and> vnode_ref s' n'"
      obtain n' s' where xe: "x = (n', s')" by (cases x)
      have g: "grown vok dok s s'" "vnode_ref s' n'" using x xe by auto
      show "safe (case x of (n', s') \<Rightarrow> if n' = 0 then Inr (0, s') else resolve_loop T n' ?rest s')
          (\<lambda>(x, s'). grown vok dok s s' \<and> vnode_ref s' x)"
      proof (cases "n' = 0")
        case False
        with g(2) have "vnodes s' n' \<noteq> None" by (simp add: vnode_ref_def)
        from 1(1) [rule_format, OF sh grown_typed [OF g(1)] this] g(1) False show ?thesis
          by (auto simp: xe elim!: safe_mono intro: grown_trans)
      qed (use g xe in simp)
    qed
  qed
qed


lemma vfs_resolve_typed:
  assumes t: "typed vok dok s"
  shows "safe (vfs_resolve T path s) (\<lambda>(x, s'). grown vok dok s s' \<and> vnode_ref s' x)"
proof (cases "find_mount path s")
  case None
  then show ?thesis using grown_refl [OF t] by (simp add: vfs_resolve_def vnode_ref_def)
next
  case (Some m)
  show ?thesis
  proof (cases "root m = 0")
    case True
    then show ?thesis using Some grown_refl [OF t] by (simp add: vfs_resolve_def vnode_ref_def)
  next
    case False
    have "m \<in> set (mount_table s)" using Some find_mount_member by blast
    then have n: "vnodes s (root m) \<noteq> None" using t False by (auto simp: typed_def vnode_ref_def)
    have fin: "safe (if n = 0 then Inr (0, s') else bind_res (vnode_at n s') (\<lambda>v.
        Inr (if vflags v AND VFS_MOUNTPT \<noteq> 0 \<and> mounted_here v \<noteq> 0 then mounted_here v else n, s')))
        (\<lambda>(x, s'). grown vok dok s s' \<and> vnode_ref s' x)" if g: "grown vok dok s s'" "vnode_ref s' n" for n s'
    proof (cases "n = 0")
      case False
      then have "vnodes s' n \<noteq> None" using g(2) by (simp add: vnode_ref_def)
      then show ?thesis using g False grown_typed [OF g(1)]
        by (auto intro!: safe_bind [OF vnode_at_typed] simp: typed_def)
    qed (use g in \<open>simp add: vnode_ref_def\<close>)
    show ?thesis using Some False
      by (auto simp: vfs_resolve_def intro!: safe_bind [OF resolve_loop_typed [OF t n]] fin)
  qed
qed

text \<open>The calls on an open file.\<close>

lemma on_file_typed:
  assumes t: "typed vok dok s"
    and k: "\<And>fp f v tab g. files s fp = Some f \<Longrightarrow> vnodes s (fvnode f) = Some v \<Longrightarrow> vops T (ops v) = Some tab
      \<Longrightarrow> sel tab = Some g \<Longrightarrow> keeps vok dok s (k fp f g)"
  shows "keeps vok dok s (on_file T sel fd k s)"
  unfolding on_file_def keeps_def
proof (rule safe_bind [OF get_file_typed [OF t]], rule safe_if, goal_cases)
  case (1 fp)
  then show ?case using grown_refl [OF t] by simp
next
  case (2 fp)
  then have "files s fp \<noteq> None" by simp
  then show ?case
  proof (rule safe_bind [OF file_at_typed])
    fix f assume f: "files s fp = Some f"
    then have "vnodes s (fvnode f) \<noteq> None" using t by (auto simp: typed_def)
    then show "safe (bind_res (vnode_at (fvnode f) s) (\<lambda>v. bind_res (the_op T sel v) (\<lambda>op. case op of
        None \<Rightarrow> Inr (-1, s) | Some g \<Rightarrow> k fp f g))) (\<lambda>(x, s'). grown vok dok s s')"
    proof (rule safe_bind [OF vnode_at_typed])
      fix v assume v: "vnodes s (fvnode f) = Some v"
      show "safe (bind_res (the_op T sel v) (\<lambda>op. case op of None \<Rightarrow> Inr (-1, s) | Some g \<Rightarrow> k fp f g))
          (\<lambda>(x, s'). grown vok dok s s')"
        by (rule safe_bind [OF the_op_typed [OF t v]])
          (use k [OF f v] grown_refl [OF t] in \<open>auto simp: keeps_def split: option.split\<close>)
    qed
  qed
qed

lemma advance_typed:
  assumes t: "typed vok dok s" and f: "files s fp \<noteq> None"
  shows "keeps vok dok s (advance fp n s)"
proof -
  have "safe (bind_res (file_at fp s) (\<lambda>f. Inr (n, put_file fp (f\<lparr>offset := offset f + n\<rparr>) s)))
    (\<lambda>(x, s'). grown vok dok s s')"
  proof (rule safe_bind [OF file_at_typed [OF f]])
    fix r assume "files s fp = Some r"
    then have "vnodes s (fvnode (r\<lparr>offset := offset r + n\<rparr>)) \<noteq> None" using t by (auto simp: typed_def)
    from grown_put_file [OF t this]
    show "safe (Inr (n, put_file fp (r\<lparr>offset := offset r + n\<rparr>) s)) (\<lambda>(x, s'). grown vok dok s s')" by simp
  qed
  then show ?thesis using grown_refl [OF t] by (simp add: keeps_def advance_def)
qed

lemma then_advance_typed:
  assumes "keeps vok dok s r" "files s fp \<noteq> None"
  shows "keeps vok dok s (bind_res r (\<lambda>(n, s). advance fp n s))"
  using assms(1) unfolding keeps_def
proof (rule safe_bind)
  fix x :: "u32 \<times> 'd ksys"
  assume x: "case x of (x, s') \<Rightarrow> grown vok dok s s'"
  obtain n s' where xe: "x = (n, s')" by (cases x)
  have g: "grown vok dok s s'" using x xe by simp
  from advance_typed [OF grown_typed [OF g] grown_file [OF g assms(2)]]
  show "safe (case x of (n, s) \<Rightarrow> advance fp n s) (\<lambda>(x, s'). grown vok dok s s')"
    unfolding xe keeps_def prod.case by (rule safe_mono) (auto intro: grown_trans [OF g])
qed

lemma file_ops_typed:
  assumes t: "typed vok dok s"
  shows "keeps vok dok s (vfs_read T fd buf len s)" "keeps vok dok s (vfs_write T fd buf len s)"
    "keeps vok dok s (vfs_stat T fd st s)" "keeps vok dok s (vfs_ioctl T fd request arg s)"
  unfolding vfs_read_def vfs_write_def vfs_stat_def vfs_ioctl_def
  by (intro on_file_typed [OF t] then_advance_typed read_keeps write_keeps stat_keeps ioctl_keeps t; simp)+


lemma keeps_bind:
  assumes "keeps vok dok s r" "\<And>x s'. grown vok dok s s' \<Longrightarrow> keeps vok dok s' (f (x, s'))"
  shows "keeps vok dok s (bind_res r f)"
  using assms(1) unfolding keeps_def
proof (rule safe_bind)
  fix y :: "u32 \<times> 'd ksys"
  assume y: "case y of (x, s') \<Rightarrow> grown vok dok s s'"
  obtain x s' where e: "y = (x, s')" by (cases y)
  have g: "grown vok dok s s'" using y e by simp
  from assms(2) [OF g, of x] show "safe (f y) (\<lambda>(x, s'). grown vok dok s s')"
    unfolding e keeps_def by (rule safe_mono) (auto intro: grown_trans [OF g])
qed

lemma keeps_Inr: "typed vok dok s \<Longrightarrow> keeps vok dok s (Inr (x, s))"
  by (simp add: keeps_def grown_refl)

lemma vfs_readdir_typed:
  assumes t: "typed vok dok s"
  shows "keeps vok dok s (vfs_readdir T fd index name_out name_max s)"
  unfolding vfs_readdir_def keeps_def
proof (rule safe_bind [OF get_file_typed [OF t]], rule safe_if, goal_cases)
  case (1 fp)
  then show ?case using grown_refl [OF t] by simp
next
  case (2 fp)
  then have "files s fp \<noteq> None" by simp
  then show ?case
  proof (rule safe_bind [OF file_at_typed])
    fix f assume "files s fp = Some f"
    then have n: "vnodes s (fvnode f) \<noteq> None" using t by (auto simp: typed_def)
    show "safe (bind_res (vnode_at (fvnode f) s) (\<lambda>v. if vflags v AND VFS_DIRECTORY = 0 then Inr (-1, s)
        else bind_res (the_op T op_readdir v) (\<lambda>op. case op of None \<Rightarrow> Inr (-1, s)
          | Some g \<Rightarrow> g (fvnode f) index name_out name_max s))) (\<lambda>(x, s'). grown vok dok s s')"
    proof (rule safe_bind [OF vnode_at_typed [OF n]], rule safe_if, goal_cases)
      case (2 v)
      show ?case
        by (rule safe_bind [OF the_op_typed [OF t 2(1)]])
          (use readdir_keeps [OF t 2(1)] grown_refl [OF t] in \<open>auto simp: keeps_def split: option.split\<close>)
    qed (simp add: grown_refl [OF t])
  qed
qed

lemma open_fd_typed:
  assumes t: "typed vok dok s" and f: "files s fp \<noteq> None"
  shows "keeps vok dok s (open_fd fp s)"
  unfolding open_fd_def
proof (rule keeps_bind)
  show "keeps vok dok s (alloc_fd fp s)" using alloc_fd_typed [OF t f] by (simp add: keeps_def)
  fix x s' assume "grown vok dok s s'"
  then have t': "typed vok dok s'" by (rule grown_typed)
  have "keeps vok dok s' (bind_res (k_free fp s') (\<lambda>s. Inr (-1, s)))" unfolding keeps_def
    by (rule safe_bind [OF heap_calls_safe(2)]) (simp add: grown_heap_only [OF t'])
  then show "keeps vok dok s' (case (x, s') of (fd, s) \<Rightarrow> if neg fd then bind_res (k_free fp s) (\<lambda>s. Inr (-1, s)) else Inr (fd, s))"
    using keeps_Inr [OF t'] by simp
qed

lemma open_record_typed:
  assumes t: "typed vok dok s" and n: "vnodes s n \<noteq> None"
  shows "keeps vok dok s (open_record n flags s)"
  unfolding open_record_def
proof (rule keeps_bind)
  show "keeps vok dok s (k_malloc sizeof_file s)"
    unfolding keeps_def by (rule safe_mono [OF heap_calls_safe(1)]) (auto intro: grown_heap_only [OF t])
  fix x s' assume g: "grown vok dok s s'"
  let ?f = "\<lparr>fvnode = n, offset = 0, fflags = flags, ref_count = 1\<rparr>"
  have g2: "grown vok dok s' (put_file x ?f s')"
    using grown_put_file [OF grown_typed [OF g], of ?f x] grown_vnode [OF g n] by simp
  have "files (put_file x ?f s') x \<noteq> None" by (simp add: put_file_def)
  from open_fd_typed [OF grown_typed [OF g2] this] have "keeps vok dok s' (open_fd x (put_file x ?f s'))"
    unfolding keeps_def by (rule safe_mono) (auto intro: grown_trans [OF g2])
  then show "keeps vok dok s' (case (x, s') of (fp, s) \<Rightarrow> if fp = 0 then Inr (-1, s) else open_fd fp (put_file fp ?f s))"
    using keeps_Inr [OF grown_typed [OF g]] by simp
qed

lemma open_node_typed:
  assumes t: "typed vok dok s" and n: "vnodes s n \<noteq> None"
  shows "keeps vok dok s (open_node T n flags s)"
  unfolding open_node_def keeps_def
proof (rule safe_bind [OF vnode_at_typed [OF n]], rule safe_bind [OF the_op_typed [OF t]], assumption, goal_cases)
  case (1 v op)
  have "keeps vok dok s (case op of None \<Rightarrow> Inr (0, s) | Some f \<Rightarrow> f n flags s)"
    using 1 open_keeps [OF t] keeps_Inr [OF t] by (cases op) auto
  then have "keeps vok dok s (bind_res (case op of None \<Rightarrow> Inr (0, s) | Some f \<Rightarrow> f n flags s)
      (\<lambda>(r, s). if op \<noteq> None \<and> neg r then Inr (-1, s) else open_record n flags s))"
  proof (rule keeps_bind)
    fix r s' assume g: "grown vok dok s s'"
    show "keeps vok dok s' (case (r, s') of (r, s) \<Rightarrow> if op \<noteq> None \<and> neg r then Inr (-1, s) else open_record n flags s)"
      using keeps_Inr [OF grown_typed [OF g]] open_record_typed [OF grown_typed [OF g] grown_vnode [OF g n]] by simp
  qed
  then show ?case by (simp add: keeps_def)
qed

lemma vfs_open_typed:
  assumes t: "typed vok dok s"
  shows "keeps vok dok s (vfs_open T path flags s)"
  unfolding vfs_open_parts keeps_def
proof (rule safe_bind [OF vfs_resolve_typed [OF t]])
  fix y :: "u32 \<times> 'd ksys"
  assume y: "case y of (x, s') \<Rightarrow> grown vok dok s s' \<and> vnode_ref s' x"
  obtain n s1 where e: "y = (n, s1)" by (cases y)
  have g: "grown vok dok s s1" "vnode_ref s1 n" using y e by simp_all
  have "keeps vok dok s1 (if n = 0 then Inr (-1, s1) else open_node T n flags s1)"
    using open_node_typed [OF grown_typed [OF g(1)]] keeps_Inr [OF grown_typed [OF g(1)]] g(2)
    by (cases "n = 0") (auto simp: vnode_ref_def)
  then show "safe (case y of (n, s) \<Rightarrow> if n = 0 then Inr (-1, s) else open_node T n flags s) (\<lambda>(x, s'). grown vok dok s s')"
    unfolding e prod.case keeps_def by (rule safe_mono) (auto intro: grown_trans [OF g(1)])
qed

lemma close_node_typed:
  assumes t: "typed vok dok s" and f: "files s fp = Some f"
  shows "safe (close_node T fp f s) (grown vok dok s)"
proof -
  have n: "vnodes s (fvnode f) \<noteq> None" using t f by (auto simp: typed_def)
  show ?thesis unfolding close_node_def
  proof (rule safe_bind [OF vnode_at_typed [OF n]], rule safe_bind [OF the_op_typed [OF t]], assumption, goal_cases)
    case (1 v op)
    have "keeps vok dok s (case op of None \<Rightarrow> Inr (0, s) | Some g \<Rightarrow> g (fvnode f) s)"
      using 1 close_keeps [OF t] keeps_Inr [OF t] by (cases op) auto
    then show ?case unfolding keeps_def
    proof (rule safe_bind)
      fix y :: "u32 \<times> 'd ksys"
      assume "case y of (x, s') \<Rightarrow> grown vok dok s s'"
      then show "safe (case y of (_, s) \<Rightarrow> k_free fp s) (grown vok dok s)"
        by (auto intro!: safe_mono [OF heap_calls_safe(2)] intro: grown_trans grown_heap_only grown_typed)
    qed
  qed
qed

lemma kernel_slot_cleared:
  assumes "typed vok dok s"
  shows "grown vok dok s (s\<lparr>kernel_fd_table := (kernel_fd_table s)[i := 0]\<rparr>)"
proof -
  have "table_ok s ((kernel_fd_table s)[i := 0])" using assms by (auto simp: typed_def intro: table_ok_update)
  moreover have "table_ok (s\<lparr>kernel_fd_table := x\<rparr>) t = table_ok s t" "vnode_ref (s\<lparr>kernel_fd_table := x\<rparr>) p = vnode_ref s p" for x t p
    by (simp_all add: table_ok_def vnode_ref_def)
  ultimately show ?thesis using assms by (simp add: grown_def typed_def)
qed

lemma vfs_close_typed:
  assumes t: "typed vok dok s"
  shows "keeps vok dok s (vfs_close T fd s)"
  unfolding vfs_close_parts keeps_def
proof (rule safe_bind [OF get_file_typed [OF t]], rule safe_if, goal_cases)
  case (1 fp)
  then show ?case using grown_refl [OF t] by simp
next
  case (2 fp)
  then have "files s fp \<noteq> None" by simp
  then show ?case
  proof (rule safe_bind [OF file_at_typed])
    fix f assume f: "files s fp = Some f"
    let ?f = "f\<lparr>ref_count := ref_count f - 1\<rparr>" let ?s = "put_file fp ?f s"
    have "vnodes s (fvnode ?f) \<noteq> None" using t f by (auto simp: typed_def)
    from grown_put_file [OF t this] have g: "grown vok dok s ?s" .
    have "files ?s fp = Some ?f" by (simp add: put_file_def)
    from close_node_typed [OF grown_typed [OF g] this] grown_refl [OF grown_typed [OF g]]
    have "safe (if ref_count ?f = 0 then close_node T fp ?f ?s else Inr ?s) (grown vok dok ?s)"
      by (intro safe_if) (simp_all only: safe_simps)
    then show "safe (bind_res (if ref_count ?f = 0 then close_node T fp ?f ?s else Inr ?s)
        (\<lambda>s. Inr (0, s\<lparr>kernel_fd_table := (kernel_fd_table s)[unat fd := 0]\<rparr>))) (\<lambda>(x, s'). grown vok dok s s')"
      by (rule safe_bind) (auto intro: grown_trans [OF g] grown_trans [OF _ kernel_slot_cleared] grown_typed)
  qed
qed

end

end
