(* ===== verification/Safecalls.thy ===== *)
theory Safecalls
  imports Typing Bootfiles
begin

text \<open>
  The contract of \<open>Typing\<close> met by the kernel: each operation of the ramdisk, of the device file system, of the null, zero and
  framebuffer devices and of the terminal keeps the state typed, so the system calls on files do. \<open>kernel_types\<close> is
  the configuration (addresses, and interrupts that come while a reader waits); it is a \<open>typed_tables\<close>, and
  \<open>boot_types\<close> is one with an interrupt of the keyboard.
\<close>

section \<open>Typed vnodes and drivers of the kernel\<close>

text \<open>A vnode has one of the kernel's tables of operations, and the driver behind it has the data that
  \<open>private_data\<close> points to; the devices in the registry describe such vnodes.\<close>

definition kernel_vnode :: "statics \<Rightarrow> devices \<Rightarrow> vnode \<Rightarrow> bool" where
  "kernel_vnode A d v \<longleftrightarrow>
     ops v \<in> {0, null_ops_sym A, zero_ops_sym A, fb_ops_sym A, tty_ops_sym A, file_ops_addr (initrd_ops A),
       dir_ops_addr (initrd_ops A), devfs_ops_sym A}
     \<and> (ops v \<in> {file_ops_addr (initrd_ops A), dir_ops_addr (initrd_ops A)} \<longrightarrow> vdata (d_initrd d) (private_data v) \<noteq> None)
     \<and> (ops v = fb_ops_sym A \<longrightarrow> d_fbs d (private_data v) \<noteq> None)"

definition kernel_devices :: "statics \<Rightarrow> devices \<Rightarrow> bool" where
  "kernel_devices A d \<longleftrightarrow>
     (\<forall>e \<in> set (registry (d_devfs d)). kernel_vnode A d (zero_vnode\<lparr>ops := dops e, vflags := dflags e, private_data := dprivate e\<rparr>))"

abbreviation typed_kernel :: "statics \<Rightarrow> kstate \<Rightarrow> bool" where
  "typed_kernel A \<equiv> typed (kernel_vnode A) (kernel_devices A)"

abbreviation grown_kernel :: "statics \<Rightarrow> kstate \<Rightarrow> kstate \<Rightarrow> bool" where
  "grown_kernel A \<equiv> grown (kernel_vnode A) (kernel_devices A)"

abbreviation keeps_kernel :: "statics \<Rightarrow> kstate \<Rightarrow> (u32 \<times> kstate) res \<Rightarrow> bool" where
  "keeps_kernel A \<equiv> keeps (kernel_vnode A) (kernel_devices A)"

lemma keeps_Inr_grown: "grown vok dok s s' \<Longrightarrow> keeps vok dok s (Inr (x, s'))"
  by (simp add: keeps_def)

lemma keeps_then:
  assumes "safe r (grown vok dok s)" "\<And>s'. grown vok dok s s' \<Longrightarrow> keeps vok dok s' (f s')"
  shows "keeps vok dok s (bind_res r f)"
  using assms(1) unfolding keeps_def
proof (rule safe_bind)
  fix s' assume g: "grown vok dok s s'"
  from assms(2) [OF g] show "safe (f s') (\<lambda>(x, s'). grown vok dok s s')"
    unfolding keeps_def by (rule safe_mono) (auto intro: grown_trans [OF g])
qed

lemma keeps_value: "safe r anyway \<Longrightarrow> (\<And>x. keeps vok dok s (f x)) \<Longrightarrow> keeps vok dok s (bind_res r f)"
  unfolding keeps_def by (rule safe_bind)

lemma keeps_let: "keeps vok dok s (f x) \<Longrightarrow> keeps vok dok s (Let x f)"
  by (simp add: Let_def)

lemma write_grown: "typed vok dok s \<Longrightarrow> safe (k_write bs a s) (grown vok dok s)"
  by (rule safe_mono [OF heap_calls_safe(3)]) (rule grown_heap_only)

lemma malloc_grown: "typed vok dok s \<Longrightarrow> keeps vok dok s (k_malloc n s)"
  unfolding keeps_def by (rule safe_mono [OF heap_calls_safe(1)]) (auto intro: grown_heap_only)

lemma free_grown: "typed vok dok s \<Longrightarrow> safe (k_free p s) (grown vok dok s)"
  by (rule safe_mono [OF heap_calls_safe(2)]) (rule grown_heap_only)

text \<open>A write, then the value.\<close>

lemma keeps_write: "typed vok dok s \<Longrightarrow> keeps vok dok s (bind_res (k_write bs a s) (\<lambda>s. Inr (x, s)))"
  by (rule keeps_then [OF write_grown]) (auto intro: keeps_Inr_grown grown_refl grown_typed)

section \<open>The devices\<close>

lemma null_zero_keep:
  assumes "typed vok dok s"
  shows "keeps vok dok s (null_read n buf len off s)" "keeps vok dok s (null_write n buf len off s)"
    "keeps vok dok s (zero_read n buf len off s)" "keeps vok dok s (zero_write n buf len off s)"
  using assms by (simp_all add: null_read_def null_write_def zero_read_def zero_write_def keeps_Inr_grown grown_refl keeps_write)

lemma fb_keep:
  assumes t: "typed_kernel A s" and v: "vnodes s n = Some v" "ops v = fb_ops_sym A"
  shows "keeps_kernel A s (fb_read fbs_part n buf len off s)" "keeps_kernel A s (fb_write fbs_part n buf len off s)"
    "keeps_kernel A s (fb_ioctl fbs_part n request arg s)"
proof -
  have "kernel_vnode A (dev s) v" using t v(1) by (simp add: typed_def)
  then obtain i where i: "fb_info_of fbs_part n s = Inr i"
    using v by (auto simp: fb_info_of_def vnode_at_def kernel_vnode_def dget_def fbs_part_def)
  show "keeps_kernel A s (fb_read fbs_part n buf len off s)" "keeps_kernel A s (fb_write fbs_part n buf len off s)"
    "keeps_kernel A s (fb_ioctl fbs_part n request arg s)"
    by (auto simp: fb_read_def fb_write_def fb_ioctl_def i Let_def
        intro!: keeps_value [OF heap_calls_safe(4)] keeps_write [OF t] keeps_Inr_grown grown_refl [OF t])
qed

lemma terminal_dput:
  assumes "typed_kernel A s"
  shows "grown_kernel A s (dput tty_part t s)" "grown_kernel A s (dput console_part c s)"
  using assms
  by (auto intro!: grown_dput simp: typed_def tty_part_def console_part_def kernel_devices_def kernel_vnode_def)

lemma thread_state_grown:
  assumes t: "typed vok dok s"
  shows "safe (set_thread_state (curr_thread s) x s) (grown vok dok s)"
proof -
  obtain th where th: "threads s (curr_thread s) = Some th" using t by (auto simp: typed_def)
  have "grown vok dok s (put_thread (curr_thread s) (th\<lparr>tstate := x\<rparr>) s)"
    using t by (intro grown_by [OF t]) (auto simp: typed_def put_thread_def vnode_ref_def)
  then show ?thesis by (simp add: set_thread_state_def thread_at_def th)
qed

lemma schedule_flag_grown: "typed vok dok s \<Longrightarrow> grown vok dok s (s\<lparr>schedule_pending := b\<rparr>)"
  by (simp add: grown_def typed_def table_ok_def vnode_ref_def)

definition irqs_ok :: "statics \<Rightarrow> (kstate \<Rightarrow> kstate res) list \<Rightarrow> bool" where
  "irqs_ok A irqs \<longleftrightarrow> (\<forall>irq \<in> set irqs. \<forall>s. typed_kernel A s \<longrightarrow> safe (irq s) (grown_kernel A s))"

lemma tty_sleep_grown:
  assumes t: "typed vok dok s" and irq: "\<And>s. typed vok dok s \<Longrightarrow> safe (irq s) (grown vok dok s)"
  shows "safe (tty_sleep irq s) (grown vok dok s)"
  unfolding tty_sleep_def
proof (rule safe_bind [OF thread_state_grown [OF t]])
  fix s1 assume g1: "grown vok dok s s1"
  note g1' = schedule_flag_grown [OF grown_typed [OF g1], of True]
  show "safe (bind_res (irq (s1\<lparr>schedule_pending := True\<rparr>)) (\<lambda>s. set_thread_state (curr_thread s) THREAD_RUNNING s)) (grown vok dok s)"
  proof (rule safe_bind [OF irq [OF grown_typed [OF g1']]])
    fix s2 assume g2: "grown vok dok (s1\<lparr>schedule_pending := True\<rparr>) s2"
    have "grown vok dok s s2" using g1 g1' g2 by (meson grown_trans)
    then show "safe (set_thread_state (curr_thread s2) THREAD_RUNNING s2) (grown vok dok s)"
      by (intro safe_mono [OF thread_state_grown [OF grown_typed [OF g2]]]) (rule grown_trans)
  qed
qed

lemma tty_wait_grown:
  assumes "irqs_ok A irqs" "typed_kernel A s" "tty_wait T irqs s = Some r"
  shows "safe r (grown_kernel A s)"
  using assms
proof (induction irqs arbitrary: s)
  case Nil
  then show ?case by (auto split: if_splits intro: grown_refl)
next
  case (Cons irq irqs)
  have irq: "safe (irq s) (grown_kernel A s)" if "typed_kernel A s" for s using Cons.prems(1) that by (simp add: irqs_ok_def)
  have sl: "safe (tty_sleep irq s) (grown_kernel A s)" by (rule tty_sleep_grown [OF Cons.prems(2) irq])
  show ?case
  proof (cases "has_newline (dget T s)")
    case True
    then show ?thesis using Cons.prems by (auto intro: grown_refl)
  next
    case False
    show ?thesis
    proof (cases "tty_sleep irq s")
      case (Inl e)
      then show ?thesis using False Cons.prems(3) sl by auto
    next
      case (Inr s1)
      then have g: "grown_kernel A s s1" using sl by simp
      have "irqs_ok A irqs" using Cons.prems(1) by (simp add: irqs_ok_def)
      from Cons.IH [OF this grown_typed [OF g]] have "safe r (grown_kernel A s1)" using False Inr Cons.prems(3) by simp
      then show ?thesis by (rule safe_mono) (rule grown_trans [OF g])
    qed
  qed
qed

lemma tty_keep:
  assumes t: "typed_kernel A s" and i: "irqs_ok A irqs"
  shows "keeps_kernel A s (ret (tty_read tty_part irqs n buf len off s))"
    "keeps_kernel A s (tty_write tty_part console_part n buf len off s)"
    "keeps_kernel A s (tty_ioctl tty_part console_part n request arg s)"
proof -
  show "keeps_kernel A s (ret (tty_read tty_part irqs n buf len off s))" unfolding keeps_def
  proof (rule safe_ret)
    fix r assume "tty_read tty_part irqs n buf len off s = Some r"
    then obtain w where w: "tty_wait tty_part irqs s = Some w"
      "r = bind_res w (\<lambda>s. let (cs, t) = tty_drain (unat len) (dget tty_part s) in
         bind_res (k_write cs buf (dput tty_part t s)) (\<lambda>s. Inr (of_nat (length cs), s)))"
      by (auto simp: tty_read_def)
    have "keeps_kernel A s r" unfolding w(2)
    proof (rule keeps_then [OF tty_wait_grown [OF i t w(1)]])
      fix s1 assume g: "grown_kernel A s s1"
      obtain cs tt where d: "tty_drain (unat len) (dget tty_part s1) = (cs, tt)" by (cases "tty_drain (unat len) (dget tty_part s1)")
      have g2: "grown_kernel A s1 (dput tty_part tt s1)" by (rule terminal_dput [OF grown_typed [OF g]])
      have "keeps_kernel A (dput tty_part tt s1) (bind_res (k_write cs buf (dput tty_part tt s1)) (\<lambda>s. Inr (of_nat (length cs), s)))"
        by (rule keeps_write [OF grown_typed [OF g2]])
      then show "keeps_kernel A s1 (let (cs, t) = tty_drain (unat len) (dget tty_part s1) in
         bind_res (k_write cs buf (dput tty_part t s1)) (\<lambda>s. Inr (of_nat (length cs), s)))"
        unfolding d Let_def prod.case keeps_def by (rule safe_mono) (auto intro: grown_trans [OF g2])
    qed
    then show "safe r (\<lambda>(x, s'). grown_kernel A s s')" by (simp add: keeps_def)
  qed
  show "keeps_kernel A s (tty_write tty_part console_part n buf len off s)" unfolding tty_write_def copy_cursor_def Let_def
    by (intro keeps_value [OF heap_calls_safe(4)] keeps_Inr_grown)
      (rule grown_trans [OF terminal_dput(2) [OF t] terminal_dput(1) [OF grown_typed [OF terminal_dput(2) [OF t]]]])
  have g: "grown_kernel A s (copy_cursor tty_part console_part s)" unfolding copy_cursor_def Let_def by (rule terminal_dput [OF t])
  have "keeps_kernel A s (bind_res (k_write bs arg (copy_cursor tty_part console_part s)) (\<lambda>s. Inr (0, s)))" for bs
    using keeps_write [OF grown_typed [OF g], of bs arg 0] unfolding keeps_def
    by (rule safe_mono) (auto intro: grown_trans [OF g])
  then show "keeps_kernel A s (tty_ioctl tty_part console_part n request arg s)"
    by (auto simp: tty_ioctl_def Let_def intro: keeps_Inr_grown grown_refl [OF t])
qed

section \<open>The ramdisk\<close>

lemma tar_walk_safe:
  fixes visit :: "u8 list \<Rightarrow> u8 list \<Rightarrow> u32 \<Rightarrow> 'a \<Rightarrow> 'r + 'a" and r :: "('r option) res"
  shows "tar_walk i visit ptr acc = Some r \<Longrightarrow> safe r anyway"
proof (erule tar_walk.raw_induct [rotated])
  fix f :: "initrd_fs \<Rightarrow> (u8 list \<Rightarrow> u8 list \<Rightarrow> u32 \<Rightarrow> 'a \<Rightarrow> 'r + 'a) \<Rightarrow> u32 \<Rightarrow> 'a \<Rightarrow> ('r option) res option"
    and i ptr acc and visit :: "u8 list \<Rightarrow> u8 list \<Rightarrow> u32 \<Rightarrow> 'a \<Rightarrow> 'r + 'a" and r :: "('r option) res"
  assume IH: "\<And>i visit ptr acc r. f i visit ptr acc = Some r \<Longrightarrow> safe r anyway"
    and r: "(if \<not> ptr + 512 \<le> iaddr i + isize i then Some (Inr None)
      else case header_at i ptr of
          Inl e \<Rightarrow> Some (Inl e)
        | Inr h \<Rightarrow>
            if hd (hdr_name h) = 0 \<or> take 5 (hdr_magic h) \<noteq> ustar then Some (Inr None)
            else case fullpath h of
                Inl e \<Rightarrow> Some (Inl e)
              | Inr path \<Rightarrow>
                  (case visit path h ptr acc of
                     Inl r \<Rightarrow> Some (Inr (Some r))
                   | Inr acc' \<Rightarrow> f i visit
                       (ptr + 512 + ((oct2int (hdr_size h) 0 + 511) AND NOT 511)) acc')) = Some r"
  have h: "safe (header_at i ptr) anyway" by (simp add: header_at_def Let_def)
  have p: "safe (fullpath h) anyway" for h by (simp add: fullpath_def Let_def)
  show "safe r anyway"
  proof (cases "header_at i ptr")
    case (Inl e)
    then show ?thesis using r h by (auto split: if_splits)
  next
    case (Inr hd0)
    show ?thesis using r Inr p [of hd0]
      by (cases "fullpath hd0") (auto split: if_splits sum.splits dest!: IH)
  qed
qed

lemma lookup_safe: "safe (initrd_lookup i path) anyway"
  unfolding initrd_lookup_def by (intro safe_anyway_bind safe_ret) (auto intro: tar_walk_safe)

lemma vdata_grown:
  assumes t: "typed_kernel A s"
  shows "grown_kernel A s (dput initrd_part ((dget initrd_part s)\<lparr>vdata := (vdata (dget initrd_part s))(p \<mapsto> path)\<rparr>) s)"
  using t by (intro grown_dput [OF t])
    (auto simp: typed_def initrd_part_def dget_def kernel_devices_def kernel_vnode_def)

definition gives :: "statics \<Rightarrow> kstate \<Rightarrow> (u32 \<times> kstate) res \<Rightarrow> bool" where
  "gives A s r \<longleftrightarrow> safe r (\<lambda>(x, s'). grown_kernel A s s' \<and> vnode_ref s' x)"

lemma gives_after:
  assumes "keeps_kernel A s r" "\<And>x s'. grown_kernel A s s' \<Longrightarrow> gives A s' (f (x, s'))"
  shows "gives A s (bind_res r f)"
  using assms(1) unfolding keeps_def gives_def
proof (rule safe_bind)
  fix y :: "u32 \<times> kstate"
  assume y: "case y of (x, s') \<Rightarrow> grown_kernel A s s'"
  obtain x s' where e: "y = (x, s')" by (cases y)
  have g: "grown_kernel A s s'" using y e by simp
  from assms(2) [OF g, of x] show "safe (f y) (\<lambda>(x, s'). grown_kernel A s s' \<and> vnode_ref s' x)"
    unfolding e gives_def by (rule safe_mono) (auto intro: grown_trans [OF g])
qed

lemma gives_Inr: "grown_kernel A s s' \<Longrightarrow> vnode_ref s' x \<Longrightarrow> gives A s (Inr (x, s'))"
  by (simp add: gives_def)

lemma gives_0: "typed_kernel A s \<Longrightarrow> gives A s (Inr (0, s))"
  by (simp add: gives_def vnode_ref_def grown_refl)

lemma gives_value: "safe r anyway \<Longrightarrow> (\<And>x. gives A s (f x)) \<Longrightarrow> gives A s (bind_res r f)"
  unfolding gives_def by (rule safe_bind)

lemma gives_if: "(b \<Longrightarrow> gives A s r) \<Longrightarrow> (\<not> b \<Longrightarrow> gives A s r') \<Longrightarrow> gives A s (if b then r else r')"
  by simp

lemma gives_new:
  assumes "typed_kernel A s" "kernel_vnode A (dev s) v" "mounted_here v = 0"
  shows "gives A s (Inr (node, put_vnode node v s))"
  using grown_put_vnode [OF assms] by (intro gives_Inr) (auto simp: put_vnode_def vnode_ref_def)

lemma vnode_create_gives:
  assumes A: "syms_ok A" and t: "typed_kernel A s"
  shows "gives A s (initrd_vnode_create initrd_part (initrd_ops A) path typeflag s)"
  unfolding initrd_vnode_create_def
proof (rule gives_after [OF malloc_grown [OF t]], unfold prod.case, rule gives_if, goal_cases)
  case (1 node s1)
  then show ?case using gives_0 [OF grown_typed [OF 1(1)]] by simp
next
  case (2 node s1)
  show ?case
  proof (rule gives_after [OF malloc_grown [OF grown_typed [OF 2(1)]]], unfold prod.case, rule gives_if, goal_cases)
    case (1 priv s2)
    have "keeps_kernel A s2 (bind_res (k_free node s2) (\<lambda>s. Inr (0, s)))"
      by (rule keeps_then [OF free_grown [OF grown_typed [OF 1(1)]]]) (auto intro: keeps_Inr_grown grown_refl grown_typed)
    then show ?case unfolding gives_def keeps_def
      by (cases "k_free node s2") (auto simp: vnode_ref_def)
  next
    case (2 priv s2)
    define s3 where "s3 = dput initrd_part ((dget initrd_part s2)\<lparr>vdata := (vdata (dget initrd_part s2))(priv \<mapsto> take 255 path)\<rparr>) s2"
    have g3: "grown_kernel A s2 s3" unfolding s3_def by (rule vdata_grown [OF grown_typed [OF 2(1)]])
    have v: "kernel_vnode A (dev s3) v"
      if "private_data v = priv" "ops v = dir_ops_addr (initrd_ops A) \<or> ops v = file_ops_addr (initrd_ops A)" for v
      using that A by (auto simp: kernel_vnode_def s3_def dput_def initrd_part_def syms_ok_def)
    have "gives A s3 (if typeflag = 0x35
               then Inr (node, put_vnode node \<lparr>inode = 0, vflags = VFS_DIRECTORY, vuid = 0, vgid = 0, vsize = 0, permissions = 0,
                  ops = dir_ops_addr (initrd_ops A), vmount = 0, mounted_here = 0, private_data = priv\<rparr> s3)
               else bind_res (initrd_lookup (dget initrd_part s3) path) (\<lambda>f.
                 Inr (node, put_vnode node \<lparr>inode = 0, vflags = VFS_FILE, vuid = 0, vgid = 0,
                   vsize = if fdata f \<noteq> 0 then fsize f else 0, permissions = 0,
                   ops = file_ops_addr (initrd_ops A), vmount = 0, mounted_here = 0, private_data = priv\<rparr> s3)))"
      by (intro gives_if gives_value [OF lookup_safe] gives_new [OF grown_typed [OF g3]] v) simp_all
    then show ?case unfolding Let_def s3_def [symmetric] gives_def
      by (auto elim!: safe_mono intro: grown_trans [OF g3])
  qed
qed

lemma file_path_safe:
  assumes t: "typed_kernel A s" and v: "vnodes s n = Some v"
    and o: "ops v = file_ops_addr (initrd_ops A) \<or> ops v = dir_ops_addr (initrd_ops A)"
  shows "\<exists>p. vnode_path initrd_part n s = Inr p"
proof -
  have "kernel_vnode A (dev s) v" using t v by (simp add: typed_def)
  then show ?thesis using v o by (auto simp: vnode_path_def vnode_at_def kernel_vnode_def dget_def initrd_part_def)
qed

lemma walk_value: "(\<And>x. keeps vok dok s (f x)) \<Longrightarrow> keeps vok dok s (bind_res (ret (tar_walk i visit ptr acc)) f)"
  by (rule keeps_value) (auto intro: safe_ret tar_walk_safe)

lemma ramdisk_keep:
  assumes t: "typed_kernel A s" and v: "vnodes s n = Some v"
    and o: "ops v = file_ops_addr (initrd_ops A) \<or> ops v = dir_ops_addr (initrd_ops A)"
  shows "keeps_kernel A s (initrd_file_read initrd_part n buf len off s)"
    "keeps_kernel A s (initrd_file_stat initrd_part n st s)"
    "keeps_kernel A s (initrd_dir_readdir initrd_part n index name_out name_max s)"
    "syms_ok A \<Longrightarrow> gives A s (initrd_dir_finddir initrd_part (initrd_ops A) n name s)"
proof -
  obtain p where p: "vnode_path initrd_part n s = Inr p" using file_path_safe [OF assms] by blast
  show "keeps_kernel A s (initrd_file_read initrd_part n buf len off s)"
    unfolding initrd_file_read_def p bind_res_simps
    by (rule keeps_value [OF lookup_safe]) (auto simp: Let_def keeps_def [of _ _ _ "Inl e" for e] intro: keeps_write [OF t] keeps_Inr_grown grown_refl [OF t])
  show "keeps_kernel A s (initrd_file_stat initrd_part n st s)"
    unfolding initrd_file_stat_def p bind_res_simps
  proof (rule keeps_value [OF lookup_safe])
    fix f
    have w: "keeps_kernel A s (bind_res (k_write b1 a1 s) (\<lambda>s. bind_res (k_write b2 a2 s) (\<lambda>s.
        bind_res (k_write b3 a3 s) (\<lambda>s. Inr (0, s)))))" for b1 a1 b2 a2 b3 a3
      using t by (intro keeps_then [OF write_grown] keeps_write) (auto intro: grown_typed)
    then show "keeps_kernel A s (if fdata f = 0 then Inr (-1, s) else bind_res (vnode_at n s) (\<lambda>v.
          bind_res (k_write (replicate sizeof_stat 0) st s) (\<lambda>s.
          bind_res (k_write (word_bytes (fsize f)) (st + 28) s) (\<lambda>s.
          bind_res (k_write (word_bytes (if vflags v AND VFS_DIRECTORY \<noteq> 0 then S_IFDIR else S_IFREG)) (st + 8) s)
            (\<lambda>s. Inr (0, s))))))"
      using v keeps_Inr_grown [OF grown_refl [OF t]] by (simp add: vnode_at_def)
  qed
  show "keeps_kernel A s (initrd_dir_readdir initrd_part n index name_out name_max s)"
    unfolding initrd_dir_readdir_def p bind_res_simps
    by (rule walk_value) (auto split: option.split intro: keeps_write [OF t] keeps_Inr_grown grown_refl [OF t])
  show "gives A s (initrd_dir_finddir initrd_part (initrd_ops A) n name s)" if "syms_ok A"
    unfolding initrd_dir_finddir_def p bind_res_simps Let_def
    by (rule gives_value) (auto split: option.split intro: safe_ret tar_walk_safe vnode_create_gives [OF that t] gives_0 [OF t])
qed

section \<open>The device file system\<close>

lemma find_device_member: "find_device name es = Some e \<Longrightarrow> e \<in> set es"
  by (induction es) (auto split: if_splits)

lemma devfs_keep:
  assumes t: "typed_kernel A s"
  shows "keeps_kernel A s (devfs_root_readdir devfs_part n index name_out name_max s)"
    "gives A s (devfs_root_finddir devfs_part n name s)"
proof -
  show "keeps_kernel A s (devfs_root_readdir devfs_part n index name_out name_max s)"
    unfolding devfs_root_readdir_def by (auto split: option.split intro: keeps_write [OF t] keeps_Inr_grown grown_refl [OF t])
  have "gives A s (devfs_vnode_from_entry e s)" if e: "find_device name (registry (dget devfs_part s)) = Some e" for e
    unfolding devfs_vnode_from_entry_def gives_def
  proof (rule safe_bind [OF heap_calls_safe(1)])
    let ?v = "zero_vnode\<lparr>ops := dops e, vflags := dflags e, private_data := dprivate e\<rparr>"
    fix y :: "u32 \<times> kstate"
    assume y: "case y of (x, s') \<Rightarrow> heap_only s s'"
    obtain node s1 where ye: "y = (node, s1)" by (cases y)
    have h: "heap_only s s1" using y ye by simp
    note g = grown_heap_only [OF t h]
    have "e \<in> set (registry (d_devfs (dev s)))" using find_device_member [OF e] by (simp add: dget_def devfs_part_def)
    then have "kernel_vnode A (dev s) ?v" using t by (simp add: typed_def kernel_devices_def)
    moreover have "dev s1 = dev s" using h by (auto simp: heap_only_def)
    ultimately have "gives A s1 (Inr (node, put_vnode node ?v s1))"
      by (intro gives_new [OF grown_typed [OF g]]) (simp_all add: zero_vnode_def)
    then have "gives A s1 (if node = 0 then Inr (0, s1) else Inr (node, put_vnode node ?v s1))"
      using gives_0 [OF grown_typed [OF g]] by simp
    then show "safe (case y of (node, s) \<Rightarrow> if node = 0 then Inr (0, s) else Inr (node, put_vnode node ?v s))
        (\<lambda>(x, s'). grown_kernel A s s' \<and> vnode_ref s' x)"
      unfolding ye prod.case gives_def by (rule safe_mono) (auto intro: grown_trans [OF g])
  qed
  then show "gives A s (devfs_root_finddir devfs_part n name s)"
    unfolding devfs_root_finddir_def by (auto split: option.split intro: gives_0 [OF t])
qed

section \<open>The kernel's tables\<close>

lemma kernel_vops:
  assumes "vops (kernel_tables A irqs) o' = Some tab"
  shows "o' = null_ops_sym A \<and> tab = null_ops \<or> o' = zero_ops_sym A \<and> tab = zero_ops
    \<or> o' = fb_ops_sym A \<and> tab = fb_ops fbs_part \<or> o' = tty_ops_sym A \<and> tab = tty_ops tty_part console_part irqs
    \<or> o' = file_ops_addr (initrd_ops A) \<and> tab = initrd_file_ops initrd_part
    \<or> o' = dir_ops_addr (initrd_ops A) \<and> tab = initrd_dir_ops initrd_part (initrd_ops A)
    \<or> o' = devfs_ops_sym A \<and> tab = devfs_root_ops_table devfs_part"
  using assms by (auto simp: kernel_tables_def split: if_splits)

lemmas ops_tables = null_ops_def zero_ops_def fb_ops_def tty_ops_def initrd_file_ops_def initrd_dir_ops_def devfs_root_ops_table_def no_ops_def

locale kernel_types =
  fixes A :: statics and irqs :: "(kstate \<Rightarrow> kstate res) list"
  assumes syms: "syms_ok A" and irqs: "irqs_ok A irqs"
begin

lemma kernel_vnode_ops: "kernel_vnode A d v \<Longrightarrow> ops v = 0 \<or> vops (kernel_tables A irqs) (ops v) \<noteq> None"
  using syms by (auto simp: kernel_vnode_def kernel_tables_def syms_ok_def)

end

sublocale kernel_types \<subseteq> typed_tables "kernel_tables A irqs" "kernel_vnode A" "kernel_devices A"
proof (unfold_locales, goal_cases)
  case (1 d v)
  then show ?case by (rule kernel_vnode_ops)
next
  case (2 s n v tab f flags)
  from kernel_vops [OF 2(3)] 2(4) show ?case by (auto simp: ops_tables)
next
  case (3 s n v tab f)
  from kernel_vops [OF 3(3)] 3(4) show ?case by (auto simp: ops_tables)
next
  case (4 s n v tab f buf len off)
  from kernel_vops [OF 4(3)] 4(4) null_zero_keep [OF 4(1)] fb_keep [OF 4(1,2)] tty_keep [OF 4(1) irqs] ramdisk_keep [OF 4(1,2)]
  show ?case by (auto simp: ops_tables)
next
  case (5 s n v tab f buf len off)
  from kernel_vops [OF 5(3)] 5(4) null_zero_keep [OF 5(1)] fb_keep [OF 5(1,2)] tty_keep [OF 5(1) irqs]
  show ?case by (auto simp: ops_tables)
next
  case (6 s n v tab f index buf len)
  from kernel_vops [OF 6(3)] 6(4) ramdisk_keep [OF 6(1,2)] devfs_keep [OF 6(1)] show ?case by (auto simp: ops_tables)
next
  case (7 s n v tab f name)
  from kernel_vops [OF 7(3)] 7(4) ramdisk_keep(4) [OF 7(1,2) _ syms] devfs_keep(2) [OF 7(1)]
  show ?case by (auto simp: ops_tables gives_def)
next
  case (8 s n v tab f request arg)
  from kernel_vops [OF 8(3)] 8(4) fb_keep [OF 8(1,2)] tty_keep [OF 8(1) irqs] show ?case by (auto simp: ops_tables)
next
  case (9 s n v tab f st)
  from kernel_vops [OF 9(3)] 9(4) ramdisk_keep [OF 9(1,2)] show ?case by (auto simp: ops_tables)
qed

section \<open>The system calls on files\<close>

definition file_calls :: "devices tables \<Rightarrow> kstate handler list" where
  "file_calls T = [sys_open T, sys_close T, sys_read T, sys_write T, sys_ioctl T, sys_readdir T, sys_fstat T]"

context kernel_types
begin

lemma reply_safe:
  assumes "keeps_kernel A s r"
  shows "safe (bind_res r (reply regs)) (\<lambda>(regs', s'). grown_kernel A s s')"
  using assms unfolding keeps_def by (rule safe_bind) (auto simp: reply_def)

lemma refuse_safe: "typed_kernel A s \<Longrightarrow> safe (refuse regs s) (\<lambda>(regs', s'). grown_kernel A s s')"
  by (simp add: refuse_def grown_refl)

lemma file_call_grown:
  assumes t: "typed_kernel A s" and h: "h \<in> set (file_calls (kernel_tables A irqs))"
  shows "safe (h regs s) (\<lambda>(regs', s'). grown_kernel A s s')"
proof -
  note calls = vfs_open_typed [OF t] vfs_close_typed [OF t] file_ops_typed [OF t] vfs_readdir_typed [OF t]
  have str: "safe (user_strnlen p s) anyway" "safe (user_string p s) anyway" for p
    unfolding user_strnlen_def user_string_def
    by (rule safe_anyway_bind [OF vstrn_safe], simp) (rule safe_ret, rule vcstr_safe)
  have "safe (sys_open (kernel_tables A irqs) regs s) (\<lambda>(regs', s'). grown_kernel A s s')"
    unfolding sys_open_def Let_def
    by (intro safe_if refuse_safe [OF t] safe_anyway_bind str reply_safe calls)
  moreover have "safe (sys_close (kernel_tables A irqs) regs s) (\<lambda>(regs', s'). grown_kernel A s s')"
    unfolding sys_close_def by (intro reply_safe calls)
  moreover have "safe (sys_read (kernel_tables A irqs) regs s) (\<lambda>(regs', s'). grown_kernel A s s')"
    "safe (sys_write (kernel_tables A irqs) regs s) (\<lambda>(regs', s'). grown_kernel A s s')"
    "safe (sys_ioctl (kernel_tables A irqs) regs s) (\<lambda>(regs', s'). grown_kernel A s s')"
    "safe (sys_readdir (kernel_tables A irqs) regs s) (\<lambda>(regs', s'). grown_kernel A s s')"
    "safe (sys_fstat (kernel_tables A irqs) regs s) (\<lambda>(regs', s'). grown_kernel A s s')"
    unfolding sys_read_def sys_write_def sys_ioctl_def sys_readdir_def sys_fstat_def Let_def
    by (intro safe_if refuse_safe [OF t] reply_safe calls)+
  ultimately show ?thesis using h by (auto simp: file_calls_def)
qed

end

section \<open>Properties\<close>

text \<open>The interrupt of the keyboard keeps the state typed.\<close>

lemma keyboard_dput: "typed_kernel A s \<Longrightarrow> grown_kernel A s (dput keyboard_part k s)"
  by (auto intro!: grown_dput simp: typed_def keyboard_part_def kernel_devices_def kernel_vnode_def)

lemma input_push_grown:
  assumes t: "typed_kernel A s"
  shows "safe (tty_input_push tty_part console_part c s) (grown_kernel A s)"
proof (cases "tty_key c (dget tty_part s)")
  case None
  then show ?thesis using grown_refl [OF t] by (simp add: tty_input_push_def)
next
  case (Some tt)
  define s1 where "s1 = dput console_part (console_putchar c (dget console_part (dput tty_part tt s))) (dput tty_part tt s)"
  have g: "grown_kernel A s s1" unfolding s1_def
    by (rule grown_trans [OF terminal_dput(1) [OF t] terminal_dput(2) [OF grown_typed [OF terminal_dput(1) [OF t]]]])
  obtain th where th: "threads s1 (curr_thread s1) = Some th" using grown_typed [OF g] by (auto simp: typed_def)
  have wake: "safe (bind_res (set_thread_state (curr_thread s1) THREAD_READY s1) (\<lambda>s. Inr (s\<lparr>schedule_pending := True\<rparr>))) (grown_kernel A s)"
    by (rule safe_bind [OF thread_state_grown [OF grown_typed [OF g]]])
      (auto intro: grown_trans [OF g] grown_trans [OF _ schedule_flag_grown] grown_typed)
  have at: "thread_at (curr_thread s1) s1 = Inr th" by (simp add: thread_at_def th)
  show ?thesis unfolding tty_input_push_def Some option.case Let_def s1_def [symmetric] at bind_res_simps
    by (intro safe_if) (use g wake in simp_all)
qed

lemma keyboard_grown:
  assumes t: "typed_kernel A s"
  shows "safe (keyboard_callback keyboard_part tty_part console_part b s) (grown_kernel A s)"
proof -
  obtain k c where k: "keyboard_step b (dget keyboard_part s) = (k, c)" by (cases "keyboard_step b (dget keyboard_part s)")
  note g = keyboard_dput [OF t, of k]
  have "safe (tty_input_push tty_part console_part x (dput keyboard_part k s)) (grown_kernel A s)" for x
    by (rule safe_mono [OF input_push_grown [OF grown_typed [OF g]]]) (rule grown_trans [OF g])
  then show ?thesis using g by (cases c) (auto simp: keyboard_callback_def k)
qed

interpretation boot_types: kernel_types boot_syms "[keyboard_callback keyboard_part tty_part console_part 0x1c]"
  by unfold_locales (simp_all add: syms_ok_def boot_syms_def irqs_ok_def keyboard_grown)

text \<open>In a typed state (every descriptor leads to a file, every file to a vnode, every vnode to a table of operations
  and to the data its driver needs, and the running thread and process exist) the system calls \<open>open\<close>, \<open>close\<close>, \<open>read\<close>,
  \<open>write\<close>, \<open>ioctl\<close>, \<open>readdir\<close> and \<open>fstat\<close> never follow a reference to an object that does not exist, whatever the registers
  and with every driver of the kernel, and what they return is a typed state. The interrupts that come while a
  reader waits have to keep the state typed, as the keyboard's does.\<close>

theorem file_calls_typed:
  assumes "syms_ok A" "irqs_ok A irqs" "typed_kernel A s" "h \<in> set (file_calls (kernel_tables A irqs))"
  shows "safe (h regs s) (\<lambda>(regs', s'). typed_kernel A s')"
  using kernel_types.file_call_grown [OF kernel_types.intro [OF assms(1,2)] assms(3,4)]
  by (rule safe_mono) (auto intro: grown_typed)

text \<open>A machine whose descriptor 0 is the terminal.\<close>

definition typed_sys :: kstate where
  "typed_sys = boot_sys\<lparr>kernel_fd_table := (replicate MAX_FDS 0)[0 := 0x300],
     files := (\<lambda>_. None)(0x300 \<mapsto> \<lparr>fvnode = 0x100, offset = 0, fflags = 0, ref_count = 1\<rparr>),
     vnodes := (\<lambda>_. None)(0x100 \<mapsto> zero_vnode\<lparr>ops := tty_ops_sym boot_syms, vflags := VFS_CHARDEV\<rparr>),
     curr_thread := 0x20, threads := (\<lambda>_. None)(0x20 \<mapsto> a_thread THREAD_RUNNING 0x20)\<rparr>"

lemma typed_sys_ok: "typed_kernel boot_syms typed_sys"
proof -
  have t: "table_ok typed_sys ((replicate MAX_FDS 0)[0 := 0x300])" "table_ok typed_sys (replicate MAX_FDS 0)"
    by (auto simp: table_ok_def typed_sys_def MAX_FDS_def dest!: set_update_subset_insert [THEN subsetD])
  have v: "kernel_vnode boot_syms (dev typed_sys) (zero_vnode\<lparr>ops := tty_ops_sym boot_syms, vflags := VFS_CHARDEV\<rparr>)"
    by (simp add: kernel_vnode_def boot_syms_def)
  have d: "kernel_devices boot_syms (dev typed_sys)"
    by (simp add: kernel_devices_def typed_sys_def boot_sys_def vfs_sys_def no_devices_def)
  show ?thesis unfolding typed_def
  proof (intro conjI allI impI ballI)
    show "kernel_vnode boot_syms (dev typed_sys) w" if "vnodes typed_sys p = Some w" for p w
      using that v by (simp add: typed_sys_def split: if_splits)
  qed (use t d in \<open>auto simp: typed_sys_def boot_sys_def vfs_sys_def vnode_ref_def zero_vnode_def split: if_splits\<close>)
qed

lemma file_calls_typed_witness:
  "safe (sys_read (kernel_tables boot_syms [keyboard_callback keyboard_part tty_part console_part 0x1c]) ((stopped_regs 4)\<lparr>r_ecx := 0x8000, r_edx := 16\<rparr>) typed_sys)
     (\<lambda>(regs', s'). typed_kernel boot_syms s')"
  using file_calls_typed [OF _ _ typed_sys_ok, of "[keyboard_callback keyboard_part tty_part console_part 0x1c]"]
    boot_types.syms boot_types.irqs by (simp add: file_calls_def)

end
