(* ===== verification/Runs.thy ===== *)
theory Runs
  imports Safecalls
begin

text \<open>
  Runs of the kernel: any sequence of system calls on files and on the time, with any registers, interrupts of the
  timer, the keyboard and the mouse, and switches of the scheduler, as a step relation on the whole state. A blocked
  reader of the terminal lets the interrupts \<open>irqs\<close> in. The lemmas show that every step keeps a state typed, so
  that the system calls are safe in every state that is reached.
\<close>

section \<open>Steps\<close>

definition run_calls :: "statics \<Rightarrow> (kstate \<Rightarrow> kstate res) list \<Rightarrow> kstate handler list" where
  "run_calls A irqs = sys_time clock_part # file_calls (kernel_tables A irqs)"

definition run_irqs :: "inputs \<Rightarrow> kstate handler list" where
  "run_irqs inp = [pit_irq, keyboard_irq inp, mouse_irq inp]"

text \<open>An interrupt as \<open>tty_read\<close> meets it while it waits: the interrupted registers come back.\<close>

definition wait_irqs :: "inputs \<Rightarrow> (kstate \<Rightarrow> kstate res) list \<Rightarrow> bool" where
  "wait_irqs inp irqs \<longleftrightarrow> (\<forall>f \<in> set irqs. \<exists>h \<in> set (run_irqs inp). \<exists>r. f = (\<lambda>s. bind_res (h r s) (\<lambda>(r, s). Inr s)))"

inductive run_step :: "statics \<Rightarrow> inputs \<Rightarrow> (kstate \<Rightarrow> kstate res) list \<Rightarrow> kstate \<Rightarrow> kstate \<Rightarrow> bool"
  for A inp irqs where
  call: "h \<in> set (run_calls A irqs) \<Longrightarrow> h regs s = Inr (regs', s') \<Longrightarrow> run_step A inp irqs s s'"
| irq: "h \<in> set (run_irqs inp) \<Longrightarrow> h regs s = Inr (regs', s') \<Longrightarrow> run_step A inp irqs s s'"
| switch: "scheduler_switch e s = Inr (e', s') \<Longrightarrow> run_step A inp irqs s s'"

inductive_cases run_stepE: "run_step A inp irqs s s'"

section \<open>Every step keeps the state typed\<close>

lemma device_dput:
  assumes "typed_kernel A s"
  shows "grown_kernel A s (dput ports_part io s)" "grown_kernel A s (dput clock_part k s)" "grown_kernel A s (dput mouse_part m s)"
  using assms
  by (auto intro!: grown_dput simp: typed_def ports_part_def clock_part_def mouse_part_def kernel_devices_def kernel_vnode_def)

lemma run_irq_grown:
  assumes t: "typed_kernel A s" and h: "h \<in> set (run_irqs inp)"
  shows "safe (h r s) (\<lambda>(r', s'). grown_kernel A s s')"
proof -
  have pit: "grown_kernel A s (pit_callback clock_part console_part s)"
  proof -
    have if_dput: "grown_kernel A s (if b then dput console_part c s1 else s1)" if "grown_kernel A s s1" for b c s1
      using that grown_trans [OF that terminal_dput(2) [OF grown_typed [OF that]]] by simp
    have flag: "grown_kernel A s (if b then s1\<lparr>schedule_pending := True\<rparr> else s1)" if "grown_kernel A s s1" for b s1
      using that grown_trans [OF that schedule_flag_grown [OF grown_typed [OF that]]] by simp
    show ?thesis unfolding pit_callback_def Let_def by (intro flag if_dput device_dput [OF t])
  qed
  obtain b io where io: "inb inp 0x60 (dget ports_part s) = (b, io)" by (cases "inb inp 0x60 (dget ports_part s)")
  note g = device_dput(1) [OF t, of io]
  have "safe (keyboard_callback keyboard_part tty_part console_part b (dput ports_part io s)) (grown_kernel A s)"
    by (rule safe_mono [OF keyboard_grown [OF grown_typed [OF g]]]) (rule grown_trans [OF g])
  then have "safe (keyboard_irq inp r s) (\<lambda>(r', s'). grown_kernel A s s')"
    unfolding keyboard_irq_def io Let_def prod.case by (rule safe_bind) simp
  moreover have "safe (mouse_irq inp r s) (\<lambda>(r', s'). grown_kernel A s s')"
    using grown_trans [OF g device_dput(3) [OF grown_typed [OF g]]] by (simp add: mouse_irq_def io Let_def)
  ultimately show ?thesis using h pit by (auto simp: run_irqs_def pit_irq_def)
qed

lemma wait_irqs_ok: "wait_irqs inp irqs \<Longrightarrow> irqs_ok A irqs"
  unfolding irqs_ok_def wait_irqs_def
proof (intro ballI allI impI)
  fix f s assume "\<forall>f \<in> set irqs. \<exists>h \<in> set (run_irqs inp). \<exists>r. f = (\<lambda>s. bind_res (h r s) (\<lambda>(r, s). Inr s))"
    "f \<in> set irqs" and t: "typed_kernel A s"
  then obtain h r where "h \<in> set (run_irqs inp)" "f = (\<lambda>s. bind_res (h r s) (\<lambda>(r, s). Inr s))" by blast
  then show "safe (f s) (grown_kernel A s)"
    using safe_bind [OF run_irq_grown [OF t, of h inp r], of "\<lambda>(r, s). Inr s" "grown_kernel A s"] by auto
qed

lemma sys_time_typed:
  assumes t: "typed_kernel A s"
  shows "safe (sys_time clock_part regs s) (\<lambda>(regs', s'). typed_kernel A s')"
proof -
  have w: "safe (k_write bs v s1) (typed_kernel A)" if "typed_kernel A s1" for bs v s1
    using heap_calls_safe(3) [where bs = bs and v = v and s = s1]
    by (rule safe_mono) (metis grown_heap_only grown_typed that)
  show ?thesis unfolding sys_time_def Let_def
    by (intro safe_if safe_bind [OF w] w) (use t in \<open>simp_all add: refuse_def reply_def\<close>)
qed

lemma put_thread_typed: "typed vok dok s \<Longrightarrow> typed vok dok (put_thread p x s)"
  by (auto simp: typed_def put_thread_def table_ok_def vnode_ref_def)

lemma set_state_typed: "typed vok dok s \<Longrightarrow> set_thread_state p x s = Inr s' \<Longrightarrow> typed vok dok s'"
  by (auto simp: set_thread_state_def intro: put_thread_typed)

lemma current_typed:
  assumes "typed vok dok s" "threads s t \<noteq> None" "p = 0 \<or> processes s p \<noteq> None"
  shows "typed vok dok (s\<lparr>curr_thread := t, curr_process := p, gdts := g\<rparr>)"
  using assms unfolding typed_def table_ok_def vnode_ref_def by simp

lemma load_cr3_typed: "typed vok dok s \<Longrightarrow> typed vok dok (load_cr3 pd s)"
  unfolding typed_def table_ok_def vnode_ref_def load_cr3_def by simp

lemma switch_typed:
  assumes t: "typed vok dok s" and sw: "scheduler_switch e s = Inr (e', s')"
  shows "typed vok dok s'"
proof -
  obtain th nxt where th: "thread_at (curr_thread s) s = Inr th"
    and nxt: "scheduler_next (put_thread (curr_thread s) (th\<lparr>esp := e\<rparr>) s) = Inr nxt"
    using sw by (auto simp: scheduler_switch_def Let_def)
  let ?s1 = "put_thread (curr_thread s) (th\<lparr>esp := e\<rparr>) s"
  have t1: "typed vok dok ?s1" by (rule put_thread_typed [OF t])
  show ?thesis
  proof (cases "nxt = curr_thread s")
    case True
    then show ?thesis using sw t1 th nxt by (auto simp: scheduler_switch_def Let_def)
  next
    case False
    define s4 where "s4 s3 n = s3\<lparr>curr_thread := nxt, curr_process := tprocess n,
        gdts := tss_set_kernel_stack (stack_base n + stack_size n) (gdts s3)\<rparr>" for s3 :: "'a ksys" and n :: thread
    note sw = sw [unfolded scheduler_switch_def Let_def th bind_res_simps nxt if_not_P [OF False]]
    obtain s2 where s2: "set_thread_state (curr_thread s) THREAD_READY ?s1 = Inr s2" using sw by auto
    note sw = sw [unfolded s2 bind_res_simps]
    obtain s3 where s3: "set_thread_state nxt THREAD_RUNNING s2 = Inr s3" using sw by auto
    note sw = sw [unfolded s3 bind_res_simps]
    obtain n where n: "thread_at nxt s3 = Inr n" using sw by auto
    note sw = sw [unfolded n bind_res_simps, folded s4_def]
    obtain npd where npd: "process_dir (tprocess n) (s4 s3 n) = Inr npd" using sw by auto
    note sw = sw [unfolded npd bind_res_simps]
    obtain opd where opd: "process_dir (tprocess th) (s4 s3 n) = Inr opd" using sw by auto
    have s': "s' = (if npd \<noteq> 0 then load_cr3 npd (s4 s3 n)
        else if opd \<noteq> 0 then load_cr3 (kernel_pd_phys (s4 s3 n)) (s4 s3 n) else s4 s3 n)"
      using sw [unfolded opd bind_res_simps] by simp
    have "threads s3 nxt \<noteq> None" using n by (auto simp: thread_at_def split: option.splits)
    moreover have "tprocess n = 0 \<or> processes s3 (tprocess n) \<noteq> None"
      using npd by (auto simp: process_dir_def process_at_def s4_def split: if_splits option.splits)
    ultimately have "typed vok dok (s4 s3 n)"
      unfolding s4_def by (intro current_typed set_state_typed [OF _ s3] set_state_typed [OF _ s2] t1)
    then show ?thesis unfolding s' by (simp add: load_cr3_typed)
  qed
qed

lemma run_step_typed:
  assumes "syms_ok A" "wait_irqs inp irqs" "run_step A inp irqs s s'" "typed_kernel A s"
  shows "typed_kernel A s'"
  using assms(3,4)
proof cases
  case (call h regs regs')
  have "safe (h regs s) (\<lambda>(regs', s'). typed_kernel A s')"
    using call(1) sys_time_typed [OF assms(4)] file_calls_typed [OF assms(1) wait_irqs_ok [OF assms(2)] assms(4)]
    by (auto simp: run_calls_def)
  then show ?thesis using call(2) by simp
next
  case (irq h regs regs')
  then show ?thesis using run_irq_grown [OF assms(4) irq(1), of regs] by (auto intro: grown_typed)
qed (rule switch_typed)

section \<open>Properties\<close>



end
