(* ===== verification/Spec2Isabelle.thy ===== *)
theory Spec2Isabelle
  imports CString Gdt Kthread Vfs Initrd Devfs Tty Clock Idt Uload Usyscall Ksym Ftoa Programs Traps Runs
begin

text \<open>
  A model of frog-kernel (a 32-bit x86 kernel in C) with its correctness properties.

  \<^bold>\<open>The program and its parts.\<close> The boot code enters \<open>kmain\<close> (\<open>src/kernel.c\<close>) with paging on; it sets up
  segments, interrupts, clock, physical memory, paging, the heap, the screen, the ramdisk and the
  file systems, registers devices and system calls, loads the first program and starts the scheduler.
  From then on everything runs from interrupts: the timer (calendar, cursor, screen, request for a
  switch), keyboard and mouse, and the system calls of programs. Paths below are relative to the
  directory \<open>src/\<close> of the repository's kernel.

  \<^bold>\<open>Common conventions\<close> (theory \<open>Prelude\<close>). Integers are words of the declared width, pointers and
  \<open>size_t\<close> 32-bit words, \<open>int\<close>s words read with \<open>sint\<close>. A call that panics is the error \<open>Panic\<close>, an access
  the C object does not have is \<open>Fault\<close>, a loop that does not end is \<open>None\<close> (\<open>partial_function\<close>), which callers read as the
  error \<open>Diverges\<close>. Memory is bytes by address, words little-endian.

  \<^bold>\<open>Theories, in the order of their layers.\<close>
  \<^item> \<open>CString\<close>: \<open>misc/mem.c\<close> and the string functions of \<open>misc/util.c\<close>; \<open>Ports\<close>: port access and
    \<open>serial/serial.c\<close>; \<open>Printf\<close>: \<open>utoa\<close>, \<open>itoa\<close>, \<open>ftoa\<close> and \<open>misc/printf.c\<close>, whose
    loop does not end at an ordinary character when the buffer is full; \<open>Ftoa\<close>: the digits of \<open>ftoa\<close> when the arithmetic is exact.
  \<^item> \<open>Pmm\<close>: \<open>memory/mmap.c\<close> and \<open>memory/pmm.c\<close>, the frame bitmap, refining a set of free frames.
    \<open>Paging\<close>: \<open>memory/paging.c\<close> on the tables in physical memory, with the MMU walk. \<open>Kheap\<close>:
    \<open>memory/kheap.c\<close>, refining the list of blocks in address order.
  \<^item> \<open>Gdt\<close>: \<open>gdt/gdt.c\<close>; \<open>Idt\<close>: \<open>idt/idt.c\<close> and the dispatch of \<open>idt/isr.c\<close>.
  \<^item> \<open>Kstate\<close>: the kernel objects (threads, processes, vnodes, files) as typed stores and the state \<open>ksys\<close> that the
    layers above share; its last field is the state of the drivers, of which each driver sees a part
    (locale \<open>driver_part\<close>). \<open>Kstack\<close>: words pushed on kernel stacks. \<open>Kthread\<close>: \<open>thread/kthread.c\<close>, the run
    queue refining the list of threads in ring order.
  \<^item> \<open>Vfs\<close>: \<open>vfs/vfs.c\<close>; \<open>Initrd\<close>: \<open>initrd/initrd.c\<close> and \<open>initrdfs.c\<close>, against an abstract archive;
    \<open>Devfs\<close>: \<open>devfs/devfs.c\<close> with the null, zero and framebuffer devices.
  \<^item> \<open>Framebuffer\<close> and \<open>Console\<close>: \<open>framebuffer/\<close>; \<open>Tty\<close>: \<open>devices/tty\<close> and \<open>devices/keyboard\<close>; \<open>Clock\<close>:
    \<open>devices/pit\<close> and \<open>devices/rtc\<close>; \<open>Mouse\<close>: \<open>devices/mouse\<close>.
  \<^item> \<open>Uprocess\<close>: \<open>userspace/uprocess.c\<close>, with \<open>Uargs\<close> for the arguments on the user stack and \<open>Uload\<close> for the
    proofs about the ELF loader; \<open>Usyscall\<close>: \<open>userspace/usyscall.c\<close>.
  \<^item> \<open>Ustring\<close>, \<open>Uformat\<close> and \<open>Libc\<close>: the library of the programs (\<open>initrd/libc\<close>, \<open>initrd/usr/include\<close>). Its string functions and
    its \<open>vsnprintf\<close> work on the memory behind the page tables, byte by byte, and are shown to do what the kernel's
    do on flat memory and on byte lists; one property follows the characters of \<open>printf\<close> through the
    system call, the files and the terminal to the screen. \<open>Programs\<close>: the two programs of the ramdisk.
  \<^item> \<open>Ksym\<close>: \<open>ksym/ksym.c\<close>, the dump of an exception (\<open>idt/isr.c\<close>) and \<open>misc/panic.c\<close>.
  \<^item> \<open>Boot\<close>: \<open>kernel.c\<close>, the stages of \<open>kmain\<close> on the whole machine, with the record of all drivers' states;
    \<open>Bootfiles\<close>: what the stage of files and devices leaves behind. \<open>Traps\<close>: \<open>exception_handler\<close> on the whole machine.
  \<^item> \<open>Typing\<close> and \<open>Safecalls\<close>: the invariant that every reference between kernel objects leads to an object, for the
    calls of \<open>vfs.c\<close>, every driver of the kernel and the system calls on files; \<open>Runs\<close>: a step relation of system calls,
    interrupts and scheduler switches in any order, under which it stays true.

  \<^bold>\<open>Interfaces.\<close> Locales state what one layer promises another, and each is interpreted on the model's
  own definitions: \<open>frame_allocator\<close> (\<open>Pmm\<close>), \<open>heap_allocator\<close> (\<open>Kheap\<close>), \<open>driver_part\<close> (\<open>Kstate\<close>),
  \<open>file_source\<close> (\<open>Vfs\<close>, interpreted for ramdisk files in \<open>Initrd\<close>), \<open>terminal\<close> (\<open>Tty\<close>), \<open>typed_tables\<close>
  (\<open>Typing\<close>) and its instance \<open>kernel_types\<close> (\<open>Safecalls\<close>).

  \<^bold>\<open>What the lemmas show.\<close> Memory: allocation returns distinct fresh frames, mapping changes one
  translation only, heap blocks never overlap and are given back, and where the code fails to free.
  Threads: round-robin order, a runnable thread runs within a round, the initial frame is what the
  interrupt return pops. Files: lowest descriptor, longest mount, lookup and sequential reading of the ramdisk,
  the device registry. Devices: the console stays on the screen, the line editor refines the list of
  typed characters, the calendar follows the ticks, the pointer stays on the screen. Programs: a segment
  of an ELF file arrives in the pages of the process with zeros behind it, the loop over its pages
  ends, the arguments are found from the initial stack pointer, the process list refines a list. System calls: what the
  check of user pointers accepts. Formatted output: bounded and readable back. Symbols: the nearest one below an address.
  Boot: the devices can be opened under \<open>/dev\<close>. Types: no run of file calls, interrupts
  and switches follows a reference to a missing object. Programs: strings and formatting behind the page tables agree with the kernel's.

  \<^bold>\<open>Bounds and parameters.\<close> No fuel is used: loops are structural, have a measure, or are
  \<open>partial_function\<close>s whose return is proved where a property relies on it. Parameters are the addresses the linker
  chooses, the bytes that devices deliver (as functions of the number of the access), the interrupts that
  come while the code waits in \<open>hlt\<close>, the multiboot information, and the operations on doubles.

  \<^bold>\<open>Not modelled.\<close> The assembly (\<open>boot.s\<close>, \<open>isr_stubs.s\<close>, \<open>gdt_flush.s\<close>) except the tail of \<open>irq_common\<close>; the
  TLB; the bytes of user blocks of the heap where no claim needs them; double arithmetic; the generated
  symbol table; build files and tools.
\<close>

end
